(* ===== verification/Prelude.thy ===== *)
theory Prelude
  imports Main "HOL-Library.Monad_Syntax"
begin

text \<open>
  Shared vocabulary of the development: the types that stand for Rust's scalar values, the
  checked 64-bit arithmetic the sources use, the interface of the external rope library, and
  the generic facts on lists and options the component theories rest on.

  Conventions. A Rust \<open>char\<close> is a Unicode scalar value and is represented by its code point;
  a \<open>String\<close> is a list of them. \<open>usize\<close> positions and lengths index texts that are held in
  memory and are natural numbers; counters that the code updates with \<open>checked_add\<close> and
  \<open>checked_sub\<close> keep their width explicitly. A function that can panic returns an option whose
  \<open>None\<close> is the panic.
\<close>

section \<open>Scalars, text and panics\<close>

type_synonym uchar = nat
type_synonym utext = "uchar list"
type_synonym CharIdx = nat
type_synonym CharLen = nat
type_synonym view_id = nat

named_theorems rope_simps \<open>consequences of the rope interface\<close>
named_theorems wf_intros \<open>preservation of well-formedness by an operation\<close>

definition u64_max :: nat where
  "u64_max = 2 ^ 64 - 1"

text \<open>\<open>u64::checked_add(..).expect(..)\<close> and \<open>u64::checked_sub(..).expect(..)\<close>.\<close>

definition checked_add64 :: "nat \<Rightarrow> nat \<Rightarrow> nat option" where
  "checked_add64 a b = (if a + b \<le> u64_max then Some (a + b) else None)"

definition checked_sub64 :: "nat \<Rightarrow> nat \<Rightarrow> nat option" where
  "checked_sub64 a b = (if b \<le> a then Some (a - b) else None)"

lemma checked_add64_Some [simp]: "a + b \<le> u64_max \<Longrightarrow> checked_add64 a b = Some (a + b)"
  by (simp add: checked_add64_def)

lemma checked_sub64_Some [simp]: "b \<le> a \<Longrightarrow> checked_sub64 a b = Some (a - b)"
  by (simp add: checked_sub64_def)

lemma checked_add64_SomeD: "checked_add64 a b = Some c \<Longrightarrow> c = a + b \<and> a + b \<le> u64_max"
  by (simp add: checked_add64_def split: if_splits)

lemma checked_sub64_SomeD: "checked_sub64 a b = Some c \<Longrightarrow> c = a - b \<and> b \<le> a"
  by (simp add: checked_sub64_def split: if_splits)

lemmas checkedD = checked_add64_SomeD checked_sub64_SomeD

text \<open>\<open>char::len_utf8\<close> and \<open>char::len_utf16\<close>, and the byte length of a string.\<close>

definition len_utf8 :: "uchar \<Rightarrow> nat" where
  "len_utf8 c = (if c < 128 then 1 else if c < 2048 then 2 else if c < 65536 then 3 else 4)"

definition len_utf16 :: "uchar \<Rightarrow> nat" where
  "len_utf16 c = (if c < 65536 then 1 else 2)"

definition str_len :: "utext \<Rightarrow> nat" where
  "str_len s = sum_list (map len_utf8 s)"

text \<open>\<open>char::is_whitespace\<close> is the Unicode \<open>White_Space\<close> property, which is this finite set.\<close>

definition is_whitespace :: "uchar \<Rightarrow> bool" where
  "is_whitespace c \<longleftrightarrow>
     (9 \<le> c \<and> c \<le> 13) \<or> c = 32 \<or> c = 133 \<or> c = 160 \<or> c = 5760 \<or>
     (8192 \<le> c \<and> c \<le> 8202) \<or> c = 8232 \<or> c = 8233 \<or> c = 8239 \<or> c = 8287 \<or> c = 12288"

text \<open>The ASCII classes of \<open>char\<close>.\<close>

definition is_ascii_digit :: "uchar \<Rightarrow> bool" where
  "is_ascii_digit c \<longleftrightarrow> 48 \<le> c \<and> c \<le> 57"

definition is_ascii_lowercase :: "uchar \<Rightarrow> bool" where
  "is_ascii_lowercase c \<longleftrightarrow> 97 \<le> c \<and> c \<le> 122"

definition is_ascii_uppercase :: "uchar \<Rightarrow> bool" where
  "is_ascii_uppercase c \<longleftrightarrow> 65 \<le> c \<and> c \<le> 90"

definition is_ascii_alphabetic :: "uchar \<Rightarrow> bool" where
  "is_ascii_alphabetic c \<longleftrightarrow> is_ascii_lowercase c \<or> is_ascii_uppercase c"

definition newline :: uchar where
  "newline = 10"

section \<open>Lines\<close>

text \<open>
  Line breaks as the rope library documents them: LF, VT, FF, CR, NEL, LS and PS, with CR LF one
  break. \<open>line_starts\<close> lists the position after every break, after position 0.
\<close>

definition line_break_at :: "utext \<Rightarrow> nat \<Rightarrow> bool" where
  "line_break_at t i \<longleftrightarrow>
     (let c = t ! i in
      c = 10 \<or> c = 11 \<or> c = 12 \<or> c = 133 \<or> c = 8232 \<or> c = 8233 \<or>
      (c = 13 \<and> \<not> (Suc i < length t \<and> t ! Suc i = 10)))"

definition line_starts :: "utext \<Rightarrow> nat list" where
  "line_starts t = 0 # map Suc (filter (line_break_at t) [0..<length t])"

definition line_start :: "utext \<Rightarrow> nat \<Rightarrow> nat" where
  "line_start t l = (if l < length (line_starts t) then line_starts t ! l else length t)"

definition line_of :: "utext \<Rightarrow> nat \<Rightarrow> nat" where
  "line_of t i = length (filter (\<lambda>s. s \<le> i) (line_starts t)) - 1"

definition line_text :: "utext \<Rightarrow> nat \<Rightarrow> utext" where
  "line_text t l = take (line_start t (Suc l) - line_start t l) (drop (line_start t l) t)"

section \<open>The rope interface\<close>

text \<open>
  Document text is a \<open>ropey::Rope\<close>, a type of an external library. The model is parametric in
  it: a value of type \<open>'r rope_ops\<close> holds the operations the sources call, and
  \<open>rope_ok\<close> states what they rely on, namely ropey's documented behaviour in terms of the
  sequence of characters of a rope. \<open>None\<close> is the panic that ropey documents for an index out of
  range. \<open>rp_slice\<close> is \<open>slice(a..b)\<close> followed by \<open>chars().collect()\<close>; \<open>rp_char\<close> stands for both
  \<open>char\<close> (which panics out of range) and \<open>get_char\<close> (which returns \<open>None\<close> there).
\<close>

record 'r rope_ops =
  rp_chars :: "'r \<Rightarrow> utext"
  rp_from :: "utext \<Rightarrow> 'r"
  rp_len_chars :: "'r \<Rightarrow> nat"
  rp_char :: "'r \<Rightarrow> nat \<Rightarrow> uchar option"
  rp_slice :: "'r \<Rightarrow> nat \<Rightarrow> nat \<Rightarrow> utext option"
  rp_insert :: "'r \<Rightarrow> nat \<Rightarrow> utext \<Rightarrow> 'r option"
  rp_remove :: "'r \<Rightarrow> nat \<Rightarrow> nat \<Rightarrow> 'r option"
  rp_len_lines :: "'r \<Rightarrow> nat"
  rp_char_to_line :: "'r \<Rightarrow> nat \<Rightarrow> nat option"
  rp_line_to_char :: "'r \<Rightarrow> nat \<Rightarrow> nat option"
  rp_line :: "'r \<Rightarrow> nat \<Rightarrow> utext option"

definition rope_ok :: "'r rope_ops \<Rightarrow> bool" where
  "rope_ok R \<longleftrightarrow>
     (\<forall>s. rp_chars R (rp_from R s) = s) \<and>
     (\<forall>d. rp_len_chars R d = length (rp_chars R d)) \<and>
     (\<forall>d i. rp_char R d i = (if i < length (rp_chars R d) then Some (rp_chars R d ! i) else None)) \<and>
     (\<forall>d a b. rp_slice R d a b =
        (if a \<le> b \<and> b \<le> length (rp_chars R d) then Some (take (b - a) (drop a (rp_chars R d))) else None)) \<and>
     (\<forall>d p s. map_option (rp_chars R) (rp_insert R d p s) =
        (if p \<le> length (rp_chars R d) then Some (take p (rp_chars R d) @ s @ drop p (rp_chars R d)) else None)) \<and>
     (\<forall>d a b. map_option (rp_chars R) (rp_remove R d a b) =
        (if a \<le> b \<and> b \<le> length (rp_chars R d) then Some (take a (rp_chars R d) @ drop b (rp_chars R d)) else None)) \<and>
     (\<forall>d. rp_len_lines R d = length (line_starts (rp_chars R d))) \<and>
     (\<forall>d i. rp_char_to_line R d i =
        (if i \<le> length (rp_chars R d) then Some (line_of (rp_chars R d) i) else None)) \<and>
     (\<forall>d l. rp_line_to_char R d l =
        (if l \<le> length (line_starts (rp_chars R d)) then Some (line_start (rp_chars R d) l) else None)) \<and>
     (\<forall>d l. rp_line R d l =
        (if l < length (line_starts (rp_chars R d)) then Some (line_text (rp_chars R d) l) else None))"

lemma rope_from [rope_simps]: "rope_ok R \<Longrightarrow> rp_chars R (rp_from R s) = s"
  by (simp add: rope_ok_def)

lemma rope_len [rope_simps]: "rope_ok R \<Longrightarrow> rp_len_chars R d = length (rp_chars R d)"
  by (simp add: rope_ok_def)

lemma rope_char [rope_simps]:
  "rope_ok R \<Longrightarrow> rp_char R d i = (if i < length (rp_chars R d) then Some (rp_chars R d ! i) else None)"
  by (simp add: rope_ok_def)

lemma rope_slice [rope_simps]:
  "rope_ok R \<Longrightarrow> rp_slice R d a b =
     (if a \<le> b \<and> b \<le> length (rp_chars R d) then Some (take (b - a) (drop a (rp_chars R d))) else None)"
  by (simp add: rope_ok_def)

lemma rope_lines [rope_simps]:
  "rope_ok R \<Longrightarrow> rp_len_lines R d = length (line_starts (rp_chars R d))"
  "rope_ok R \<Longrightarrow> rp_char_to_line R d i = (if i \<le> length (rp_chars R d) then Some (line_of (rp_chars R d) i) else None)"
  "rope_ok R \<Longrightarrow> rp_line_to_char R d l =
     (if l \<le> length (line_starts (rp_chars R d)) then Some (line_start (rp_chars R d) l) else None)"
  "rope_ok R \<Longrightarrow> rp_line R d l =
     (if l < length (line_starts (rp_chars R d)) then Some (line_text (rp_chars R d) l) else None)"
  by (simp_all add: rope_ok_def)

lemma rope_insert:
  assumes "rope_ok R" and "p \<le> length (rp_chars R d)"
  obtains d' where "rp_insert R d p s = Some d'"
    and "rp_chars R d' = take p (rp_chars R d) @ s @ drop p (rp_chars R d)"
proof -
  have "map_option (rp_chars R) (rp_insert R d p s) =
      Some (take p (rp_chars R d) @ s @ drop p (rp_chars R d))"
    using assms unfolding rope_ok_def by metis
  then show ?thesis using that by auto
qed

lemma rope_remove:
  assumes "rope_ok R" and "a \<le> b" and "b \<le> length (rp_chars R d)"
  obtains d' where "rp_remove R d a b = Some d'"
    and "rp_chars R d' = take a (rp_chars R d) @ drop b (rp_chars R d)"
proof -
  have "map_option (rp_chars R) (rp_remove R d a b) =
      Some (take a (rp_chars R d) @ drop b (rp_chars R d))"
    using assms unfolding rope_ok_def by metis
  then show ?thesis using that by auto
qed

text \<open>A concrete rope that is nothing but its text: the interface can be met.\<close>

definition list_rope :: "utext rope_ops" where
  "list_rope =
     \<lparr> rp_chars = (\<lambda>d. d),
       rp_from = (\<lambda>s. s),
       rp_len_chars = length,
       rp_char = (\<lambda>d i. if i < length d then Some (d ! i) else None),
       rp_slice = (\<lambda>d a b. if a \<le> b \<and> b \<le> length d then Some (take (b - a) (drop a d)) else None),
       rp_insert = (\<lambda>d p s. if p \<le> length d then Some (take p d @ s @ drop p d) else None),
       rp_remove = (\<lambda>d a b. if a \<le> b \<and> b \<le> length d then Some (take a d @ drop b d) else None),
       rp_len_lines = (\<lambda>d. length (line_starts d)),
       rp_char_to_line = (\<lambda>d i. if i \<le> length d then Some (line_of d i) else None),
       rp_line_to_char = (\<lambda>d l. if l \<le> length (line_starts d) then Some (line_start d l) else None),
       rp_line = (\<lambda>d l. if l < length (line_starts d) then Some (line_text d l) else None) \<rparr>"

lemma list_rope_ok [simp]: "rope_ok list_rope"
  by (simp add: rope_ok_def list_rope_def)

lemma list_rope_chars [simp]: "rp_chars list_rope d = d"
  by (simp add: list_rope_def)

section \<open>Facts on lines\<close>

lemma line_starts_nonempty [simp]: "line_starts t \<noteq> []" "0 < length (line_starts t)"
  by (simp_all add: line_starts_def)

lemma line_starts_strict: "sorted_wrt (<) (line_starts t)"
proof -
  have "sorted_wrt (<) (filter (line_break_at t) [0..<length t])"
    by (rule sorted_wrt_filter) simp
  then show ?thesis by (simp add: line_starts_def sorted_wrt_map)
qed

lemma line_starts_bound: "s \<in> set (line_starts t) \<Longrightarrow> s \<le> length t"
  by (auto simp: line_starts_def)

lemma line_start_0 [simp]: "line_start t 0 = 0"
  by (simp add: line_start_def line_starts_def)

lemma line_start_le [simp]: "line_start t l \<le> length t"
  by (simp add: line_start_def line_starts_bound)

lemma line_start_mono: "l \<le> m \<Longrightarrow> line_start t l \<le> line_start t m"
proof (cases "m < length (line_starts t)")
  case True
  assume "l \<le> m"
  then show ?thesis using True line_starts_strict [of t]
    by (cases "l = m") (auto simp: line_start_def sorted_wrt_iff_nth_less intro!: less_imp_le)
qed (simp add: line_start_def line_starts_bound)

text \<open>The line of a position is the last one that starts at or before it.\<close>

lemma sorted_prefix_count:
  assumes "sorted_wrt (<) (xs :: nat list)" and "xs \<noteq> []" and "hd xs \<le> i"
  defines "k \<equiv> length (filter (\<lambda>s. s \<le> i) xs) - 1"
  shows "k < length xs \<and> xs ! k \<le> i \<and> (Suc k < length xs \<longrightarrow> i < xs ! Suc k)"
proof -
  let ?n = "length (filter (\<lambda>s. s \<le> i) xs)"
  have "filter (\<lambda>s. s \<le> i) xs = takeWhile (\<lambda>s. s \<le> i) xs"
    using assms(1)
  proof (induction xs)
    case (Cons a xs)
    have "filter (\<lambda>s. s \<le> i) (a # xs) = []" if "\<not> a \<le> i"
      using Cons.prems that by (intro filter_False) fastforce
    then show ?case using Cons by (cases "a \<le> i") auto
  qed simp
  then have n: "?n = length (takeWhile (\<lambda>s. s \<le> i) xs)" by simp
  have pos: "0 < ?n" using assms(2,3) by (cases xs) auto
  have "xs ! k = takeWhile (\<lambda>s. s \<le> i) xs ! k" using pos n by (simp add: k_def takeWhile_nth)
  moreover have "takeWhile (\<lambda>s. s \<le> i) xs ! k \<in> set (takeWhile (\<lambda>s. s \<le> i) xs)"
    using pos n by (simp add: k_def)
  ultimately have "xs ! k \<le> i" using set_takeWhileD by fastforce
  moreover have "i < xs ! Suc k" if "Suc k < length xs"
    using that pos n nth_length_takeWhile [of "\<lambda>s. s \<le> i" xs] by (simp add: k_def)
  moreover have "k < length xs" using pos length_filter_le [of "\<lambda>s. s \<le> i" xs] unfolding k_def by linarith
  ultimately show ?thesis by blast
qed

lemma line_of_bracket:
  "line_of t i < length (line_starts t)" "line_start t (line_of t i) \<le> i"
  "Suc (line_of t i) < length (line_starts t) \<Longrightarrow> i < line_start t (Suc (line_of t i))"
  using sorted_prefix_count [OF line_starts_strict [of t], of i]
  by (auto simp: line_of_def line_start_def line_starts_def)

lemma line_of_end: "i \<le> length t \<Longrightarrow> i \<le> line_start t (Suc (line_of t i))"
  using line_of_bracket(3) [of t i] by (cases "Suc (line_of t i) < length (line_starts t)") (auto simp: line_start_def)

lemma line_of_eq:
  assumes "l < length (line_starts t)" and "line_start t l \<le> i"
    and "Suc l < length (line_starts t) \<Longrightarrow> i < line_start t (Suc l)"
  shows "line_of t i = l"
proof (rule ccontr)
  assume "line_of t i \<noteq> l"
  then consider "Suc (line_of t i) \<le> l" | "Suc l \<le> line_of t i" by linarith
  then show False
  proof cases
    case 1
    then have "i < line_start t (Suc (line_of t i))" using assms(1) line_of_bracket(3) [of t i] by simp
    then show False using line_start_mono [OF 1, of t] assms(2) by simp
  next
    case 2
    then have "i < line_start t (Suc l)" using assms(3) line_of_bracket(1) [of t i] by simp
    then show False using line_start_mono [OF 2, of t] line_of_bracket(2) [of t i] by simp
  qed
qed

lemma line_start_Suc_break:
  assumes "Suc l < length (line_starts t)"
  shows "\<exists>b. line_start t (Suc l) = Suc b \<and> b < length t \<and> line_break_at t b"
proof -
  let ?bs = "filter (line_break_at t) [0..<length t]"
  have l: "l < length ?bs" using assms by (simp add: line_starts_def)
  then have "?bs ! l \<in> set ?bs" by (rule nth_mem)
  then show ?thesis using l by (auto simp: line_start_def line_starts_def)
qed

lemma length_line_text: "length (line_text t l) = line_start t (Suc l) - line_start t l"
  using line_start_mono [of l "Suc l" t] line_start_le [of t "Suc l"] by (simp add: line_text_def del: line_start_le)

section \<open>Lists and options\<close>

lemma take_drop_append [simp]: "take n xs @ drop n xs @ ys = xs @ ys"
  by (metis append.assoc append_take_drop_id)

lemma foldl_invariant:
  assumes "P s" and "\<And>s x. P s \<Longrightarrow> x \<in> set xs \<Longrightarrow> P (f s x)"
  shows "P (foldl f s xs)"
  using assms by (induction xs arbitrary: s) auto

lemma last_conv_snoc: "xs \<noteq> [] \<Longrightarrow> \<exists>ys. xs = ys @ [last xs]"
  by (metis append_butlast_last_id)

lemma rev_eq_Cons_snoc: "rev xs = y # ys \<longleftrightarrow> xs = rev ys @ [y]"
  by (metis rev.simps(2) rev_rev_ident)

lemma map_option_bind_Some:
  "Option.bind m f = Some y \<longleftrightarrow> (\<exists>x. m = Some x \<and> f x = Some y)"
  by (cases m) auto

end
