(* ===== verification/Ranges.thy ===== *)
theory Ranges
  imports Prelude
begin

text \<open>
  The 1-cell range model of \<open>crates/primitives/src/range/mod.rs\<close>. A range has an anchor and a
  head and always covers the cells from the smaller to the larger of the two, both included.
  Every method of \<open>impl Range\<close> is a definition; the lemmas relate them to \<open>cells\<close>, the set of
  character cells a range covers. Grapheme alignment is in the movement theory, where the
  grapheme segmentation it calls is modelled.
\<close>

section \<open>Data and operations\<close>

datatype direction = Forward | Backward

record range =
  anchor :: CharIdx
  head :: CharIdx

definition range_new :: "CharIdx \<Rightarrow> CharIdx \<Rightarrow> range" where
  "range_new a h = \<lparr> anchor = a, head = h \<rparr>"

definition from_exclusive :: "CharIdx \<Rightarrow> CharIdx \<Rightarrow> range option" where
  "from_exclusive start end = (if start < end then Some (range_new start (end - 1)) else None)"

definition range_point :: "CharIdx \<Rightarrow> range" where
  "range_point pos = range_new pos pos"

definition range_min :: "range \<Rightarrow> CharIdx" where
  "range_min r = min (anchor r) (head r)"

definition range_max :: "range \<Rightarrow> CharIdx" where
  "range_max r = max (anchor r) (head r)"

definition range_from :: "range \<Rightarrow> CharIdx" where
  "range_from r = range_min r"

definition range_to :: "range \<Rightarrow> CharIdx" where
  "range_to r = range_max r + 1"

definition range_len :: "range \<Rightarrow> CharLen" where
  "range_len r = range_to r - range_from r"

definition range_is_empty :: "range \<Rightarrow> bool" where
  "range_is_empty r = False"

definition is_point :: "range \<Rightarrow> bool" where
  "is_point r \<longleftrightarrow> anchor r = head r"

definition extent_clamped :: "range \<Rightarrow> CharIdx \<Rightarrow> CharIdx \<times> CharIdx" where
  "extent_clamped r len = (min (range_from r) len, min (range_to r) len)"

definition range_direction :: "range \<Rightarrow> direction" where
  "range_direction r = (if head r < anchor r then Backward else Forward)"

definition range_flip :: "range \<Rightarrow> range" where
  "range_flip r = \<lparr> anchor = head r, head = anchor r \<rparr>"

definition with_direction :: "range \<Rightarrow> direction \<Rightarrow> range" where
  "with_direction r d = (if range_direction r = d then r else range_flip r)"

definition range_map :: "(CharIdx \<Rightarrow> CharIdx) \<Rightarrow> range \<Rightarrow> range" where
  "range_map f r = \<lparr> anchor = f (anchor r), head = f (head r) \<rparr>"

definition range_contains :: "range \<Rightarrow> CharIdx \<Rightarrow> bool" where
  "range_contains r pos \<longleftrightarrow> range_min r \<le> pos \<and> pos \<le> range_max r"

definition overlaps :: "range \<Rightarrow> range \<Rightarrow> bool" where
  "overlaps r s \<longleftrightarrow> range_min r \<le> range_max s \<and> range_min s \<le> range_max r"

definition range_merge :: "range \<Rightarrow> range \<Rightarrow> range" where
  "range_merge r s =
     (let from = min (range_min r) (range_min s);
          to = max (range_max r) (range_max s)
      in if range_direction r = Forward then range_new from to else range_new to from)"

definition range_clamp :: "range \<Rightarrow> CharIdx \<Rightarrow> range" where
  "range_clamp r max_char = \<lparr> anchor = min (anchor r) max_char, head = min (head r) max_char \<rparr>"

definition range_default :: range where
  "range_default = range_point 0"

section \<open>The cells of a range\<close>

definition cells :: "range \<Rightarrow> CharIdx set" where
  "cells r = {range_min r .. range_max r}"

lemma range_min_le_max [simp]: "range_min r \<le> range_max r"
  by (simp add: range_min_def range_max_def)

lemma range_min_new [simp]: "range_min (range_new a h) = min a h"
  and range_max_new [simp]: "range_max (range_new a h) = max a h"
  and anchor_new [simp]: "anchor (range_new a h) = a"
  and head_new [simp]: "head (range_new a h) = h"
  by (simp_all add: range_new_def range_min_def range_max_def)

lemma cells_nonempty [simp]: "cells r \<noteq> {}"
  by (simp add: cells_def)

lemma range_contains_iff: "range_contains r p \<longleftrightarrow> p \<in> cells r"
  by (simp add: range_contains_def cells_def)

lemma overlaps_iff: "overlaps r s \<longleftrightarrow> cells r \<inter> cells s \<noteq> {}"
proof
  assume "overlaps r s"
  then have "max (range_min r) (range_min s) \<in> cells r \<inter> cells s"
    by (auto simp: overlaps_def cells_def max_def)
  then show "cells r \<inter> cells s \<noteq> {}" by blast
next
  assume "cells r \<inter> cells s \<noteq> {}"
  then show "overlaps r s" by (auto simp: overlaps_def cells_def)
qed

lemma overlaps_sym: "overlaps r s = overlaps s r"
  by (auto simp: overlaps_def)

lemma range_min_merge [simp]: "range_min (range_merge r s) = min (range_min r) (range_min s)"
  and range_max_merge [simp]: "range_max (range_merge r s) = max (range_max r) (range_max s)"
  by (simp_all add: range_merge_def Let_def min_def max_def range_min_def range_max_def)

lemma cells_merge_touching:
  assumes "range_min s \<le> range_max r + 1" and "range_min r \<le> range_max s + 1"
  shows "cells (range_merge r s) = cells r \<union> cells s"
  using assms range_min_le_max [of r] range_min_le_max [of s]
  by (auto simp: cells_def min_def max_def simp del: range_min_le_max)

lemma direction_merge:
  "range_min r < range_max r \<Longrightarrow> range_direction (range_merge r s) = range_direction r"
  by (auto simp: range_merge_def range_direction_def Let_def range_new_def range_min_def range_max_def
      split: if_splits)

lemma range_min_clamp [simp]: "range_min (range_clamp r n) = min (range_min r) n"
  and range_max_clamp [simp]: "range_max (range_clamp r n) = min (range_max r) n"
  by (auto simp: range_clamp_def range_min_def range_max_def)

lemma range_flip_flip [simp]: "range_flip (range_flip r) = r"
  by (simp add: range_flip_def)

lemma cells_flip [simp]: "cells (range_flip r) = cells r"
  by (auto simp: range_flip_def cells_def range_min_def range_max_def)

lemma range_len_pos [simp]: "0 < range_len r"
  by (simp add: range_len_def range_to_def range_from_def range_min_def range_max_def)

lemma card_cells: "card (cells r) = range_len r"
  by (simp add: cells_def range_len_def range_to_def range_from_def)

end
