(* ===== verification/Selections.thy ===== *)
theory Selections
  imports Ranges
begin

text \<open>
  The multi-range selection of \<open>crates/primitives/src/selection/mod.rs\<close>: a non-empty list of
  ranges with a primary index. \<open>sel_wf\<close> is the invariant the type promises (non-empty, primary
  in bounds, sorted and pairwise disjoint); the lemmas show that every operation keeps it, that
  normalisation selects exactly the cells the input ranges cover, and that the range made
  primary still covers the range that was primary before. Methods that take \<open>&mut self\<close> return
  the updated selection; those that index out of range or assert return \<open>None\<close> there.
\<close>

section \<open>Data and normalisation\<close>

record selection =
  sel_ranges :: "range list"
  primary_index :: nat

text \<open>
  One iteration of the loop of \<open>normalize\<close> and of \<open>merge_overlaps_and_adjacent\<close>, which differ
  only in the condition \<open>touch\<close> for joining a range to the last merged one. The state is the pair
  of \<open>merged\<close> and \<open>primary_index\<close>.
\<close>

definition merge_step ::
  "(range \<Rightarrow> range \<Rightarrow> bool) \<Rightarrow> range \<Rightarrow> range list \<times> nat \<Rightarrow> range \<Rightarrow> range list \<times> nat" where
  "merge_step touch primary st r =
     (let (merged, pidx) = st in
      if merged \<noteq> [] \<and> touch (last merged) r then
        let old_last = last merged; new_last = range_merge old_last r in
        (butlast merged @ [new_last],
         if r = primary \<or> old_last = primary \<or> range_contains new_last (range_min primary)
         then length merged - 1 else pidx)
      else
        (merged @ [r], if r = primary then length merged else pidx))"

definition merge_ranges :: "(range \<Rightarrow> range \<Rightarrow> bool) \<Rightarrow> selection \<Rightarrow> selection" where
  "merge_ranges touch s =
     (if length (sel_ranges s) \<le> 1 then s
      else
        let primary = sel_ranges s ! primary_index s;
            sorted = sort_key range_min (sel_ranges s);
            (merged, pidx) = foldl (merge_step touch primary) ([], 0) sorted
        in \<lparr> sel_ranges = merged, primary_index = min pidx (length merged - 1) \<rparr>)"

definition touches :: "range \<Rightarrow> range \<Rightarrow> bool" where
  "touches r s \<longleftrightarrow> overlaps r s \<or> range_max r + 1 = range_min s"

definition sel_normalize :: "selection \<Rightarrow> selection" where
  "sel_normalize s = merge_ranges overlaps s"

definition merge_overlaps_and_adjacent :: "selection \<Rightarrow> selection" where
  "merge_overlaps_and_adjacent s = merge_ranges touches s"

section \<open>Construction and access\<close>

definition sel_new :: "range \<Rightarrow> range list \<Rightarrow> selection" where
  "sel_new primary others = sel_normalize \<lparr> sel_ranges = primary # others, primary_index = 0 \<rparr>"

text \<open>\<open>iter().position(..)\<close>.\<close>

fun position :: "('a \<Rightarrow> bool) \<Rightarrow> 'a list \<Rightarrow> nat option" where
  "position p [] = None"
| "position p (x # xs) = (if p x then Some 0 else map_option Suc (position p xs))"

definition from_vec :: "range list \<Rightarrow> nat \<Rightarrow> selection option" where
  "from_vec ranges pidx =
     (if ranges = [] then None
      else if \<not> pidx < length ranges then None
      else
        let primary = ranges ! pidx;
            found = (case position (\<lambda>r. r = primary) ranges of Some i \<Rightarrow> i | None \<Rightarrow> 0)
        in Some (sel_normalize \<lparr> sel_ranges = ranges, primary_index = found \<rparr>))"

definition sel_single :: "CharIdx \<Rightarrow> CharIdx \<Rightarrow> selection" where
  "sel_single a h = \<lparr> sel_ranges = [range_new a h], primary_index = 0 \<rparr>"

definition sel_point :: "CharIdx \<Rightarrow> selection" where
  "sel_point pos = sel_single pos pos"

definition sel_default :: selection where
  "sel_default = sel_point 0"

definition sel_of_range :: "range \<Rightarrow> selection" where
  "sel_of_range r = \<lparr> sel_ranges = [r], primary_index = 0 \<rparr>"

definition sel_primary :: "selection \<Rightarrow> range option" where
  "sel_primary s =
     (if primary_index s < length (sel_ranges s) then Some (sel_ranges s ! primary_index s) else None)"

definition set_primary :: "selection \<Rightarrow> nat \<Rightarrow> selection option" where
  "set_primary s i = (if i < length (sel_ranges s) then Some (s\<lparr> primary_index := i \<rparr>) else None)"

definition sel_len :: "selection \<Rightarrow> nat" where
  "sel_len s = length (sel_ranges s)"

section \<open>Updates\<close>

definition sel_push :: "selection \<Rightarrow> range \<Rightarrow> selection" where
  "sel_push s r = sel_normalize (s\<lparr> sel_ranges := sel_ranges s @ [r] \<rparr>)"

definition sel_replace :: "selection \<Rightarrow> nat \<Rightarrow> range \<Rightarrow> selection option" where
  "sel_replace s i r =
     (if i < length (sel_ranges s) then Some (sel_normalize (s\<lparr> sel_ranges := (sel_ranges s)[i := r] \<rparr>))
      else None)"

text \<open>\<open>enumerate().filter(|(i, _)| i != primary_index)\<close>: all ranges but the primary one.\<close>

definition others :: "selection \<Rightarrow> range list" where
  "others s = take (primary_index s) (sel_ranges s) @ drop (Suc (primary_index s)) (sel_ranges s)"

definition sel_transform :: "selection \<Rightarrow> (range \<Rightarrow> range) \<Rightarrow> selection option" where
  "sel_transform s f = do {
     primary \<leftarrow> sel_primary s;
     Some (sel_new (f primary) (map f (others s))) }"

definition transform_mut :: "selection \<Rightarrow> (range \<Rightarrow> range) \<Rightarrow> selection" where
  "transform_mut s f = sel_normalize (s\<lparr> sel_ranges := map f (sel_ranges s) \<rparr>)"

text \<open>The loop of \<open>try_filter_transform\<close>: the index, the ranges kept and the new primary index.\<close>

fun filter_transform_loop ::
  "(range \<Rightarrow> range option) \<Rightarrow> nat \<Rightarrow> nat \<Rightarrow> range list \<Rightarrow> range list \<Rightarrow> nat \<Rightarrow> range list \<times> nat" where
  "filter_transform_loop f primary_sel_idx idx [] kept new_primary = (kept, new_primary)"
| "filter_transform_loop f primary_sel_idx idx (r # rs) kept new_primary =
     (case f r of
        None \<Rightarrow> filter_transform_loop f primary_sel_idx (Suc idx) rs kept new_primary
      | Some new_range \<Rightarrow>
          filter_transform_loop f primary_sel_idx (Suc idx) rs (kept @ [new_range])
            (if idx = primary_sel_idx then length kept else new_primary))"

definition try_filter_transform :: "selection \<Rightarrow> (range \<Rightarrow> range option) \<Rightarrow> selection option option" where
  "try_filter_transform s f =
     (let (ranges, new_primary) =
            filter_transform_loop f (primary_index s) 0 (sel_ranges s) [] 0
      in if ranges = [] then Some None else map_option Some (from_vec ranges new_primary))"

definition sel_contains :: "selection \<Rightarrow> CharIdx \<Rightarrow> bool" where
  "sel_contains s pos = list_ex (\<lambda>r. range_contains r pos) (sel_ranges s)"

definition sel_direction :: "selection \<Rightarrow> direction option" where
  "sel_direction s = map_option range_direction (sel_primary s)"

definition rotate_forward :: "selection \<Rightarrow> selection" where
  "rotate_forward s =
     (if length (sel_ranges s) > 1
      then s\<lparr> primary_index := (primary_index s + 1) mod length (sel_ranges s) \<rparr> else s)"

definition rotate_backward :: "selection \<Rightarrow> selection" where
  "rotate_backward s =
     (if length (sel_ranges s) > 1
      then s\<lparr> primary_index := (primary_index s + length (sel_ranges s) - 1) mod length (sel_ranges s) \<rparr>
      else s)"

definition remove_primary :: "selection \<Rightarrow> selection" where
  "remove_primary s =
     (if length (sel_ranges s) > 1
      then
        let rest = others s
        in \<lparr> sel_ranges = rest, primary_index = min (primary_index s) (length rest - 1) \<rparr>
      else s)"

definition sel_clamp :: "selection \<Rightarrow> CharIdx \<Rightarrow> selection" where
  "sel_clamp s max_char =
     sel_normalize (s\<lparr> sel_ranges := map (\<lambda>r. range_clamp r max_char) (sel_ranges s) \<rparr>)"

definition is_in_bounds :: "selection \<Rightarrow> CharIdx \<Rightarrow> bool" where
  "is_in_bounds s len =
     (if primary_index s \<ge> length (sel_ranges s) then False
      else list_all (\<lambda>r. range_from r \<le> len \<and> range_to r \<le> len + 1 \<and> head r \<le> len \<and> anchor r \<le> len)
             (sel_ranges s))"

section \<open>Specification predicates\<close>

definition separated :: "nat \<Rightarrow> range list \<Rightarrow> bool" where
  "separated g rs \<longleftrightarrow> sorted_wrt (\<lambda>r s. range_max r + g < range_min s) rs"

definition covered :: "range list \<Rightarrow> CharIdx set" where
  "covered rs = (\<Union>r \<in> set rs. cells r)"

definition merge_inv :: "nat \<Rightarrow> range \<Rightarrow> range list \<Rightarrow> range list \<times> nat \<Rightarrow> bool" where
  "merge_inv g primary seen st \<longleftrightarrow>
     separated g (fst st) \<and> covered (fst st) = covered seen \<and>
     (\<forall>m \<in> set (fst st). \<exists>r \<in> set seen. range_min m = range_min r) \<and>
     (primary \<in> set seen \<longrightarrow> snd st < length (fst st) \<and> cells primary \<subseteq> cells (fst st ! snd st))"

definition sel_wf :: "selection \<Rightarrow> bool" where
  "sel_wf s \<longleftrightarrow> sel_ranges s \<noteq> [] \<and> primary_index s < length (sel_ranges s) \<and> separated 0 (sel_ranges s)"

section \<open>Lemmas\<close>

lemma covered_simps [simp]:
  "covered [] = {}" "covered (r # rs) = cells r \<union> covered rs"
  "covered (rs @ ss) = covered rs \<union> covered ss"
  by (auto simp: covered_def)

lemma separated_snoc: "separated g (rs @ [r]) \<longleftrightarrow> separated g rs \<and> (\<forall>m \<in> set rs. range_max m + g < range_min r)"
  by (auto simp: separated_def sorted_wrt_append)

lemma separated_Nil [simp]: "separated g []"
  and separated_single [simp]: "separated g [r]"
  by (simp_all add: separated_def)

lemma separated_nth: "separated g rs \<Longrightarrow> i < j \<Longrightarrow> j < length rs \<Longrightarrow> range_max (rs ! i) + g < range_min (rs ! j)"
  by (simp add: separated_def sorted_wrt_iff_nth_less)

locale joining =
  fixes touch :: "range \<Rightarrow> range \<Rightarrow> bool" and g :: nat
  assumes touch_iff: "range_min r \<le> range_min s \<Longrightarrow> touch r s \<longleftrightarrow> range_min s \<le> range_max r + g"
    and gap_le: "g \<le> 1"
begin

lemma merge_step_apart:
  assumes inv: "merge_inv g primary seen (merged, pidx)"
    and later: "\<forall>m \<in> set seen. range_min m \<le> range_min r"
    and apart: "\<not> (merged \<noteq> [] \<and> touch (last merged) r)"
  shows "merge_inv g primary (seen @ [r]) (merge_step touch primary (merged, pidx) r)"
proof -
  have far: "range_max m + g < range_min r" if "m \<in> set merged" for m
  proof -
    from that obtain i where i: "i < length merged" "m = merged ! i" by (auto simp: in_set_conv_nth)
    let ?l = "last merged"
    have "merged \<noteq> []" using that by auto
    then have "?l \<in> set merged" by simp
    with inv later have "range_min ?l \<le> range_min r" by (fastforce simp: merge_inv_def)
    with apart \<open>merged \<noteq> []\<close> have l: "range_max ?l + g < range_min r" by (auto simp: touch_iff)
    show ?thesis
    proof (cases "i = length merged - 1")
      case True
      then show ?thesis using i l \<open>merged \<noteq> []\<close> by (simp add: last_conv_nth)
    next
      case False
      then have "range_max m + g < range_min ?l"
        using i inv separated_nth [of g merged i "length merged - 1"] \<open>merged \<noteq> []\<close>
        by (simp add: merge_inv_def last_conv_nth)
      then show ?thesis using l range_min_le_max [of ?l] by linarith
    qed
  qed
  have nth: "(merged @ [r]) ! pidx = merged ! pidx" if "pidx < length merged"
    using that by (simp add: nth_append)
  show ?thesis
    using inv far apart nth
    by (auto simp: merge_step_def merge_inv_def separated_snoc Let_def)
qed

lemma merge_step_join:
  assumes inv: "merge_inv g primary seen (ms @ [l], pidx)"
    and later: "\<forall>m \<in> set seen. range_min m \<le> range_min r"
    and join: "touch l r"
  shows "merge_inv g primary (seen @ [r]) (merge_step touch primary (ms @ [l], pidx) r)"
proof -
  let ?n = "range_merge l r"
  have le: "range_min l \<le> range_min r" using inv later by (fastforce simp: merge_inv_def)
  have close: "range_min r \<le> range_max l + 1"
    using join le gap_le touch_iff [of l r] by linarith
  have cells: "cells ?n = cells l \<union> cells r"
    using close le range_min_le_max [of r] by (intro cells_merge_touching) linarith+
  have min: "range_min ?n = range_min l" using le by simp
  have sep: "separated g (ms @ [?n])" using inv min by (simp add: merge_inv_def separated_snoc)
  have sub: "cells primary \<subseteq> cells ((ms @ [?n]) ! (if r = primary \<or> l = primary \<or> range_contains ?n (range_min primary)
       then length ms else pidx)) \<and> (if r = primary \<or> l = primary \<or> range_contains ?n (range_min primary)
       then length ms else pidx) < Suc (length ms)"
    if seen: "primary \<in> set (seen @ [r])"
  proof (cases "r = primary \<or> l = primary")
    case True
    then show ?thesis using cells by auto
  next
    case False
    with seen inv have p: "pidx < Suc (length ms)" "cells primary \<subseteq> cells ((ms @ [l]) ! pidx)"
      by (auto simp: merge_inv_def)
    show ?thesis
    proof (cases "pidx = length ms")
      case True
      with p cells show ?thesis by auto
    next
      case False
      with p have lt: "pidx < length ms" by simp
      have "range_min primary \<in> cells primary" by (simp add: cells_def)
      with p lt have "range_min primary \<le> range_max (ms ! pidx)"
        by (auto simp: nth_append cells_def intro: order_trans [OF range_min_le_max])
      also have "\<dots> < range_min ?n"
        using sep lt separated_nth [of g "ms @ [?n]" pidx "length ms"] by (simp add: nth_append del: range_min_merge)
      finally have "\<not> range_contains ?n (range_min primary)" by (simp add: range_contains_def del: range_min_merge)
      with p lt \<open>\<not> (r = primary \<or> l = primary)\<close> show ?thesis by (simp add: nth_append)
    qed
  qed
  have "covered (ms @ [?n]) = covered (seen @ [r])" using inv cells by (auto simp: merge_inv_def)
  moreover have "\<forall>m \<in> set (ms @ [?n]). \<exists>q \<in> set (seen @ [r]). range_min m = range_min q"
    using inv min by (auto simp: merge_inv_def simp del: range_min_merge)
  ultimately show ?thesis using sep sub join
    unfolding merge_inv_def merge_step_def Let_def
    by (simp del: set_append cong: if_cong split del: if_split)
qed

lemma merge_loop_inv:
  "sorted (map range_min rs) \<Longrightarrow> merge_inv g primary rs (foldl (merge_step touch primary) ([], 0) rs)"
proof (induction rs rule: rev_induct)
  case Nil
  then show ?case by (simp add: merge_inv_def)
next
  case (snoc r rs)
  let ?st = "foldl (merge_step touch primary) ([], 0) rs"
  have later: "\<forall>m \<in> set rs. range_min m \<le> range_min r" and inv: "merge_inv g primary rs ?st"
    using snoc by (auto simp: sorted_append)
  obtain merged pidx where st: "?st = (merged, pidx)" by (cases ?st)
  show ?case
  proof (cases "merged \<noteq> [] \<and> touch (last merged) r")
    case True
    then obtain ms l where "merged = ms @ [l]" "touch l r" by (metis append_butlast_last_id)
    then show ?thesis using merge_step_join [OF _ later] inv st by simp
  next
    case False
    then show ?thesis using merge_step_apart [OF _ later] inv st by simp
  qed
qed

lemma merge_ranges_spec:
  assumes "primary_index s < length (sel_ranges s)" and "1 < length (sel_ranges s)"
  shows "separated g (sel_ranges (merge_ranges touch s))"
    and "covered (sel_ranges (merge_ranges touch s)) = covered (sel_ranges s)"
    and "primary_index (merge_ranges touch s) < length (sel_ranges (merge_ranges touch s))"
    and "cells (sel_ranges s ! primary_index s) \<subseteq>
           cells (sel_ranges (merge_ranges touch s) ! primary_index (merge_ranges touch s))"
proof -
  let ?p = "sel_ranges s ! primary_index s"
  let ?rs = "sort_key range_min (sel_ranges s)"
  obtain merged pidx where st: "foldl (merge_step touch ?p) ([], 0) ?rs = (merged, pidx)" by force
  have "merge_inv g ?p ?rs (merged, pidx)" using merge_loop_inv [of ?rs ?p] st by simp
  then have inv: "separated g merged" "covered merged = covered ?rs"
    "pidx < length merged" "cells ?p \<subseteq> cells (merged ! pidx)"
    using assms by (auto simp: merge_inv_def)
  have eq: "merge_ranges touch s = \<lparr> sel_ranges = merged, primary_index = pidx \<rparr>"
    using assms st inv(3) by (simp add: merge_ranges_def Let_def min_def)
  have "covered ?rs = covered (sel_ranges s)" by (simp add: covered_def)
  with inv eq show "separated g (sel_ranges (merge_ranges touch s))"
    "covered (sel_ranges (merge_ranges touch s)) = covered (sel_ranges s)"
    "primary_index (merge_ranges touch s) < length (sel_ranges (merge_ranges touch s))"
    "cells ?p \<subseteq> cells (sel_ranges (merge_ranges touch s) ! primary_index (merge_ranges touch s))"
    by simp_all
qed

end

interpretation norm: joining overlaps 0
  by unfold_locales (auto simp: overlaps_def intro: order_trans)

interpretation adj: joining touches 1
  by unfold_locales (auto simp: touches_def overlaps_def intro: order_trans)


lemma sorted_separated: "separated g rs \<Longrightarrow> sorted (map range_min rs)"
  unfolding separated_def sorted_map
  by (erule sorted_wrt_mono_rel [rotated]) (meson add_leE less_imp_le_nat order_trans range_min_le_max)

lemma separated_drop_nth: "separated g (xs @ y # ys) \<Longrightarrow> separated g (xs @ ys)"
  by (simp add: separated_def sorted_wrt_append)

lemma separated_apart: "separated 0 (xs @ r # ys) \<Longrightarrow> m \<in> set xs \<Longrightarrow> \<not> overlaps m r"
  by (auto simp: separated_def sorted_wrt_append overlaps_def)

lemma overlaps_refl [simp]: "overlaps r r"
  by (simp add: overlaps_def)

lemma merge_step_far:
  "\<not> (merged \<noteq> [] \<and> touch (last merged) r) \<Longrightarrow>
   merge_step touch p (merged, i) r = (merged @ [r], if r = p then length merged else i)"
  by (auto simp: merge_step_def)

lemma separated_snoc_far:
  "separated 0 (rs @ [r]) \<Longrightarrow> r \<notin> set rs \<and> \<not> (rs \<noteq> [] \<and> overlaps (last rs) r)"
  using separated_apart [of rs r "[]"] overlaps_refl [of r] by (metis last_in_set)

lemma sel_wf_primary: "sel_wf s \<Longrightarrow> primary_index s < length (sel_ranges s)"
  by (simp add: sel_wf_def)

lemma merge_loop_separated_before:
  "separated 0 rs \<Longrightarrow> p \<notin> set rs \<Longrightarrow> foldl (merge_step overlaps p) ([], 0) rs = (rs, 0)"
proof (induction rs rule: rev_induct)
  case (snoc r rs)
  then show ?case
    using merge_step_far [of rs overlaps r p 0] separated_snoc_far [of rs r] by (auto simp: separated_snoc)
qed simp

lemma merge_loop_separated_after:
  assumes "separated 0 (xs @ p # ys)"
  shows "foldl (merge_step overlaps p) ([], 0) (xs @ p # ys) = (xs @ p # ys, length xs)"
  using assms
proof (induction ys rule: rev_induct)
  case Nil
  then show ?case
    using merge_loop_separated_before [of xs p] separated_snoc_far [of xs p]
      merge_step_far [of xs overlaps p p 0] by (simp add: separated_snoc)
next
  case (snoc r ys)
  let ?ps = "xs @ p # ys"
  have far: "r \<notin> set ?ps \<and> \<not> (?ps \<noteq> [] \<and> overlaps (last ?ps) r)" and sep: "separated 0 ?ps"
    using snoc.prems separated_snoc_far [of ?ps r] separated_snoc [of 0 ?ps r] by simp_all
  have "foldl (merge_step overlaps p) ([], 0) (?ps @ [r]) = merge_step overlaps p (?ps, length xs) r"
    by (subst foldl_append) (simp only: snoc.IH [OF sep] foldl.simps)
  also have "\<dots> = (?ps @ [r], length xs)"
    using far by (subst merge_step_far) auto
  finally show ?case by simp
qed

lemma normalize_wf_id:
  assumes "sel_wf s" shows "sel_normalize s = s"
proof (cases "length (sel_ranges s) \<le> 1")
  case False
  let ?p = "sel_ranges s ! primary_index s"
  have split: "take (primary_index s) (sel_ranges s) @ ?p # drop (Suc (primary_index s)) (sel_ranges s) = sel_ranges s"
    using assms id_take_nth_drop sel_wf_def by metis
  have "foldl (merge_step overlaps ?p) ([], 0) (sel_ranges s) = (sel_ranges s, primary_index s)"
    using merge_loop_separated_after [of "take (primary_index s) (sel_ranges s)" ?p
        "drop (Suc (primary_index s)) (sel_ranges s)"] assms
    unfolding split by (simp add: sel_wf_def min_def)
  moreover have "sort_key range_min (sel_ranges s) = sel_ranges s"
    using assms by (intro sort_key_id_if_sorted) (auto simp: sel_wf_def intro: sorted_separated)
  moreover have "min (primary_index s) (length (sel_ranges s) - 1) = primary_index s"
    using assms by (auto simp: sel_wf_def)
  ultimately show ?thesis using False by (simp add: sel_normalize_def merge_ranges_def Let_def)
qed (simp add: sel_normalize_def merge_ranges_def)

lemma merge_ranges_short: "length (sel_ranges s) \<le> 1 \<Longrightarrow> merge_ranges touch s = s"
  by (simp add: merge_ranges_def)

lemma short_wf: "length (sel_ranges s) \<le> 1 \<Longrightarrow> primary_index s < length (sel_ranges s) \<Longrightarrow> sel_wf s"
  by (cases "sel_ranges s") (auto simp: sel_wf_def)

lemma normalize_wf [wf_intros]: "primary_index s < length (sel_ranges s) \<Longrightarrow> sel_wf (sel_normalize s)"
  using norm.merge_ranges_spec [of s] short_wf [of s]
  by (cases "length (sel_ranges s) \<le> 1") (force simp: sel_normalize_def merge_ranges_short sel_wf_def)+

lemma normalize_covered:
  "primary_index s < length (sel_ranges s) \<Longrightarrow> covered (sel_ranges (sel_normalize s)) = covered (sel_ranges s)"
  using norm.merge_ranges_spec(2) [of s]
  by (cases "length (sel_ranges s) \<le> 1") (auto simp: sel_normalize_def merge_ranges_short)


lemma normalize_primary:
  assumes "primary_index s < length (sel_ranges s)"
  shows "cells (sel_ranges s ! primary_index s) \<subseteq> cells (sel_ranges (sel_normalize s) ! primary_index (sel_normalize s))"
  using assms norm.merge_ranges_spec(4) [of s]
  by (cases "length (sel_ranges s) \<le> 1") (auto simp: sel_normalize_def merge_ranges_short)

lemma sel_new_wf [wf_intros]: "sel_wf (sel_new p os)"
  by (simp add: sel_new_def normalize_wf)

lemma position_Some:
  "position P xs = Some i \<Longrightarrow> i < length xs \<and> P (xs ! i)"
  by (induction xs arbitrary: i) (auto split: if_splits)

lemma position_None: "position P xs = None \<longleftrightarrow> (\<forall>x \<in> set xs. \<not> P x)"
  by (induction xs) auto

lemma from_vec_Some:
  assumes "i < length rs"
  obtains s where "from_vec rs i = Some s" and "sel_wf s" and "covered (sel_ranges s) = covered rs"
    and "cells (rs ! i) \<subseteq> cells (sel_ranges s ! primary_index s)"
proof -
  have "rs ! i \<in> set rs" using assms by simp
  then obtain k where k: "position (\<lambda>r. r = rs ! i) rs = Some k"
    using position_None [of "\<lambda>r. r = rs ! i" rs] by blast
  then have "k < length rs" "rs ! k = rs ! i" using position_Some by blast+
  with k assms show ?thesis
    using normalize_wf [of "\<lparr> sel_ranges = rs, primary_index = k \<rparr>"]
      normalize_covered [of "\<lparr> sel_ranges = rs, primary_index = k \<rparr>"]
      normalize_primary [of "\<lparr> sel_ranges = rs, primary_index = k \<rparr>"]
    by (intro that [of "sel_normalize \<lparr> sel_ranges = rs, primary_index = k \<rparr>"]) (auto simp: from_vec_def Let_def)
qed

lemma filter_transform_loop_bound:
  "filter_transform_loop f p idx rs kept np = (ks, q) \<Longrightarrow>
   np = 0 \<or> np < length kept \<Longrightarrow> q = 0 \<or> q < length ks"
proof (induction f p idx rs kept np rule: filter_transform_loop.induct)
  case (2 f p idx r rs kept np)
  then show ?case by (cases "f r") (auto split: if_splits)
qed simp

lemma others_split:
  "primary_index s < length (sel_ranges s) \<Longrightarrow>
   \<exists>xs ys. sel_ranges s = xs @ sel_ranges s ! primary_index s # ys \<and> others s = xs @ ys"
  unfolding others_def by (metis id_take_nth_drop)

lemma remove_primary_wf [wf_intros]:
  assumes "sel_wf s" shows "sel_wf (remove_primary s)"
proof -
  obtain xs ys where eq: "sel_ranges s = xs @ sel_ranges s ! primary_index s # ys" "others s = xs @ ys"
    using others_split [of s] assms by (auto simp: sel_wf_def)
  then have sep: "separated 0 (others s)" using assms separated_drop_nth by (metis sel_wf_def)
  have "length (sel_ranges s) = Suc (length (others s))"
    using eq by (metis add_Suc_right length_Cons length_append)
  with sep assms show ?thesis by (auto simp: remove_primary_def sel_wf_def Let_def min_less_iff_disj)
qed

lemma sel_wf_simple [wf_intros]:
  "sel_wf (sel_single a h)" "sel_wf (sel_point p)" "sel_wf sel_default" "sel_wf (sel_of_range r)"
  by (simp_all add: sel_wf_def sel_single_def sel_point_def sel_default_def sel_of_range_def)

lemma sel_update_wf [wf_intros]:
  assumes "sel_wf s"
  shows "sel_wf (sel_push s r)" "sel_wf (transform_mut s f)" "sel_wf (sel_clamp s n)"
    "sel_wf (rotate_forward s)" "sel_wf (rotate_backward s)"
    "sel_wf (merge_overlaps_and_adjacent s)"
proof -
  show "sel_wf (sel_push s r)" "sel_wf (transform_mut s f)" "sel_wf (sel_clamp s n)"
    using sel_wf_primary [OF assms]
    by (simp_all add: sel_push_def transform_mut_def sel_clamp_def normalize_wf)
  show "sel_wf (rotate_forward s)" "sel_wf (rotate_backward s)"
    using assms by (auto simp: rotate_forward_def rotate_backward_def sel_wf_def)
  have "separated 0 rs" if "separated 1 rs" for rs
    using that unfolding separated_def by (rule sorted_wrt_mono_rel [rotated]) simp
  then show "sel_wf (merge_overlaps_and_adjacent s)"
    using assms adj.merge_ranges_spec [of s]
    by (cases "length (sel_ranges s) \<le> 1")
      (force simp: merge_overlaps_and_adjacent_def merge_ranges_short sel_wf_def)+
qed

lemma is_in_bounds_iff:
  "is_in_bounds s len \<longleftrightarrow> primary_index s < length (sel_ranges s) \<and> covered (sel_ranges s) \<subseteq> {..len}"
proof -
  have "(range_from r \<le> len \<and> range_to r \<le> len + 1 \<and> head r \<le> len \<and> anchor r \<le> len) \<longleftrightarrow> cells r \<subseteq> {..len}" for r
    by (auto simp: range_from_def range_to_def cells_def range_min_def range_max_def)
  then show ?thesis by (auto simp: is_in_bounds_def list_all_iff covered_def)
qed

lemma clamp_in_bounds: "sel_wf s \<Longrightarrow> is_in_bounds (sel_clamp s n) n"
proof -
  assume wf: "sel_wf s"
  let ?c = "s\<lparr> sel_ranges := map (\<lambda>r. range_clamp r n) (sel_ranges s) \<rparr>"
  have "primary_index ?c < length (sel_ranges ?c)" using wf by (simp add: sel_wf_def)
  moreover from this have "covered (sel_ranges (sel_clamp s n)) = covered (sel_ranges ?c)"
    by (simp add: sel_clamp_def normalize_covered)
  moreover have "covered (sel_ranges ?c) \<subseteq> {..n}" by (auto simp: covered_def cells_def)
  ultimately show ?thesis using sel_update_wf(3) [OF wf, of n] by (simp add: is_in_bounds_iff sel_wf_def)
qed


lemma try_filter_transform_wf:
  "try_filter_transform s h = Some None \<or> (\<exists>s'. try_filter_transform s h = Some (Some s') \<and> sel_wf s')"
proof -
  obtain ks q where loop: "filter_transform_loop h (primary_index s) 0 (sel_ranges s) [] 0 = (ks, q)"
    by fastforce
  then have q: "q = 0 \<or> q < length ks" using filter_transform_loop_bound by blast
  show ?thesis
  proof (cases "ks = []")
    case False
    with q have "q < length ks" by auto
    then obtain s' where "from_vec ks q = Some s'" "sel_wf s'" by (rule from_vec_Some)
    with loop False show ?thesis by (simp add: try_filter_transform_def)
  qed (simp add: try_filter_transform_def loop)
qed

lemma set_primary_wf [wf_intros]:
  "sel_wf s \<Longrightarrow> i < length (sel_ranges s) \<Longrightarrow> \<exists>s'. set_primary s i = Some s' \<and> sel_wf s'"
  by (simp add: set_primary_def sel_wf_def)

lemma sel_replace_wf [wf_intros]:
  "sel_wf s \<Longrightarrow> i < length (sel_ranges s) \<Longrightarrow> \<exists>s'. sel_replace s i r = Some s' \<and> sel_wf s'"
  using sel_wf_primary [of s] by (simp add: sel_replace_def normalize_wf)

lemma sel_primary_Some: "sel_wf s \<Longrightarrow> sel_primary s = Some (sel_ranges s ! primary_index s)"
  by (simp add: sel_primary_def sel_wf_def)

lemma sel_transform_Some:
  "sel_wf s \<Longrightarrow> sel_transform s f = Some (sel_new (f (sel_ranges s ! primary_index s)) (map f (others s)))"
  by (simp add: sel_transform_def sel_primary_Some)

lemma sel_transform_wf [wf_intros]: "sel_wf s \<Longrightarrow> \<exists>s'. sel_transform s f = Some s' \<and> sel_wf s'"
  by (simp add: sel_transform_Some sel_new_wf)

lemma covered_sel_new: "covered (sel_ranges (sel_new p os)) = covered (p # os)"
  by (simp add: sel_new_def normalize_covered)

section \<open>Properties\<close>

text \<open>
  C13. Normalising a selection sorts its ranges and makes them pairwise disjoint without changing
  the set of selected cells, keeps the old primary range inside the new primary range, and is
  idempotent.
\<close>

theorem normalize_normal_form:
  assumes "primary_index s < length (sel_ranges s)"
  shows "sel_wf (sel_normalize s)
    \<and> covered (sel_ranges (sel_normalize s)) = covered (sel_ranges s)
    \<and> cells (sel_ranges s ! primary_index s) \<subseteq>
        cells (sel_ranges (sel_normalize s) ! primary_index (sel_normalize s))
    \<and> sel_normalize (sel_normalize s) = sel_normalize s"
  using assms normalize_wf normalize_covered normalize_primary normalize_wf_id by blast

theorem normalize_normal_form_witness:
  "sel_wf (sel_normalize \<lparr> sel_ranges = [range_new 5 9, range_new 0 2, range_new 8 4], primary_index = 2 \<rparr>)"
  using normalize_normal_form [of "\<lparr> sel_ranges = [range_new 5 9, range_new 0 2, range_new 8 4], primary_index = 2 \<rparr>"]
  by simp

text \<open>
  Every operation on a well-formed selection returns a well-formed one: it stays non-empty,
  sorted and disjoint, with a primary index in range.
\<close>

theorem selection_ops_preserve_wf:
  assumes "sel_wf s"
  shows "sel_wf (sel_push s r) \<and> sel_wf (transform_mut s f) \<and> sel_wf (sel_clamp s n)
    \<and> sel_wf (rotate_forward s) \<and> sel_wf (rotate_backward s) \<and> sel_wf (remove_primary s)
    \<and> sel_wf (merge_overlaps_and_adjacent s)
    \<and> (\<exists>s'. sel_transform s f = Some s' \<and> sel_wf s')
    \<and> (try_filter_transform s h = Some None \<or> (\<exists>s'. try_filter_transform s h = Some (Some s') \<and> sel_wf s'))
    \<and> (i < length (sel_ranges s) \<longrightarrow>
         (\<exists>s'. set_primary s i = Some s' \<and> sel_wf s') \<and> (\<exists>s'. sel_replace s i r = Some s' \<and> sel_wf s'))"
  by (intro conjI impI wf_intros try_filter_transform_wf assms)

theorem selection_ops_preserve_wf_witness:
  "sel_wf (sel_point 3) \<and> sel_wf (sel_push (sel_point 3) (range_new 7 5))"
  using selection_ops_preserve_wf [of "sel_point 3" "range_new 7 5"] by (simp add: sel_wf_simple)

text \<open>
  \<open>merge_overlaps_and_adjacent\<close> covers exactly the same cells and leaves a gap of at least one
  unselected cell between consecutive ranges.
\<close>

theorem merge_adjacent_leaves_gaps:
  assumes "sel_wf s"
  shows "covered (sel_ranges (merge_overlaps_and_adjacent s)) = covered (sel_ranges s)
    \<and> (\<forall>i j. i < j \<longrightarrow> j < length (sel_ranges (merge_overlaps_and_adjacent s)) \<longrightarrow>
          range_max (sel_ranges (merge_overlaps_and_adjacent s) ! i) + 1
            < range_min (sel_ranges (merge_overlaps_and_adjacent s) ! j))"
proof (cases "length (sel_ranges s) \<le> 1")
  case True
  then show ?thesis by (simp add: merge_overlaps_and_adjacent_def merge_ranges_short)
next
  case False
  with assms show ?thesis
    using adj.merge_ranges_spec(1,2) [of s] separated_nth [of 1 "sel_ranges (merge_ranges touches s)"]
    by (auto simp: merge_overlaps_and_adjacent_def sel_wf_def)
qed

theorem merge_adjacent_leaves_gaps_witness:
  "sel_ranges (merge_overlaps_and_adjacent (sel_new (range_new 0 4) [range_new 5 9])) = [range_new 0 9]
   \<and> covered (sel_ranges (merge_overlaps_and_adjacent (sel_new (range_new 0 4) [range_new 5 9])))
     = covered (sel_ranges (sel_new (range_new 0 4) [range_new 5 9]))"
  using merge_adjacent_leaves_gaps [of "sel_new (range_new 0 4) [range_new 5 9]", OF sel_new_wf]
  by (simp add: sel_new_def sel_normalize_def merge_overlaps_and_adjacent_def merge_ranges_def merge_step_def
      touches_def overlaps_def range_contains_def range_merge_def range_direction_def Let_def)

text \<open>
  Clamping a selection to a document of \<open>n\<close> characters puts every range in bounds, and rotating
  the primary range forward and back returns to the same selection.
\<close>

theorem clamp_and_rotate:
  assumes "sel_wf s"
  shows "is_in_bounds (sel_clamp s n) n \<and> rotate_backward (rotate_forward s) = s
    \<and> rotate_forward (rotate_backward s) = s"
proof -
  have "(Suc p mod m + m - Suc 0) mod m = p \<and> Suc ((p + m - Suc 0) mod m) mod m = p"
    if "p < m" "Suc 0 < m" for p m :: nat
    using that by (cases "Suc p = m"; cases p) (auto simp: mod_Suc)
  then show ?thesis using assms clamp_in_bounds
    by (simp add: rotate_forward_def rotate_backward_def sel_wf_def)
qed

theorem clamp_and_rotate_witness:
  "is_in_bounds (sel_clamp (sel_new (range_new 3 20) [range_new 30 40]) 10) 10"
  using clamp_and_rotate [OF sel_new_wf] by simp

end
