(* ===== verification/ChangeSets.thy ===== *)
theory ChangeSets
  imports Prelude
begin

text \<open>
  The change algebra of \<open>crates/primitives/src/transaction/types.rs\<close> and \<open>changeset.rs\<close>: a
  changeset is a sequence of retain, delete and insert operations with cached input and output
  lengths. The model follows the code loop by loop: the builder (\<open>cs_retain\<close>, \<open>cs_delete\<close>,
  \<open>cs_insert\<close>), \<open>cs_apply\<close> on a rope, \<open>cs_invert\<close>, \<open>map_pos\<close> and \<open>cs_compose\<close>.

  The specification of a changeset is \<open>edit_text\<close>, the text it turns a text into. The lemmas show
  that applying a changeset to a rope computes \<open>edit_text\<close> and does not panic, that the builder
  keeps the cached lengths and the canonical form, that \<open>cs_invert\<close> undoes, that \<open>cs_compose\<close>
  composes, and how \<open>map_pos\<close> tracks characters.
\<close>

section \<open>Operations\<close>

record insertion =
  ins_text :: utext
  ins_char_len :: CharLen

definition insertion_new :: "utext \<Rightarrow> insertion" where
  "insertion_new s = \<lparr> ins_text = s, ins_char_len = length s \<rparr>"

definition from_chars :: "utext \<Rightarrow> CharLen \<Rightarrow> insertion" where
  "from_chars s n = \<lparr> ins_text = s, ins_char_len = n \<rparr>"

definition ins_is_empty :: "insertion \<Rightarrow> bool" where
  "ins_is_empty ins \<longleftrightarrow> ins_char_len ins = 0"

definition ins_byte_len :: "insertion \<Rightarrow> nat" where
  "ins_byte_len ins = str_len (ins_text ins)"

definition ins_push_str :: "insertion \<Rightarrow> insertion \<Rightarrow> insertion" where
  "ins_push_str ins other =
     \<lparr> ins_text = ins_text ins @ ins_text other, ins_char_len = ins_char_len ins + ins_char_len other \<rparr>"

text \<open>\<open>take_prefix\<close> returns the prefix and leaves the rest in \<open>self\<close>.\<close>

definition take_prefix :: "insertion \<Rightarrow> CharLen \<Rightarrow> utext \<times> insertion" where
  "take_prefix ins n =
     (take n (ins_text ins), \<lparr> ins_text = drop n (ins_text ins), ins_char_len = ins_char_len ins - n \<rparr>)"

definition ins_split_at :: "insertion \<Rightarrow> CharLen \<Rightarrow> utext \<times> insertion" where
  "ins_split_at ins n =
     (take n (ins_text ins), from_chars (drop n (ins_text ins)) (ins_char_len ins - n))"

datatype operation = Retain CharLen | Delete CharLen | Insert insertion

datatype bias = BLeft | BRight

section \<open>Changesets\<close>

record changeset =
  changes :: "operation list"
  cs_len :: nat
  cs_len_after :: nat

definition cs_builder :: changeset where
  "cs_builder = \<lparr> changes = [], cs_len = 0, cs_len_after = 0 \<rparr>"

definition cs_is_empty :: "changeset \<Rightarrow> bool" where
  "cs_is_empty cs \<longleftrightarrow> changes cs = []"

definition cs_is_identity :: "changeset \<Rightarrow> bool" where
  "cs_is_identity cs = list_all (\<lambda>op. case op of Retain n \<Rightarrow> True | _ \<Rightarrow> False) (changes cs)"

text \<open>The builder looks at the last operations of the list, here at the front of its reverse.\<close>

definition cs_retain :: "changeset \<Rightarrow> CharLen \<Rightarrow> changeset" where
  "cs_retain cs n =
     (if n = 0 then cs
      else cs\<lparr> cs_len := cs_len cs + n, cs_len_after := cs_len_after cs + n,
              changes := (case rev (changes cs) of
                 Retain count # before \<Rightarrow> rev before @ [Retain (count + n)]
               | _ \<Rightarrow> changes cs @ [Retain n]) \<rparr>)"

definition cs_delete :: "changeset \<Rightarrow> CharLen \<Rightarrow> changeset" where
  "cs_delete cs n =
     (if n = 0 then cs
      else cs\<lparr> cs_len := cs_len cs + n,
              changes := (case rev (changes cs) of
                 Delete count # before \<Rightarrow> rev before @ [Delete (count + n)]
               | _ \<Rightarrow> changes cs @ [Delete n]) \<rparr>)"

definition cs_insert :: "changeset \<Rightarrow> utext \<Rightarrow> changeset" where
  "cs_insert cs s =
     (if s = [] then cs
      else
        let ins = insertion_new s in
        cs\<lparr> cs_len_after := cs_len_after cs + ins_char_len ins,
            changes := (case rev (changes cs) of
               Insert prev # before \<Rightarrow> rev before @ [Insert (ins_push_str prev ins)]
             | Delete d # Insert prev # before \<Rightarrow> rev before @ [Insert (ins_push_str prev ins), Delete d]
             | Delete d # before \<Rightarrow> rev before @ [Insert ins, Delete d]
             | _ \<Rightarrow> changes cs @ [Insert ins]) \<rparr>)"

definition cs_new :: "'r rope_ops \<Rightarrow> 'r \<Rightarrow> changeset" where
  "cs_new R doc =
     (let n = rp_len_chars R doc in if n > 0 then cs_retain cs_builder n else cs_builder)"

text \<open>\<open>apply\<close>: the loop over the operations with the running position \<open>pos\<close>.\<close>

fun apply_ops :: "'r rope_ops \<Rightarrow> operation list \<Rightarrow> nat \<Rightarrow> 'r \<Rightarrow> 'r option" where
  "apply_ops R [] pos doc = Some doc"
| "apply_ops R (Retain n # ops) pos doc = apply_ops R ops (pos + n) doc"
| "apply_ops R (Delete n # ops) pos doc = do {
     doc' \<leftarrow> rp_remove R doc pos (pos + n);
     apply_ops R ops pos doc' }"
| "apply_ops R (Insert ins # ops) pos doc = do {
     doc' \<leftarrow> rp_insert R doc pos (ins_text ins);
     apply_ops R ops (pos + ins_char_len ins) doc' }"

definition cs_apply :: "'r rope_ops \<Rightarrow> changeset \<Rightarrow> 'r \<Rightarrow> 'r option" where
  "cs_apply R cs doc = apply_ops R (changes cs) 0 doc"

fun invert_ops :: "'r rope_ops \<Rightarrow> 'r \<Rightarrow> operation list \<Rightarrow> nat \<Rightarrow> changeset \<Rightarrow> changeset option" where
  "invert_ops R doc [] pos result = Some result"
| "invert_ops R doc (Retain n # ops) pos result = invert_ops R doc ops (pos + n) (cs_retain result n)"
| "invert_ops R doc (Delete n # ops) pos result = do {
     deleted_text \<leftarrow> rp_slice R doc pos (pos + n);
     invert_ops R doc ops (pos + n) (cs_insert result deleted_text) }"
| "invert_ops R doc (Insert ins # ops) pos result =
     invert_ops R doc ops pos (cs_delete result (ins_char_len ins))"

definition cs_invert :: "'r rope_ops \<Rightarrow> changeset \<Rightarrow> 'r \<Rightarrow> changeset option" where
  "cs_invert R cs doc = invert_ops R doc (changes cs) 0 cs_builder"

fun map_pos_loop :: "operation list \<Rightarrow> CharIdx \<Rightarrow> bias \<Rightarrow> CharIdx \<Rightarrow> CharIdx \<Rightarrow> CharIdx" where
  "map_pos_loop [] pos bias old_pos new_pos = new_pos + (pos - old_pos)"
| "map_pos_loop (Insert ins # ops) pos bias old_pos new_pos =
     (if old_pos = pos \<and> bias = BLeft then new_pos
      else map_pos_loop ops pos bias old_pos (new_pos + ins_char_len ins))"
| "map_pos_loop (Retain n # ops) pos bias old_pos new_pos =
     (if old_pos + n > pos then new_pos + (pos - old_pos)
      else map_pos_loop ops pos bias (old_pos + n) (new_pos + n))"
| "map_pos_loop (Delete n # ops) pos bias old_pos new_pos =
     (if old_pos + n > pos then new_pos
      else map_pos_loop ops pos bias (old_pos + n) new_pos)"

definition map_pos :: "changeset \<Rightarrow> CharIdx \<Rightarrow> bias \<Rightarrow> CharIdx" where
  "map_pos cs pos bias = map_pos_loop (changes cs) pos bias 0 0"

text \<open>
  The loop of \<open>compose\<close>. The pair of \<open>a_op\<close> and \<open>a_iter\<close> is one list whose first element is
  \<open>a_op\<close> (and likewise for \<open>b\<close>): refilling an empty \<open>a_op\<close> from \<open>a_iter\<close> at the end of an
  iteration is going on with the tail. The cases are in the order of the code's \<open>match\<close>, so that
  a delete of the first and an insert of the second changeset take precedence; the last two are
  its \<open>unreachable!\<close> arms.
\<close>

function (sequential) compose_loop ::
  "changeset \<Rightarrow> operation list \<Rightarrow> operation list \<Rightarrow> changeset option" where
  "compose_loop result [] [] = Some result"
| "compose_loop result (Delete n # a) b = compose_loop (cs_delete result n) a b"
| "compose_loop result a (Insert ins # b) = compose_loop (cs_insert result (ins_text ins)) a b"
| "compose_loop result (Retain n # a) (Retain m # b) =
     (let len = min n m in
      compose_loop (cs_retain result len)
        (if n > len then Retain (n - len) # a else a)
        (if m > len then Retain (m - len) # b else b))"
| "compose_loop result (Insert ins # a) (Delete m # b) =
     (let len = min (ins_char_len ins) m in
      compose_loop result
        (if ins_char_len ins > len then Insert (snd (take_prefix ins len)) # a else a)
        (if m > len then Delete (m - len) # b else b))"
| "compose_loop result (Insert ins # a) (Retain m # b) =
     (let len = min (ins_char_len ins) m;
          (prefix, suffix_ins) = ins_split_at ins len in
      compose_loop (cs_insert result prefix)
        (if ins_char_len suffix_ins > 0 then Insert suffix_ins # a else a)
        (if m > len then Retain (m - len) # b else b))"
| "compose_loop result (Retain n # a) (Delete m # b) =
     (let len = min n m in
      compose_loop (cs_delete result len)
        (if n > len then Retain (n - len) # a else a)
        (if m > len then Delete (m - len) # b else b))"
| "compose_loop result [] (op # b) = None"
| "compose_loop result (op # a) [] = None"
  by pat_completeness auto
termination
  by (relation "measure (\<lambda>(result, a, b). length a + length b)")
    (auto simp: ins_split_at_def from_chars_def min_def split: if_splits)

definition cs_compose :: "changeset \<Rightarrow> changeset \<Rightarrow> changeset option" where
  "cs_compose a b =
     (if cs_len_after a \<noteq> cs_len b then None else compose_loop cs_builder (changes a) (changes b))"

section \<open>Specification predicates\<close>

fun op_wf :: "operation \<Rightarrow> bool" where
  "op_wf (Insert ins) = (ins_char_len ins = length (ins_text ins))"
| "op_wf _ = True"

fun in_len :: "operation list \<Rightarrow> nat" where
  "in_len [] = 0"
| "in_len (Retain n # ops) = n + in_len ops"
| "in_len (Delete n # ops) = n + in_len ops"
| "in_len (Insert ins # ops) = in_len ops"

fun out_len :: "operation list \<Rightarrow> nat" where
  "out_len [] = 0"
| "out_len (Retain n # ops) = n + out_len ops"
| "out_len (Delete n # ops) = out_len ops"
| "out_len (Insert ins # ops) = length (ins_text ins) + out_len ops"

definition cs_wf :: "changeset \<Rightarrow> bool" where
  "cs_wf cs \<longleftrightarrow> list_all op_wf (changes cs) \<and> cs_len cs = in_len (changes cs)
     \<and> cs_len_after cs = out_len (changes cs)"

fun edit_text :: "operation list \<Rightarrow> utext \<Rightarrow> utext" where
  "edit_text [] t = t"
| "edit_text (Retain n # ops) t = take n t @ edit_text ops (drop n t)"
| "edit_text (Delete n # ops) t = edit_text ops (drop n t)"
| "edit_text (Insert ins # ops) t = ins_text ins @ edit_text ops t"

fun op_proper :: "operation \<Rightarrow> bool" where
  "op_proper (Retain n) = (n > 0)"
| "op_proper (Delete n) = (n > 0)"
| "op_proper (Insert ins) = (ins_text ins \<noteq> [])"

fun op_follows :: "operation \<Rightarrow> operation \<Rightarrow> bool" where
  "op_follows (Retain _) (Retain _) = False"
| "op_follows (Delete _) (Delete _) = False"
| "op_follows (Insert _) (Insert _) = False"
| "op_follows (Delete _) (Insert _) = False"
| "op_follows _ _ = True"

definition canonical :: "operation list \<Rightarrow> bool" where
  "canonical ops \<longleftrightarrow> list_all op_proper ops \<and> successively op_follows ops"

abbreviation retain_rest :: "nat \<Rightarrow> nat \<Rightarrow> operation list \<Rightarrow> operation list" where
  "retain_rest n k ops \<equiv> if k < n then Retain (n - k) # ops else ops"

abbreviation delete_rest :: "nat \<Rightarrow> nat \<Rightarrow> operation list \<Rightarrow> operation list" where
  "delete_rest n k ops \<equiv> if k < n then Delete (n - k) # ops else ops"

definition composes :: "changeset \<Rightarrow> operation list \<Rightarrow> operation list \<Rightarrow> changeset option \<Rightarrow> bool" where
  "composes r a b res \<longleftrightarrow>
     (\<exists>r'. res = Some r' \<and> cs_wf r' \<and> canonical (changes r')
        \<and> cs_len r' = cs_len r + in_len a \<and> cs_len_after r' = cs_len_after r + out_len b
        \<and> (\<forall>u t. length u = cs_len r \<longrightarrow> length t = in_len a \<longrightarrow>
             edit_text (changes r') (u @ t) = edit_text (changes r) u @ edit_text b (edit_text a t)))"

fun kept :: "operation list \<Rightarrow> nat \<Rightarrow> bool" where
  "kept [] p = True"
| "kept (Retain n # ops) p = (p < n \<or> kept ops (p - n))"
| "kept (Delete n # ops) p = (n \<le> p \<and> kept ops (p - n))"
| "kept (Insert ins # ops) p = kept ops p"

abbreviation map_ops :: "operation list \<Rightarrow> nat \<Rightarrow> bias \<Rightarrow> nat" where
  "map_ops ops p b \<equiv> map_pos_loop ops p b 0 0"

section \<open>Lemmas\<close>

lemma in_len_append [simp]: "in_len (xs @ ys) = in_len xs + in_len ys"
  by (induction xs rule: in_len.induct) auto

lemma out_len_append [simp]: "out_len (xs @ ys) = out_len xs + out_len ys"
  by (induction xs rule: out_len.induct) auto

lemma edit_text_append:
  "length t = in_len xs \<Longrightarrow> edit_text (xs @ ys) (t @ u) = edit_text xs t @ edit_text ys u"
proof (induction xs arbitrary: t rule: in_len.induct)
  case (2 n ops)
  then show ?case using "2.IH" [of "drop n t"] by simp
next
  case (3 n ops)
  then show ?case using "3.IH" [of "drop n t"] by simp
qed auto

lemma length_edit_text: "length t = in_len ops \<Longrightarrow> length (edit_text ops t) = out_len ops"
  by (induction ops t rule: edit_text.induct) auto

lemma edit_text_snoc:
  "length t = in_len xs \<Longrightarrow> edit_text (xs @ ys) t = edit_text xs t @ edit_text ys []"
  using edit_text_append [of t xs ys "[]"] by simp

subsection \<open>The builder\<close>

lemma ins_new_simps [simp]:
  "ins_text (insertion_new s) = s" "ins_char_len (insertion_new s) = length s"
  "ins_text (ins_push_str i j) = ins_text i @ ins_text j"
  "ins_char_len (ins_push_str i j) = ins_char_len i + ins_char_len j"
  by (simp_all add: insertion_new_def ins_push_str_def)

lemma cs_builder_simps [simp]:
  "changes cs_builder = []" "cs_len cs_builder = 0" "cs_len_after cs_builder = 0"
  by (simp_all add: cs_builder_def)

lemma cs_builder_wf [wf_intros]: "cs_wf cs_builder"
  by (simp add: cs_wf_def)

lemma last_op_cases:
  obtains "ops = []" | before n where "ops = before @ [Retain n]"
  | before n where "ops = before @ [Delete n]" | before ins where "ops = before @ [Insert ins]"
  by (metis rev_exhaust operation.exhaust)

text \<open>What each builder call does to the operation list, by the last operation of the list.\<close>

lemma cs_retain_changes:
  "n > 0 \<Longrightarrow> changes (cs_retain cs n) =
     (case rev (changes cs) of Retain c # before \<Rightarrow> rev before @ [Retain (c + n)] | _ \<Rightarrow> changes cs @ [Retain n])"
  by (simp add: cs_retain_def)

lemma cs_retain_lens [simp]:
  "cs_len (cs_retain cs n) = cs_len cs + n" "cs_len_after (cs_retain cs n) = cs_len_after cs + n"
  by (simp_all add: cs_retain_def)

lemma cs_delete_lens [simp]:
  "cs_len (cs_delete cs n) = cs_len cs + n" "cs_len_after (cs_delete cs n) = cs_len_after cs"
  by (simp_all add: cs_delete_def)

lemma cs_insert_lens [simp]:
  "cs_len (cs_insert cs s) = cs_len cs" "cs_len_after (cs_insert cs s) = cs_len_after cs + length s"
  by (simp_all add: cs_insert_def Let_def)

lemma cs_retain_wf [wf_intros]: "cs_wf cs \<Longrightarrow> cs_wf (cs_retain cs n)"
  by (cases rule: last_op_cases [of "changes cs"]) (auto simp: cs_retain_def cs_wf_def)

lemma cs_delete_wf [wf_intros]: "cs_wf cs \<Longrightarrow> cs_wf (cs_delete cs n)"
  by (cases rule: last_op_cases [of "changes cs"]) (auto simp: cs_delete_def cs_wf_def)

lemma insert_before_delete_cases:
  obtains "ops = []" | before n where "ops = before @ [Retain n]"
  | before ins where "ops = before @ [Insert ins]"
  | before ins n where "ops = before @ [Insert ins, Delete n]"
  | before n where "ops = before @ [Delete n]" "\<And>b i. before \<noteq> b @ [Insert i]"
proof (cases rule: last_op_cases [of ops])
  case (3 before n)
  then show ?thesis using that(4,5) by (cases "\<exists>b i. before = b @ [Insert i]") auto
qed (use that in blast)+

lemma cs_insert_changes:
  assumes "s \<noteq> []"
  shows "changes cs = [] \<Longrightarrow> changes (cs_insert cs s) = [Insert (insertion_new s)]"
    and "changes cs = before @ [Retain n] \<Longrightarrow> changes (cs_insert cs s) = before @ [Retain n, Insert (insertion_new s)]"
    and "changes cs = before @ [Insert ins] \<Longrightarrow>
      changes (cs_insert cs s) = before @ [Insert (ins_push_str ins (insertion_new s))]"
    and "changes cs = before @ [Insert ins, Delete n] \<Longrightarrow>
      changes (cs_insert cs s) = before @ [Insert (ins_push_str ins (insertion_new s)), Delete n]"
    and "changes cs = before @ [Delete n] \<Longrightarrow> (\<And>b i. before \<noteq> b @ [Insert i]) \<Longrightarrow>
      changes (cs_insert cs s) = before @ [Insert (insertion_new s), Delete n]"
proof -
  assume "changes cs = before @ [Delete n]" and no: "\<And>b i. before \<noteq> b @ [Insert i]"
  then show "changes (cs_insert cs s) = before @ [Insert (insertion_new s), Delete n]"
    using assms by (cases rule: last_op_cases [of before]) (auto simp: cs_insert_def Let_def)
qed (use assms in \<open>auto simp: cs_insert_def Let_def\<close>)

lemma cs_insert_wf [wf_intros]: "cs_wf cs \<Longrightarrow> cs_wf (cs_insert cs s)"
proof (cases "s = []")
  case False
  assume "cs_wf cs"
  then show ?thesis
    using cs_insert_lens [of cs s]
    by (cases rule: insert_before_delete_cases [of "changes cs"])
      (auto simp: cs_wf_def cs_insert_changes [OF False])
qed (simp add: cs_insert_def)

lemma edit_text_split:
  "in_len xs \<le> length t \<Longrightarrow>
   edit_text (xs @ ys) t = edit_text xs (take (in_len xs) t) @ edit_text ys (drop (in_len xs) t)"
  using edit_text_append [of "take (in_len xs) t" xs ys "drop (in_len xs) t"] by simp

lemma edit_retain:
  assumes "length t = in_len (changes cs)" and "length u = n"
  shows "edit_text (changes (cs_retain cs n)) (t @ u) = edit_text (changes cs) t @ u"
proof (cases "n = 0")
  case False
  then show ?thesis using assms
    by (cases rule: last_op_cases [of "changes cs"]) (auto simp: cs_retain_def edit_text_split)
qed (use assms in \<open>simp add: cs_retain_def\<close>)

lemma edit_delete:
  assumes "length t = in_len (changes cs)" and "length u = n"
  shows "edit_text (changes (cs_delete cs n)) (t @ u) = edit_text (changes cs) t"
proof (cases "n = 0")
  case False
  then show ?thesis using assms
    by (cases rule: last_op_cases [of "changes cs"]) (auto simp: cs_delete_def edit_text_split)
qed (use assms in \<open>simp add: cs_delete_def\<close>)

lemma edit_insert:
  assumes "length t = in_len (changes cs)"
  shows "edit_text (changes (cs_insert cs s)) t = edit_text (changes cs) t @ s"
proof (cases "s = []")
  case False
  then show ?thesis using assms
    by (cases rule: insert_before_delete_cases [of "changes cs"])
      (auto simp: cs_insert_changes [OF False] edit_text_split)
qed (simp add: cs_insert_def)

lemma canonical_append:
  "canonical (xs @ ys) \<longleftrightarrow> canonical xs \<and> canonical ys \<and> (xs = [] \<or> ys = [] \<or> op_follows (last xs) (hd ys))"
  by (auto simp: canonical_def successively_append_iff)

lemma canonical_simps [simp]:
  "canonical []" "canonical [op] = op_proper op"
  "canonical (a # b # ops) \<longleftrightarrow> op_proper a \<and> op_follows a b \<and> canonical (b # ops)"
  by (auto simp: canonical_def)

lemma op_follows_new [simp]:
  "op_follows op (Retain m) = (\<forall>n. op \<noteq> Retain n)" "op_follows op (Delete m) = (\<forall>n. op \<noteq> Delete n)"
  "op_follows op (Insert i) = (\<exists>n. op = Retain n)"
  by (cases op; simp)+

lemma builder_canonical [wf_intros]:
  assumes "canonical (changes cs)"
  shows "canonical (changes (cs_retain cs n))" and "canonical (changes (cs_delete cs n))"
    and "canonical (changes (cs_insert cs s))"
proof -
  show "canonical (changes (cs_retain cs n))" using assms
    by (cases "n = 0"; cases rule: last_op_cases [of "changes cs"]) (auto simp: cs_retain_def canonical_append)
  show "canonical (changes (cs_delete cs n))" using assms
    by (cases "n = 0"; cases rule: last_op_cases [of "changes cs"]) (auto simp: cs_delete_def canonical_append)
  show "canonical (changes (cs_insert cs s))"
  proof (cases "s = []")
    case False
    show ?thesis
    proof (cases rule: insert_before_delete_cases [of "changes cs"])
      case (5 before n)
      then show ?thesis using assms False
        by (cases rule: last_op_cases [of before]) (auto simp: cs_insert_changes [OF False] canonical_append)
    qed (use assms False in \<open>auto simp: cs_insert_changes [OF False] canonical_append\<close>)
  qed (use assms in \<open>simp add: cs_insert_def\<close>)
qed

subsection \<open>Applying a changeset\<close>

lemma apply_ops_edit:
  assumes R: "rope_ok R"
  shows "rp_chars R doc = pre @ t \<Longrightarrow> list_all op_wf ops \<Longrightarrow> in_len ops \<le> length t \<Longrightarrow> pos = length pre \<Longrightarrow>
    \<exists>doc'. apply_ops R ops pos doc = Some doc' \<and> rp_chars R doc' = pre @ edit_text ops t"
proof (induction ops arbitrary: doc pre t pos rule: in_len.induct)
  case 1
  then show ?case by simp
next
  case (2 n ops)
  then show ?case
    using "2.IH" [of doc "pre @ take n t" "drop n t" "pos + n"] by simp
next
  case (3 n ops)
  obtain d where d: "rp_remove R doc pos (pos + n) = Some d"
    "rp_chars R d = take pos (rp_chars R doc) @ drop (pos + n) (rp_chars R doc)"
    using "3.prems" by (auto intro: rope_remove [OF R, of pos "pos + n" doc])
  then have "rp_chars R d = pre @ drop n t" using "3.prems" by simp
  then show ?case using "3.prems" "3.IH" [of d pre "drop n t" pos] d by simp
next
  case (4 ins ops)
  obtain d where d: "rp_insert R doc pos (ins_text ins) = Some d"
    "rp_chars R d = take pos (rp_chars R doc) @ ins_text ins @ drop pos (rp_chars R doc)"
    using "4.prems" by (auto intro: rope_insert [OF R, of pos doc "ins_text ins"])
  then have "rp_chars R d = (pre @ ins_text ins) @ t" using "4.prems" by simp
  then show ?case using "4.prems" "4.IH" [of d "pre @ ins_text ins" t "pos + ins_char_len ins"] d by simp
qed

lemma cs_apply_edit:
  assumes "rope_ok R" and "cs_wf cs" and "cs_len cs = length (rp_chars R doc)"
  obtains doc' where "cs_apply R cs doc = Some doc'"
    and "rp_chars R doc' = edit_text (changes cs) (rp_chars R doc)"
  using apply_ops_edit [of R doc "[]" "rp_chars R doc" "changes cs" 0] assms
  by (auto simp: cs_apply_def cs_wf_def)

subsection \<open>Inversion\<close>

lemma invert_ops_correct:
  assumes R: "rope_ok R"
  shows "rp_chars R doc = pre @ t \<Longrightarrow> pos = length pre \<Longrightarrow> list_all op_wf ops \<Longrightarrow> in_len ops \<le> length t \<Longrightarrow>
    cs_wf r \<Longrightarrow> canonical (changes r) \<Longrightarrow>
    \<exists>r'. invert_ops R doc ops pos r = Some r' \<and> cs_wf r' \<and> canonical (changes r')
      \<and> cs_len r' = cs_len r + out_len ops \<and> cs_len_after r' = cs_len_after r + in_len ops
      \<and> (\<forall>u. length u = cs_len r \<longrightarrow>
           edit_text (changes r') (u @ edit_text ops (take (in_len ops) t))
             = edit_text (changes r) u @ take (in_len ops) t)"
proof (induction ops arbitrary: pre t pos r rule: in_len.induct)
  case 1
  then show ?case by simp
next
  case (2 n ops)
  let ?r = "cs_retain r n"
  have wf: "cs_wf ?r" "canonical (changes ?r)" "in_len ops \<le> length t - n"
    using "2.prems" by (auto intro: wf_intros)
  obtain r' where r': "invert_ops R doc ops (pos + n) ?r = Some r'" "cs_wf r'" "canonical (changes r')"
    "cs_len r' = cs_len ?r + out_len ops" "cs_len_after r' = cs_len_after ?r + in_len ops"
    and e: "\<And>u. length u = cs_len ?r \<Longrightarrow> edit_text (changes r') (u @ edit_text ops (take (in_len ops) (drop n t)))
      = edit_text (changes ?r) u @ take (in_len ops) (drop n t)"
    using "2.IH" [of "pre @ take n t" "drop n t" "pos + n" ?r] "2.prems" wf by auto
  have "edit_text (changes r') (u @ take n t @ edit_text ops (take (in_len ops) (drop n t)))
      = edit_text (changes r) u @ take (n + in_len ops) t" if "length u = cs_len r" for u
    using e [of "u @ take n t"] edit_retain [of u r "take n t" n] that "2.prems"
    by (simp add: cs_wf_def take_add)
  with r' show ?case by (simp add: take_drop min_def add.commute)
next
  case (3 n ops)
  let ?d = "take n t" and ?r = "cs_insert r (take n t)"
  have d: "rp_slice R doc pos (pos + n) = Some ?d" using "3.prems" R by (simp add: rope_slice)
  have wf: "cs_wf ?r" "canonical (changes ?r)" "in_len ops \<le> length t - n"
    using "3.prems" by (auto intro: wf_intros)
  obtain r' where r': "invert_ops R doc ops (pos + n) ?r = Some r'" "cs_wf r'" "canonical (changes r')"
    "cs_len r' = cs_len ?r + out_len ops" "cs_len_after r' = cs_len_after ?r + in_len ops"
    and e: "\<And>u. length u = cs_len ?r \<Longrightarrow> edit_text (changes r') (u @ edit_text ops (take (in_len ops) (drop n t)))
      = edit_text (changes ?r) u @ take (in_len ops) (drop n t)"
    using "3.IH" [of "pre @ take n t" "drop n t" "pos + n" ?r] "3.prems" wf by auto
  have "edit_text (changes r') (u @ edit_text ops (take (in_len ops) (drop n t)))
      = edit_text (changes r) u @ take (n + in_len ops) t" if "length u = cs_len r" for u
    using e [of u] edit_insert [of u r ?d] that "3.prems" by (simp add: cs_wf_def take_add)
  with r' d "3.prems" show ?case by (simp add: take_drop add.commute)
next
  case (4 ins ops)
  let ?r = "cs_delete r (ins_char_len ins)"
  have wf: "cs_wf ?r" "canonical (changes ?r)" using "4.prems" by (auto intro: wf_intros)
  obtain r' where r': "invert_ops R doc ops pos ?r = Some r'" "cs_wf r'" "canonical (changes r')"
    "cs_len r' = cs_len ?r + out_len ops" "cs_len_after r' = cs_len_after ?r + in_len ops"
    and e: "\<And>u. length u = cs_len ?r \<Longrightarrow> edit_text (changes r') (u @ edit_text ops (take (in_len ops) t))
      = edit_text (changes ?r) u @ take (in_len ops) t"
    using "4.IH" [of pre t pos ?r] "4.prems" wf by auto
  have "edit_text (changes r') (u @ ins_text ins @ edit_text ops (take (in_len ops) t))
      = edit_text (changes r) u @ take (in_len ops) t" if "length u = cs_len r" for u
    using e [of "u @ ins_text ins"] edit_delete [of u r "ins_text ins" "ins_char_len ins"] that "4.prems"
    by (simp add: cs_wf_def)
  with r' "4.prems" show ?case by simp
qed


lemma cs_invert_correct:
  assumes "rope_ok R" and "cs_wf cs" and "cs_len cs = length (rp_chars R doc)"
  obtains inv where "cs_invert R cs doc = Some inv" and "cs_wf inv" and "canonical (changes inv)"
    and "cs_len inv = cs_len_after cs" and "cs_len_after inv = cs_len cs"
    and "edit_text (changes inv) (edit_text (changes cs) (rp_chars R doc)) = rp_chars R doc"
  using invert_ops_correct [of R doc "[]" "rp_chars R doc" 0 "changes cs" cs_builder] assms cs_builder_wf
  by (auto simp: cs_invert_def cs_wf_def)

subsection \<open>Composition\<close>

lemma take_split: "m \<le> n \<Longrightarrow> take n t = take m t @ take (n - m) (drop m t)"
  using take_add [of m "n - m" t] by simp

lemma edit_text_retain_rest:
  "k \<le> n \<Longrightarrow> edit_text (Retain n # ops) t = take k t @ edit_text (retain_rest n k ops) (drop k t)"
  by (auto simp: take_split [of k n])

lemma edit_text_delete_rest:
  "k \<le> n \<Longrightarrow> edit_text (Delete n # ops) t = edit_text (delete_rest n k ops) (drop k t)"
  by auto

text \<open>
  The state of the composition loop: the operations produced so far turn the consumed prefix of
  the input into the consumed prefix of the output, and the rest is the two edits in sequence.
\<close>

lemma composes_step:
  assumes "composes r2 a2 b2 res"
    and "cs_len r2 = cs_len r + k" and "in_len a = k + in_len a2"
    and "cs_len_after r2 + out_len b2 = cs_len_after r + out_len b"
    and "\<And>u t. length u = cs_len r \<Longrightarrow> length t = in_len a \<Longrightarrow>
           edit_text (changes r2) (u @ take k t) @ edit_text b2 (edit_text a2 (drop k t))
             = edit_text (changes r) u @ edit_text b (edit_text a t)"
  shows "composes r a b res"
proof -
  obtain r' where r': "res = Some r'" "cs_wf r'" "canonical (changes r')"
    "cs_len r' = cs_len r2 + in_len a2" "cs_len_after r' = cs_len_after r2 + out_len b2"
    and e: "\<And>u t. length u = cs_len r2 \<Longrightarrow> length t = in_len a2 \<Longrightarrow>
      edit_text (changes r') (u @ t) = edit_text (changes r2) u @ edit_text b2 (edit_text a2 t)"
    using assms(1) by (auto simp: composes_def)
  have "edit_text (changes r') (u @ t) = edit_text (changes r) u @ edit_text b (edit_text a t)"
    if "length u = cs_len r" "length t = in_len a" for u t
    using e [of "u @ take k t" "drop k t"] assms(2,3) assms(5) [OF that] that by simp
  with r' assms(2-4) show ?thesis by (simp add: composes_def)
qed

lemma composes_delete:
  assumes "composes (cs_delete r n) a b res" and "cs_wf r"
  shows "composes r (Delete n # a) b res"
  using assms(2)
  by (intro composes_step [where k = n, OF assms(1)]) (auto simp: edit_delete cs_wf_def)

lemma composes_insert:
  assumes "composes (cs_insert r (ins_text ins)) a b res" and "cs_wf r"
  shows "composes r a (Insert ins # b) res"
  using assms(2)
  by (intro composes_step [where k = 0, OF assms(1)]) (auto simp: edit_insert cs_wf_def)

lemma composes_retain_retain:
  assumes "composes (cs_retain r k) (retain_rest n k a) (retain_rest m k b) res"
    and "cs_wf r" and "k \<le> n" and "k \<le> m"
  shows "composes r (Retain n # a) (Retain m # b) res"
proof (rule composes_step [where k = k, OF assms(1)])
  fix u t :: utext
  assume u: "length u = cs_len r" and t: "length t = in_len (Retain n # a)"
  have "edit_text (changes (cs_retain r k)) (u @ take k t) = edit_text (changes r) u @ take k t"
    using edit_retain [of u r "take k t" k] u t assms by (auto simp: cs_wf_def)
  moreover have "k \<le> length t" using t assms by simp
  ultimately show "edit_text (changes (cs_retain r k)) (u @ take k t) @
      edit_text (retain_rest m k b) (edit_text (retain_rest n k a) (drop k t))
      = edit_text (changes r) u @ edit_text (Retain m # b) (edit_text (Retain n # a) t)"
    by (simp add: edit_text_retain_rest [OF assms(3)] edit_text_retain_rest [OF assms(4)] del: edit_text.simps)
qed (use assms in auto)

lemma composes_retain_delete:
  assumes "composes (cs_delete r k) (retain_rest n k a) (delete_rest m k b) res"
    and "cs_wf r" and "k \<le> n" and "k \<le> m"
  shows "composes r (Retain n # a) (Delete m # b) res"
proof (rule composes_step [where k = k, OF assms(1)])
  fix u t :: utext
  assume u: "length u = cs_len r" and t: "length t = in_len (Retain n # a)"
  have "edit_text (changes (cs_delete r k)) (u @ take k t) = edit_text (changes r) u"
    using edit_delete [of u r "take k t" k] u t assms by (auto simp: cs_wf_def)
  moreover have "k \<le> length t" using t assms by simp
  ultimately show "edit_text (changes (cs_delete r k)) (u @ take k t) @
      edit_text (delete_rest m k b) (edit_text (retain_rest n k a) (drop k t))
      = edit_text (changes r) u @ edit_text (Delete m # b) (edit_text (Retain n # a) t)"
    by (simp add: edit_text_retain_rest [OF assms(3)] edit_text_delete_rest [OF assms(4)] del: edit_text.simps)
qed (use assms in auto)

lemma edit_text_insert_rest:
  assumes "op_wf (Insert ins)" and "k \<le> ins_char_len ins"
    and "ins_text rest = drop k (ins_text ins)" and "ops' = (if k < ins_char_len ins then Insert rest # ops else ops)"
  shows "edit_text (Insert ins # ops) t = take k (ins_text ins) @ edit_text ops' t"
  using assms by auto

lemma composes_insert_delete:
  assumes "composes r a' (delete_rest m k b) res"
    and wf: "cs_wf r" "op_wf (Insert ins)" and "k \<le> ins_char_len ins" "k \<le> m"
    and a': "a' = (if k < ins_char_len ins then Insert (snd (take_prefix ins k)) # a else a)"
  shows "composes r (Insert ins # a) (Delete m # b) res"
proof (rule composes_step [where k = 0, OF assms(1)])
  fix u t :: utext
  have "edit_text (Insert ins # a) t = take k (ins_text ins) @ edit_text a' t"
    by (rule edit_text_insert_rest [OF wf(2) assms(4) _ a']) (simp add: take_prefix_def)
  moreover have "k \<le> length (ins_text ins)" using assms by simp
  ultimately show "edit_text (changes r) (u @ take 0 t) @ edit_text (delete_rest m k b) (edit_text a' (drop 0 t))
      = edit_text (changes r) u @ edit_text (Delete m # b) (edit_text (Insert ins # a) t)"
    by (simp add: edit_text_delete_rest [OF assms(5)] del: edit_text.simps)
qed (use assms in auto)

lemma composes_insert_retain:
  assumes "composes (cs_insert r (take k (ins_text ins))) a' (retain_rest m k b) res"
    and wf: "cs_wf r" "op_wf (Insert ins)" and "k \<le> ins_char_len ins" "k \<le> m"
    and a': "a' = (if k < ins_char_len ins then Insert (from_chars (drop k (ins_text ins)) (ins_char_len ins - k)) # a else a)"
  shows "composes r (Insert ins # a) (Retain m # b) res"
proof (rule composes_step [where k = 0, OF assms(1)])
  fix u t :: utext
  assume u: "length u = cs_len r"
  have "edit_text (Insert ins # a) t = take k (ins_text ins) @ edit_text a' t"
    by (rule edit_text_insert_rest [OF wf(2) assms(4) _ a']) (simp add: from_chars_def)
  moreover have "k \<le> length (ins_text ins)" using assms by simp
  moreover have "edit_text (changes (cs_insert r (take k (ins_text ins)))) u
      = edit_text (changes r) u @ take k (ins_text ins)"
    using edit_insert [of u r] u wf(1) by (simp add: cs_wf_def)
  ultimately show "edit_text (changes (cs_insert r (take k (ins_text ins)))) (u @ take 0 t) @
      edit_text (retain_rest m k b) (edit_text a' (drop 0 t))
      = edit_text (changes r) u @ edit_text (Retain m # b) (edit_text (Insert ins # a) t)"
    by (simp add: edit_text_retain_rest [OF assms(5)] del: edit_text.simps)
qed (use assms in auto)

lemma compose_loop_correct:
  "cs_wf r \<Longrightarrow> canonical (changes r) \<Longrightarrow> list_all op_wf a \<Longrightarrow> list_all op_proper a \<Longrightarrow>
   list_all op_wf b \<Longrightarrow> list_all op_proper b \<Longrightarrow> out_len a = in_len b \<Longrightarrow>
   composes r a b (compose_loop r a b)"
proof (induction r a b rule: compose_loop.induct
    [case_names both_empty del ins_end ins_retain ins_insert retain_retain insert_delete insert_retain retain_delete
      over_retain over_delete left_retain left_insert])
  case (both_empty r)
  then show ?case by (auto simp: composes_def)
next
  case (del r n a b)
  then show ?case by (auto intro!: composes_delete wf_intros)
next
  case (ins_end r ins b)
  then show ?case by (auto intro!: composes_insert wf_intros)
next
  case (ins_retain r n a ins b)
  then show ?case by (auto intro!: composes_insert wf_intros)
next
  case (ins_insert r i a ins b)
  then show ?case by (auto intro!: composes_insert wf_intros)
next
  case (retain_retain r n a m b)
  show ?case
    unfolding compose_loop.simps Let_def
    by (rule composes_retain_retain [OF retain_retain.IH [OF refl]])
      (use retain_retain.prems in \<open>auto simp: min_def intro!: wf_intros split: if_splits\<close>)
next
  case (insert_delete r ins a m b)
  show ?case
    unfolding compose_loop.simps Let_def
    by (rule composes_insert_delete [OF insert_delete.IH [OF refl]])
      (use insert_delete.prems in \<open>auto simp: take_prefix_def min_def split: if_splits\<close>)
next
  case (insert_retain r ins a m b)
  show ?case
    unfolding compose_loop.simps Let_def ins_split_at_def prod.case
    by (rule composes_insert_retain [OF insert_retain.IH [OF refl refl]])
      (use insert_retain.prems in \<open>auto simp: ins_split_at_def from_chars_def min_def intro!: wf_intros split: if_splits\<close>)
next
  case (retain_delete r n a m b)
  show ?case
    unfolding compose_loop.simps Let_def
    by (rule composes_retain_delete [OF retain_delete.IH [OF refl]])
      (use retain_delete.prems in \<open>auto simp: min_def intro!: wf_intros split: if_splits\<close>)
qed auto

subsection \<open>Mapping positions\<close>

lemma map_pos_loop_relative:
  "old \<le> pos \<Longrightarrow> map_pos_loop ops pos b old new = new + map_ops ops (pos - old) b"
proof (induction ops arbitrary: old new pos rule: in_len.induct)
  case (2 n ops)
  show ?case using "2.prems" "2.IH" [of "old + n" pos "new + n"] "2.IH" [of n "pos - old" n] by auto
next
  case (3 n ops)
  show ?case using "3.prems" "3.IH" [of "old + n" pos new] "3.IH" [of n "pos - old" 0] by auto
next
  case (4 ins ops)
  show ?case
    using "4.prems" "4.IH" [of old pos "new + ins_char_len ins"] "4.IH" [of 0 "pos - old" "ins_char_len ins"] by auto
qed simp

lemma map_ops_simps [simp]:
  "map_ops (Insert ins # ops) p b = (if p = 0 \<and> b = BLeft then 0 else ins_char_len ins + map_ops ops p b)"
  "map_ops (Retain n # ops) p b = (if p < n then p else n + map_ops ops (p - n) b)"
  "map_ops (Delete n # ops) p b = (if p < n then 0 else map_ops ops (p - n) b)"
proof -
  show "map_ops (Insert ins # ops) p b = (if p = 0 \<and> b = BLeft then 0 else ins_char_len ins + map_ops ops p b)"
    using map_pos_loop_relative [of 0 p ops b "ins_char_len ins"] by auto
  show "map_ops (Retain n # ops) p b = (if p < n then p else n + map_ops ops (p - n) b)"
    using map_pos_loop_relative [of n p ops b n] by simp
  show "map_ops (Delete n # ops) p b = (if p < n then 0 else map_ops ops (p - n) b)"
    using map_pos_loop_relative [of n p ops b 0] by simp
qed

declare map_pos_loop.simps(2-4) [simp del]

lemma map_ops_left_0 [simp]: "map_ops ops 0 BLeft = 0"
  by (induction ops rule: in_len.induct) auto

lemma map_ops_past_end:
  "list_all op_wf ops \<Longrightarrow> in_len ops < p \<Longrightarrow> map_ops ops p b = out_len ops + (p - in_len ops)"
  by (induction ops arbitrary: p rule: in_len.induct) auto

lemma map_ops_bound:
  "list_all op_wf ops \<Longrightarrow> p \<le> in_len ops \<Longrightarrow> map_ops ops p b \<le> out_len ops"
  by (induction ops arbitrary: p rule: in_len.induct) auto

lemma map_ops_bias: "map_ops ops p BLeft \<le> map_ops ops p BRight"
  by (induction ops arbitrary: p rule: in_len.induct) auto

lemma map_ops_mono: "p \<le> q \<Longrightarrow> map_ops ops p b \<le> map_ops ops q b"
proof (induction ops arbitrary: p q rule: in_len.induct)
  case (2 n ops)
  then show ?case using "2.IH" [of "p - n" "q - n"] by auto
next
  case (3 n ops)
  then show ?case using "3.IH" [of "p - n" "q - n"] by auto
qed auto

lemma map_ops_right_keeps:
  "list_all op_wf ops \<Longrightarrow> in_len ops \<le> length t \<Longrightarrow> p < length t \<Longrightarrow> kept ops p \<Longrightarrow>
   map_ops ops p BRight < length (edit_text ops t) \<and> edit_text ops t ! map_ops ops p BRight = t ! p"
proof (induction ops arbitrary: p t rule: in_len.induct)
  case (2 n ops)
  then show ?case using "2.IH" [of "drop n t" "p - n"] by (auto simp: nth_append)
next
  case (3 n ops)
  then show ?case using "3.IH" [of "drop n t" "p - n"] by auto
qed (auto simp: nth_append)

lemma map_ops_left_keeps:
  "list_all op_wf ops \<Longrightarrow> in_len ops \<le> length t \<Longrightarrow> 0 < p \<Longrightarrow> p \<le> length t \<Longrightarrow> kept ops (p - 1) \<Longrightarrow>
   0 < map_ops ops p BLeft \<and> map_ops ops p BLeft \<le> length (edit_text ops t) \<and>
   edit_text ops t ! (map_ops ops p BLeft - 1) = t ! (p - 1)"
proof (induction ops arbitrary: p t rule: in_len.induct)
  case (2 n ops)
  show ?case
  proof (cases "p \<le> n")
    case True
    then show ?thesis using "2.prems" by (cases "p = n") (auto simp: nth_append)
  next
    case False
    then have "0 < map_ops ops (p - n) BLeft \<and> map_ops ops (p - n) BLeft \<le> length (edit_text ops (drop n t))
        \<and> edit_text ops (drop n t) ! (map_ops ops (p - n) BLeft - 1) = drop n t ! (p - n - 1)"
      using "2.prems" by (intro "2.IH") (auto simp: diff_diff_left)
    then show ?thesis using False "2.prems" by (auto simp: nth_append)
  qed
next
  case (3 n ops)
  then show ?case using "3.IH" [of "drop n t" "p - n"] by auto
next
  case (4 ins ops)
  have "0 < map_ops ops p BLeft \<and> map_ops ops p BLeft \<le> length (edit_text ops t) \<and>
      edit_text ops t ! (map_ops ops p BLeft - 1) = t ! (p - 1)"
    using "4.prems" by (intro "4.IH") simp_all
  then show ?case using "4.prems" by (auto simp: nth_append)
qed simp

lemma cs_compose_spec:
  assumes "cs_wf a" and "canonical (changes a)" and "cs_wf b" and "canonical (changes b)"
  shows "if cs_len_after a = cs_len b
    then \<exists>c. cs_compose a b = Some c \<and> cs_wf c \<and> canonical (changes c) \<and>
        cs_len c = cs_len a \<and> cs_len_after c = cs_len_after b \<and>
        (\<forall>t. length t = cs_len a \<longrightarrow>
           edit_text (changes c) t = edit_text (changes b) (edit_text (changes a) t))
    else cs_compose a b = None"
proof (cases "cs_len_after a = cs_len b")
  case True
  then have "composes cs_builder (changes a) (changes b) (compose_loop cs_builder (changes a) (changes b))"
    using assms by (intro compose_loop_correct) (auto simp: cs_wf_def canonical_def)
  with True assms show ?thesis by (auto simp: cs_compose_def composes_def cs_wf_def)
qed (simp add: cs_compose_def)

section \<open>Properties\<close>

text \<open>
  C8. The builder. Whatever changeset a caller has built so far, each of \<open>retain\<close>, \<open>delete\<close> and
  \<open>insert\<close> keeps the cached lengths equal to what the operations consume and produce, keeps the
  canonical form (no empty operation, no two operations of the same kind in a row, no insert after
  a delete), and appends its meaning to the edit: the characters retained, dropped or inserted.
\<close>

theorem builder_correct:
  assumes "cs_wf cs" and "canonical (changes cs)" and "length t = cs_len cs"
  shows "cs_wf (cs_retain cs n) \<and> cs_wf (cs_delete cs n) \<and> cs_wf (cs_insert cs s) \<and>
     canonical (changes (cs_retain cs n)) \<and> canonical (changes (cs_delete cs n)) \<and>
     canonical (changes (cs_insert cs s)) \<and>
     (\<forall>u. length u = n \<longrightarrow> edit_text (changes (cs_retain cs n)) (t @ u) = edit_text (changes cs) t @ u) \<and>
     (\<forall>u. length u = n \<longrightarrow> edit_text (changes (cs_delete cs n)) (t @ u) = edit_text (changes cs) t) \<and>
     edit_text (changes (cs_insert cs s)) t = edit_text (changes cs) t @ s"
proof -
  have "length t = in_len (changes cs)" using assms by (simp add: cs_wf_def)
  with assms show ?thesis by (simp add: edit_retain edit_delete edit_insert wf_intros)
qed

theorem builder_correct_witness:
  "changes (cs_insert (cs_delete (cs_retain cs_builder 1) 2) [7]) = [Retain 1, Insert (insertion_new [7]), Delete 2]
   \<and> edit_text (changes (cs_insert (cs_delete (cs_retain cs_builder 1) 2) [7])) [4, 5, 6] = [4, 7]"
  using builder_correct [of "cs_delete (cs_retain cs_builder 1) 2" "[4, 5, 6]" 0 "[7]"]
  by (simp add: cs_wf_def cs_delete_def cs_retain_def cs_insert_def Let_def)

text \<open>
  C1. Applying a well-formed changeset to a document of the length it was made for never panics
  and computes exactly the edit it denotes; the result has the length the changeset announces.
\<close>

theorem apply_refines_edit:
  assumes "rope_ok R" and "cs_wf cs" and "cs_len cs = length (rp_chars R doc)"
  shows "\<exists>doc'. cs_apply R cs doc = Some doc' \<and>
     rp_chars R doc' = edit_text (changes cs) (rp_chars R doc) \<and>
     length (rp_chars R doc') = cs_len_after cs"
  using cs_apply_edit [OF assms] length_edit_text [of "rp_chars R doc" "changes cs"] assms
  by (metis cs_wf_def)

theorem apply_refines_edit_witness:
  "cs_apply list_rope (cs_insert (cs_retain (cs_builder) 2) [9]) [7, 8] = Some [7, 8, 9]"
  using apply_refines_edit [of list_rope "cs_insert (cs_retain (cs_builder) 2) [9]" "[7, 8]"]
  by (simp add: cs_wf_def cs_retain_def cs_insert_def Let_def)

text \<open>
  C2. Undo: the inverse computed from the document before the change never panics, is again
  well-formed and canonical, fits the changed document and restores the original text when it is
  applied there.
\<close>

theorem invert_roundtrip:
  assumes "rope_ok R" and "cs_wf cs" and "cs_len cs = length (rp_chars R doc)"
  shows "\<exists>inv doc' doc''. cs_invert R cs doc = Some inv \<and> cs_wf inv \<and> canonical (changes inv) \<and>
     cs_len inv = cs_len_after cs \<and> cs_len_after inv = cs_len cs \<and>
     cs_apply R cs doc = Some doc' \<and> cs_apply R inv doc' = Some doc'' \<and> rp_chars R doc'' = rp_chars R doc"
proof -
  obtain inv where inv: "cs_invert R cs doc = Some inv" "cs_wf inv" "canonical (changes inv)"
    "cs_len inv = cs_len_after cs" "cs_len_after inv = cs_len cs"
    "edit_text (changes inv) (edit_text (changes cs) (rp_chars R doc)) = rp_chars R doc"
    by (rule cs_invert_correct [OF assms])
  obtain doc' where doc': "cs_apply R cs doc = Some doc'"
    "rp_chars R doc' = edit_text (changes cs) (rp_chars R doc)"
    by (rule cs_apply_edit [OF assms])
  have "cs_len inv = length (rp_chars R doc')"
    using inv doc' assms length_edit_text by (simp add: cs_wf_def)
  then obtain doc'' where "cs_apply R inv doc' = Some doc''"
    "rp_chars R doc'' = edit_text (changes inv) (rp_chars R doc')"
    using cs_apply_edit [OF assms(1) inv(2)] by blast
  with inv doc' show ?thesis by metis
qed

theorem invert_roundtrip_witness:
  "cs_invert list_rope (cs_insert (cs_delete (cs_retain cs_builder 1) 2) [7]) [4, 5, 6]
     = Some \<lparr> changes = [Retain 1, Insert (insertion_new [5, 6]), Delete 1], cs_len = 2, cs_len_after = 3 \<rparr> \<and>
   (\<exists>inv. cs_invert list_rope (cs_insert (cs_delete (cs_retain cs_builder 1) 2) [7]) [4, 5, 6] = Some inv \<and>
     cs_apply list_rope inv [4, 7] = Some [4, 5, 6])"
  using invert_roundtrip [of list_rope "cs_insert (cs_delete (cs_retain cs_builder 1) 2) [7]" "[4, 5, 6]"]
  by (simp add: cs_wf_def cs_retain_def cs_delete_def cs_insert_def Let_def cs_invert_def list_rope_def
      cs_builder_def insertion_new_def cs_apply_def)

text \<open>
  C3. Composition. For two changesets in the builder's form whose lengths fit, \<open>compose\<close> returns
  (it takes neither of its unreachable arms), its result is well-formed and canonical, and applying
  it is applying the first changeset and then the second. When the lengths do not fit it panics.
\<close>

theorem compose_correct:
  assumes "cs_wf a" and "canonical (changes a)" and "cs_wf b" and "canonical (changes b)"
  shows "if cs_len_after a = cs_len b
    then \<exists>c. cs_compose a b = Some c \<and> cs_wf c \<and> canonical (changes c) \<and>
        cs_len c = cs_len a \<and> cs_len_after c = cs_len_after b \<and>
        (\<forall>t. length t = cs_len a \<longrightarrow>
           edit_text (changes c) t = edit_text (changes b) (edit_text (changes a) t))
    else cs_compose a b = None"
  using assms by (rule cs_compose_spec)

theorem compose_correct_witness:
  "\<exists>c. cs_compose (cs_insert (cs_retain cs_builder 2) [7]) (cs_retain (cs_delete cs_builder 1) 2) = Some c \<and>
     edit_text (changes c) [4, 5] = [5, 7]"
  using compose_correct [of "cs_insert (cs_retain cs_builder 2) [7]" "cs_retain (cs_delete cs_builder 1) 2"]
  by (auto simp: cs_wf_def cs_retain_def cs_delete_def cs_insert_def Let_def)

text \<open>
  C9. Position mapping. Mapped positions stay in the new document (the end maps into it, and a
  position past the end keeps its distance), mapping is monotone, and the biases order: the left
  image is at most the right image. A kept character is found at the right image of its position,
  and the character before a position at the left image if it is kept.
\<close>

theorem map_pos_correct:
  assumes "cs_wf cs" and "length t = cs_len cs"
  shows "(p \<le> cs_len cs \<longrightarrow> map_pos cs p b \<le> cs_len_after cs) \<and>
     (cs_len cs < p \<longrightarrow> map_pos cs p b = cs_len_after cs + (p - cs_len cs)) \<and>
     (p \<le> q \<longrightarrow> map_pos cs p b \<le> map_pos cs q b) \<and>
     map_pos cs p BLeft \<le> map_pos cs p BRight \<and>
     (p < cs_len cs \<and> kept (changes cs) p \<longrightarrow>
        map_pos cs p BRight < cs_len_after cs \<and> edit_text (changes cs) t ! map_pos cs p BRight = t ! p) \<and>
     (0 < p \<and> p \<le> cs_len cs \<and> kept (changes cs) (p - 1) \<longrightarrow>
        0 < map_pos cs p BLeft \<and> edit_text (changes cs) t ! (map_pos cs p BLeft - 1) = t ! (p - 1))"
  using assms map_ops_bound [of "changes cs" p b] map_ops_past_end [of "changes cs" p b]
    map_ops_mono [of p q "changes cs" b] map_ops_bias [of "changes cs" p]
    map_ops_right_keeps [of "changes cs" t p] map_ops_left_keeps [of "changes cs" t p]
    length_edit_text [of t "changes cs"]
  unfolding map_pos_def cs_wf_def by simp

theorem map_pos_correct_witness:
  "map_pos (cs_retain (cs_insert (cs_retain cs_builder 1) [7]) 1) 1 BRight = 2 \<and>
   edit_text (changes (cs_retain (cs_insert (cs_retain cs_builder 1) [7]) 1)) [4, 5] ! 2 = [4, 5] ! 1"
  using map_pos_correct [of "cs_retain (cs_insert (cs_retain cs_builder 1) [7]) 1" "[4, 5]" 1]
  by (simp add: cs_wf_def cs_retain_def cs_insert_def Let_def map_pos_def)

end
