(* ===== verification/Transactions.thy ===== *)
theory Transactions
  imports Selections ChangeSets
begin

text \<open>
  Transactions, \<open>crates/primitives/src/transaction/mod.rs\<close>: a changeset with an optional selection
  to install afterwards. \<open>tx_change\<close> turns a list of replacements into a changeset and panics on
  the three assertions of the code; \<open>tx_insert\<close> and \<open>tx_delete\<close> make such lists from a selection;
  \<open>map_selection\<close> carries a selection over an edit.

  The lemmas give each constructor an independent meaning on the text (\<open>splice_changes\<close> for a list of
  replacements, \<open>insert_at\<close> for multi-cursor insertion, removing the covered cells for deletion),
  show exactly when \<open>tx_change\<close> panics, and show that the selection-driven constructors never do.
\<close>

section \<open>Data and operations\<close>

record change =
  ch_start :: CharIdx
  ch_end :: CharIdx
  replacement :: "utext option"

record transaction =
  tx_changes :: changeset
  tx_selection :: "selection option"

definition tx_new :: "'r rope_ops \<Rightarrow> 'r \<Rightarrow> transaction" where
  "tx_new R doc = \<lparr> tx_changes = cs_new R doc, tx_selection = None \<rparr>"

text \<open>The loop of \<open>change\<close>, with the builder, the end of the last change and the three assertions.\<close>

fun change_loop :: "nat \<Rightarrow> changeset \<Rightarrow> CharIdx \<Rightarrow> change list \<Rightarrow> (changeset \<times> CharIdx) option" where
  "change_loop doc_len cs lst [] = Some (cs, lst)"
| "change_loop doc_len cs lst (c # rest) =
     (let from = ch_start c; to = min (ch_end c) doc_len in
      if \<not> from \<le> doc_len then None
      else if \<not> from \<le> to then None
      else if \<not> from \<ge> lst then None
      else
        let cs = (if from > lst then cs_retain cs (from - lst) else cs);
            cs = (if to > from then cs_delete cs (to - from) else cs);
            cs = (case replacement c of Some text \<Rightarrow> cs_insert cs text | None \<Rightarrow> cs)
        in change_loop doc_len cs to rest)"

definition tx_change :: "'r rope_ops \<Rightarrow> 'r \<Rightarrow> change list \<Rightarrow> transaction option" where
  "tx_change R doc chs = do {
     let doc_len = rp_len_chars R doc;
     (cs, lst) \<leftarrow> change_loop doc_len cs_builder 0 chs;
     remaining \<leftarrow> checked_sub64 doc_len lst;
     Some \<lparr> tx_changes = (if remaining > 0 then cs_retain cs remaining else cs), tx_selection = None \<rparr> }"

definition tx_insert :: "'r rope_ops \<Rightarrow> 'r \<Rightarrow> selection \<Rightarrow> utext \<Rightarrow> transaction option" where
  "tx_insert R doc sel text = tx_change R doc
     (map (\<lambda>r. \<lparr> ch_start = range_from r, ch_end = range_from r, replacement = Some text \<rparr>) (sel_ranges sel))"

definition tx_delete :: "'r rope_ops \<Rightarrow> 'r \<Rightarrow> selection \<Rightarrow> transaction option" where
  "tx_delete R doc sel =
     (let len = rp_len_chars R doc in
      tx_change R doc
        (map (\<lambda>r. \<lparr> ch_start = range_from r, ch_end = min (range_to r) len, replacement = None \<rparr>)
          (sel_ranges sel)))"

definition with_selection :: "transaction \<Rightarrow> selection \<Rightarrow> transaction" where
  "with_selection tx s = tx\<lparr> tx_selection := Some s \<rparr>"

definition tx_operations :: "transaction \<Rightarrow> operation list" where
  "tx_operations tx = changes (tx_changes tx)"

definition tx_is_identity :: "transaction \<Rightarrow> bool" where
  "tx_is_identity tx = cs_is_identity (tx_changes tx)"

text \<open>\<open>apply\<close> changes the document in place and returns the attached selection.\<close>

definition tx_apply :: "'r rope_ops \<Rightarrow> transaction \<Rightarrow> 'r \<Rightarrow> ('r \<times> selection option) option" where
  "tx_apply R tx doc = map_option (\<lambda>doc'. (doc', tx_selection tx)) (cs_apply R (tx_changes tx) doc)"

definition tx_invert :: "'r rope_ops \<Rightarrow> transaction \<Rightarrow> 'r \<Rightarrow> transaction option" where
  "tx_invert R tx doc =
     map_option (\<lambda>cs. \<lparr> tx_changes = cs, tx_selection = None \<rparr>) (cs_invert R (tx_changes tx) doc)"

definition map_range :: "changeset \<Rightarrow> range \<Rightarrow> range" where
  "map_range cs r =
     (let dir = range_direction r;
          from2 = map_pos cs (range_from r) BRight;
          to2 = map_pos cs (range_to r) BLeft;
          (lo, hi) = (if to2 \<le> from2 then (from2, from2) else (from2, to2 - 1))
      in case dir of Forward \<Rightarrow> range_new lo hi | Backward \<Rightarrow> range_new hi lo)"

definition map_selection :: "transaction \<Rightarrow> selection \<Rightarrow> selection option" where
  "map_selection tx s = sel_transform s (map_range (tx_changes tx))"

section \<open>Specification predicates\<close>

text \<open>The conditions under which \<open>change\<close> accepts a list, and the text it then describes.\<close>

fun changes_ok :: "nat \<Rightarrow> nat \<Rightarrow> change list \<Rightarrow> bool" where
  "changes_ok len lst [] = True"
| "changes_ok len lst (c # rest) \<longleftrightarrow>
     lst \<le> ch_start c \<and> ch_start c \<le> ch_end c \<and> ch_start c \<le> len \<and> changes_ok len (min (ch_end c) len) rest"

fun splice_changes :: "utext \<Rightarrow> nat \<Rightarrow> change list \<Rightarrow> utext" where
  "splice_changes t lst [] = drop lst t"
| "splice_changes t lst (c # rest) =
     take (ch_start c - lst) (drop lst t) @ (case replacement c of Some s \<Rightarrow> s | None \<Rightarrow> []) @
     splice_changes t (min (ch_end c) (length t)) rest"

text \<open>Multi-cursor insertion: \<open>s\<close> goes in front of every position of \<open>P\<close> from \<open>i\<close> on.\<close>

fun insert_at :: "nat set \<Rightarrow> utext \<Rightarrow> nat \<Rightarrow> utext \<Rightarrow> utext" where
  "insert_at P s i [] = (if i \<in> P then s else [])"
| "insert_at P s i (c # t) = (if i \<in> P then s else []) @ c # insert_at P s (Suc i) t"

definition tx_wf :: "transaction \<Rightarrow> bool" where
  "tx_wf tx \<longleftrightarrow> cs_wf (tx_changes tx) \<and> canonical (changes (tx_changes tx))"

definition tx_edit :: "transaction \<Rightarrow> utext \<Rightarrow> utext" where
  "tx_edit tx t = edit_text (changes (tx_changes tx)) t"

definition tx_fits :: "transaction \<Rightarrow> utext \<Rightarrow> bool" where
  "tx_fits tx t \<longleftrightarrow> tx_wf tx \<and> cs_len (tx_changes tx) = length t"

text \<open>
  A history is a chain of pairs of an edit and its inverse along a sequence of texts \<open>T\<close>;
  \<open>replay\<close> applies a list of edits in order.
\<close>

definition linked ::
  "('x \<Rightarrow> 't \<Rightarrow> bool) \<Rightarrow> ('x \<Rightarrow> 't \<Rightarrow> 't) \<Rightarrow> (nat \<Rightarrow> 't) \<Rightarrow> nat \<Rightarrow> ('x \<times> 'x) list \<Rightarrow> bool" where
  "linked fits edit T p prs \<longleftrightarrow>
     (\<forall>i < length prs. let (r, u) = prs ! i in
        fits r (T (p + i)) \<and> edit r (T (p + i)) = T (Suc (p + i)) \<and>
        fits u (T (Suc (p + i))) \<and> edit u (T (Suc (p + i))) = T (p + i))"

fun replay :: "('x \<Rightarrow> 'd \<Rightarrow> 'd option) \<Rightarrow> 'x list \<Rightarrow> 'd \<Rightarrow> 'd option" where
  "replay app [] d = Some d"
| "replay app (x # xs) d = Option.bind (app x d) (replay app xs)"

text \<open>A list of transactions each of which fits the text the earlier ones lead to.\<close>

fun chain_fits :: "transaction list \<Rightarrow> utext \<Rightarrow> bool" where
  "chain_fits [] t \<longleftrightarrow> True"
| "chain_fits (tx # txs) t \<longleftrightarrow> tx_fits tx t \<and> chain_fits txs (tx_edit tx t)"

definition tx_run :: "'r rope_ops \<Rightarrow> transaction \<Rightarrow> 'r \<Rightarrow> 'r option" where
  "tx_run R tx doc = map_option fst (tx_apply R tx doc)"

section \<open>Lemmas\<close>

subsection \<open>Building from replacements\<close>

lemma change_loop_None: "\<not> changes_ok len lst chs \<Longrightarrow> change_loop len cs lst chs = None"
  by (induction len cs lst chs rule: change_loop.induct) (auto simp: Let_def)

lemma change_step:
  fixes r :: "utext option"
  assumes "cs_wf cs" and "canonical (changes cs)" and "cs_len cs = lst" and "lst \<le> from" and "from \<le> to"
    and "length u = lst" and "length v = from - lst" and "length w = to - from"
  defines "cs' \<equiv> (case r of Some s \<Rightarrow> cs_insert (cs_delete (cs_retain cs (from - lst)) (to - from)) s
                         | None \<Rightarrow> cs_delete (cs_retain cs (from - lst)) (to - from))"
  shows "cs_wf cs' \<and> canonical (changes cs') \<and> cs_len cs' = to \<and>
    edit_text (changes cs') (u @ v @ w) = edit_text (changes cs) u @ v @ (case r of Some s \<Rightarrow> s | None \<Rightarrow> [])"
proof -
  let ?a = "cs_retain cs (from - lst)"
  have a: "cs_wf ?a" "canonical (changes ?a)" "cs_len ?a = from" using assms by (simp_all add: wf_intros)
  let ?b = "cs_delete ?a (to - from)"
  have b: "cs_wf ?b" "canonical (changes ?b)" "cs_len ?b = to" using a assms by (simp_all add: wf_intros)
  have "edit_text (changes ?a) (u @ v) = edit_text (changes cs) u @ v"
    using assms by (intro edit_retain) (auto simp: cs_wf_def)
  moreover have "edit_text (changes ?b) ((u @ v) @ w) = edit_text (changes ?a) (u @ v)"
    using a assms by (intro edit_delete) (auto simp: cs_wf_def)
  moreover have "edit_text (changes (cs_insert ?b s)) (u @ v @ w) = edit_text (changes ?b) (u @ v @ w) @ s" for s
    using b assms by (intro edit_insert) (auto simp: cs_wf_def)
  ultimately show ?thesis using b by (auto simp: cs'_def wf_intros split: option.splits)
qed

lemma builder_zero [simp]: "cs_retain cs 0 = cs" "cs_delete cs 0 = cs"
  by (simp_all add: cs_retain_def cs_delete_def)

lemma change_loop_correct:
  assumes "cs_wf cs" and "canonical (changes cs)" and "cs_len cs = lst" and "lst \<le> length t"
    and "changes_ok (length t) lst chs"
  shows "\<exists>cs' lst'. change_loop (length t) cs lst chs = Some (cs', lst') \<and> cs_wf cs' \<and>
    canonical (changes cs') \<and> cs_len cs' = lst' \<and> lst' \<le> length t \<and>
    edit_text (changes cs') (take lst' t) @ drop lst' t = edit_text (changes cs) (take lst t) @ splice_changes t lst chs"
  using assms
proof (induction chs arbitrary: cs lst)
  case (Cons c rest)
  let ?to = "min (ch_end c) (length t)"
  let ?cs = "case replacement c of Some s \<Rightarrow> cs_insert (cs_delete (cs_retain cs (ch_start c - lst)) (?to - ch_start c)) s
                         | None \<Rightarrow> cs_delete (cs_retain cs (ch_start c - lst)) (?to - ch_start c)"
  let ?v = "take (ch_start c - lst) (drop lst t)" and ?w = "take (?to - ch_start c) (drop (ch_start c) t)"
  have split: "take ?to t = take lst t @ ?v @ ?w"
    using Cons.prems take_add [of lst "ch_start c - lst" t] take_add [of "ch_start c" "?to - ch_start c" t] by simp
  have step: "cs_wf ?cs \<and> canonical (changes ?cs) \<and> cs_len ?cs = ?to \<and>
    edit_text (changes ?cs) (take lst t @ ?v @ ?w)
      = edit_text (changes cs) (take lst t) @ ?v @ (case replacement c of Some s \<Rightarrow> s | None \<Rightarrow> [])"
    by (rule change_step) (use Cons.prems in auto)
  have "change_loop (length t) cs lst (c # rest) = change_loop (length t) ?cs ?to rest"
    using Cons.prems by (auto simp: Let_def split: option.splits)
  moreover have "\<exists>cs' lst'. change_loop (length t) ?cs ?to rest = Some (cs', lst') \<and> cs_wf cs' \<and>
    canonical (changes cs') \<and> cs_len cs' = lst' \<and> lst' \<le> length t \<and>
    edit_text (changes cs') (take lst' t) @ drop lst' t = edit_text (changes ?cs) (take ?to t) @ splice_changes t ?to rest"
    using step Cons.prems by (intro Cons.IH) auto
  ultimately show ?case using step by (simp only: split) simp
qed simp

lemma tx_change_correct:
  assumes R: "rope_ok R" and ok: "changes_ok (length (rp_chars R doc)) 0 chs"
  shows "\<exists>tx. tx_change R doc chs = Some tx \<and> tx_fits tx (rp_chars R doc) \<and>
     tx_edit tx (rp_chars R doc) = splice_changes (rp_chars R doc) 0 chs"
proof -
  let ?t = "rp_chars R doc"
  obtain cs lst where l: "change_loop (length ?t) cs_builder 0 chs = Some (cs, lst)" "cs_wf cs"
    "canonical (changes cs)" "cs_len cs = lst" "lst \<le> length ?t"
    "edit_text (changes cs) (take lst ?t) @ drop lst ?t = splice_changes ?t 0 chs"
    using change_loop_correct [of cs_builder 0 ?t chs] ok by (auto simp: wf_intros)
  let ?cs = "cs_retain cs (length ?t - lst)"
  have "edit_text (changes ?cs) (take lst ?t @ drop lst ?t) = splice_changes ?t 0 chs"
    using l edit_retain [of "take lst ?t" cs "drop lst ?t"] by (simp add: cs_wf_def)
  moreover have "cs_wf ?cs" "canonical (changes ?cs)" "cs_len ?cs = length ?t" using l by (simp_all add: wf_intros)
  moreover have "tx_change R doc chs = Some \<lparr> tx_changes = ?cs, tx_selection = None \<rparr>"
    using l R by (simp add: tx_change_def rope_simps Let_def)
  ultimately show ?thesis by (simp add: tx_fits_def tx_wf_def tx_edit_def)
qed

lemma tx_change_None:
  "rope_ok R \<Longrightarrow> \<not> changes_ok (length (rp_chars R doc)) 0 chs \<Longrightarrow> tx_change R doc chs = None"
  by (simp add: tx_change_def rope_simps change_loop_None)

subsection \<open>Selection-driven edits\<close>

lemma insert_at_cong:
  "(\<And>p. i \<le> p \<Longrightarrow> p \<in> P \<longleftrightarrow> p \<in> Q) \<Longrightarrow> insert_at P s i t = insert_at Q s i t"
  by (induction P s i t rule: insert_at.induct) auto

lemma insert_at_append:
  "(\<And>p. i \<le> p \<Longrightarrow> p < i + length u \<Longrightarrow> p \<notin> P) \<Longrightarrow>
   insert_at P s i (u @ v) = u @ insert_at P s (i + length u) v"
  by (induction u arbitrary: i) auto

lemma insert_at_here: "p \<notin> P \<Longrightarrow> insert_at (insert p P) s p t = s @ insert_at P s p t"
  using insert_at_cong [of "Suc p" "insert p P" P] by (cases t) auto

lemma splice_insertions:
  assumes "sorted_wrt (<) ps" and "\<forall>p \<in> set ps. lst \<le> p \<and> p \<le> length t"
  shows "splice_changes t lst (map (\<lambda>p. \<lparr> ch_start = p, ch_end = p, replacement = Some s \<rparr>) ps)
    = insert_at (set ps) s lst (drop lst t)"
  using assms
proof (induction ps arbitrary: lst)
  case Nil
  then show ?case using insert_at_append [of lst "drop lst t" "{}" s "[]"] by simp
next
  case (Cons p ps)
  let ?u = "take (p - lst) (drop lst t)"
  have "insert_at (set (p # ps)) s lst (?u @ drop p t) = ?u @ insert_at (insert p (set ps)) s p (drop p t)"
    using Cons.prems insert_at_append [of lst ?u "insert p (set ps)"] by force
  moreover have "p \<notin> set ps" using Cons.prems by auto
  moreover have "?u @ drop p t = drop lst t"
    using Cons.prems append_take_drop_id [of "p - lst" "drop lst t"] by simp
  moreover have "splice_changes t p (map (\<lambda>p. \<lparr> ch_start = p, ch_end = p, replacement = Some s \<rparr>) ps)
      = insert_at (set ps) s p (drop p t)"
    using Cons.prems by (intro Cons.IH) auto
  ultimately show ?case using Cons.prems by (simp add: insert_at_here)
qed

lemma insertions_ok:
  assumes "sorted_wrt (<) ps" and "\<forall>p \<in> set ps. lst \<le> p \<and> p \<le> n"
  shows "changes_ok n lst (map (\<lambda>p. \<lparr> ch_start = p, ch_end = p, replacement = x \<rparr>) ps)"
  using assms by (induction ps arbitrary: lst) (auto simp: less_imp_le)

lemma separated_mins: "separated 0 rs \<Longrightarrow> sorted_wrt (<) (map range_from rs)"
  unfolding separated_def range_from_def sorted_wrt_map
  by (rule sorted_wrt_mono_rel) (auto intro: le_less_trans [OF range_min_le_max])

lemma nths_all_out: "(\<And>i. i < length l \<Longrightarrow> i \<notin> A) \<Longrightarrow> nths l A = []"
  using nths_empty by (auto simp: nths_def filter_empty_conv in_set_zip)

lemma nths_cong_in: "(\<And>i. i < length l \<Longrightarrow> i \<in> A \<longleftrightarrow> i \<in> B) \<Longrightarrow> nths l A = nths l B"
  unfolding nths_def by (intro arg_cong [of _ _ "map fst"] filter_cong) (auto simp: in_set_zip)

lemma nths_append3:
  assumes "length u = a - l" and "length v = b - a" and "l \<le> a" and "a \<le> b"
  shows "nths (u @ v @ w) {j. P (j + l)} =
    nths u {j. P (j + l)} @ nths v {j. P (j + a)} @ nths w {j. P (j + b)}"
  using assms by (simp add: nths_append add.assoc)

lemma nths_cut:
  assumes "l \<le> a" and "a \<le> b" and "b \<le> length t"
  shows "nths (drop l t) {j. P (j + l)} = nths (take (a - l) (drop l t)) {j. P (j + l)} @
    nths (take (b - a) (drop a t)) {j. P (j + a)} @ nths (drop b t) {j. P (j + b)}"
proof -
  have "drop l t = take (a - l) (drop l t) @ take (b - a) (drop a t) @ drop b t"
    using assms append_take_drop_id [of "b - a" "drop a t"] append_take_drop_id [of "a - l" "drop l t"] by simp
  moreover have "length (take (a - l) (drop l t)) = a - l" "length (take (b - a) (drop a t)) = b - a"
    using assms by auto
  ultimately show ?thesis using assms by (metis (no_types, lifting) nths_append3)
qed

lemma splice_deletions:
  assumes "separated 0 rs" and "\<forall>r \<in> set rs. lst \<le> range_min r \<and> range_max r \<le> length t"
  shows "splice_changes t lst
      (map (\<lambda>r. \<lparr> ch_start = range_from r, ch_end = min (range_to r) (length t), replacement = None \<rparr>) rs)
    = nths (drop lst t) {j. j + lst \<notin> covered rs}"
  using assms
proof (induction rs arbitrary: lst)
  case Nil
  then show ?case by (simp add: nths_all)
next
  case (Cons r rs)
  let ?a = "range_min r" and ?b = "min (range_to r) (length t)"
  let ?A = "{j. j + lst \<notin> covered (r # rs)}"
  have ab: "lst \<le> ?a" "?a \<le> ?b" "?b \<le> length t"
    using Cons.prems range_min_le_max [of r] by (auto simp: range_to_def simp del: range_min_le_max)
  have later: "range_to r \<le> range_min s" if "s \<in> set rs" for s
    using Cons.prems that by (auto simp: separated_def range_to_def)
  have notin: "x \<notin> covered (r # rs)" if "x < ?a" for x
    using that later ab by (fastforce simp: covered_def cells_def range_to_def)
  have rest: "nths (drop ?b t) {j. j + ?b \<notin> covered (r # rs)} = nths (drop ?b t) {j. j + ?b \<notin> covered rs}"
    by (rule nths_cong_in) (auto simp: cells_def range_to_def min_def split: if_splits)
  have "nths (drop lst t) ?A = nths (take (?a - lst) (drop lst t)) ?A @
      nths (take (?b - ?a) (drop ?a t)) {j. j + ?a \<notin> covered (r # rs)} @
      nths (drop ?b t) {j. j + ?b \<notin> covered (r # rs)}"
    by (rule nths_cut [OF ab])
  also have "nths (take (?a - lst) (drop lst t)) ?A = take (?a - lst) (drop lst t)"
    using notin ab by (intro nths_all) (auto simp: less_diff_conv simp del: covered_simps)
  also have "nths (take (?b - ?a) (drop ?a t)) {j. j + ?a \<notin> covered (r # rs)} = []"
    by (rule nths_all_out) (auto simp: cells_def range_to_def)
  finally have "nths (drop lst t) ?A = take (?a - lst) (drop lst t) @ nths (drop ?b t) {j. j + ?b \<notin> covered rs}"
    by (simp only: rest append.left_neutral)
  moreover have "splice_changes t ?b
      (map (\<lambda>r. \<lparr> ch_start = range_from r, ch_end = min (range_to r) (length t), replacement = None \<rparr>) rs)
    = nths (drop ?b t) {j. j + ?b \<notin> covered rs}"
    using Cons.prems later by (intro Cons.IH) (auto simp: separated_def min.coboundedI1)
  ultimately show ?case by (simp add: range_from_def del: covered_simps)
qed

lemma deletions_ok:
  assumes "separated 0 rs" and "\<forall>r \<in> set rs. lst \<le> range_min r \<and> range_max r \<le> n"
  shows "changes_ok n lst
      (map (\<lambda>r. \<lparr> ch_start = range_from r, ch_end = min (range_to r) n, replacement = None \<rparr>) rs)"
  using assms
proof (induction rs arbitrary: lst)
  case (Cons r rs)
  have "changes_ok n (min (range_to r) n)
      (map (\<lambda>r. \<lparr> ch_start = range_from r, ch_end = min (range_to r) n, replacement = None \<rparr>) rs)"
    using Cons.prems by (intro Cons.IH) (auto simp: separated_def range_to_def)
  then show ?case
    using Cons.prems range_min_le_max [of r]
    by (auto simp: range_to_def range_from_def simp del: range_min_le_max)
qed simp

lemma in_bounds_mins:
  "is_in_bounds s n \<Longrightarrow> r \<in> set (sel_ranges s) \<Longrightarrow> range_min r \<le> n \<and> range_max r \<le> n"
  by (auto simp: is_in_bounds_def list_all_iff range_min_def range_max_def split: if_splits)

subsection \<open>Mapping selections\<close>

lemma map_ops_next: "kept ops p \<Longrightarrow> map_ops ops (Suc p) BLeft = Suc (map_ops ops p BRight)"
proof (induction ops arbitrary: p rule: in_len.induct)
  case (2 n ops)
  then show ?case using "2.IH" [of "p - n"] by (cases "Suc p = n") (auto simp: Suc_diff_le not_less)
next
  case (3 n ops)
  then show ?case using "3.IH" [of "p - n"] by (auto simp: Suc_diff_le not_less)
qed auto

lemma cells_map_range:
  "cells (map_range cs r) =
     (let a = map_pos cs (range_from r) BRight; b = map_pos cs (range_to r) BLeft
      in {a .. max a (b - 1)})"
  by (auto simp: map_range_def Let_def cells_def split: direction.splits)

lemma map_range_bounds:
  assumes "cs_wf cs" and "range_max r \<le> cs_len cs" and "p \<in> cells (map_range cs r)"
  shows "p \<le> cs_len_after cs"
proof -
  have "range_from r \<le> cs_len cs" using assms range_min_le_max [of r] unfolding range_from_def by linarith
  then have "map_pos cs (range_from r) BRight \<le> cs_len_after cs"
    using assms map_ops_bound [of "changes cs" "range_from r" BRight] by (simp add: map_pos_def cs_wf_def)
  moreover have "map_pos cs (range_to r) BLeft \<le> Suc (cs_len_after cs)"
    using assms map_ops_bound [of "changes cs" "range_to r" BLeft]
      map_ops_past_end [of "changes cs" "range_to r" BLeft]
    by (cases "range_to r \<le> cs_len cs") (auto simp: map_pos_def cs_wf_def range_to_def)
  ultimately show ?thesis using assms(3) by (auto simp: cells_map_range Let_def)
qed

lemma map_range_keeps:
  assumes "p \<in> cells r" and "kept (changes cs) p"
  shows "map_pos cs p BRight \<in> cells (map_range cs r)"
proof -
  have "map_pos cs (range_from r) BRight \<le> map_pos cs p BRight"
    using assms by (auto simp: map_pos_def cells_def range_from_def intro!: map_ops_mono)
  moreover have "map_ops (changes cs) (Suc p) BLeft \<le> map_pos cs (range_to r) BLeft"
    using assms by (auto simp: map_pos_def cells_def range_to_def intro!: map_ops_mono)
  ultimately show ?thesis using map_ops_next [OF assms(2)]
    by (simp add: cells_map_range Let_def map_pos_def)
qed

lemma covered_map_selection:
  assumes "sel_wf s"
  obtains s' where "map_selection tx s = Some s'" and "sel_wf s'"
    and "covered (sel_ranges s') = (\<Union>r \<in> set (sel_ranges s). cells (map_range (tx_changes tx) r))"
proof -
  let ?p = "sel_ranges s ! primary_index s"
  obtain xs ys where "sel_ranges s = xs @ ?p # ys" "others s = xs @ ys"
    using others_split [OF sel_wf_primary [OF assms]] by blast
  then have "set (?p # others s) = set (sel_ranges s)"
    by (metis Un_insert_right list.simps(15) set_append)
  then have "covered (map f (?p # others s)) = (\<Union>r \<in> set (sel_ranges s). cells (f r))" for f
    unfolding covered_def by (simp add: image_image flip: \<open>set (?p # others s) = set (sel_ranges s)\<close>)
  then show ?thesis
    using that [of "sel_new (map_range (tx_changes tx) ?p) (map (map_range (tx_changes tx)) (others s))"] assms
    by (simp add: map_selection_def sel_transform_Some sel_new_wf covered_sel_new)
qed

section \<open>Transactions as reversible edits\<close>

text \<open>
  What the history of a document relies on, as an interface: an edit that fits a document applies
  without a panic and has the effect \<open>edit\<close>, and its inverse, taken from the document before,
  fits the document after and leads back.
\<close>

lemma linked_Nil [simp]: "linked fits edit T p []"
  by (simp add: linked_def)

lemma linked_append:
  "linked fits edit T p (xs @ ys) \<longleftrightarrow> linked fits edit T p xs \<and> linked fits edit T (p + length xs) ys"
  (is "?l = ?r")
proof
  assume l: ?l
  have "linked fits edit T p xs" unfolding linked_def
  proof (intro allI impI)
    fix i assume "i < length xs"
    with l show "let (r, u) = xs ! i in fits r (T (p + i)) \<and> edit r (T (p + i)) = T (Suc (p + i)) \<and>
        fits u (T (Suc (p + i))) \<and> edit u (T (Suc (p + i))) = T (p + i)"
      unfolding linked_def by (auto dest!: spec [of _ i] simp: nth_append)
  qed
  moreover have "linked fits edit T (p + length xs) ys" unfolding linked_def
  proof (intro allI impI)
    fix i assume "i < length ys"
    with l show "let (r, u) = ys ! i in fits r (T (p + length xs + i)) \<and>
        edit r (T (p + length xs + i)) = T (Suc (p + length xs + i)) \<and>
        fits u (T (Suc (p + length xs + i))) \<and> edit u (T (Suc (p + length xs + i))) = T (p + length xs + i)"
      unfolding linked_def by (auto dest!: spec [of _ "length xs + i"] simp: nth_append add.assoc)
  qed
  ultimately show ?r ..
next
  assume r: ?r
  show ?l unfolding linked_def
  proof (intro allI impI)
    fix i assume i: "i < length (xs @ ys)"
    show "let (r, u) = (xs @ ys) ! i in fits r (T (p + i)) \<and> edit r (T (p + i)) = T (Suc (p + i)) \<and>
        fits u (T (Suc (p + i))) \<and> edit u (T (Suc (p + i))) = T (p + i)"
    proof (cases "i < length xs")
      case True
      then show ?thesis using r by (auto simp: linked_def nth_append)
    next
      case False
      then show ?thesis using r i
        unfolding linked_def by (auto dest!: spec [of _ "i - length xs"] simp: nth_append)
    qed
  qed
qed

lemma linked_cong:
  "(\<And>q. p \<le> q \<Longrightarrow> q \<le> p + length prs \<Longrightarrow> T q = T' q) \<Longrightarrow> linked fits edit T p prs = linked fits edit T' p prs"
  unfolding linked_def by (intro all_cong1 imp_cong refl) (simp add: Let_def split: prod.splits)

lemma linked_Cons:
  "linked fits edit T p ((r, u) # prs) \<longleftrightarrow>
     fits r (T p) \<and> edit r (T p) = T (Suc p) \<and> fits u (T (Suc p)) \<and> edit u (T (Suc p)) = T p \<and>
     linked fits edit T (Suc p) prs"
  using linked_append [of fits edit T p "[(r, u)]" prs] by (simp add: linked_def)

lemma replay_append: "replay app (xs @ ys) d = Option.bind (replay app xs d) (replay app ys)"
proof (induction xs arbitrary: d)
  case (Cons x xs)
  then show ?case by (cases "app x d") auto
qed simp

locale reversible_edits =
  fixes text_of :: "'d \<Rightarrow> 't" and fits :: "'x \<Rightarrow> 't \<Rightarrow> bool" and edit :: "'x \<Rightarrow> 't \<Rightarrow> 't"
    and app :: "'x \<Rightarrow> 'd \<Rightarrow> 'd option" and invert :: "'x \<Rightarrow> 'd \<Rightarrow> 'x option"
  assumes app_ok: "fits x (text_of d) \<Longrightarrow> \<exists>d'. app x d = Some d' \<and> text_of d' = edit x (text_of d)"
    and invert_ok: "fits x (text_of d) \<Longrightarrow> \<exists>y. invert x d = Some y \<and>
      fits y (edit x (text_of d)) \<and> edit y (edit x (text_of d)) = text_of d"
begin

lemma replay_forward:
  "linked fits edit T p prs \<Longrightarrow> text_of d = T p \<Longrightarrow>
   \<exists>d'. replay app (map fst prs) d = Some d' \<and> text_of d' = T (p + length prs)"
proof (induction prs arbitrary: p d)
  case (Cons pr prs)
  obtain r u where pr: "pr = (r, u)" by fastforce
  with Cons.prems have r: "fits r (text_of d)" "edit r (text_of d) = T (Suc p)" "linked fits edit T (Suc p) prs"
    by (simp_all add: linked_Cons)
  obtain d1 where "app r d = Some d1" "text_of d1 = T (Suc p)" using app_ok [OF r(1)] r(2) by auto
  with Cons.IH [OF r(3)] pr show ?case by auto
qed simp

lemma replay_backward:
  "linked fits edit T p prs \<Longrightarrow> text_of d = T (p + length prs) \<Longrightarrow>
   \<exists>d'. replay app (rev (map snd prs)) d = Some d' \<and> text_of d' = T p"
proof (induction prs arbitrary: d rule: rev_induct)
  case (snoc pr prs)
  obtain r u where pr: "pr = (r, u)" by fastforce
  let ?q = "p + length prs"
  from snoc.prems pr have u: "fits u (text_of d)" "edit u (text_of d) = T ?q" "linked fits edit T p prs"
    by (simp_all add: linked_append linked_Cons)
  obtain d1 where "app u d = Some d1" "text_of d1 = T ?q" using app_ok [OF u(1)] u(2) by auto
  with snoc.IH [OF u(3)] pr show ?case by auto
qed simp

lemma linked_record:
  assumes "fits x (text_of d)" and "text_of d = T p"
  obtains y where "invert x d = Some y"
    and "linked fits edit (T(Suc p := edit x (text_of d))) p [(x, y)]"
  using invert_ok [OF assms(1)] assms by (auto simp: linked_Cons)

end

lemma tx_apply_edit:
  assumes "rope_ok R" and "tx_fits tx (rp_chars R doc)"
  shows "\<exists>doc'. tx_apply R tx doc = Some (doc', tx_selection tx) \<and> rp_chars R doc' = tx_edit tx (rp_chars R doc)"
  using cs_apply_edit [of R "tx_changes tx" doc] assms
  unfolding tx_apply_def tx_fits_def tx_wf_def tx_edit_def by (metis option.simps(9))

lemma tx_invert_edit:
  assumes "rope_ok R" and "tx_fits tx (rp_chars R doc)"
  shows "\<exists>inv. tx_invert R tx doc = Some inv \<and> tx_fits inv (tx_edit tx (rp_chars R doc)) \<and>
    tx_edit inv (tx_edit tx (rp_chars R doc)) = rp_chars R doc"
proof -
  have cs: "cs_wf (tx_changes tx)" "cs_len (tx_changes tx) = length (rp_chars R doc)"
    using assms by (auto simp: tx_fits_def tx_wf_def)
  obtain inv where "cs_invert R (tx_changes tx) doc = Some inv" "cs_wf inv" "canonical (changes inv)"
    "cs_len inv = cs_len_after (tx_changes tx)"
    "edit_text (changes inv) (edit_text (changes (tx_changes tx)) (rp_chars R doc)) = rp_chars R doc"
    by (rule cs_invert_correct [OF assms(1) cs])
  moreover have "length (edit_text (changes (tx_changes tx)) (rp_chars R doc)) = cs_len_after (tx_changes tx)"
    using cs length_edit_text by (simp add: cs_wf_def)
  ultimately show ?thesis by (simp add: tx_invert_def tx_fits_def tx_wf_def tx_edit_def)
qed

interpretation txr: reversible_edits "rp_chars R" "\<lambda>tx t. rope_ok R \<and> tx_fits tx t" tx_edit "tx_run R" "tx_invert R"
  for R :: "'r rope_ops"
proof
  show "\<exists>d'. tx_run R x d = Some d' \<and> rp_chars R d' = tx_edit x (rp_chars R d)"
    if "rope_ok R \<and> tx_fits x (rp_chars R d)" for x d
    using that tx_apply_edit [of R x d] by (fastforce simp: tx_run_def)
  show "\<exists>y. tx_invert R x d = Some y \<and> (rope_ok R \<and> tx_fits y (tx_edit x (rp_chars R d))) \<and>
      tx_edit y (tx_edit x (rp_chars R d)) = rp_chars R d"
    if "rope_ok R \<and> tx_fits x (rp_chars R d)" for x d
    using that tx_invert_edit [of R x d] by auto
qed

lemma linked_chain:
  assumes "linked (\<lambda>tx t. rope_ok R \<and> tx_fits tx t) tx_edit T p prs"
  shows "chain_fits (map fst prs) (T p)" and "chain_fits (rev (map snd prs)) (T (p + length prs))"
proof -
  show "chain_fits (map fst prs) (T p)"
    using assms by (induction prs arbitrary: p) (auto simp: linked_Cons)
  show "chain_fits (rev (map snd prs)) (T (p + length prs))"
    using assms by (induction prs rule: rev_induct) (auto simp: linked_append linked_Cons)
qed

lemma tx_new_fits: "rope_ok R \<Longrightarrow> tx_fits (tx_new R doc) (rp_chars R doc)"
  by (auto simp: tx_new_def cs_new_def tx_fits_def tx_wf_def rope_simps wf_intros Let_def)

lemma identity_edit:
  assumes "tx_is_identity tx" and "tx_fits tx t"
  shows "tx_edit tx t = t"
proof -
  have "list_all (\<lambda>op. case op of Retain n \<Rightarrow> True | _ \<Rightarrow> False) ops \<Longrightarrow> edit_text ops u = u" for ops u
    by (induction ops u rule: edit_text.induct) auto
  with assms show ?thesis by (simp add: tx_is_identity_def cs_is_identity_def tx_edit_def)
qed

lemma selection_edits:
  assumes "rope_ok R" and "sel_wf s" and "is_in_bounds s (length (rp_chars R doc))"
  shows "(\<exists>tx. tx_insert R doc s text = Some tx \<and> tx_fits tx (rp_chars R doc) \<and>
        tx_edit tx (rp_chars R doc) = insert_at (range_from ` set (sel_ranges s)) text 0 (rp_chars R doc)) \<and>
     (\<exists>tx. tx_delete R doc s = Some tx \<and> tx_fits tx (rp_chars R doc) \<and>
        tx_edit tx (rp_chars R doc) = nths (rp_chars R doc) (- covered (sel_ranges s)))"
proof -
  let ?t = "rp_chars R doc" and ?rs = "sel_ranges s" and ?ps = "map range_from (sel_ranges s)"
  have b: "\<forall>r \<in> set ?rs. 0 \<le> range_min r \<and> range_max r \<le> length ?t" "\<forall>p \<in> set ?ps. 0 \<le> p \<and> p \<le> length ?t"
    using in_bounds_mins [OF assms(3)] by (auto simp: range_from_def)
  have sep: "separated 0 ?rs" "sorted_wrt (<) ?ps" using assms(2) by (auto simp: sel_wf_def separated_mins)
  let ?ins = "map (\<lambda>p. \<lparr> ch_start = p, ch_end = p, replacement = Some text \<rparr>) ?ps"
  let ?del = "map (\<lambda>r. \<lparr> ch_start = range_from r, ch_end = min (range_to r) (length ?t), replacement = None \<rparr>) ?rs"
  have "tx_insert R doc s text = tx_change R doc ?ins" by (simp add: tx_insert_def comp_def)
  moreover have "splice_changes ?t 0 ?ins = insert_at (range_from ` set ?rs) text 0 ?t"
    using splice_insertions [OF sep(2) b(2)] by simp
  moreover have "tx_delete R doc s = tx_change R doc ?del"
    using assms(1) by (simp add: tx_delete_def rope_simps)
  moreover have "splice_changes ?t 0 ?del = nths ?t (- covered ?rs)"
    using splice_deletions [OF sep(1) b(1)] by (simp add: Compl_eq)
  ultimately show ?thesis
    using tx_change_correct [OF assms(1) insertions_ok [OF sep(2) b(2)], of "Some text"]
      tx_change_correct [OF assms(1) deletions_ok [OF sep(1) b(1)]] by simp
qed

lemma map_selection_sound:
  assumes "tx_wf tx" and "sel_wf s" and "is_in_bounds s (cs_len (tx_changes tx))"
  shows "\<exists>s'. map_selection tx s = Some s' \<and> sel_wf s' \<and> is_in_bounds s' (cs_len_after (tx_changes tx)) \<and>
     (\<forall>p \<in> covered (sel_ranges s). kept (changes (tx_changes tx)) p \<longrightarrow>
        map_pos (tx_changes tx) p BRight \<in> covered (sel_ranges s'))"
proof -
  obtain s' where s': "map_selection tx s = Some s'" "sel_wf s'"
    "covered (sel_ranges s') = (\<Union>r \<in> set (sel_ranges s). cells (map_range (tx_changes tx) r))"
    by (rule covered_map_selection [OF assms(2)])
  have "covered (sel_ranges s') \<subseteq> {.. cs_len_after (tx_changes tx)}"
    using s'(3) in_bounds_mins [OF assms(3)] map_range_bounds assms(1) by (fastforce simp: tx_wf_def)
  then have "is_in_bounds s' (cs_len_after (tx_changes tx))" using s' is_in_bounds_iff sel_wf_primary by blast
  moreover have "\<forall>p \<in> covered (sel_ranges s). kept (changes (tx_changes tx)) p \<longrightarrow>
      map_pos (tx_changes tx) p BRight \<in> covered (sel_ranges s')"
    using s'(3) map_range_keeps by (fastforce simp: covered_def)
  ultimately show ?thesis using s' by blast
qed

section \<open>Properties\<close>

text \<open>
  C10. \<open>Transaction::change\<close> succeeds exactly on the lists that are sorted, do not overlap, have no
  reversed change and start inside the document; it then yields a well-formed transaction of the
  document's length whose effect is the simultaneous replacement of the ranges. In every other case
  one of its assertions fails.
\<close>

theorem change_correct:
  assumes "rope_ok R"
  shows "if changes_ok (length (rp_chars R doc)) 0 chs
    then \<exists>tx. tx_change R doc chs = Some tx \<and> tx_fits tx (rp_chars R doc) \<and>
           tx_edit tx (rp_chars R doc) = splice_changes (rp_chars R doc) 0 chs
    else tx_change R doc chs = None"
  using tx_change_correct [OF assms] tx_change_None [OF assms] by metis

theorem change_correct_witness:
  "\<exists>tx. tx_change list_rope [4, 5, 6] [\<lparr> ch_start = 1, ch_end = 9, replacement = Some [7] \<rparr>] = Some tx \<and>
     tx_edit tx [4, 5, 6] = [4, 7]"
  using change_correct [of list_rope "[4, 5, 6]" "[\<lparr> ch_start = 1, ch_end = 9, replacement = Some [7] \<rparr>]"]
  by auto

text \<open>
  C11. Multi-cursor edits. For a normalised selection inside the document, \<open>Transaction::insert\<close>
  and \<open>Transaction::delete\<close> never panic: insertion puts the text in front of the first cell of
  every range, deletion removes exactly the selected cells and keeps the rest in order.
\<close>

theorem selection_edits_correct:
  assumes "rope_ok R" and "sel_wf s" and "is_in_bounds s (length (rp_chars R doc))"
  shows "(\<exists>tx. tx_insert R doc s text = Some tx \<and> tx_fits tx (rp_chars R doc) \<and>
        tx_edit tx (rp_chars R doc) = insert_at (range_from ` set (sel_ranges s)) text 0 (rp_chars R doc)) \<and>
     (\<exists>tx. tx_delete R doc s = Some tx \<and> tx_fits tx (rp_chars R doc) \<and>
        tx_edit tx (rp_chars R doc) = nths (rp_chars R doc) (- covered (sel_ranges s)))"
  using selection_edits [OF assms] by blast

theorem selection_edits_correct_witness:
  "(\<exists>tx. tx_delete list_rope [4, 5, 6] (sel_single 2 1) = Some tx \<and> tx_edit tx [4, 5, 6] = [4]) \<and>
   (\<exists>tx. tx_insert list_rope [4, 5, 6] (sel_single 2 1) [7] = Some tx \<and> tx_edit tx [4, 5, 6] = [4, 7, 5, 6])"
  using selection_edits_correct [of list_rope "sel_single 2 1" "[4, 5, 6]" "[7]"]
  by (auto simp: sel_wf_def sel_single_def is_in_bounds_def range_from_def range_to_def cells_def nths_Cons)

text \<open>
  C12. Selections survive edits. Mapping a normalised, in-bounds selection through a transaction
  yields a normalised selection inside the new document, and every selected character that the edit
  keeps is still selected, at its new position.
\<close>

theorem map_selection_correct:
  assumes "tx_wf tx" and "sel_wf s" and "is_in_bounds s (cs_len (tx_changes tx))"
  shows "\<exists>s'. map_selection tx s = Some s' \<and> sel_wf s' \<and> is_in_bounds s' (cs_len_after (tx_changes tx)) \<and>
     (\<forall>p \<in> covered (sel_ranges s). kept (changes (tx_changes tx)) p \<longrightarrow>
        map_pos (tx_changes tx) p BRight \<in> covered (sel_ranges s'))"
  using map_selection_sound [OF assms] by blast

theorem map_selection_correct_witness:
  "\<exists>s'. map_selection \<lparr> tx_changes = cs_retain (cs_insert (cs_retain cs_builder 1) [7]) 1, tx_selection = None \<rparr>
       (sel_single 0 1) = Some s' \<and> 2 \<in> covered (sel_ranges s') \<and> is_in_bounds s' 3"
proof -
  let ?cs = "cs_retain (cs_insert (cs_retain cs_builder 1) [7]) 1"
  let ?tx = "\<lparr> tx_changes = ?cs, tx_selection = None \<rparr>"
  have tx: "tx_wf ?tx" "map_pos ?cs 1 BRight = 2" "kept (changes ?cs) 1" "cs_len ?cs = 2" "cs_len_after ?cs = 3"
    by (simp_all add: tx_wf_def cs_wf_def cs_retain_def cs_insert_def Let_def map_pos_def)
  have s: "sel_wf (sel_single 0 1)" "is_in_bounds (sel_single 0 1) 2" "1 \<in> covered (sel_ranges (sel_single 0 1))"
    by (simp_all add: sel_wf_def sel_single_def is_in_bounds_def range_from_def range_to_def cells_def)
  show ?thesis using map_selection_correct [of ?tx "sel_single 0 1"] tx s by (auto simp del: One_nat_def)
qed

end
