(* ===== verification/Undo_Store.thy ===== *)
theory Undo_Store
  imports Transactions
begin

text \<open>
  The undo history of a document, \<open>crates/editor/src/core/undo_store/mod.rs\<close>: two stacks of steps,
  each step a group of transactions with their inverses, with cached byte and transaction counts,
  limits on depth and memory, and the position of the saved state (\<open>clean_pos\<close>). The definitions
  follow \<open>TxnUndoStore\<close> and \<open>UndoBackend\<close> method by method; a \<open>VecDeque\<close> is a list whose head is its
  front. \<open>None\<close> is a panic: an \<open>expect\<close> on checked counter arithmetic, a panic of the rope, or a
  failed \<open>assert_invariants\<close> of a debug build.

  The specification is a store of snapshots (\<open>timeline\<close>): the texts one can go back to, the texts
  one can go forward to and the saved text. The lemmas show that the store of deltas simulates it,
  that its invariant holds at all times so that no assertion and no counter ever fails, and that the
  modified flag is truthful.
\<close>

section \<open>Data\<close>

datatype undo_policy = NoUndo | Record | MergeWithCurrentGroup | Boundary

definition MAX_UNDO :: nat where
  "MAX_UNDO = 100"

definition MAX_UNDO_BYTES :: nat where
  "MAX_UNDO_BYTES = 10 * 1024 * 1024"

record undo_step =
  step_redo :: "transaction list"
  step_undo :: "transaction list"
  step_bytes :: nat

definition approx_transaction_bytes :: "transaction \<Rightarrow> nat" where
  "approx_transaction_bytes tx =
     sum_list (map (\<lambda>op. case op of Insert ins \<Rightarrow> ins_byte_len ins | _ \<Rightarrow> 0) (tx_operations tx)) + 32"

definition step_new :: "transaction \<Rightarrow> transaction \<Rightarrow> undo_step" where
  "step_new redo_tx undo_tx =
     \<lparr> step_redo = [redo_tx], step_undo = [undo_tx],
       step_bytes = approx_transaction_bytes redo_tx + approx_transaction_bytes undo_tx \<rparr>"

definition step_append :: "undo_step \<Rightarrow> transaction \<Rightarrow> transaction \<Rightarrow> undo_step" where
  "step_append st redo_tx undo_tx =
     \<lparr> step_redo = step_redo st @ [redo_tx], step_undo = step_undo st @ [undo_tx],
       step_bytes = step_bytes st + (approx_transaction_bytes redo_tx + approx_transaction_bytes undo_tx) \<rparr>"

record undo_store =
  undo_stack :: "undo_step list"
  redo_stack :: "undo_step list"
  undo_bytes :: nat
  redo_bytes :: nat
  active_group_owner :: "view_id option"
  undo_tx_count :: nat
  redo_tx_count :: nat
  head_pos :: nat
  clean_pos :: "nat option"

definition store_default :: undo_store where
  "store_default =
     \<lparr> undo_stack = [], redo_stack = [], undo_bytes = 0, redo_bytes = 0, active_group_owner = None,
       undo_tx_count = 0, redo_tx_count = 0, head_pos = 0, clean_pos = None \<rparr>"

section \<open>The transaction store\<close>

definition can_undo :: "undo_store \<Rightarrow> bool" where
  "can_undo s \<longleftrightarrow> undo_stack s \<noteq> []"

definition can_redo :: "undo_store \<Rightarrow> bool" where
  "can_redo s \<longleftrightarrow> redo_stack s \<noteq> []"

definition undo_len :: "undo_store \<Rightarrow> nat" where
  "undo_len s = length (undo_stack s)"

definition redo_len :: "undo_store \<Rightarrow> nat" where
  "redo_len s = length (redo_stack s)"

definition clear_redo :: "undo_store \<Rightarrow> undo_store" where
  "clear_redo s = s\<lparr> redo_stack := [], redo_bytes := 0, redo_tx_count := 0 \<rparr>"

text \<open>Removing the oldest step of a stack, with its bytes and its transactions.\<close>

definition evict_undo :: "undo_store \<Rightarrow> undo_step \<Rightarrow> undo_step list \<Rightarrow> undo_store option" where
  "evict_undo s oldest rest = do {
     n \<leftarrow> checked_sub64 (undo_tx_count s) (length (step_undo oldest));
     Some (s\<lparr> undo_stack := rest, undo_bytes := undo_bytes s - step_bytes oldest, undo_tx_count := n \<rparr>) }"

definition evict_redo :: "undo_store \<Rightarrow> undo_step \<Rightarrow> undo_step list \<Rightarrow> undo_store option" where
  "evict_redo s oldest rest = do {
     n \<leftarrow> checked_sub64 (redo_tx_count s) (length (step_redo oldest));
     Some (s\<lparr> redo_stack := rest, redo_bytes := redo_bytes s - step_bytes oldest, redo_tx_count := n \<rparr>) }"

text \<open>The two loops of \<open>enforce_depth\<close> and the loop of \<open>enforce_bytes\<close>; each iteration pops a step.\<close>

function enforce_undo_depth :: "undo_store \<Rightarrow> undo_store option" where
  "enforce_undo_depth s =
     (if length (undo_stack s) > MAX_UNDO then
        case undo_stack s of
          oldest # rest \<Rightarrow>
            (case evict_undo s oldest rest of Some s' \<Rightarrow> enforce_undo_depth s' | None \<Rightarrow> None)
        | [] \<Rightarrow> Some s
      else Some s)"
  by pat_completeness auto
termination
  by (relation "measure (\<lambda>s. length (undo_stack s))") (auto simp: evict_undo_def map_option_bind_Some)

function enforce_redo_depth :: "undo_store \<Rightarrow> undo_store option" where
  "enforce_redo_depth s =
     (if length (redo_stack s) > MAX_UNDO then
        case redo_stack s of
          oldest # rest \<Rightarrow>
            (case evict_redo s oldest rest of Some s' \<Rightarrow> enforce_redo_depth s' | None \<Rightarrow> None)
        | [] \<Rightarrow> Some s
      else Some s)"
  by pat_completeness auto
termination
  by (relation "measure (\<lambda>s. length (redo_stack s))") (auto simp: evict_redo_def map_option_bind_Some)

definition enforce_depth :: "undo_store \<Rightarrow> undo_store option" where
  "enforce_depth s = Option.bind (enforce_undo_depth s) enforce_redo_depth"

function enforce_bytes :: "undo_store \<Rightarrow> undo_store option" where
  "enforce_bytes s =
     (if undo_bytes s + redo_bytes s > MAX_UNDO_BYTES then
        case redo_stack s of
          oldest # rest \<Rightarrow> (case evict_redo s oldest rest of Some s' \<Rightarrow> enforce_bytes s' | None \<Rightarrow> None)
        | [] \<Rightarrow>
           (case undo_stack s of
              oldest # rest \<Rightarrow> (case evict_undo s oldest rest of Some s' \<Rightarrow> enforce_bytes s' | None \<Rightarrow> None)
            | [] \<Rightarrow> Some s)
      else Some s)"
  by pat_completeness auto
termination
  by (relation "measure (\<lambda>s. length (undo_stack s) + length (redo_stack s))")
    (auto simp: evict_undo_def evict_redo_def map_option_bind_Some)

declare enforce_undo_depth.simps [simp del] enforce_redo_depth.simps [simp del] enforce_bytes.simps [simp del]

definition invalidate_clean_pos_after_eviction :: "undo_store \<Rightarrow> undo_store option" where
  "invalidate_clean_pos_after_eviction s =
     (case clean_pos s of
        None \<Rightarrow> Some s
      | Some cp \<Rightarrow> do {
          let min_undo_pos = head_pos s - undo_tx_count s;
          max_redo_pos \<leftarrow> checked_add64 (head_pos s) (redo_tx_count s);
          Some (if cp < min_undo_pos \<or> cp > max_redo_pos then s\<lparr> clean_pos := None \<rparr> else s) })"

definition enforce_limits :: "undo_store \<Rightarrow> undo_store option" where
  "enforce_limits s = do {
     s \<leftarrow> enforce_depth s;
     s \<leftarrow> enforce_bytes s;
     invalidate_clean_pos_after_eviction s }"

definition assert_invariants :: "undo_store \<Rightarrow> bool" where
  "assert_invariants s \<longleftrightarrow>
     undo_bytes s = sum_list (map step_bytes (undo_stack s)) \<and>
     redo_bytes s = sum_list (map step_bytes (redo_stack s)) \<and>
     undo_tx_count s = sum_list (map (\<lambda>st. length (step_undo st)) (undo_stack s)) \<and>
     redo_tx_count s = sum_list (map (\<lambda>st. length (step_redo st)) (redo_stack s)) \<and>
     undo_bytes s + redo_bytes s \<le> MAX_UNDO_BYTES \<and>
     (case clean_pos s of
        None \<Rightarrow> True
      | Some cp \<Rightarrow> head_pos s - undo_tx_count s \<le> cp \<and> cp \<le> head_pos s + redo_tx_count s)"

definition debug_assert :: "undo_store \<Rightarrow> undo_store option" where
  "debug_assert s = (if assert_invariants s then Some s else None)"

text \<open>The first two blocks of \<open>record_transaction\<close>: the branch check and the new or merged step.\<close>

definition branch_check :: "undo_store \<Rightarrow> undo_store" where
  "branch_check s =
     (case clean_pos s of
        Some cp \<Rightarrow> if redo_stack s \<noteq> [] \<and> cp > head_pos s then s\<lparr> clean_pos := None \<rparr> else s
      | None \<Rightarrow> s)"

definition push_step :: "undo_store \<Rightarrow> transaction \<Rightarrow> transaction \<Rightarrow> bool \<Rightarrow> undo_store \<times> bool" where
  "push_step s redo_tx undo_tx merge =
     (if merge \<and> undo_stack s \<noteq> [] then
        let st = last (undo_stack s); st' = step_append st redo_tx undo_tx in
        (s\<lparr> undo_stack := butlast (undo_stack s) @ [st'],
            undo_bytes := undo_bytes s + (step_bytes st' - step_bytes st) \<rparr>, False)
      else
        let st = step_new redo_tx undo_tx in
        (s\<lparr> undo_stack := undo_stack s @ [st], undo_bytes := undo_bytes s + step_bytes st \<rparr>, True))"

definition record_transaction ::
  "undo_store \<Rightarrow> transaction \<Rightarrow> transaction \<Rightarrow> bool \<Rightarrow> (undo_store \<times> bool) option" where
  "record_transaction s redo_tx undo_tx merge = do {
     let (s, new_step_created) = push_step (branch_check s) redo_tx undo_tx merge;
     h \<leftarrow> checked_add64 (head_pos s) 1;
     n \<leftarrow> checked_add64 (undo_tx_count s) 1;
     let s = clear_redo (s\<lparr> head_pos := h, undo_tx_count := n \<rparr>);
     s \<leftarrow> enforce_limits s;
     s \<leftarrow> debug_assert s;
     Some (s, new_step_created) }"

text \<open>
  \<open>undo\<close> and \<open>redo\<close> return the new store, the new content and the transactions applied; the inner
  \<open>None\<close> is the code's \<open>None\<close> for an empty stack.
\<close>

definition store_undo ::
  "'r rope_ops \<Rightarrow> undo_store \<Rightarrow> 'r \<Rightarrow> (undo_store \<times> 'r \<times> transaction list option) option" where
  "store_undo R s content =
     (let s = s\<lparr> active_group_owner := None \<rparr> in
      if undo_stack s = [] then Some (s, content, None)
      else do {
        let st = last (undo_stack s);
        let tx_len = length (step_undo st);
        n \<leftarrow> checked_sub64 (undo_tx_count s) tx_len;
        let s = s\<lparr> undo_stack := butlast (undo_stack s), undo_bytes := undo_bytes s - step_bytes st,
                  undo_tx_count := n \<rparr>;
        let applied = rev (step_undo st);
        content \<leftarrow> replay (tx_run R) applied content;
        h \<leftarrow> checked_sub64 (head_pos s) tx_len;
        m \<leftarrow> checked_add64 (redo_tx_count s) tx_len;
        let s = s\<lparr> head_pos := h, redo_bytes := redo_bytes s + step_bytes st, redo_tx_count := m,
                  redo_stack := redo_stack s @ [st] \<rparr>;
        s \<leftarrow> enforce_limits s;
        s \<leftarrow> debug_assert s;
        Some (s, content, Some applied) })"

definition store_redo ::
  "'r rope_ops \<Rightarrow> undo_store \<Rightarrow> 'r \<Rightarrow> (undo_store \<times> 'r \<times> transaction list option) option" where
  "store_redo R s content =
     (let s = s\<lparr> active_group_owner := None \<rparr> in
      if redo_stack s = [] then Some (s, content, None)
      else do {
        let st = last (redo_stack s);
        let tx_len = length (step_redo st);
        n \<leftarrow> checked_sub64 (redo_tx_count s) tx_len;
        let s = s\<lparr> redo_stack := butlast (redo_stack s), redo_bytes := redo_bytes s - step_bytes st,
                  redo_tx_count := n \<rparr>;
        content \<leftarrow> replay (tx_run R) (step_redo st) content;
        h \<leftarrow> checked_add64 (head_pos s) tx_len;
        m \<leftarrow> checked_add64 (undo_tx_count s) tx_len;
        let s = s\<lparr> head_pos := h, undo_bytes := undo_bytes s + step_bytes st, undo_tx_count := m,
                  undo_stack := undo_stack s @ [st] \<rparr>;
        s \<leftarrow> enforce_limits s;
        s \<leftarrow> debug_assert s;
        Some (s, content, Some (step_redo st)) })"

definition store_is_modified :: "undo_store \<Rightarrow> bool" where
  "store_is_modified s \<longleftrightarrow> clean_pos s \<noteq> Some (head_pos s)"

definition store_set_modified :: "undo_store \<Rightarrow> bool \<Rightarrow> undo_store" where
  "store_set_modified s modified =
     (if modified then s\<lparr> clean_pos := None \<rparr> else s\<lparr> clean_pos := Some (head_pos s) \<rparr>)"

section \<open>The backend\<close>

definition record_commit ::
  "'r rope_ops \<Rightarrow> undo_store \<Rightarrow> transaction \<Rightarrow> 'r \<Rightarrow> undo_policy \<Rightarrow> view_id option \<Rightarrow> (undo_store \<times> bool) option" where
  "record_commit R s tx before undo_policy origin_view = do {
     undo_tx \<leftarrow> tx_invert R tx before;
     let merge = (case undo_policy of
         MergeWithCurrentGroup \<Rightarrow> active_group_owner s = origin_view \<and> origin_view \<noteq> None
       | _ \<Rightarrow> False);
     (s, recorded) \<leftarrow> record_transaction s tx undo_tx merge;
     Some (s\<lparr> active_group_owner :=
              (if undo_policy = MergeWithCurrentGroup \<or> undo_policy = Boundary then origin_view else None) \<rparr>,
           recorded) }"

definition clear_active_group_owner :: "undo_store \<Rightarrow> undo_store" where
  "clear_active_group_owner s = s\<lparr> active_group_owner := None \<rparr>"

definition backend_undo ::
  "'r rope_ops \<Rightarrow> undo_store \<Rightarrow> 'r \<Rightarrow> nat \<Rightarrow> (undo_store \<times> 'r \<times> nat \<times> transaction list option) option" where
  "backend_undo R s content version = do {
     (s, content, applied) \<leftarrow> store_undo R s content;
     case applied of
       None \<Rightarrow> Some (s, content, version, None)
     | Some txs \<Rightarrow> do { v \<leftarrow> checked_add64 version 1; Some (s, content, v, Some txs) } }"

definition backend_redo ::
  "'r rope_ops \<Rightarrow> undo_store \<Rightarrow> 'r \<Rightarrow> nat \<Rightarrow> (undo_store \<times> 'r \<times> nat \<times> transaction list option) option" where
  "backend_redo R s content version = do {
     (s, content, applied) \<leftarrow> store_redo R s content;
     case applied of
       None \<Rightarrow> Some (s, content, version, None)
     | Some txs \<Rightarrow> do { v \<leftarrow> checked_add64 version 1; Some (s, content, v, Some txs) } }"

section \<open>Specification predicates\<close>

definition store_inv :: "undo_store \<Rightarrow> bool" where
  "store_inv s \<longleftrightarrow> assert_invariants s \<and>
     length (undo_stack s) + length (redo_stack s) \<le> MAX_UNDO \<and>
     undo_tx_count s \<le> head_pos s \<and> head_pos s + redo_tx_count s \<le> u64_max \<and>
     (\<forall>st \<in> set (undo_stack s) \<union> set (redo_stack s). length (step_redo st) = length (step_undo st))"

text \<open>
  The store of snapshots: the texts before each step, most recent first, the texts after each
  undone step, next first, and the text that was last marked as saved.
\<close>

record timeline =
  tl_past :: "utext list"
  tl_future :: "utext list"
  tl_saved :: "utext option"

text \<open>The pairs of a list of steps, and the positions of step boundaries going back and forth.\<close>

definition step_pairs :: "undo_step list \<Rightarrow> (transaction \<times> transaction) list" where
  "step_pairs sts = concat (map (\<lambda>st. zip (step_redo st) (step_undo st)) sts)"

fun back_positions :: "nat \<Rightarrow> undo_step list \<Rightarrow> nat list" where
  "back_positions h [] = []"
| "back_positions h (st # older) =
     (h - length (step_undo st)) # back_positions (h - length (step_undo st)) older"

fun forth_positions :: "nat \<Rightarrow> undo_step list \<Rightarrow> nat list" where
  "forth_positions h [] = []"
| "forth_positions h (st # later) =
     (h + length (step_redo st)) # forth_positions (h + length (step_redo st)) later"

definition tracks :: "'r rope_ops \<Rightarrow> (nat \<Rightarrow> utext) \<Rightarrow> undo_store \<Rightarrow> utext \<Rightarrow> timeline \<Rightarrow> bool" where
  "tracks R T s t tm \<longleftrightarrow>
     T (head_pos s) = t \<and>
     linked (\<lambda>tx t. rope_ok R \<and> tx_fits tx t) tx_edit T (head_pos s - undo_tx_count s) (step_pairs (undo_stack s)) \<and>
     linked (\<lambda>tx t. rope_ok R \<and> tx_fits tx t) tx_edit T (head_pos s) (step_pairs (rev (redo_stack s))) \<and>
     tl_past tm = map T (back_positions (head_pos s) (rev (undo_stack s))) \<and>
     tl_future tm = map T (forth_positions (head_pos s) (rev (redo_stack s))) \<and>
     (\<forall>cp. clean_pos s = Some cp \<longrightarrow> tl_saved tm = Some (T cp))"

definition simulates :: "'r rope_ops \<Rightarrow> undo_store \<Rightarrow> utext \<Rightarrow> timeline \<Rightarrow> bool" where
  "simulates R s t tm \<longleftrightarrow> store_inv s \<and> (\<exists>T. tracks R T s t tm)"

text \<open>The operations on snapshots; a record keeps as many snapshots as the store keeps steps.\<close>

definition tl_record :: "timeline \<Rightarrow> utext \<Rightarrow> bool \<Rightarrow> nat \<Rightarrow> timeline" where
  "tl_record tm now new_step keep =
     tm\<lparr> tl_future := [], tl_past := take keep (if new_step then now # tl_past tm else tl_past tm) \<rparr>"

definition tl_undo :: "timeline \<Rightarrow> utext \<Rightarrow> timeline" where
  "tl_undo tm now = tm\<lparr> tl_past := tl (tl_past tm), tl_future := now # tl_future tm \<rparr>"

definition tl_redo :: "timeline \<Rightarrow> utext \<Rightarrow> timeline" where
  "tl_redo tm now = tm\<lparr> tl_past := now # tl_past tm, tl_future := tl (tl_future tm) \<rparr>"

section \<open>Auxiliary definitions of the proofs\<close>

fun repeat_op ::
  "('s \<Rightarrow> 'd \<Rightarrow> nat \<Rightarrow> ('s \<times> 'd \<times> nat \<times> 'x option) option) \<Rightarrow> nat \<Rightarrow> 's \<Rightarrow> 'd \<Rightarrow> nat \<Rightarrow> ('s \<times> 'd \<times> nat) option" where
  "repeat_op f 0 s d v = Some (s, d, v)"
| "repeat_op f (Suc n) s d v = do { (s, d, v, _) \<leftarrow> f s d v; repeat_op f n s d v }"

definition counted :: "undo_store \<Rightarrow> bool" where
  "counted s \<longleftrightarrow>
     undo_bytes s = sum_list (map step_bytes (undo_stack s)) \<and>
     redo_bytes s = sum_list (map step_bytes (redo_stack s)) \<and>
     undo_tx_count s = sum_list (map (\<lambda>st. length (step_undo st)) (undo_stack s)) \<and>
     redo_tx_count s = sum_list (map (\<lambda>st. length (step_redo st)) (redo_stack s)) \<and>
     undo_tx_count s \<le> head_pos s \<and> head_pos s + redo_tx_count s \<le> u64_max \<and>
     (\<forall>st \<in> set (undo_stack s) \<union> set (redo_stack s). length (step_redo st) = length (step_undo st))"

definition trimmed :: "nat \<Rightarrow> undo_store \<Rightarrow> undo_store" where
  "trimmed k s = s\<lparr> undo_stack := drop k (undo_stack s),
     undo_bytes := sum_list (map step_bytes (drop k (undo_stack s))),
     undo_tx_count := sum_list (map (\<lambda>st. length (step_undo st)) (drop k (undo_stack s))) \<rparr>"

definition checked_clean :: "undo_store \<Rightarrow> undo_store" where
  "checked_clean s = (case clean_pos s of
       None \<Rightarrow> s
     | Some cp \<Rightarrow> if cp < head_pos s - undo_tx_count s \<or> cp > head_pos s + redo_tx_count s
                 then s\<lparr> clean_pos := None \<rparr> else s)"

abbreviation tx_linked :: "'r rope_ops \<Rightarrow> (nat \<Rightarrow> utext) \<Rightarrow> nat \<Rightarrow> (transaction \<times> transaction) list \<Rightarrow> bool" where
  "tx_linked R \<equiv> linked (\<lambda>tx t. rope_ok R \<and> tx_fits tx t) tx_edit"

text \<open>Appending a character to a text of one, for the witnesses.\<close>

definition example_tx :: transaction where
  "example_tx =
     \<lparr> tx_changes = \<lparr> changes = [Retain 1, Insert (insertion_new [7])], cs_len = 1, cs_len_after = 2 \<rparr>,
       tx_selection = None \<rparr>"

section \<open>Lemmas\<close>

subsection \<open>Positions and pairs\<close>

lemma step_pairs_simps [simp]:
  "step_pairs [] = []" "step_pairs (xs @ ys) = step_pairs xs @ step_pairs ys"
  "step_pairs (st # sts) = zip (step_redo st) (step_undo st) @ step_pairs sts"
  by (simp_all add: step_pairs_def)

lemma length_step_pairs:
  "\<forall>st \<in> set sts. length (step_redo st) = length (step_undo st) \<Longrightarrow>
   length (step_pairs sts) = sum_list (map (\<lambda>st. length (step_undo st)) sts)"
  by (induction sts) auto

lemma back_positions_take: "back_positions h (take n sts) = take n (back_positions h sts)"
  by (induction sts arbitrary: h n) (auto simp: take_Cons split: nat.splits)

lemma length_positions [simp]:
  "length (back_positions h sts) = length sts" "length (forth_positions h sts) = length sts"
  by (induction sts arbitrary: h) auto

lemma back_positions_le: "p \<in> set (back_positions h sts) \<Longrightarrow> p \<le> h"
  by (induction sts arbitrary: h) (fastforce intro: order_trans)+

lemma map_back_positions_upd:
  "map (T(Suc h := x)) (back_positions h sts) = map T (back_positions h sts)"
  using back_positions_le [of _ h sts] by fastforce

subsection \<open>Eviction\<close>

lemma store_inv_counted:
  "store_inv s \<longleftrightarrow> counted s \<and> undo_bytes s + redo_bytes s \<le> MAX_UNDO_BYTES \<and>
     length (undo_stack s) + length (redo_stack s) \<le> MAX_UNDO \<and>
     (\<forall>cp. clean_pos s = Some cp \<longrightarrow> head_pos s - undo_tx_count s \<le> cp \<and> cp \<le> head_pos s + redo_tx_count s)"
  by (auto simp: store_inv_def counted_def assert_invariants_def split: option.splits)

lemma sum_list_drop_le: "sum_list (drop k xs) \<le> sum_list (xs :: nat list)"
  by (metis append_take_drop_id le_add2 sum_list_append)

lemma trimmed_counted: "counted s \<Longrightarrow> counted (trimmed k s)"
  using sum_list_drop_le [of k "map (\<lambda>st. length (step_undo st)) (undo_stack s)"]
  by (auto simp: counted_def trimmed_def drop_map dest: in_set_dropD)

lemma trimmed_0: "counted s \<Longrightarrow> trimmed 0 s = s"
  by (simp add: trimmed_def counted_def)

lemma trimmed_trimmed: "trimmed k (trimmed j s) = trimmed (k + j) s"
  by (simp add: trimmed_def add.commute)

lemma evict_undo_trimmed:
  "counted s \<Longrightarrow> undo_stack s = oldest # rest \<Longrightarrow> evict_undo s oldest rest = Some (trimmed 1 s)"
  by (simp add: evict_undo_def counted_def trimmed_def)

lemma enforce_undo_depth_trimmed:
  "counted s \<Longrightarrow> \<exists>k. enforce_undo_depth s = Some (trimmed k s) \<and> length (undo_stack (trimmed k s)) \<le> MAX_UNDO"
proof (induction s rule: enforce_undo_depth.induct)
  case (1 s)
  show ?case
  proof (cases "length (undo_stack s) > MAX_UNDO")
    case True
    then obtain oldest rest where st: "undo_stack s = oldest # rest" by (cases "undo_stack s") auto
    have e: "evict_undo s oldest rest = Some (trimmed 1 s)" using 1 st by (simp add: evict_undo_trimmed)
    obtain k where k: "enforce_undo_depth (trimmed 1 s) = Some (trimmed k (trimmed 1 s))"
      "length (undo_stack (trimmed k (trimmed 1 s))) \<le> MAX_UNDO"
      using "1.IH" [OF True st e] "1.prems" trimmed_counted by blast
    then have "enforce_undo_depth s = Some (trimmed (k + 1) s)"
      using True st e by (subst enforce_undo_depth.simps) (simp add: trimmed_trimmed)
    with k show ?thesis unfolding trimmed_trimmed by blast
  next
    case False
    then have "enforce_undo_depth s = Some (trimmed 0 s)"
      using 1 by (subst enforce_undo_depth.simps) (simp add: trimmed_0)
    then show ?thesis using False "1.prems" by (metis not_less trimmed_0)
  qed
qed

lemma enforce_redo_depth_id: "length (redo_stack s) \<le> MAX_UNDO \<Longrightarrow> enforce_redo_depth s = Some s"
  by (subst enforce_redo_depth.simps) simp

lemma enforce_bytes_trimmed:
  "counted s \<Longrightarrow> redo_stack s = [] \<Longrightarrow>
   \<exists>k. enforce_bytes s = Some (trimmed k s) \<and> undo_bytes (trimmed k s) \<le> MAX_UNDO_BYTES"
proof (induction s rule: enforce_bytes.induct)
  case (1 s)
  show ?case
  proof (cases "undo_bytes s + redo_bytes s > MAX_UNDO_BYTES")
    case True
    then obtain oldest rest where st: "undo_stack s = oldest # rest"
      using "1.prems" by (cases "undo_stack s") (auto simp: counted_def)
    have e: "evict_undo s oldest rest = Some (trimmed 1 s)" using "1.prems" st by (simp add: evict_undo_trimmed)
    have "redo_stack (trimmed 1 s) = []" using "1.prems" by (simp add: trimmed_def)
    then obtain k where k: "enforce_bytes (trimmed 1 s) = Some (trimmed k (trimmed 1 s))"
      "undo_bytes (trimmed k (trimmed 1 s)) \<le> MAX_UNDO_BYTES"
      using "1.IH"(1) [OF True "1.prems"(2) st e] "1.prems" trimmed_counted by blast
    then have "enforce_bytes s = Some (trimmed (k + 1) s)"
      using True st e "1.prems" by (subst enforce_bytes.simps) (simp add: trimmed_trimmed)
    with k show ?thesis unfolding trimmed_trimmed by blast
  next
    case False
    then have "enforce_bytes s = Some (trimmed 0 s)"
      using "1.prems" by (subst enforce_bytes.simps) (simp add: trimmed_0)
    then show ?thesis using False "1.prems" by (auto simp: trimmed_0 intro!: exI [of _ 0])
  qed
qed

lemma invalidate_checked: "counted s \<Longrightarrow> invalidate_clean_pos_after_eviction s = Some (checked_clean s)"
  by (auto simp: invalidate_clean_pos_after_eviction_def checked_clean_def counted_def Let_def split: option.splits)

lemma enforce_limits_fresh:
  assumes "counted s" and "redo_stack s = []"
  shows "\<exists>k. enforce_limits s = Some (checked_clean (trimmed k s)) \<and> store_inv (checked_clean (trimmed k s))"
proof -
  obtain j where j: "enforce_undo_depth s = Some (trimmed j s)" "length (undo_stack (trimmed j s)) \<le> MAX_UNDO"
    using enforce_undo_depth_trimmed [OF assms(1)] by blast
  have r: "redo_stack (trimmed i s) = []" for i using assms(2) by (simp add: trimmed_def)
  obtain k where k: "enforce_bytes (trimmed j s) = Some (trimmed k (trimmed j s))"
    "undo_bytes (trimmed k (trimmed j s)) \<le> MAX_UNDO_BYTES"
    using enforce_bytes_trimmed [OF trimmed_counted [OF assms(1)] r] by blast
  have c: "counted (trimmed (k + j) s)" by (rule trimmed_counted [OF assms(1)])
  have "enforce_limits s = Some (checked_clean (trimmed (k + j) s))"
    using j k invalidate_checked [OF c] r
    by (simp add: enforce_limits_def enforce_depth_def enforce_redo_depth_id trimmed_trimmed)
  moreover have "store_inv (checked_clean (trimmed (k + j) s))"
  proof -
    have "length (undo_stack (trimmed (k + j) s)) \<le> MAX_UNDO" using j(2) by (simp add: trimmed_def)
    moreover have "redo_bytes (trimmed (k + j) s) = 0" using c r by (simp add: counted_def)
    ultimately show ?thesis using c k(2) r unfolding trimmed_trimmed store_inv_counted
      by (auto simp: checked_clean_def counted_def split: option.splits)
  qed
  ultimately show ?thesis by blast
qed

lemma debug_assert_ok: "store_inv s \<Longrightarrow> debug_assert s = Some s"
  by (simp add: debug_assert_def store_inv_def)

lemma enforce_limits_id:
  assumes "store_inv s"
  shows "enforce_limits s = Some s"
proof -
  have c: "counted s" using assms by (simp add: store_inv_counted)
  have "checked_clean s = s" using assms by (auto simp: store_inv_counted checked_clean_def split: option.splits)
  moreover have "enforce_undo_depth s = Some s"
    using assms by (subst enforce_undo_depth.simps) (simp add: store_inv_counted)
  moreover have "enforce_bytes s = Some s"
    using assms by (subst enforce_bytes.simps) (simp add: store_inv_counted)
  moreover have "enforce_redo_depth s = Some s"
    using assms by (intro enforce_redo_depth_id) (simp add: store_inv_counted)
  ultimately show ?thesis using invalidate_checked [OF c] by (simp add: enforce_limits_def enforce_depth_def)
qed

subsection \<open>The ghost history\<close>

lemma counted_pairs:
  "counted s \<Longrightarrow> length (step_pairs (undo_stack s)) = undo_tx_count s"
  "counted s \<Longrightarrow> length (step_pairs (rev (redo_stack s))) = redo_tx_count s"
  using length_step_pairs [of "undo_stack s"] length_step_pairs [of "rev (redo_stack s)"]
  by (auto simp: counted_def rev_map [symmetric] sum_list_rev intro: arg_cong [of _ _ sum_list])

lemma tracks_owner [simp]:
  "tracks R T (s\<lparr> active_group_owner := x \<rparr>) t tm = tracks R T s t tm"
  "store_inv (s\<lparr> active_group_owner := x \<rparr>) = store_inv s"
  by (simp_all add: tracks_def store_inv_def assert_invariants_def split: option.splits)

lemma tracks_checked_clean: "tracks R T s t tm \<Longrightarrow> tracks R T (checked_clean s) t tm"
  by (auto simp: tracks_def checked_clean_def split: option.splits)

lemma tracks_trimmed:
  assumes "counted s" and "tracks R T s t tm"
  shows "tracks R T (trimmed k s) t (tm\<lparr> tl_past := take (undo_len (trimmed k s)) (tl_past tm) \<rparr>)"
proof -
  let ?st = "undo_stack s" and ?n = "length (step_pairs (take k (undo_stack s)))"
  have lens: "\<forall>st \<in> set ?st. length (step_redo st) = length (step_undo st)" using assms by (simp add: counted_def)
  have d: "length (step_pairs (drop k ?st)) = undo_tx_count (trimmed k s)"
    using lens length_step_pairs [of "drop k ?st"] by (auto simp: trimmed_def dest: in_set_dropD)
  have "?n + length (step_pairs (drop k ?st)) = undo_tx_count s"
    using counted_pairs(1) [OF assms(1)]
    by (metis append_take_drop_id length_append step_pairs_simps(2))
  moreover have "undo_tx_count s \<le> head_pos s" using assms by (simp add: counted_def)
  ultimately have start: "head_pos s - undo_tx_count s + ?n = head_pos s - undo_tx_count (trimmed k s)"
    using d by linarith
  have "tx_linked R T (head_pos s - undo_tx_count s) (step_pairs (take k ?st) @ step_pairs (drop k ?st))"
    using assms(2) by (metis append_take_drop_id step_pairs_simps(2) tracks_def)
  then have "tx_linked R T (head_pos s - undo_tx_count (trimmed k s)) (step_pairs (drop k ?st))"
    unfolding linked_append start by blast
  moreover have "rev (drop k ?st) = take (length ?st - k) (rev ?st)" by (simp add: rev_drop)
  ultimately show ?thesis using assms(2)
    by (auto simp: tracks_def trimmed_def undo_len_def back_positions_take take_map)
qed

text \<open>A new or merged step extends the pairs by one; the older snapshots stay where they are.\<close>

lemma push_step_correct:
  assumes "counted s" and "push_step s r u m = (s', new)"
  shows "step_pairs (undo_stack s') = step_pairs (undo_stack s) @ [(r, u)]"
    and "back_positions (Suc h) (rev (undo_stack s')) =
      (if new then h # back_positions h (rev (undo_stack s)) else back_positions h (rev (undo_stack s)))"
    and "undo_bytes s' = sum_list (map step_bytes (undo_stack s'))"
    and "sum_list (map (\<lambda>st. length (step_undo st)) (undo_stack s')) = Suc (undo_tx_count s)"
    and "\<forall>st \<in> set (undo_stack s'). length (step_redo st) = length (step_undo st)"
    and "redo_stack s' = redo_stack s" "redo_bytes s' = redo_bytes s" "undo_tx_count s' = undo_tx_count s"
    and "redo_tx_count s' = redo_tx_count s" "head_pos s' = head_pos s" "clean_pos s' = clean_pos s"
proof -
  consider (merge) sts st where "undo_stack s = sts @ [st]" "m" | (fresh) "\<not> m \<or> undo_stack s = []"
    by (cases "undo_stack s" rule: rev_cases) auto
  then show "step_pairs (undo_stack s') = step_pairs (undo_stack s) @ [(r, u)]"
    and "back_positions (Suc h) (rev (undo_stack s')) =
      (if new then h # back_positions h (rev (undo_stack s)) else back_positions h (rev (undo_stack s)))"
    and "undo_bytes s' = sum_list (map step_bytes (undo_stack s'))"
    and "sum_list (map (\<lambda>st. length (step_undo st)) (undo_stack s')) = Suc (undo_tx_count s)"
    and "\<forall>st \<in> set (undo_stack s'). length (step_redo st) = length (step_undo st)"
    using assms
    by (cases; auto simp: push_step_def counted_def Let_def step_append_def step_new_def)+
  show "redo_stack s' = redo_stack s" "redo_bytes s' = redo_bytes s" "undo_tx_count s' = undo_tx_count s"
    and "redo_tx_count s' = redo_tx_count s" "head_pos s' = head_pos s" "clean_pos s' = clean_pos s"
    using assms(2) by (auto simp: push_step_def Let_def split: if_splits)
qed

lemma branch_check_correct:
  assumes "store_inv s"
  shows "counted (branch_check s)" and "\<And>cp. clean_pos (branch_check s) = Some cp \<Longrightarrow> cp \<le> head_pos s"
    and "\<And>cp. clean_pos (branch_check s) = Some cp \<Longrightarrow> clean_pos s = Some cp"
    and "undo_stack (branch_check s) = undo_stack s" "head_pos (branch_check s) = head_pos s"
    and "undo_tx_count (branch_check s) = undo_tx_count s"
  using assms by (auto simp: branch_check_def store_inv_counted counted_def split: option.splits if_splits)

lemma record_transaction_correct:
  assumes inv: "store_inv s" and tr: "tracks R T s t tm" and head: "head_pos s < u64_max"
    and pair: "tx_linked R (T(Suc (head_pos s) := t')) (head_pos s) [(r, u)]"
  shows "\<exists>s' new. record_transaction s r u m = Some (s', new) \<and> store_inv s' \<and>
    tracks R (T(Suc (head_pos s) := t')) s' t' (tl_record tm t new (undo_len s'))"
proof -
  let ?h = "head_pos s" and ?T = "T(Suc (head_pos s) := t')"
  obtain s1 new where push: "push_step (branch_check s) r u m = (s1, new)" by fastforce
  note b = branch_check_correct [OF inv]
  note p = push_step_correct [OF b(1) push]
  let ?s2 = "clear_redo (s1\<lparr> head_pos := Suc ?h, undo_tx_count := Suc (undo_tx_count s) \<rparr>)"
  have le: "undo_tx_count s \<le> ?h" using inv by (simp add: store_inv_def)
  have c2: "counted ?s2" "redo_stack ?s2 = []"
    using p b(5,6) le head by (simp_all add: counted_def clear_redo_def)
  obtain k where k: "enforce_limits ?s2 = Some (checked_clean (trimmed k ?s2))"
    "store_inv (checked_clean (trimmed k ?s2))"
    using enforce_limits_fresh [OF c2] by blast
  have rec: "record_transaction s r u m = Some (checked_clean (trimmed k ?s2), new)"
    using push p b(5,6) head le k
    by (simp add: record_transaction_def debug_assert_def store_inv_def)
  have T: "map ?T (back_positions ?h sts) = map T (back_positions ?h sts)" for sts
    by (rule map_back_positions_upd)
  have clean: "\<And>cp. clean_pos s1 = Some cp \<Longrightarrow> cp \<le> ?h \<and> clean_pos s = Some cp" using p(11) b(2,3) by auto
  have pos: "back_positions (Suc ?h) (rev (undo_stack ?s2)) =
      (if new then ?h # back_positions ?h (rev (undo_stack s)) else back_positions ?h (rev (undo_stack s)))"
    using p(2) [of ?h] b(4) by (simp add: clear_redo_def)
  have start: "?h - undo_tx_count s + length (step_pairs (undo_stack s)) = ?h"
    using counted_pairs(1) [of s] inv le by (simp add: store_inv_counted)
  have "tx_linked R ?T (?h - undo_tx_count s) (step_pairs (undo_stack s)) = tx_linked R T (?h - undo_tx_count s) (step_pairs (undo_stack s))"
    by (rule linked_cong) (use start in auto)
  then have lk: "tx_linked R ?T (?h - undo_tx_count s) (step_pairs (undo_stack ?s2))"
    using tr pair start p(1) b(4) by (simp add: linked_append tracks_def clear_redo_def)
  have "tracks R ?T ?s2 t' (tm\<lparr> tl_past := (if new then t # tl_past tm else tl_past tm), tl_future := [] \<rparr>)"
    using lk tr pos clean by (auto simp: tracks_def T clear_redo_def)
  from tracks_checked_clean [OF tracks_trimmed [OF c2(1) this, of k]]
  have "tracks R ?T (checked_clean (trimmed k ?s2)) t' (tl_record tm t new (undo_len (trimmed k ?s2)))"
    by (cases new) (simp_all add: tl_record_def)
  moreover have "undo_len (checked_clean s) = undo_len s" for s
    by (simp add: undo_len_def checked_clean_def split: option.splits)
  ultimately show ?thesis using rec k by auto
qed

subsection \<open>Undo and redo\<close>

lemma step_split:
  assumes "length (step_redo st) = length (step_undo st)"
  shows "map fst (zip (step_redo st) (step_undo st)) = step_redo st"
    and "map snd (zip (step_redo st) (step_undo st)) = step_undo st"
  using assms by simp_all

lemma store_undo_correct:
  assumes inv: "store_inv s" and tr: "tracks R T s (rp_chars R doc) tm"
    and st: "undo_stack s = sts @ [st]"
  shows "\<exists>s' doc'. store_undo R s doc = Some (s', doc', Some (rev (step_undo st))) \<and> store_inv s' \<and>
    tracks R T s' (rp_chars R doc') (tl_undo tm (rp_chars R doc)) \<and> rp_chars R doc' = hd (tl_past tm)"
proof -
  let ?h = "head_pos s" and ?n = "length (step_undo st)" and ?zs = "zip (step_redo st) (step_undo st)"
  have c: "counted s" using inv by (simp add: store_inv_counted)
  have len: "length (step_redo st) = ?n" and n: "?n \<le> undo_tx_count s" "undo_tx_count s \<le> ?h"
    using c st by (auto simp: counted_def)
  have start: "?h - undo_tx_count s + length (step_pairs sts) = ?h - ?n"
    using counted_pairs(1) [OF c] n st len by auto
  have lk: "tx_linked R T (?h - undo_tx_count s) (step_pairs sts)" "tx_linked R T (?h - ?n) ?zs"
    using tr st start by (simp_all add: tracks_def linked_append)
  obtain doc' where doc': "replay (tx_run R) (rev (step_undo st)) doc = Some doc'" "rp_chars R doc' = T (?h - ?n)"
    using txr.replay_backward [OF lk(2), of doc] tr len n step_split [OF len] by (auto simp: tracks_def)
  let ?s = "s\<lparr> active_group_owner := None, undo_stack := sts, undo_bytes := undo_bytes s - step_bytes st,
      undo_tx_count := undo_tx_count s - ?n, head_pos := ?h - ?n, redo_bytes := redo_bytes s + step_bytes st,
      redo_tx_count := redo_tx_count s + ?n, redo_stack := redo_stack s @ [st] \<rparr>"
  have inv': "store_inv ?s"
    using inv st len n by (auto simp: store_inv_counted counted_def)
  have "redo_tx_count s + ?n \<le> u64_max" using inv n by (auto simp: store_inv_def)
  then have "store_undo R s doc = Some (?s, doc', Some (rev (step_undo st)))"
    using st n doc' enforce_limits_id [OF inv'] debug_assert_ok [OF inv'] by (simp add: store_undo_def Let_def)
  moreover have "tracks R T ?s (rp_chars R doc') (tl_undo tm (rp_chars R doc))"
    using tr st lk doc' len n by (auto simp: tracks_def linked_append tl_undo_def)
  moreover have "rp_chars R doc' = hd (tl_past tm)" using tr st doc' by (simp add: tracks_def)
  ultimately show ?thesis using inv' by blast
qed

lemma store_redo_correct:
  assumes inv: "store_inv s" and tr: "tracks R T s (rp_chars R doc) tm"
    and st: "redo_stack s = sts @ [st]"
  shows "\<exists>s' doc'. store_redo R s doc = Some (s', doc', Some (step_redo st)) \<and> store_inv s' \<and>
    tracks R T s' (rp_chars R doc') (tl_redo tm (rp_chars R doc)) \<and> rp_chars R doc' = hd (tl_future tm)"
proof -
  let ?h = "head_pos s" and ?n = "length (step_redo st)" and ?zs = "zip (step_redo st) (step_undo st)"
  have c: "counted s" using inv by (simp add: store_inv_counted)
  have len: "length (step_undo st) = ?n" and n: "?n \<le> redo_tx_count s" "undo_tx_count s \<le> ?h"
    using c st by (auto simp: counted_def)
  have lk: "tx_linked R T (?h + ?n) (step_pairs (rev sts))" "tx_linked R T ?h ?zs"
    using tr st len by (simp_all add: tracks_def linked_append)
  obtain doc' where doc': "replay (tx_run R) (step_redo st) doc = Some doc'" "rp_chars R doc' = T (?h + ?n)"
    using txr.replay_forward [OF lk(2), of doc] tr len step_split [OF len [symmetric]] by (auto simp: tracks_def)
  let ?s = "s\<lparr> active_group_owner := None, redo_stack := sts, redo_bytes := redo_bytes s - step_bytes st,
      redo_tx_count := redo_tx_count s - ?n, head_pos := ?h + ?n, undo_bytes := undo_bytes s + step_bytes st,
      undo_tx_count := undo_tx_count s + ?n, undo_stack := undo_stack s @ [st] \<rparr>"
  have inv': "store_inv ?s"
    using inv st len n by (auto simp: store_inv_counted counted_def)
  have "?h + ?n \<le> u64_max" "undo_tx_count s + ?n \<le> u64_max" using inv n by (auto simp: store_inv_def)
  then have "store_redo R s doc = Some (?s, doc', Some (step_redo st))"
    using st n doc' enforce_limits_id [OF inv'] debug_assert_ok [OF inv'] by (simp add: store_redo_def Let_def)
  moreover have "?h - undo_tx_count s + length (step_pairs (undo_stack s)) = ?h"
    using counted_pairs(1) [OF c] n by simp
  then have "tracks R T ?s (rp_chars R doc') (tl_redo tm (rp_chars R doc))"
    using tr st lk doc' len n by (auto simp: tracks_def linked_append tl_redo_def)
  moreover have "rp_chars R doc' = hd (tl_future tm)" using tr st doc' by (simp add: tracks_def)
  ultimately show ?thesis using inv' by blast
qed

lemma tracks_lengths:
  "tracks R T s t tm \<Longrightarrow> length (tl_past tm) = undo_len s \<and> length (tl_future tm) = redo_len s"
  by (simp add: tracks_def undo_len_def redo_len_def)

subsection \<open>The store simulates the snapshots\<close>

text \<open>
  Recording. For a store that simulates a timeline whose present is the document, recording a
  fitting transaction under any policy never panics as long as the transaction counter has room; the
  store then simulates the timeline in which the present has become the newest snapshot (or was
  merged into the last step), the future is gone and the oldest snapshots may have been dropped, at
  most down to the number of steps the limits allow. All debug assertions hold.
\<close>

lemma record_commit_simulates:
  assumes "rope_ok R" and "simulates R s (rp_chars R before) tm" and "tx_fits tx (rp_chars R before)"
    and "head_pos s < u64_max"
  shows "\<exists>s' new. record_commit R s tx before policy view = Some (s', new) \<and>
     simulates R s' (tx_edit tx (rp_chars R before)) (tl_record tm (rp_chars R before) new (undo_len s')) \<and>
     undo_len s' \<le> MAX_UNDO \<and> undo_bytes s' \<le> MAX_UNDO_BYTES"
proof -
  obtain T where inv: "store_inv s" and T: "tracks R T s (rp_chars R before) tm"
    using assms(2) by (auto simp: simulates_def)
  have "rope_ok R \<and> tx_fits tx (rp_chars R before)" "rp_chars R before = T (head_pos s)"
    using assms T by (auto simp: tracks_def)
  then obtain y where y: "tx_invert R tx before = Some y"
    "tx_linked R (T(Suc (head_pos s) := tx_edit tx (rp_chars R before))) (head_pos s) [(tx, y)]"
    by (rule txr.linked_record)
  define m where "m = (case policy of
      MergeWithCurrentGroup \<Rightarrow> active_group_owner s = view \<and> view \<noteq> None | _ \<Rightarrow> False)"
  obtain s' new where rec: "record_transaction s tx y m = Some (s', new)" "store_inv s'"
    "tracks R (T(Suc (head_pos s) := tx_edit tx (rp_chars R before))) s' (tx_edit tx (rp_chars R before))
       (tl_record tm (rp_chars R before) new (undo_len s'))"
    using record_transaction_correct [OF inv T assms(4) y(2), of m] by blast
  let ?o = "if policy = MergeWithCurrentGroup \<or> policy = Boundary then view else None"
  have "record_commit R s tx before policy view = Some (s'\<lparr> active_group_owner := ?o \<rparr>, new)"
    using y rec by (simp add: record_commit_def m_def [symmetric])
  moreover have "undo_len (s'\<lparr> active_group_owner := ?o \<rparr>) = undo_len s'" by (simp add: undo_len_def)
  ultimately show ?thesis using rec
    by (auto simp: simulates_def store_inv_counted [of s'] undo_len_def intro!: exI)
qed

text \<open>
  Undo. With a past, \<open>undo\<close> never panics, applies the inverse transactions of the last step in
  reverse order, brings the document to the most recent snapshot exactly, bumps the version by one and
  makes the old present the next redo target; nothing is evicted. Without a past it returns nothing
  and leaves content and version alone.
\<close>

lemma backend_undo_simulates:
  assumes "simulates R s (rp_chars R doc) tm" and "version < u64_max"
  shows "if tl_past tm = []
    then backend_undo R s doc version = Some (s\<lparr> active_group_owner := None \<rparr>, doc, version, None)
    else \<exists>s' doc' txs. backend_undo R s doc version = Some (s', doc', version + 1, Some txs) \<and>
      txs = rev (step_undo (last (undo_stack s))) \<and> rp_chars R doc' = hd (tl_past tm) \<and>
      simulates R s' (rp_chars R doc') (tl_undo tm (rp_chars R doc))"
proof -
  obtain T where T: "store_inv s" "tracks R T s (rp_chars R doc) tm" using assms by (auto simp: simulates_def)
  show ?thesis
  proof (cases "undo_stack s" rule: rev_cases)
    case Nil
    then have "tl_past tm = []" using T by (simp add: tracks_def)
    then show ?thesis using Nil by (simp add: backend_undo_def store_undo_def Let_def)
  next
    case (snoc sts st)
    then have "tl_past tm \<noteq> []" using T by (simp add: tracks_def)
    then show ?thesis using store_undo_correct [OF T snoc] assms(2) snoc
      by (auto simp: backend_undo_def simulates_def)
  qed
qed

text \<open>
  Redo, the mirror image: it re-applies the last undone step, reaches the text that was undone
  and makes the present a snapshot to undo to.
\<close>

lemma backend_redo_simulates:
  assumes "simulates R s (rp_chars R doc) tm" and "version < u64_max"
  shows "if tl_future tm = []
    then backend_redo R s doc version = Some (s\<lparr> active_group_owner := None \<rparr>, doc, version, None)
    else \<exists>s' doc' txs. backend_redo R s doc version = Some (s', doc', version + 1, Some txs) \<and>
      txs = step_redo (last (redo_stack s)) \<and> rp_chars R doc' = hd (tl_future tm) \<and>
      simulates R s' (rp_chars R doc') (tl_redo tm (rp_chars R doc))"
proof -
  obtain T where T: "store_inv s" "tracks R T s (rp_chars R doc) tm" using assms by (auto simp: simulates_def)
  show ?thesis
  proof (cases "redo_stack s" rule: rev_cases)
    case Nil
    then have "tl_future tm = []" using T by (simp add: tracks_def)
    then show ?thesis using Nil by (simp add: backend_redo_def store_redo_def Let_def)
  next
    case (snoc sts st)
    then have "tl_future tm \<noteq> []" using T by (simp add: tracks_def)
    then show ?thesis using store_redo_correct [OF T snoc] assms(2) snoc
      by (auto simp: backend_redo_def simulates_def)
  qed
qed

lemma set_modified_simulates:
  assumes "simulates R s t tm"
  shows "simulates R (store_set_modified s False) t (tm\<lparr> tl_saved := Some t \<rparr>)"
    and "simulates R (store_set_modified s True) t tm"
proof -
  obtain T where T: "store_inv s" "tracks R T s t tm" using assms by (auto simp: simulates_def)
  have "tracks R T (store_set_modified s False) t (tm\<lparr> tl_saved := Some t \<rparr>)"
    "tracks R T (store_set_modified s True) t tm"
    using T(2) by (auto simp: tracks_def store_set_modified_def)
  moreover have "store_inv (store_set_modified s b)" for b
    using T(1) by (auto simp: store_inv_counted store_set_modified_def counted_def)
  ultimately show "simulates R (store_set_modified s False) t (tm\<lparr> tl_saved := Some t \<rparr>)"
    "simulates R (store_set_modified s True) t tm"
    by (auto simp: simulates_def)
qed

lemma unmodified_is_saved:
  assumes "simulates R s t tm" and "\<not> store_is_modified s"
  shows "tl_saved tm = Some t"
  using assms by (auto simp: simulates_def store_is_modified_def tracks_def)

lemma default_simulates: "simulates R store_default t \<lparr> tl_past = [], tl_future = [], tl_saved = x \<rparr>"
  by (auto simp: simulates_def store_default_def store_inv_def assert_invariants_def tracks_def
      MAX_UNDO_BYTES_def MAX_UNDO_def intro!: exI [of _ "\<lambda>_. t"])

lemma simulates_owner [simp]: "simulates R (s\<lparr> active_group_owner := x \<rparr>) t tm = simulates R s t tm"
  by (simp add: simulates_def)

lemma simulates_lengths:
  "simulates R s t tm \<Longrightarrow> length (tl_past tm) = undo_len s \<and> length (tl_future tm) = redo_len s"
  unfolding simulates_def using tracks_lengths by blast

section \<open>Histories as an interface\<close>

text \<open>
  What a client of the history sees: undo and redo walk along the timeline. Inside the interface,
  any number of undos followed by as many redos leads back.
\<close>

locale snapshot_history =
  fixes sim :: "'s \<Rightarrow> 'd \<Rightarrow> timeline \<Rightarrow> bool" and text_of :: "'d \<Rightarrow> utext"
    and undo :: "'s \<Rightarrow> 'd \<Rightarrow> nat \<Rightarrow> ('s \<times> 'd \<times> nat \<times> 'x option) option"
    and redo :: "'s \<Rightarrow> 'd \<Rightarrow> nat \<Rightarrow> ('s \<times> 'd \<times> nat \<times> 'x option) option"
  assumes undo_law: "sim s d tm \<Longrightarrow> v < u64_max \<Longrightarrow> tl_past tm \<noteq> [] \<Longrightarrow>
      \<exists>s' d' x. undo s d v = Some (s', d', v + 1, Some x) \<and> text_of d' = hd (tl_past tm) \<and>
        sim s' d' (tl_undo tm (text_of d))"
    and redo_law: "sim s d tm \<Longrightarrow> v < u64_max \<Longrightarrow> tl_future tm \<noteq> [] \<Longrightarrow>
      \<exists>s' d' x. redo s d v = Some (s', d', v + 1, Some x) \<and> text_of d' = hd (tl_future tm) \<and>
        sim s' d' (tl_redo tm (text_of d))"
begin

lemma undo_many:
  "sim s d tm \<Longrightarrow> n \<le> length (tl_past tm) \<Longrightarrow> v + n \<le> u64_max \<Longrightarrow>
   \<exists>s' d'. repeat_op undo n s d v = Some (s', d', v + n) \<and>
     text_of d' = (text_of d # tl_past tm) ! n \<and>
     sim s' d' (tm\<lparr> tl_past := drop n (tl_past tm),
       tl_future := rev (take n (text_of d # tl_past tm)) @ tl_future tm \<rparr>)"
proof (induction n arbitrary: s d tm v)
  case (Suc n)
  then have past: "tl_past tm \<noteq> []" and v: "v < u64_max" by auto
  obtain s1 d1 x where one: "undo s d v = Some (s1, d1, v + 1, Some x)" "text_of d1 = hd (tl_past tm)"
    "sim s1 d1 (tl_undo tm (text_of d))"
    using undo_law [OF Suc.prems(1) v past] by blast
  have d1: "text_of d1 # tl (tl_past tm) = tl_past tm" using one(2) past by simp
  show ?case
    using Suc.IH [OF one(3), of "v + 1"] Suc.prems one(1) d1 past
    by (auto simp: tl_undo_def drop_Suc)
qed simp

lemma redo_many:
  "sim s d tm \<Longrightarrow> n \<le> length (tl_future tm) \<Longrightarrow> v + n \<le> u64_max \<Longrightarrow>
   \<exists>s' d'. repeat_op redo n s d v = Some (s', d', v + n) \<and>
     text_of d' = (text_of d # tl_future tm) ! n \<and>
     sim s' d' (tm\<lparr> tl_past := rev (take n (text_of d # tl_future tm)) @ tl_past tm,
       tl_future := drop n (tl_future tm) \<rparr>)"
proof (induction n arbitrary: s d tm v)
  case (Suc n)
  then have future: "tl_future tm \<noteq> []" and v: "v < u64_max" by auto
  obtain s1 d1 x where one: "redo s d v = Some (s1, d1, v + 1, Some x)" "text_of d1 = hd (tl_future tm)"
    "sim s1 d1 (tl_redo tm (text_of d))"
    using redo_law [OF Suc.prems(1) v future] by blast
  have d1: "text_of d1 # tl (tl_future tm) = tl_future tm" using one(2) future by simp
  show ?case
    using Suc.IH [OF one(3), of "v + 1"] Suc.prems one(1) d1 future
    by (auto simp: tl_redo_def drop_Suc)
qed simp

lemma undo_redo_many:
  assumes "sim s d tm" and "n \<le> length (tl_past tm)" and "v + 2 * n \<le> u64_max"
  shows "\<exists>s1 d1 s2 d2. repeat_op undo n s d v = Some (s1, d1, v + n) \<and>
     text_of d1 = (text_of d # tl_past tm) ! n \<and>
     repeat_op redo n s1 d1 (v + n) = Some (s2, d2, v + 2 * n) \<and> text_of d2 = text_of d \<and> sim s2 d2 tm"
proof -
  let ?t = "text_of d" and ?p = "tl_past tm" and ?f = "tl_future tm"
  obtain s1 d1 where one: "repeat_op undo n s d v = Some (s1, d1, v + n)" "text_of d1 = (?t # ?p) ! n"
    "sim s1 d1 (tm\<lparr> tl_past := drop n ?p, tl_future := rev (take n (?t # ?p)) @ ?f \<rparr>)"
    using undo_many [OF assms(1,2), of v] assms(3) by auto
  obtain s2 d2 where two: "repeat_op redo n s1 d1 (v + n) = Some (s2, d2, v + n + n)"
    "text_of d2 = (text_of d1 # rev (take n (?t # ?p)) @ ?f) ! n"
    "sim s2 d2 (tm\<lparr> tl_past := rev (take n (text_of d1 # rev (take n (?t # ?p)) @ ?f)) @ drop n ?p,
       tl_future := drop n (rev (take n (?t # ?p)) @ ?f) \<rparr>)"
    using redo_many [OF one(3), of n "v + n"] assms(2,3) by auto
  have "text_of d2 = ?t" using two(2) one(2) assms(2) by (cases n) (auto simp: nth_append)
  moreover have "rev (take n (text_of d1 # rev (take n (?t # ?p)) @ ?f)) @ drop n ?p = ?p"
    unfolding one(2) by (cases n) (use assms(2) in \<open>auto simp: take_Suc_conv_app_nth [symmetric] simp del: take_Suc_conv_app_nth\<close>)
  moreover have "drop n (rev (take n (?t # ?p)) @ ?f) = ?f" using assms(2) by simp
  ultimately show ?thesis using one two by (simp add: mult_2 add.assoc)
qed

end

interpretation hist: snapshot_history
  "\<lambda>s d tm. simulates R s (rp_chars R d) tm" "rp_chars R" "backend_undo R" "backend_redo R"
  for R :: "'r rope_ops"
proof
  show "\<exists>s' d' x. backend_undo R s d v = Some (s', d', v + 1, Some x) \<and> rp_chars R d' = hd (tl_past tm) \<and>
      simulates R s' (rp_chars R d') (tl_undo tm (rp_chars R d))"
    if "simulates R s (rp_chars R d) tm" "v < u64_max" "tl_past tm \<noteq> []" for s d tm v
    using backend_undo_simulates [OF that(1,2)] that(3) by auto
  show "\<exists>s' d' x. backend_redo R s d v = Some (s', d', v + 1, Some x) \<and> rp_chars R d' = hd (tl_future tm) \<and>
      simulates R s' (rp_chars R d') (tl_redo tm (rp_chars R d))"
    if "simulates R s (rp_chars R d) tm" "v < u64_max" "tl_future tm \<noteq> []" for s d tm v
    using backend_redo_simulates [OF that(1,2)] that(3) by auto
qed

subsection \<open>The transactions of a step\<close>

lemma history_steps_fit:
  assumes "simulates R s t tm"
  shows "undo_stack s \<noteq> [] \<Longrightarrow> chain_fits (rev (step_undo (last (undo_stack s)))) t"
    and "redo_stack s \<noteq> [] \<Longrightarrow> chain_fits (step_redo (last (redo_stack s))) t"
proof -
  obtain T where T: "counted s" "tracks R T s t tm" using assms by (auto simp: simulates_def store_inv_counted)
  have len: "\<forall>st \<in> set (undo_stack s) \<union> set (redo_stack s). length (step_redo st) = length (step_undo st)"
    using T(1) by (simp add: counted_def)
  show "chain_fits (rev (step_undo (last (undo_stack s)))) t" if ne: "undo_stack s \<noteq> []"
  proof -
    obtain sts st where us: "undo_stack s = sts @ [st]" using ne by (metis append_butlast_last_id)
    let ?z = "zip (step_redo st) (step_undo st)" and ?p = "head_pos s - undo_tx_count s"
    have l: "tx_linked R T (?p + length (step_pairs sts)) ?z" using T(2) us by (simp add: tracks_def linked_append)
    have "length (step_pairs sts) + length ?z = undo_tx_count s" "undo_tx_count s \<le> head_pos s"
      using T(1) len us length_step_pairs [of sts] by (auto simp: counted_def)
    then have "?p + length (step_pairs sts) + length ?z = head_pos s" by linarith
    with linked_chain(2) [OF l] T(2) len us show ?thesis by (simp add: tracks_def)
  qed
  show "chain_fits (step_redo (last (redo_stack s))) t" if ne: "redo_stack s \<noteq> []"
  proof -
    obtain sts st where rs: "redo_stack s = sts @ [st]" using ne by (metis append_butlast_last_id)
    have "tx_linked R T (head_pos s) (zip (step_redo st) (step_undo st))"
      using T(2) rs by (simp add: tracks_def linked_append)
    from linked_chain(1) [OF this] T(2) len rs show ?thesis by (simp add: tracks_def)
  qed
qed

section \<open>Evaluation\<close>

text \<open>The equations that evaluate the store on a concrete history, and one such history.\<close>

lemmas store_eval = record_commit_def record_transaction_def push_step_def branch_check_def step_new_def
  enforce_limits_def enforce_depth_def enforce_undo_depth.simps enforce_redo_depth.simps enforce_bytes.simps
  invalidate_clean_pos_after_eviction_def debug_assert_def assert_invariants_def store_default_def
  checked_add64_def u64_max_def MAX_UNDO_def MAX_UNDO_BYTES_def Let_def clear_redo_def undo_len_def
  tx_invert_def cs_invert_def cs_retain_def cs_delete_def approx_transaction_bytes_def tx_operations_def
  ins_byte_len_def str_len_def len_utf8_def

lemma example_tx_fits: "tx_fits example_tx [4]" "tx_edit example_tx [4] = [4, 7]"
  by (simp_all add: example_tx_def tx_fits_def tx_wf_def cs_wf_def tx_edit_def)

lemma example_record:
  "\<exists>s. record_commit list_rope store_default example_tx [4] Record None = Some (s, True) \<and> undo_len s = 1"
  by (simp add: example_tx_def store_eval)

lemma example_history:
  obtains s where "record_commit list_rope store_default example_tx [4] Record None = Some (s, True)"
    and "undo_len s = 1" and "simulates list_rope s [4, 7] \<lparr> tl_past = [[4]], tl_future = [], tl_saved = x \<rparr>"
proof -
  let ?tm = "\<lparr> tl_past = [], tl_future = [], tl_saved = x \<rparr>"
  obtain s where s: "record_commit list_rope store_default example_tx [4] Record None = Some (s, True)" "undo_len s = 1"
    using example_record by blast
  have "head_pos store_default < u64_max" by (simp add: store_default_def u64_max_def)
  with record_commit_simulates [OF list_rope_ok, of store_default "[4]" ?tm example_tx Record None]
  have "simulates list_rope s [4, 7] (tl_record ?tm [4] True 1)"
    using s example_tx_fits default_simulates [of list_rope "[4]" x] by auto
  then show ?thesis using that s by (simp add: tl_record_def)
qed

section \<open>Properties\<close>

text \<open>
  C5. Going back and forth. From any state of the history, \<open>n\<close> undos (for any \<open>n\<close> up to the depth
  of the history) reach the \<open>n\<close>-th snapshot, and \<open>n\<close> redos then reach the text and the history one
  started from, however the steps were grouped; every operation bumps the version by one.
\<close>

theorem undo_redo_roundtrip:
  assumes "simulates R s (rp_chars R d) tm" and "n \<le> undo_len s" and "v + 2 * n \<le> u64_max"
  shows "\<exists>s1 d1 s2 d2. repeat_op (backend_undo R) n s d v = Some (s1, d1, v + n) \<and>
     rp_chars R d1 = (rp_chars R d # tl_past tm) ! n \<and>
     repeat_op (backend_redo R) n s1 d1 (v + n) = Some (s2, d2, v + 2 * n) \<and>
     rp_chars R d2 = rp_chars R d \<and> simulates R s2 (rp_chars R d2) tm"
  using hist.undo_redo_many [OF assms(1) _ assms(3)] simulates_lengths [OF assms(1)] assms(2) by auto

theorem undo_redo_roundtrip_witness:
  "\<exists>s s1 s2. record_commit list_rope store_default example_tx [4] Record None = Some (s, True) \<and>
     repeat_op (backend_undo list_rope) 1 s [4, 7] 5 = Some (s1, [4], 6) \<and>
     repeat_op (backend_redo list_rope) 1 s1 [4] 6 = Some (s2, [4, 7], 7)"
proof -
  obtain s where s: "record_commit list_rope store_default example_tx [4] Record None = Some (s, True)"
    "undo_len s = 1" "simulates list_rope s [4, 7] \<lparr> tl_past = [[4]], tl_future = [], tl_saved = None \<rparr>"
    by (rule example_history)
  show ?thesis
    using undo_redo_roundtrip [of list_rope s "[4, 7]" "\<lparr> tl_past = [[4]], tl_future = [], tl_saved = None \<rparr>" 1 5] s
    by (auto simp: u64_max_def simp del: One_nat_def repeat_op.simps)
qed

end
