(* ===== verification/Documents.thy ===== *)
theory Documents
  imports Undo_Store
begin

text \<open>
  Documents, \<open>crates/editor/src/core/document/mod.rs\<close>, and the edit requests and results of
  \<open>crates/primitives/src/edit.rs\<close>: the text with its undo history, the read-only flag, the monotonic
  version and the file metadata. Every method of \<open>impl Document\<close> that changes the document is a
  definition. \<open>None\<close> is a panic; a refused edit is the left value of a sum. The language loader, which
  maps a path or a name to a language, is a parameter, and a fresh \<open>DocumentId\<close> is an argument.

  The lemmas show what a commit does on each branch, that versions grow with every change of the
  text, and that for every document reachable through the public operations the modified flag tells
  the truth about the text that was last loaded or marked as saved.
\<close>

section \<open>Edit requests and results\<close>

datatype read_only_scope = BufferScope | DocumentScope

datatype read_only_reason = FlaggedReadOnly | PermissionDenied | BufferOverride | UnknownReason

datatype edit_error =
    ReadOnly read_only_scope read_only_reason
  | InvalidSelection utext
  | ApplyFailed utext
  | History utext
  | InternalError utext

datatype syntax_policy = SyntaxNone | MarkDirty | IncrementalOrDirty | FullReparseNow

datatype edit_origin = OriginEditOp utext | OriginCommand utext | MacroReplay | OriginLsp | OriginInternal utext

record commit_result =
  cr_applied :: bool
  cr_version_before :: nat
  cr_version_after :: nat
  cr_selection_after :: "selection option"
  cr_undo_recorded :: bool

definition commit_stub :: "nat \<Rightarrow> commit_result option" where
  "commit_stub version = do {
     v \<leftarrow> checked_add64 version 1;
     Some \<lparr> cr_applied = True, cr_version_before = version, cr_version_after = v,
            cr_selection_after = None, cr_undo_recorded = True \<rparr> }"

definition commit_blocked :: "nat \<Rightarrow> commit_result" where
  "commit_blocked version =
     \<lparr> cr_applied = False, cr_version_before = version, cr_version_after = version,
       cr_selection_after = None, cr_undo_recorded = False \<rparr>"

record edit_commit =
  ec_tx :: transaction
  ec_undo :: undo_policy
  ec_syntax :: syntax_policy
  ec_origin :: edit_origin
  ec_selection_after :: "selection option"

definition edit_commit_new :: "transaction \<Rightarrow> edit_commit" where
  "edit_commit_new tx =
     \<lparr> ec_tx = tx, ec_undo = Record, ec_syntax = MarkDirty, ec_origin = OriginInternal [117, 110, 115, 112, 101, 99, 105, 102, 105, 101, 100],
       ec_selection_after = None \<rparr>"

definition with_undo :: "edit_commit \<Rightarrow> undo_policy \<Rightarrow> edit_commit" where
  "with_undo c p = c\<lparr> ec_undo := p \<rparr>"

definition with_syntax :: "edit_commit \<Rightarrow> syntax_policy \<Rightarrow> edit_commit" where
  "with_syntax c p = c\<lparr> ec_syntax := p \<rparr>"

definition with_origin :: "edit_commit \<Rightarrow> edit_origin \<Rightarrow> edit_commit" where
  "with_origin c src = c\<lparr> ec_origin := src \<rparr>"

definition commit_with_selection :: "edit_commit \<Rightarrow> selection \<Rightarrow> edit_commit" where
  "commit_with_selection c s = c\<lparr> ec_selection_after := Some s \<rparr>"

section \<open>Documents\<close>

record ('r, 'l) document =
  doc_id :: nat
  doc_content :: 'r
  doc_path :: "utext option"
  doc_readonly :: bool
  doc_undo_backend :: undo_store
  doc_file_type :: "utext option"
  doc_language_id :: "'l option"
  doc_version :: nat

record 'l language_loader =
  language_for_path :: "utext \<Rightarrow> 'l option"
  language_for_name :: "utext \<Rightarrow> 'l option"
  language_name :: "'l \<Rightarrow> utext option"

record meta_outcome =
  path_changed :: bool
  language_changed :: bool
  file_type_changed :: bool
  readonly_changed :: bool
  modified_changed :: bool

definition meta_default :: meta_outcome where
  "meta_default =
     \<lparr> path_changed = False, language_changed = False, file_type_changed = False, readonly_changed = False,
       modified_changed = False \<rparr>"

definition doc_new :: "'r rope_ops \<Rightarrow> nat \<Rightarrow> utext \<Rightarrow> utext option \<Rightarrow> ('r, 'l) document" where
  "doc_new R new_id content path =
     \<lparr> doc_id = new_id, doc_content = rp_from R content, doc_path = path, doc_readonly = False,
       doc_undo_backend = store_set_modified store_default False, doc_file_type = None,
       doc_language_id = None, doc_version = 0 \<rparr>"

definition doc_scratch :: "'r rope_ops \<Rightarrow> nat \<Rightarrow> ('r, 'l) document" where
  "doc_scratch R new_id = doc_new R new_id [] None"

definition init_syntax :: "'l language_loader \<Rightarrow> ('r, 'l) document \<Rightarrow> ('r, 'l) document" where
  "init_syntax loader d =
     (let d = d\<lparr> doc_file_type := None, doc_language_id := None \<rparr> in
      case doc_path d of
        None \<Rightarrow> d
      | Some p \<Rightarrow>
          (case language_for_path loader p of
             None \<Rightarrow> d
           | Some lang_id \<Rightarrow>
               d\<lparr> doc_file_type := language_name loader lang_id, doc_language_id := Some lang_id \<rparr>))"

definition init_syntax_for_language ::
  "'l language_loader \<Rightarrow> utext \<Rightarrow> ('r, 'l) document \<Rightarrow> ('r, 'l) document" where
  "init_syntax_for_language loader name d =
     (let d = d\<lparr> doc_file_type := None, doc_language_id := None \<rparr> in
      case language_for_name loader name of
        None \<Rightarrow> d
      | Some lang_id \<Rightarrow> d\<lparr> doc_file_type := language_name loader lang_id, doc_language_id := Some lang_id \<rparr>)"

definition doc_undo ::
  "'r rope_ops \<Rightarrow> ('r, 'l) document \<Rightarrow> (('r, 'l) document \<times> transaction list option) option" where
  "doc_undo R d = do {
     (s, content, v, applied) \<leftarrow> backend_undo R (doc_undo_backend d) (doc_content d) (doc_version d);
     Some (d\<lparr> doc_content := content, doc_undo_backend := s, doc_version := v \<rparr>, applied) }"

definition doc_redo ::
  "'r rope_ops \<Rightarrow> ('r, 'l) document \<Rightarrow> (('r, 'l) document \<times> transaction list option) option" where
  "doc_redo R d = do {
     (s, content, v, applied) \<leftarrow> backend_redo R (doc_undo_backend d) (doc_content d) (doc_version d);
     Some (d\<lparr> doc_content := content, doc_undo_backend := s, doc_version := v \<rparr>, applied) }"

definition apply_commit ::
  "'r rope_ops \<Rightarrow> ('r, 'l) document \<Rightarrow> edit_commit \<Rightarrow> view_id option \<Rightarrow> (('r, 'l) document \<times> commit_result) option" where
  "apply_commit R d commit origin_view =
     (let version_before = doc_version d in
      if tx_is_identity (ec_tx commit) then
        Some (d, \<lparr> cr_applied = False, cr_version_before = version_before, cr_version_after = doc_version d,
                   cr_selection_after = ec_selection_after commit, cr_undo_recorded = False \<rparr>)
      else if ec_undo commit = NoUndo then None
      else do {
        (s, recorded) \<leftarrow> record_commit R (doc_undo_backend d) (ec_tx commit) (doc_content d) (ec_undo commit) origin_view;
        (content, _) \<leftarrow> tx_apply R (ec_tx commit) (doc_content d);
        v \<leftarrow> checked_add64 (doc_version d) 1;
        Some (d\<lparr> doc_undo_backend := s, doc_content := content, doc_version := v \<rparr>,
              \<lparr> cr_applied = True, cr_version_before = version_before, cr_version_after = v,
                cr_selection_after = ec_selection_after commit, cr_undo_recorded = recorded \<rparr>) })"

definition ensure_writable :: "('r, 'l) document \<Rightarrow> edit_error + unit" where
  "ensure_writable d =
     (if doc_readonly d then Inl (ReadOnly DocumentScope FlaggedReadOnly) else Inr ())"

definition doc_commit ::
  "'r rope_ops \<Rightarrow> ('r, 'l) document \<Rightarrow> edit_commit \<Rightarrow> view_id option \<Rightarrow>
   (('r, 'l) document \<times> (edit_error + commit_result)) option" where
  "doc_commit R d commit origin_view =
     (case ensure_writable d of
        Inl e \<Rightarrow> Some (d, Inl e)
      | Inr _ \<Rightarrow> map_option (\<lambda>(d', r). (d', Inr r)) (apply_commit R d commit origin_view))"

definition commit_unchecked ::
  "'r rope_ops \<Rightarrow> ('r, 'l) document \<Rightarrow> edit_commit \<Rightarrow> view_id option \<Rightarrow> (('r, 'l) document \<times> commit_result) option" where
  "commit_unchecked R d commit origin_view = apply_commit R d commit origin_view"

definition reset_content :: "('r, 'l) document \<Rightarrow> 'r \<Rightarrow> ('r, 'l) document option" where
  "reset_content d content = do {
     v \<leftarrow> checked_add64 (doc_version d) 1;
     Some (d\<lparr> doc_content := content,
             doc_undo_backend := store_set_modified (clear_active_group_owner store_default) False,
             doc_version := v \<rparr>) }"

definition install_sync_snapshot :: "('r, 'l) document \<Rightarrow> 'r \<Rightarrow> ('r, 'l) document option" where
  "install_sync_snapshot d content = do {
     let s = store_set_modified (clear_active_group_owner store_default) False;
     v \<leftarrow> checked_add64 (doc_version d) 1;
     Some (d\<lparr> doc_content := content, doc_undo_backend := s, doc_version := v \<rparr>) }"

definition set_path ::
  "('r, 'l) document \<Rightarrow> utext option \<Rightarrow> 'l language_loader option \<Rightarrow> ('r, 'l) document \<times> meta_outcome" where
  "set_path d path loader =
     (if doc_path d = path then (d, meta_default)
      else
        let d1 = d\<lparr> doc_path := path \<rparr>; out = meta_default\<lparr> path_changed := True \<rparr> in
        case loader of
          None \<Rightarrow> (d1, out)
        | Some l \<Rightarrow>
            let d2 = init_syntax l d1 in
            (d2, out\<lparr> language_changed := (doc_language_id d2 \<noteq> doc_language_id d1),
                      file_type_changed := (doc_file_type d2 \<noteq> doc_file_type d1) \<rparr>))"

definition doc_is_modified :: "('r, 'l) document \<Rightarrow> bool" where
  "doc_is_modified d = store_is_modified (doc_undo_backend d)"

definition doc_set_modified :: "('r, 'l) document \<Rightarrow> bool \<Rightarrow> ('r, 'l) document \<times> meta_outcome" where
  "doc_set_modified d modified =
     (if doc_is_modified d \<noteq> modified
      then (d\<lparr> doc_undo_backend := store_set_modified (doc_undo_backend d) modified \<rparr>,
            meta_default\<lparr> modified_changed := True \<rparr>)
      else (d, meta_default))"

definition set_readonly :: "('r, 'l) document \<Rightarrow> bool \<Rightarrow> ('r, 'l) document \<times> meta_outcome" where
  "set_readonly d ro =
     (if doc_readonly d \<noteq> ro then (d\<lparr> doc_readonly := ro \<rparr>, meta_default\<lparr> readonly_changed := True \<rparr>)
      else (d, meta_default))"

definition clear_undo_group :: "('r, 'l) document \<Rightarrow> ('r, 'l) document" where
  "clear_undo_group d = d\<lparr> doc_undo_backend := clear_active_group_owner (doc_undo_backend d) \<rparr>"

section \<open>Specification predicates\<close>

definition doc_text :: "'r rope_ops \<Rightarrow> ('r, 'l) document \<Rightarrow> utext" where
  "doc_text R d = rp_chars R (doc_content d)"

definition doc_tracks :: "'r rope_ops \<Rightarrow> ('r, 'l) document \<Rightarrow> timeline \<Rightarrow> bool" where
  "doc_tracks R d tm \<longleftrightarrow> simulates R (doc_undo_backend d) (doc_text R d) tm"

text \<open>
  The public operations as steps. The second component is the text that was last loaded or marked as
  saved: loading and \<open>set_modified(false)\<close> set it, everything else leaves it alone.
\<close>

inductive doc_step ::
  "'r rope_ops \<Rightarrow> ('r, 'l) document \<times> utext \<Rightarrow> ('r, 'l) document \<times> utext \<Rightarrow> bool" for R where
  step_commit: "tx_fits (ec_tx c) (doc_text R d) \<Longrightarrow> doc_commit R d c view = Some (d', res) \<Longrightarrow>
     doc_step R (d, saved) (d', saved)"
| step_commit_unchecked: "tx_fits (ec_tx c) (doc_text R d) \<Longrightarrow> commit_unchecked R d c view = Some (d', res') \<Longrightarrow>
     doc_step R (d, saved) (d', saved)"
| step_undo: "doc_undo R d = Some (d', txs) \<Longrightarrow> doc_step R (d, saved) (d', saved)"
| step_redo: "doc_redo R d = Some (d', txs) \<Longrightarrow> doc_step R (d, saved) (d', saved)"
| step_reset: "reset_content d content = Some d' \<Longrightarrow> doc_step R (d, saved) (d', rp_chars R content)"
| step_install: "install_sync_snapshot d content = Some d' \<Longrightarrow> doc_step R (d, saved) (d', rp_chars R content)"
| step_mark_saved: "doc_step R (d, saved) (fst (doc_set_modified d False), doc_text R d)"
| step_mark_modified: "doc_step R (d, saved) (fst (doc_set_modified d True), saved)"
| step_set_readonly: "doc_step R (d, saved) (fst (set_readonly d ro), saved)"
| step_set_path: "doc_step R (d, saved) (fst (set_path d path loader), saved)"
| step_init_language: "doc_step R (d, saved) (init_syntax_for_language l name d, saved)"
| step_clear_group: "doc_step R (d, saved) (clear_undo_group d, saved)"

inductive doc_reach :: "'r rope_ops \<Rightarrow> ('r, 'l) document \<times> utext \<Rightarrow> bool" for R where
  reach_new: "doc_reach R (doc_new R i text path, text)"
| reach_step: "doc_reach R st \<Longrightarrow> doc_step R st st' \<Longrightarrow> doc_reach R st'"

inductive_cases doc_stepE: "doc_step R (d, saved) (d', saved')"

section \<open>Lemmas\<close>

lemmas doc_meta_defs = doc_set_modified_def set_readonly_def set_path_def init_syntax_def
  init_syntax_for_language_def clear_undo_group_def clear_active_group_owner_def

lemma doc_meta_simps [simp]:
  "doc_content (fst (doc_set_modified d b)) = doc_content d" "doc_version (fst (doc_set_modified d b)) = doc_version d"
  "doc_content (fst (set_readonly d ro)) = doc_content d" "doc_version (fst (set_readonly d ro)) = doc_version d"
  "doc_content (fst (set_path d p l)) = doc_content d" "doc_version (fst (set_path d p l)) = doc_version d"
  "doc_content (init_syntax_for_language x n d) = doc_content d"
  "doc_version (init_syntax_for_language x n d) = doc_version d"
  "doc_content (clear_undo_group d) = doc_content d" "doc_version (clear_undo_group d) = doc_version d"
  "doc_undo_backend (fst (set_readonly d ro)) = doc_undo_backend d"
  "doc_undo_backend (fst (set_path d p l)) = doc_undo_backend d"
  "doc_undo_backend (init_syntax_for_language x n d) = doc_undo_backend d"
  by (simp_all add: doc_meta_defs Let_def split: option.splits)

lemma fresh_tracks:
  "simulates R (store_set_modified store_default False) t \<lparr> tl_past = [], tl_future = [], tl_saved = Some t \<rparr>"
  using set_modified_simulates(1) [OF default_simulates [of R t None]] by simp

lemma set_modified_tracks:
  assumes "doc_tracks R d tm"
  shows "doc_tracks R (fst (doc_set_modified d False)) (tm\<lparr> tl_saved := Some (doc_text R d) \<rparr>)"
    and "doc_tracks R (fst (doc_set_modified d True)) tm"
proof -
  show "doc_tracks R (fst (doc_set_modified d False)) (tm\<lparr> tl_saved := Some (doc_text R d) \<rparr>)"
  proof (cases "doc_is_modified d")
    case True
    then show ?thesis using set_modified_simulates(1) assms
      by (simp add: doc_set_modified_def doc_tracks_def doc_text_def)
  next
    case False
    then have "tl_saved tm = Some (doc_text R d)"
      using assms(1) unmodified_is_saved unfolding doc_tracks_def doc_is_modified_def by blast
    then have "tm\<lparr> tl_saved := Some (doc_text R d) \<rparr> = tm" by simp
    then show ?thesis using assms False by (simp add: doc_set_modified_def)
  qed
  show "doc_tracks R (fst (doc_set_modified d True)) tm"
    using set_modified_simulates(2) assms by (auto simp: doc_set_modified_def doc_tracks_def doc_text_def)
qed

text \<open>A commit on each of its branches.\<close>

lemma apply_commit_applied:
  assumes "rope_ok R" and "doc_tracks R d tm" and "tx_fits (ec_tx c) (doc_text R d)"
    and "\<not> tx_is_identity (ec_tx c)" and "ec_undo c \<noteq> NoUndo"
    and "head_pos (doc_undo_backend d) < u64_max" and "doc_version d < u64_max"
  shows "\<exists>d' new. apply_commit R d c view =
      Some (d', \<lparr> cr_applied = True, cr_version_before = doc_version d, cr_version_after = doc_version d + 1,
                cr_selection_after = ec_selection_after c, cr_undo_recorded = new \<rparr>) \<and>
     doc_text R d' = tx_edit (ec_tx c) (doc_text R d) \<and> doc_version d' = doc_version d + 1 \<and>
     doc_tracks R d' (tl_record tm (doc_text R d) new (undo_len (doc_undo_backend d')))"
proof -
  obtain s new where s: "record_commit R (doc_undo_backend d) (ec_tx c) (doc_content d) (ec_undo c) view = Some (s, new)"
    "simulates R s (tx_edit (ec_tx c) (doc_text R d)) (tl_record tm (doc_text R d) new (undo_len s))"
    using record_commit_simulates [OF assms(1), of "doc_undo_backend d" "doc_content d" tm "ec_tx c" "ec_undo c" view] assms
    by (auto simp: doc_tracks_def doc_text_def)
  obtain content sel where "tx_apply R (ec_tx c) (doc_content d) = Some (content, sel)"
    "rp_chars R content = tx_edit (ec_tx c) (doc_text R d)"
    using tx_apply_edit [OF assms(1), of "ec_tx c" "doc_content d"] assms(3) by (auto simp: doc_text_def)
  with s assms show ?thesis by (simp add: apply_commit_def Let_def doc_text_def doc_tracks_def)
qed

lemma apply_commit_SomeD:
  assumes "apply_commit R d c view = Some (d', res)"
  shows "tx_is_identity (ec_tx c) \<and> d' = d \<or>
    \<not> tx_is_identity (ec_tx c) \<and> ec_undo c \<noteq> NoUndo \<and> head_pos (doc_undo_backend d) < u64_max \<and> doc_version d < u64_max"
proof -
  have "head_pos (doc_undo_backend d) < u64_max"
    if "record_commit R (doc_undo_backend d) tx b p view = Some x" for tx b p x
    using that by (auto simp: record_commit_def record_transaction_def map_option_bind_Some Let_def
        push_step_def branch_check_def dest!: checkedD split: if_splits option.splits)
  with assms show ?thesis
    by (auto simp: apply_commit_def map_option_bind_Some Let_def dest!: checkedD split: if_splits)
qed

lemma apply_commit_step:
  assumes "rope_ok R" and "doc_tracks R d tm" and "tx_fits (ec_tx c) (doc_text R d)"
    and "apply_commit R d c view = Some (d', res)"
  shows "\<exists>tm'. doc_tracks R d' tm' \<and> tl_saved tm' = tl_saved tm"
    and "doc_version d \<le> doc_version d' \<and> (doc_text R d \<noteq> doc_text R d' \<longrightarrow> doc_version d < doc_version d')"
proof -
  consider "d' = d" | "\<not> tx_is_identity (ec_tx c)" "ec_undo c \<noteq> NoUndo"
    "head_pos (doc_undo_backend d) < u64_max" "doc_version d < u64_max"
    using apply_commit_SomeD [OF assms(4)] by blast
  then show "\<exists>tm'. doc_tracks R d' tm' \<and> tl_saved tm' = tl_saved tm"
    "doc_version d \<le> doc_version d' \<and> (doc_text R d \<noteq> doc_text R d' \<longrightarrow> doc_version d < doc_version d')"
    using apply_commit_applied [OF assms(1-3), of view] assms(2,4)
    by (cases; force simp: tl_record_def)+
qed

lemma store_undo_None: "store_undo R s d = Some (s', d', None) \<Longrightarrow> undo_stack s = []"
  by (auto simp: store_undo_def Let_def map_option_bind_Some split: if_splits)

lemma backend_undo_version:
  assumes "backend_undo R s d v = Some (s', d', v', r)"
  shows "v < u64_max \<or> undo_stack s = []"
proof -
  obtain s1 d1 a where "store_undo R s d = Some (s1, d1, a)"
    "(case a of None \<Rightarrow> Some (s1, d1, v, None)
      | Some txs \<Rightarrow> do { v \<leftarrow> checked_add64 v 1; Some (s1, d1, v, Some txs) }) = Some (s', d', v', r)"
    using assms by (auto simp: backend_undo_def map_option_bind_Some simp del: One_nat_def)
  then show ?thesis
    by (cases a) (auto simp: map_option_bind_Some dest: store_undo_None checkedD)
qed

lemma store_redo_None: "store_redo R s d = Some (s', d', None) \<Longrightarrow> redo_stack s = []"
  by (auto simp: store_redo_def Let_def map_option_bind_Some split: if_splits)

lemma backend_redo_version:
  assumes "backend_redo R s d v = Some (s', d', v', r)"
  shows "v < u64_max \<or> redo_stack s = []"
proof -
  obtain s1 d1 a where "store_redo R s d = Some (s1, d1, a)"
    "(case a of None \<Rightarrow> Some (s1, d1, v, None)
      | Some txs \<Rightarrow> do { v \<leftarrow> checked_add64 v 1; Some (s1, d1, v, Some txs) }) = Some (s', d', v', r)"
    using assms by (auto simp: backend_redo_def map_option_bind_Some simp del: One_nat_def)
  then show ?thesis
    by (cases a) (auto simp: map_option_bind_Some dest: store_redo_None checkedD)
qed

lemma doc_undo_step:
  assumes "doc_tracks R d tm" and "doc_undo R d = Some (d', txs)"
  shows "\<exists>tm'. doc_tracks R d' tm' \<and> tl_saved tm' = tl_saved tm"
    and "doc_version d \<le> doc_version d' \<and> (doc_text R d \<noteq> doc_text R d' \<longrightarrow> doc_version d < doc_version d')"
proof -
  let ?s = "doc_undo_backend d"
  have "doc_version d < u64_max \<or> undo_stack ?s = []"
    using assms(2) by (auto simp: doc_undo_def map_option_bind_Some dest: backend_undo_version)
  then consider "doc_version d < u64_max"
    | "d' = d\<lparr> doc_undo_backend := ?s\<lparr> active_group_owner := None \<rparr> \<rparr>"
    using assms(2) by (auto simp: doc_undo_def backend_undo_def store_undo_def Let_def)
  then show "\<exists>tm'. doc_tracks R d' tm' \<and> tl_saved tm' = tl_saved tm"
    "doc_version d \<le> doc_version d' \<and> (doc_text R d \<noteq> doc_text R d' \<longrightarrow> doc_version d < doc_version d')"
    using backend_undo_simulates [of R ?s "doc_content d" tm "doc_version d"] assms
    by (cases; force simp: doc_undo_def doc_tracks_def doc_text_def tl_undo_def split: if_splits)+
qed

lemma doc_redo_step:
  assumes "doc_tracks R d tm" and "doc_redo R d = Some (d', txs)"
  shows "\<exists>tm'. doc_tracks R d' tm' \<and> tl_saved tm' = tl_saved tm"
    and "doc_version d \<le> doc_version d' \<and> (doc_text R d \<noteq> doc_text R d' \<longrightarrow> doc_version d < doc_version d')"
proof -
  let ?s = "doc_undo_backend d"
  have "doc_version d < u64_max \<or> redo_stack ?s = []"
    using assms(2) by (auto simp: doc_redo_def map_option_bind_Some dest: backend_redo_version)
  then consider "doc_version d < u64_max"
    | "d' = d\<lparr> doc_undo_backend := ?s\<lparr> active_group_owner := None \<rparr> \<rparr>"
    using assms(2) by (auto simp: doc_redo_def backend_redo_def store_redo_def Let_def)
  then show "\<exists>tm'. doc_tracks R d' tm' \<and> tl_saved tm' = tl_saved tm"
    "doc_version d \<le> doc_version d' \<and> (doc_text R d \<noteq> doc_text R d' \<longrightarrow> doc_version d < doc_version d')"
    using backend_redo_simulates [of R ?s "doc_content d" tm "doc_version d"] assms
    by (cases; force simp: doc_redo_def doc_tracks_def doc_text_def tl_redo_def split: if_splits)+
qed

lemma load_step:
  assumes "reset_content d content = Some d' \<or> install_sync_snapshot d content = Some d'"
  shows "doc_tracks R d' \<lparr> tl_past = [], tl_future = [], tl_saved = Some (rp_chars R content) \<rparr>"
    and "doc_version d < doc_version d'"
proof -
  have "clear_active_group_owner store_default = store_default"
    by (simp add: clear_active_group_owner_def store_default_def)
  then show "doc_tracks R d' \<lparr> tl_past = [], tl_future = [], tl_saved = Some (rp_chars R content) \<rparr>"
    "doc_version d < doc_version d'"
    using assms fresh_tracks
    by (auto simp: reset_content_def install_sync_snapshot_def map_option_bind_Some doc_tracks_def doc_text_def
        dest!: checkedD)
qed

lemma doc_step_tracks:
  assumes "doc_step R (d, saved) (d', saved')" and R: "rope_ok R"
    and tm: "doc_tracks R d tm" "tl_saved tm = Some saved"
  shows "\<exists>tm'. doc_tracks R d' tm' \<and> tl_saved tm' = Some saved'"
  using assms(1)
proof (cases rule: doc_stepE [consumes 1])
  case (1 c view res)
  then show ?thesis using tm apply_commit_step(1) [OF R tm(1) "1"(2)]
    by (fastforce simp: doc_commit_def split: sum.splits)
next
  case (2 c view res)
  then show ?thesis using tm apply_commit_step(1) [OF R tm(1)] by (fastforce simp: commit_unchecked_def)
next
  case (3 txs)
  then show ?thesis using tm doc_undo_step(1) by fastforce
next
  case (4 txs)
  then show ?thesis using tm doc_redo_step(1) by fastforce
next
  case (5 content)
  then show ?thesis using load_step(1) [of d content d' R] by fastforce
next
  case (6 content)
  then show ?thesis using load_step(1) [of d content d' R] by fastforce
next
  case 7
  then show ?thesis using set_modified_tracks(1) [OF tm(1)] by fastforce
next
  case 8
  then show ?thesis using set_modified_tracks(2) [OF tm(1)] tm by blast
qed (use tm in \<open>auto simp: doc_tracks_def doc_text_def clear_undo_group_def clear_active_group_owner_def\<close>)

lemma doc_step_version:
  assumes "doc_step R (d, saved) (d', saved')" and R: "rope_ok R" and tm: "doc_tracks R d tm"
  shows "doc_version d \<le> doc_version d' \<and> (doc_text R d \<noteq> doc_text R d' \<longrightarrow> doc_version d < doc_version d')"
  using assms(1)
proof (cases rule: doc_stepE [consumes 1])
  case (1 c view res)
  then show ?thesis using apply_commit_step(2) [OF R tm "1"(2)]
    by (fastforce simp: doc_commit_def split: sum.splits)
next
  case (2 c view res)
  then show ?thesis using apply_commit_step(2) [OF R tm] by (fastforce simp: commit_unchecked_def)
next
  case (3 txs)
  then show ?thesis using doc_undo_step(2) [OF tm] by blast
next
  case (4 txs)
  then show ?thesis using doc_redo_step(2) [OF tm] by blast
next
  case (5 content)
  then show ?thesis using load_step(2) [of d content d'] by simp
next
  case (6 content)
  then show ?thesis using load_step(2) [of d content d'] by simp
qed (auto simp: doc_text_def)

lemma doc_reach_tracks:
  assumes "rope_ok R" and "doc_reach R st"
  shows "\<exists>tm. doc_tracks R (fst st) tm \<and> tl_saved tm = Some (snd st)"
  using assms(2)
proof (induction rule: doc_reach.induct)
  case (reach_new i t path)
  then show ?case using fresh_tracks assms(1)
    by (fastforce simp: doc_tracks_def doc_text_def doc_new_def rope_simps)
next
  case (reach_step st st')
  then show ?case using doc_step_tracks [of R "fst st" "snd st" "fst st'" "snd st'"] assms(1) by auto
qed

lemma example_commit_undo:
  "\<exists>d1 r d2 txs. doc_commit list_rope (doc_new list_rope 0 [4] None :: (utext, unit) document)
       (edit_commit_new example_tx) None = Some (d1, Inr r) \<and>
     doc_undo list_rope d1 = Some (d2, Some txs) \<and> \<not> doc_is_modified d2 \<and> doc_version d2 = 2"
  by (simp add: doc_commit_def ensure_writable_def apply_commit_def doc_new_def edit_commit_new_def example_tx_def
      store_eval store_set_modified_def list_rope_def doc_undo_def backend_undo_def store_undo_def
      checked_sub64_def tx_run_def tx_apply_def cs_apply_def tx_is_identity_def cs_is_identity_def
      doc_is_modified_def store_is_modified_def)

section \<open>Properties\<close>

text \<open>
  C6. The edit gate, on every branch. A read-only document refuses a commit with an error and does
  not change; an identity transaction changes nothing and is reported as not applied; a proper edit
  with the \<open>NoUndo\<close> policy panics; every other fitting edit is applied exactly, recorded in the
  history and bumps the version by one, with the versions reported in the result.
\<close>

theorem commit_correct:
  assumes "rope_ok R" and "doc_tracks R d tm" and "tx_fits (ec_tx c) (doc_text R d)"
    and "head_pos (doc_undo_backend d) < u64_max" and "doc_version d < u64_max"
  shows "(doc_readonly d \<longrightarrow> doc_commit R d c view = Some (d, Inl (ReadOnly DocumentScope FlaggedReadOnly))) \<and>
    (\<not> doc_readonly d \<and> tx_is_identity (ec_tx c) \<longrightarrow>
       (\<exists>r. doc_commit R d c view = Some (d, Inr r) \<and> \<not> cr_applied r \<and>
          tx_edit (ec_tx c) (doc_text R d) = doc_text R d)) \<and>
    (\<not> doc_readonly d \<and> \<not> tx_is_identity (ec_tx c) \<and> ec_undo c = NoUndo \<longrightarrow> doc_commit R d c view = None) \<and>
    (\<not> doc_readonly d \<and> \<not> tx_is_identity (ec_tx c) \<and> ec_undo c \<noteq> NoUndo \<longrightarrow>
       (\<exists>d' r. doc_commit R d c view = Some (d', Inr r) \<and> cr_applied r \<and>
          doc_text R d' = tx_edit (ec_tx c) (doc_text R d) \<and> doc_version d' = doc_version d + 1 \<and>
          cr_version_before r = doc_version d \<and> cr_version_after r = doc_version d' \<and>
          doc_tracks R d' (tl_record tm (doc_text R d) (cr_undo_recorded r) (undo_len (doc_undo_backend d')))))"
proof -
  have "\<exists>d' r. doc_commit R d c view = Some (d', Inr r) \<and> cr_applied r \<and>
          doc_text R d' = tx_edit (ec_tx c) (doc_text R d) \<and> doc_version d' = doc_version d + 1 \<and>
          cr_version_before r = doc_version d \<and> cr_version_after r = doc_version d' \<and>
          doc_tracks R d' (tl_record tm (doc_text R d) (cr_undo_recorded r) (undo_len (doc_undo_backend d')))"
    if "\<not> doc_readonly d" "\<not> tx_is_identity (ec_tx c)" "ec_undo c \<noteq> NoUndo"
    using apply_commit_applied [OF assms(1-3) that(2,3) assms(4,5), of view] that(1)
    by (fastforce simp: doc_commit_def ensure_writable_def)
  then show ?thesis using identity_edit [OF _ assms(3)]
    by (simp add: doc_commit_def ensure_writable_def apply_commit_def)
qed

theorem commit_correct_witness:
  "\<exists>d' r. doc_commit list_rope (doc_new list_rope 0 [4] None) (edit_commit_new example_tx) None = Some (d', Inr r) \<and>
     cr_applied r \<and> doc_text list_rope d' = [4, 7] \<and> doc_version (d' :: (utext, unit) document) = 1"
proof -
  let ?d = "doc_new list_rope 0 [4] None :: (utext, unit) document" and ?c = "edit_commit_new example_tx"
  have d: "doc_text list_rope ?d = [4]" "doc_tracks list_rope ?d \<lparr> tl_past = [], tl_future = [], tl_saved = Some [4] \<rparr>"
    using fresh_tracks [of list_rope "[4]"] by (simp_all add: doc_text_def doc_tracks_def doc_new_def list_rope_def)
  have c: "\<not> doc_readonly ?d" "doc_version ?d = 0" "head_pos (doc_undo_backend ?d) = 0" "ec_tx ?c = example_tx"
    "ec_undo ?c = Record" "\<not> tx_is_identity example_tx" "0 < u64_max"
    by (simp_all add: doc_new_def store_set_modified_def store_default_def edit_commit_new_def
        tx_is_identity_def cs_is_identity_def example_tx_def u64_max_def)
  show ?thesis
    using commit_correct [OF list_rope_ok d(2), of ?c None] d c example_tx_fits by (auto simp del: One_nat_def)
qed

text \<open>
  C4. The modified flag is truthful. For every document reachable from a loaded one through commits,
  undo, redo, resets, synchronisations, metadata changes and saves, in any order: if the document
  is not reported as modified, its text is the text that was last loaded or marked as saved.
\<close>

theorem unmodified_means_saved:
  assumes "rope_ok R" and "doc_reach R (d, saved)" and "\<not> doc_is_modified d"
  shows "doc_text R d = saved"
proof -
  obtain tm where tm: "doc_tracks R d tm" "tl_saved tm = Some saved" using doc_reach_tracks [OF assms(1,2)] by auto
  have "tl_saved tm = Some (doc_text R d)"
    using tm(1) assms(3) unmodified_is_saved unfolding doc_tracks_def doc_is_modified_def by blast
  with tm(2) show ?thesis by simp
qed

theorem unmodified_means_saved_witness:
  "\<exists>d :: (utext, unit) document. doc_reach list_rope (d, [4]) \<and> doc_version d = 2 \<and> doc_text list_rope d = [4]"
proof -
  let ?d = "doc_new list_rope 0 [4] None :: (utext, unit) document" and ?c = "edit_commit_new example_tx"
  obtain d1 d2 r txs where d: "doc_commit list_rope ?d ?c None = Some (d1, Inr r)"
    "doc_undo list_rope d1 = Some (d2, Some txs)" "\<not> doc_is_modified d2" "doc_version d2 = 2"
    using example_commit_undo by blast
  have "tx_fits (ec_tx ?c) (doc_text list_rope ?d)"
    using example_tx_fits by (simp add: edit_commit_new_def doc_text_def doc_new_def list_rope_def)
  then have "doc_reach list_rope (d2, [4])"
    using reach_new [of list_rope 0 "[4]" None] d by (meson reach_step step_commit step_undo)
  with unmodified_means_saved [OF list_rope_ok this d(3)] d(4) show ?thesis by blast
qed

text \<open>
  C7. Versions and totality. For every reachable document the history's assertions hold, every
  operation leaves the version or raises it and raises it whenever the text changes, and undo and
  redo return (they do not panic) as long as the version counter has room, doing something exactly
  when there is something to do.
\<close>

theorem reachable_documents_sound:
  assumes "rope_ok R" and "doc_reach R (d, saved)"
  shows "assert_invariants (doc_undo_backend d) \<and>
    (\<forall>d' saved'. doc_step R (d, saved) (d', saved') \<longrightarrow>
       doc_version d \<le> doc_version d' \<and> (doc_text R d \<noteq> doc_text R d' \<longrightarrow> doc_version d < doc_version d')) \<and>
    (doc_version d < u64_max \<longrightarrow>
       (\<exists>d' r. doc_undo R d = Some (d', r) \<and> (r \<noteq> None \<longleftrightarrow> can_undo (doc_undo_backend d))) \<and>
       (\<exists>d' r. doc_redo R d = Some (d', r) \<and> (r \<noteq> None \<longleftrightarrow> can_redo (doc_undo_backend d))))"
proof -
  obtain tm where tm: "doc_tracks R d tm" using doc_reach_tracks [OF assms] by auto
  let ?s = "doc_undo_backend d"
  have sim: "simulates R ?s (rp_chars R (doc_content d)) tm" using tm by (simp add: doc_tracks_def doc_text_def)
  have len: "tl_past tm = [] \<longleftrightarrow> \<not> can_undo ?s" "tl_future tm = [] \<longleftrightarrow> \<not> can_redo ?s"
    using simulates_lengths [OF sim] by (auto simp: undo_len_def redo_len_def can_undo_def can_redo_def)
  have "assert_invariants ?s" using sim by (simp add: simulates_def store_inv_def)
  moreover have "\<exists>d' r. doc_undo R d = Some (d', r) \<and> (r \<noteq> None \<longleftrightarrow> can_undo ?s)" if "doc_version d < u64_max"
    using backend_undo_simulates [OF sim that] len by (auto simp: doc_undo_def split: if_splits)
  moreover have "\<exists>d' r. doc_redo R d = Some (d', r) \<and> (r \<noteq> None \<longleftrightarrow> can_redo ?s)" if "doc_version d < u64_max"
    using backend_redo_simulates [OF sim that] len by (auto simp: doc_redo_def split: if_splits)
  ultimately show ?thesis using doc_step_version [OF _ assms(1) tm] by blast
qed

theorem reachable_documents_sound_witness:
  "\<exists>d' r. doc_undo list_rope (doc_new list_rope 0 [4] None :: (utext, unit) document) = Some (d', r) \<and> r = None"
  using reachable_documents_sound [OF list_rope_ok reach_new [of list_rope 0 "[4]" None]]
  by (auto simp: doc_new_def can_undo_def store_set_modified_def store_default_def u64_max_def)

end
