(* ===== verification/Movement.thy ===== *)
theory Movement
  imports Selections
begin

text \<open>
  Cursor motions and text objects: \<open>crates/primitives/src/{movement,graphemes,rope}\<close> and
  \<open>crates/input/src/movement/{mod,find,word,objects}.rs\<close>, with the grapheme alignment of ranges and
  selections. A motion reads characters with \<open>char\<close>, which panics out of range, so it returns an
  option. Unicode's alphanumeric property (\<open>alnum\<close>) and the grapheme segmentation of an external
  crate (\<open>G\<close>, the number of clusters of a string) are parameters about which nothing is assumed.

  The lemmas show that no motion panics on a range inside the document and that every motion ends
  inside it, that \<open>f\<close>/\<open>t\<close>/\<open>F\<close>/\<open>T\<close> find the occurrence they are asked for, that vertical motion keeps
  the column where the line allows it, that the word object is the maximal run around the cursor, and
  that a surround object is a balanced pair.
\<close>

section \<open>Characters and graphemes\<close>

definition is_word_char :: "(uchar \<Rightarrow> bool) \<Rightarrow> uchar \<Rightarrow> bool" where
  "is_word_char alnum c \<longleftrightarrow> alnum c \<or> c = 95"

definition is_grapheme_boundary :: "(utext \<Rightarrow> nat) \<Rightarrow> 'r rope_ops \<Rightarrow> 'r \<Rightarrow> CharIdx \<Rightarrow> bool option" where
  "is_grapheme_boundary G R d char_idx =
     (if char_idx = 0 \<or> char_idx = rp_len_chars R d then Some True
      else do {
        chunk \<leftarrow> rp_slice R d (char_idx - 1) (min (char_idx + 1) (rp_len_chars R d));
        Some (G chunk > 1) })"

text \<open>The loops that look for the next and the previous boundary.\<close>

function next_boundary_loop :: "(utext \<Rightarrow> nat) \<Rightarrow> 'r rope_ops \<Rightarrow> 'r \<Rightarrow> nat \<Rightarrow> CharIdx \<Rightarrow> CharIdx option" where
  "next_boundary_loop G R d len idx =
     (if idx < len then
        case is_grapheme_boundary G R d idx of
          None \<Rightarrow> None
        | Some b \<Rightarrow> if b then Some idx else next_boundary_loop G R d len (Suc idx)
      else Some idx)"
  by pat_completeness auto
termination by (relation "measure (\<lambda>(G, R, d, len, idx). len - idx)") auto

fun prev_boundary_loop :: "(utext \<Rightarrow> nat) \<Rightarrow> 'r rope_ops \<Rightarrow> 'r \<Rightarrow> CharIdx \<Rightarrow> CharIdx option" where
  "prev_boundary_loop G R d 0 = Some 0"
| "prev_boundary_loop G R d (Suc idx) =
     (case is_grapheme_boundary G R d (Suc idx) of
        None \<Rightarrow> None
      | Some b \<Rightarrow> if b then Some (Suc idx) else prev_boundary_loop G R d idx)"

definition next_grapheme_boundary :: "(utext \<Rightarrow> nat) \<Rightarrow> 'r rope_ops \<Rightarrow> 'r \<Rightarrow> CharIdx \<Rightarrow> CharIdx option" where
  "next_grapheme_boundary G R d char_idx =
     (let len = rp_len_chars R d in
      if char_idx \<ge> len then Some len else next_boundary_loop G R d len (char_idx + 1))"

definition prev_grapheme_boundary :: "(utext \<Rightarrow> nat) \<Rightarrow> 'r rope_ops \<Rightarrow> 'r \<Rightarrow> CharIdx \<Rightarrow> CharIdx option" where
  "prev_grapheme_boundary G R d char_idx =
     (if char_idx = 0 then Some 0 else prev_boundary_loop G R d (char_idx - 1))"

definition ensure_grapheme_boundary_next :: "(utext \<Rightarrow> nat) \<Rightarrow> 'r rope_ops \<Rightarrow> 'r \<Rightarrow> CharIdx \<Rightarrow> CharIdx option" where
  "ensure_grapheme_boundary_next G R d char_idx = do {
     b \<leftarrow> is_grapheme_boundary G R d char_idx;
     if b then Some char_idx else next_grapheme_boundary G R d char_idx }"

definition ensure_grapheme_boundary_prev :: "(utext \<Rightarrow> nat) \<Rightarrow> 'r rope_ops \<Rightarrow> 'r \<Rightarrow> CharIdx \<Rightarrow> CharIdx option" where
  "ensure_grapheme_boundary_prev G R d char_idx = do {
     b \<leftarrow> is_grapheme_boundary G R d char_idx;
     if b then Some char_idx else prev_grapheme_boundary G R d char_idx }"

definition range_grapheme_aligned :: "(utext \<Rightarrow> nat) \<Rightarrow> 'r rope_ops \<Rightarrow> 'r \<Rightarrow> range \<Rightarrow> range option" where
  "range_grapheme_aligned G R d r = do {
     a \<leftarrow> (if anchor r = 0 \<or> anchor r = rp_len_chars R d then Some (anchor r)
          else if range_direction r = Forward then ensure_grapheme_boundary_prev G R d (anchor r)
          else ensure_grapheme_boundary_next G R d (anchor r));
     h \<leftarrow> (if head r = 0 \<or> head r = rp_len_chars R d then Some (head r)
          else if range_direction r = Forward then ensure_grapheme_boundary_next G R d (head r)
          else ensure_grapheme_boundary_prev G R d (head r));
     Some \<lparr> anchor = a, head = h \<rparr> }"

definition sel_grapheme_aligned :: "(utext \<Rightarrow> nat) \<Rightarrow> 'r rope_ops \<Rightarrow> 'r \<Rightarrow> selection \<Rightarrow> selection option" where
  "sel_grapheme_aligned G R d s = do {
     primary \<leftarrow> sel_primary s;
     p \<leftarrow> range_grapheme_aligned G R d primary;
     rs \<leftarrow> those (map (range_grapheme_aligned G R d) (others s));
     Some (sel_new p rs) }"

definition visible_line_count :: "'r rope_ops \<Rightarrow> 'r \<Rightarrow> nat" where
  "visible_line_count R d = rp_len_lines R d"

definition max_cursor_pos :: "'r rope_ops \<Rightarrow> 'r \<Rightarrow> CharIdx" where
  "max_cursor_pos R d = rp_len_chars R d"

definition max_cell_pos :: "'r rope_ops \<Rightarrow> 'r \<Rightarrow> CharIdx option" where
  "max_cell_pos R d = (let len = rp_len_chars R d in if len > 0 then Some (len - 1) else None)"

definition clamp_to_cell :: "CharIdx \<Rightarrow> 'r rope_ops \<Rightarrow> 'r \<Rightarrow> CharIdx" where
  "clamp_to_cell pos R d = (case max_cell_pos R d of Some m \<Rightarrow> min pos m | None \<Rightarrow> 0)"

section \<open>Scanning\<close>

text \<open>
  The \<open>while\<close> loops the motions share. \<open>fwd_while\<close> advances \<open>pos\<close> while it is below \<open>len\<close> and its
  character satisfies \<open>P\<close>; \<open>run_end\<close> advances while the character after \<open>pos\<close> does; \<open>back_while\<close> goes
  back while the character before \<open>pos\<close> does, \<open>back_at\<close> while the character at \<open>pos\<close> does.
\<close>

function fwd_while :: "(uchar \<Rightarrow> bool) \<Rightarrow> 'r rope_ops \<Rightarrow> 'r \<Rightarrow> nat \<Rightarrow> CharIdx \<Rightarrow> CharIdx option" where
  "fwd_while P R d len pos =
     (if pos < len then
        case rp_char R d pos of
          None \<Rightarrow> None
        | Some c \<Rightarrow> if P c then fwd_while P R d len (Suc pos) else Some pos
      else Some pos)"
  by pat_completeness auto
termination by (relation "measure (\<lambda>(P, R, d, len, pos). len - pos)") auto

function run_end :: "(uchar \<Rightarrow> bool) \<Rightarrow> 'r rope_ops \<Rightarrow> 'r \<Rightarrow> nat \<Rightarrow> CharIdx \<Rightarrow> CharIdx option" where
  "run_end P R d len pos =
     (if pos + 1 < len then
        case rp_char R d (pos + 1) of
          None \<Rightarrow> None
        | Some c \<Rightarrow> if P c then run_end P R d len (Suc pos) else Some pos
      else Some pos)"
  by pat_completeness auto
termination by (relation "measure (\<lambda>(P, R, d, len, pos). len - pos)") auto

fun back_while :: "(uchar \<Rightarrow> bool) \<Rightarrow> 'r rope_ops \<Rightarrow> 'r \<Rightarrow> CharIdx \<Rightarrow> CharIdx option" where
  "back_while P R d 0 = Some 0"
| "back_while P R d (Suc pos) =
     (case rp_char R d pos of
        None \<Rightarrow> None
      | Some c \<Rightarrow> if P c then back_while P R d pos else Some (Suc pos))"

fun back_at :: "(uchar \<Rightarrow> bool) \<Rightarrow> 'r rope_ops \<Rightarrow> 'r \<Rightarrow> CharIdx \<Rightarrow> CharIdx option" where
  "back_at P R d 0 = Some 0"
| "back_at P R d (Suc pos) =
     (case rp_char R d (Suc pos) of
        None \<Rightarrow> None
      | Some c \<Rightarrow> if P c then back_at P R d pos else Some (Suc pos))"

section \<open>Making ranges and finding characters\<close>

definition make_range :: "range \<Rightarrow> CharIdx \<Rightarrow> bool \<Rightarrow> range" where
  "make_range r new_head ext = (if ext then range_new (anchor r) new_head else range_point new_head)"

definition make_range_select :: "range \<Rightarrow> CharIdx \<Rightarrow> bool \<Rightarrow> range" where
  "make_range_select r new_head ext =
     (if ext then range_new (anchor r) new_head else range_new (head r) new_head)"

function find_forward_loop :: "'r rope_ops \<Rightarrow> 'r \<Rightarrow> uchar \<Rightarrow> nat \<Rightarrow> nat \<Rightarrow> nat \<Rightarrow> nat \<Rightarrow> CharIdx option option" where
  "find_forward_loop R d target count len found_count pos =
     (if pos < len then
        case rp_char R d pos of
          None \<Rightarrow> None
        | Some c \<Rightarrow>
            if c = target then
              if found_count + 1 \<ge> count then Some (Some pos)
              else find_forward_loop R d target count len (found_count + 1) (Suc pos)
            else find_forward_loop R d target count len found_count (Suc pos)
      else Some None)"
  by pat_completeness auto
termination by (relation "measure (\<lambda>(R, d, target, count, len, found_count, pos). len - pos)") auto

definition find_char_forward ::
  "'r rope_ops \<Rightarrow> 'r \<Rightarrow> range \<Rightarrow> uchar \<Rightarrow> nat \<Rightarrow> bool \<Rightarrow> bool \<Rightarrow> range option" where
  "find_char_forward R d r target count inclusive ext = do {
     found \<leftarrow> find_forward_loop R d target count (rp_len_chars R d) 0 (head r + 1);
     case found of
       Some pos \<Rightarrow> Some (make_range_select r (if inclusive then pos else pos - 1) ext)
     | None \<Rightarrow> Some r }"

text \<open>The backward loop looks at \<open>pos\<close>, from \<open>head - 1\<close> down to and including 0.\<close>

fun find_backward_loop :: "'r rope_ops \<Rightarrow> 'r \<Rightarrow> uchar \<Rightarrow> nat \<Rightarrow> nat \<Rightarrow> nat \<Rightarrow> CharIdx option option" where
  "find_backward_loop R d target count found_count pos =
     (case rp_char R d pos of
        None \<Rightarrow> None
      | Some c \<Rightarrow>
          if c = target \<and> found_count + 1 \<ge> count then Some (Some pos)
          else
            (case pos of
               0 \<Rightarrow> Some None
             | Suc p \<Rightarrow> find_backward_loop R d target count (if c = target then found_count + 1 else found_count) p))"

definition find_char_backward ::
  "'r rope_ops \<Rightarrow> 'r \<Rightarrow> range \<Rightarrow> uchar \<Rightarrow> nat \<Rightarrow> bool \<Rightarrow> bool \<Rightarrow> range option" where
  "find_char_backward R d r target count inclusive ext =
     (if head r = 0 then Some r
      else do {
        found \<leftarrow> find_backward_loop R d target count 0 (head r - 1);
        case found of
          Some pos \<Rightarrow> Some (make_range_select r (if inclusive then pos else pos + 1) ext)
        | None \<Rightarrow> Some r })"

fun find_word_start :: "(uchar \<Rightarrow> bool) \<Rightarrow> 'r rope_ops \<Rightarrow> 'r \<Rightarrow> CharIdx \<Rightarrow> CharIdx" where
  "find_word_start alnum R d 0 = 0"
| "find_word_start alnum R d (Suc start) =
     (case rp_char R d start of
        Some c \<Rightarrow> if is_word_char alnum c then find_word_start alnum R d start else Suc start
      | None \<Rightarrow> Suc start)"

function find_word_end_loop :: "(uchar \<Rightarrow> bool) \<Rightarrow> 'r rope_ops \<Rightarrow> 'r \<Rightarrow> nat \<Rightarrow> CharIdx \<Rightarrow> CharIdx" where
  "find_word_end_loop alnum R d len end =
     (if end + 1 < len \<and> (case rp_char R d (end + 1) of Some c \<Rightarrow> is_word_char alnum c | None \<Rightarrow> False)
      then find_word_end_loop alnum R d len (Suc end) else end)"
  by pat_completeness auto
termination by (relation "measure (\<lambda>(alnum, R, d, len, end). len - end)") auto

definition find_word_end :: "(uchar \<Rightarrow> bool) \<Rightarrow> 'r rope_ops \<Rightarrow> 'r \<Rightarrow> CharIdx \<Rightarrow> CharIdx" where
  "find_word_end alnum R d pos = find_word_end_loop alnum R d (rp_len_chars R d) pos"

section \<open>Horizontal, vertical and line motions\<close>

fun move_forward_loop :: "(utext \<Rightarrow> nat) \<Rightarrow> 'r rope_ops \<Rightarrow> 'r \<Rightarrow> nat \<Rightarrow> CharIdx \<Rightarrow> CharIdx option" where
  "move_forward_loop G R d 0 p = Some p"
| "move_forward_loop G R d (Suc n) p = do {
     nxt \<leftarrow> next_grapheme_boundary G R d p;
     if nxt > max_cursor_pos R d then Some p else move_forward_loop G R d n nxt }"

fun move_backward_loop :: "(utext \<Rightarrow> nat) \<Rightarrow> 'r rope_ops \<Rightarrow> 'r \<Rightarrow> nat \<Rightarrow> CharIdx \<Rightarrow> CharIdx option" where
  "move_backward_loop G R d 0 p = Some p"
| "move_backward_loop G R d (Suc n) p = do {
     p \<leftarrow> prev_grapheme_boundary G R d p;
     move_backward_loop G R d n p }"

definition move_horizontally ::
  "(utext \<Rightarrow> nat) \<Rightarrow> 'r rope_ops \<Rightarrow> 'r \<Rightarrow> range \<Rightarrow> direction \<Rightarrow> nat \<Rightarrow> bool \<Rightarrow> range option" where
  "move_horizontally G R d r dir count ext = do {
     new_pos \<leftarrow> (case dir of
         Forward \<Rightarrow> move_forward_loop G R d count (head r)
       | Backward \<Rightarrow> move_backward_loop G R d count (head r));
     Some (make_range r new_pos ext) }"

text \<open>The length of a line without its newline, as the motions compute it.\<close>

definition line_end_offset :: "utext \<Rightarrow> nat" where
  "line_end_offset line =
     (let n = length line; has_newline = n > 0 \<and> line ! (n - 1) = newline in if has_newline then n - 1 else n)"

definition move_vertically ::
  "'r rope_ops \<Rightarrow> 'r \<Rightarrow> range \<Rightarrow> direction \<Rightarrow> nat \<Rightarrow> bool \<Rightarrow> range option" where
  "move_vertically R d r dir count ext = do {
     let pos = head r;
     line \<leftarrow> rp_char_to_line R d pos;
     line_start \<leftarrow> rp_line_to_char R d line;
     let col = pos - line_start;
     let total_lines = visible_line_count R d;
     let new_line = (case dir of Forward \<Rightarrow> min (line + count) (total_lines - 1) | Backward \<Rightarrow> line - count);
     new_line_start \<leftarrow> rp_line_to_char R d new_line;
     new_line_content \<leftarrow> rp_line R d new_line;
     let new_col = min col (line_end_offset new_line_content);
     Some (make_range r (new_line_start + new_col) ext) }"

definition move_to_line_start :: "'r rope_ops \<Rightarrow> 'r \<Rightarrow> range \<Rightarrow> bool \<Rightarrow> range option" where
  "move_to_line_start R d r ext = do {
     line \<leftarrow> rp_char_to_line R d (head r);
     line_start \<leftarrow> rp_line_to_char R d line;
     Some (make_range r line_start ext) }"

definition move_to_line_end :: "'r rope_ops \<Rightarrow> 'r \<Rightarrow> range \<Rightarrow> bool \<Rightarrow> range option" where
  "move_to_line_end R d r ext = do {
     line \<leftarrow> rp_char_to_line R d (head r);
     line_start \<leftarrow> rp_line_to_char R d line;
     line_content \<leftarrow> rp_line R d line;
     Some (make_range r (line_start + line_end_offset line_content) ext) }"

definition move_to_first_nonwhitespace :: "'r rope_ops \<Rightarrow> 'r \<Rightarrow> range \<Rightarrow> bool \<Rightarrow> range option" where
  "move_to_first_nonwhitespace R d r ext = do {
     line \<leftarrow> rp_char_to_line R d (head r);
     line_start \<leftarrow> rp_line_to_char R d line;
     line_content \<leftarrow> rp_line R d line;
     Some (make_range r
       (case position (\<lambda>c. \<not> is_whitespace c) line_content of Some i \<Rightarrow> line_start + i | None \<Rightarrow> line_start) ext) }"

definition move_to_document_start :: "range \<Rightarrow> bool \<Rightarrow> range" where
  "move_to_document_start r ext = make_range r 0 ext"

definition move_to_document_end :: "'r rope_ops \<Rightarrow> 'r \<Rightarrow> range \<Rightarrow> bool \<Rightarrow> range" where
  "move_to_document_end R d r ext = make_range r (max_cursor_pos R d) ext"

section \<open>Word motions\<close>

datatype word_type = Word_class | WORD_class

definition in_word :: "(uchar \<Rightarrow> bool) \<Rightarrow> word_type \<Rightarrow> uchar \<Rightarrow> bool" where
  "in_word alnum wt c = (case wt of Word_class \<Rightarrow> is_word_char alnum c | WORD_class \<Rightarrow> \<not> is_whitespace c)"

text \<open>Skipping blanks, at most to the character after a newline.\<close>

function skip_blanks :: "'r rope_ops \<Rightarrow> 'r \<Rightarrow> nat \<Rightarrow> CharIdx \<Rightarrow> CharIdx option" where
  "skip_blanks R d len pos =
     (if pos < len then
        case rp_char R d pos of
          None \<Rightarrow> None
        | Some c \<Rightarrow>
            if is_whitespace c then if c = newline then Some (Suc pos) else skip_blanks R d len (Suc pos)
            else Some pos
      else Some pos)"
  by pat_completeness auto
termination by (relation "measure (\<lambda>(R, d, len, pos). len - pos)") auto

fun next_word_start_loop ::
  "(uchar \<Rightarrow> bool) \<Rightarrow> word_type \<Rightarrow> 'r rope_ops \<Rightarrow> 'r \<Rightarrow> nat \<Rightarrow> nat \<Rightarrow> CharIdx \<Rightarrow> CharIdx option" where
  "next_word_start_loop alnum wt R d len 0 pos = Some pos"
| "next_word_start_loop alnum wt R d len (Suc n) pos =
     (if pos \<ge> len then Some pos
      else do {
        start_char \<leftarrow> rp_char R d (min pos (len - 1));
        pos \<leftarrow> fwd_while (\<lambda>c. in_word alnum wt c = in_word alnum wt start_char) R d len pos;
        pos \<leftarrow> skip_blanks R d len pos;
        next_word_start_loop alnum wt R d len n pos })"

definition move_to_next_word_start ::
  "(uchar \<Rightarrow> bool) \<Rightarrow> 'r rope_ops \<Rightarrow> 'r \<Rightarrow> range \<Rightarrow> nat \<Rightarrow> word_type \<Rightarrow> bool \<Rightarrow> range option" where
  "move_to_next_word_start alnum R d r count wt ext =
     (let len = rp_len_chars R d in
      if len = 0 then Some r
      else do {
        pos \<leftarrow> next_word_start_loop alnum wt R d len count (head r);
        Some (make_range_select r (min pos len) ext) })"

fun next_word_end_loop ::
  "(uchar \<Rightarrow> bool) \<Rightarrow> word_type \<Rightarrow> 'r rope_ops \<Rightarrow> 'r \<Rightarrow> nat \<Rightarrow> nat \<Rightarrow> CharIdx \<Rightarrow> CharIdx option" where
  "next_word_end_loop alnum wt R d len 0 pos = Some pos"
| "next_word_end_loop alnum wt R d len (Suc n) pos = do {
     pos \<leftarrow> fwd_while is_whitespace R d len (if pos < len then pos + 1 else pos);
     if pos \<ge> len then Some pos
     else do {
       start_char \<leftarrow> rp_char R d pos;
       pos \<leftarrow> fwd_while (\<lambda>c. in_word alnum wt c = in_word alnum wt start_char) R d len pos;
       next_word_end_loop alnum wt R d len n pos } }"

definition move_to_next_word_end ::
  "(uchar \<Rightarrow> bool) \<Rightarrow> 'r rope_ops \<Rightarrow> 'r \<Rightarrow> range \<Rightarrow> nat \<Rightarrow> word_type \<Rightarrow> bool \<Rightarrow> range option" where
  "move_to_next_word_end alnum R d r count wt ext =
     (let len = rp_len_chars R d in
      if len = 0 then Some r
      else do {
        pos \<leftarrow> next_word_end_loop alnum wt R d len count (head r);
        Some (make_range_select r (min (pos - 1) (len - 1)) ext) })"

fun prev_word_start_loop ::
  "(uchar \<Rightarrow> bool) \<Rightarrow> word_type \<Rightarrow> 'r rope_ops \<Rightarrow> 'r \<Rightarrow> nat \<Rightarrow> CharIdx \<Rightarrow> CharIdx option" where
  "prev_word_start_loop alnum wt R d 0 pos = Some pos"
| "prev_word_start_loop alnum wt R d (Suc n) pos = do {
     pos \<leftarrow> back_at is_whitespace R d (pos - 1);
     if pos = 0 then Some pos
     else do {
       start_char \<leftarrow> rp_char R d pos;
       pos \<leftarrow> back_while (\<lambda>c. in_word alnum wt c = in_word alnum wt start_char) R d pos;
       prev_word_start_loop alnum wt R d n pos } }"

definition move_to_prev_word_start ::
  "(uchar \<Rightarrow> bool) \<Rightarrow> 'r rope_ops \<Rightarrow> 'r \<Rightarrow> range \<Rightarrow> nat \<Rightarrow> word_type \<Rightarrow> bool \<Rightarrow> range option" where
  "move_to_prev_word_start alnum R d r count wt ext =
     (let len = rp_len_chars R d in
      if len = 0 then Some r
      else do {
        pos \<leftarrow> prev_word_start_loop alnum wt R d count (head r);
        Some (make_range_select r pos ext) })"

section \<open>Text objects\<close>

definition select_word_object ::
  "(uchar \<Rightarrow> bool) \<Rightarrow> 'r rope_ops \<Rightarrow> 'r \<Rightarrow> range \<Rightarrow> word_type \<Rightarrow> bool \<Rightarrow> range option" where
  "select_word_object alnum R d r wt inner =
     (let len = rp_len_chars R d in
      if len = 0 then Some r
      else do {
        let pos = min (head r) (len - 1);
        let is_word = in_word alnum wt;
        c \<leftarrow> rp_char R d pos;
        if \<not> is_word c then do {
          start \<leftarrow> back_while (\<lambda>c. \<not> is_word c) R d pos;
          end \<leftarrow> run_end (\<lambda>c. \<not> is_word c) R d len pos;
          Some (range_new start end) }
        else do {
          start \<leftarrow> back_while is_word R d pos;
          end \<leftarrow> run_end is_word R d len pos;
          if inner then Some (range_new start end)
          else do {
            around_end \<leftarrow> run_end (\<lambda>c. is_whitespace c \<and> c \<noteq> newline) R d len end;
            if around_end > end then Some (range_new start around_end)
            else do {
              around_start \<leftarrow> back_while (\<lambda>c. is_whitespace c \<and> c \<noteq> newline) R d start;
              Some (range_new around_start end) } } } })"

text \<open>The two scans of \<open>select_surround_object\<close>, with the nesting depth.\<close>

fun scan_open :: "'r rope_ops \<Rightarrow> 'r \<Rightarrow> uchar \<Rightarrow> uchar \<Rightarrow> bool \<Rightarrow> int \<Rightarrow> nat \<Rightarrow> CharIdx option option" where
  "scan_open R d open close balanced depth 0 = Some None"
| "scan_open R d open close balanced depth (Suc p) =
     (case rp_char R d p of
        None \<Rightarrow> None
      | Some c \<Rightarrow>
          if balanced then
            if c = close then scan_open R d open close balanced (depth + 1) p
            else if c = open then
              if depth = 0 then Some (Some p) else scan_open R d open close balanced (depth - 1) p
            else scan_open R d open close balanced depth p
          else if c = open then Some (Some p)
          else scan_open R d open close balanced depth p)"

function scan_close :: "'r rope_ops \<Rightarrow> 'r \<Rightarrow> uchar \<Rightarrow> uchar \<Rightarrow> bool \<Rightarrow> nat \<Rightarrow> int \<Rightarrow> nat \<Rightarrow> CharIdx option option" where
  "scan_close R d open close balanced len depth p =
     (if p < len then
        case rp_char R d p of
          None \<Rightarrow> None
        | Some c \<Rightarrow>
            if balanced then
              if c = open then scan_close R d open close balanced len (depth + 1) (Suc p)
              else if c = close then
                if depth = 0 then Some (Some p) else scan_close R d open close balanced len (depth - 1) (Suc p)
              else scan_close R d open close balanced len depth (Suc p)
            else if c = close then Some (Some p)
            else scan_close R d open close balanced len depth (Suc p)
      else Some None)"
  by pat_completeness auto
termination by (relation "measure (\<lambda>(R, d, open, close, balanced, len, depth, p). len - p)") auto

definition select_surround_object ::
  "'r rope_ops \<Rightarrow> 'r \<Rightarrow> range \<Rightarrow> uchar \<Rightarrow> uchar \<Rightarrow> bool \<Rightarrow> range option option" where
  "select_surround_object R d r open close inner =
     (let len = rp_len_chars R d in
      if len = 0 then Some None
      else do {
        let pos = min (head r) (len - 1);
        let balanced = (open \<noteq> close);
        c \<leftarrow> rp_char R d pos;
        open_pos \<leftarrow> (if c = open then Some (Some pos)
                     else scan_open R d open close balanced (if c = close \<and> balanced then 1 else 0) pos);
        case open_pos of
          None \<Rightarrow> Some None
        | Some open_pos \<Rightarrow> do {
            close_pos \<leftarrow> scan_close R d open close balanced len 0 (open_pos + 1);
            case close_pos of
              None \<Rightarrow> Some None
            | Some close_pos \<Rightarrow>
                Some (Some
                  (if inner then
                     if close_pos > open_pos + 1 then range_new (open_pos + 1) (close_pos - 1)
                     else range_point (open_pos + 1)
                   else range_new open_pos close_pos)) } })"

declare next_boundary_loop.simps [simp del] fwd_while.simps [simp del] run_end.simps [simp del]
  find_forward_loop.simps [simp del] find_backward_loop.simps [simp del] find_word_end_loop.simps [simp del]
  skip_blanks.simps [simp del] scan_close.simps [simp del]

section \<open>Specification predicates\<close>

definition weight :: "uchar \<Rightarrow> uchar \<Rightarrow> uchar \<Rightarrow> int" where
  "weight open close c = (if c = open then 1 else if c = close then -1 else 0)"

definition bal :: "utext \<Rightarrow> uchar \<Rightarrow> uchar \<Rightarrow> nat \<Rightarrow> nat \<Rightarrow> int" where
  "bal t open close i j =
     sum_list (map (\<lambda>k. weight open close (t ! k)) [i..<j])"

definition ends_in :: "nat \<Rightarrow> range option \<Rightarrow> bool" where
  "ends_in n m \<longleftrightarrow> (\<exists>r. m = Some r \<and> anchor r \<le> n \<and> head r \<le> n)"

definition hits_after :: "utext \<Rightarrow> uchar \<Rightarrow> nat \<Rightarrow> nat list" where
  "hits_after t c h = filter (\<lambda>i. t ! i = c) [Suc h..<length t]"

definition hits_before :: "utext \<Rightarrow> uchar \<Rightarrow> nat \<Rightarrow> nat list" where
  "hits_before t c h = rev (filter (\<lambda>i. t ! i = c) [0..<h])"

section \<open>Lemmas\<close>

subsection \<open>Scanning\<close>

lemma fwd_while_correct:
  assumes R: "rope_ok R" and len: "len = length (rp_chars R d)"
  shows "pos \<le> len \<Longrightarrow> \<exists>p. fwd_while P R d len pos = Some p \<and> pos \<le> p \<and> p \<le> len \<and>
    (\<forall>i. pos \<le> i \<and> i < p \<longrightarrow> P (rp_chars R d ! i)) \<and> (p < len \<longrightarrow> \<not> P (rp_chars R d ! p))"
proof (induction "len - pos" arbitrary: pos)
  case 0
  then show ?case by (subst fwd_while.simps) auto
next
  case (Suc n)
  then have lt: "pos < len" by simp
  show ?case
  proof (cases "P (rp_chars R d ! pos)")
    case True
    then have eq: "fwd_while P R d len pos = fwd_while P R d len (Suc pos)"
      using lt R len by (subst fwd_while.simps) (simp add: rope_simps)
    obtain p where p: "fwd_while P R d len (Suc pos) = Some p" "Suc pos \<le> p" "p \<le> len"
      "\<forall>i. Suc pos \<le> i \<and> i < p \<longrightarrow> P (rp_chars R d ! i)" "p < len \<longrightarrow> \<not> P (rp_chars R d ! p)"
      using Suc.hyps(1) [of "Suc pos"] Suc.hyps(2) lt by fastforce
    have "\<forall>i. pos \<le> i \<and> i < p \<longrightarrow> P (rp_chars R d ! i)" using p(4) True by (metis not_less_eq_eq le_antisym)
    with p eq show ?thesis by auto
  next
    case False
    then have "fwd_while P R d len pos = Some pos"
      using lt R len by (subst fwd_while.simps) (simp add: rope_simps)
    then show ?thesis using False lt by auto
  qed
qed

lemma run_end_fwd:
  assumes R: "rope_ok R" and len: "len = length (rp_chars R d)"
  shows "pos < len \<Longrightarrow> run_end P R d len pos = map_option (\<lambda>p. p - 1) (fwd_while P R d len (Suc pos))"
proof (induction "len - pos" arbitrary: pos)
  case (Suc n)
  show ?case
  proof (cases "Suc pos < len")
    case True
    then show ?thesis using Suc.hyps(1) [of "Suc pos"] Suc.hyps(2) R len
      by (subst run_end.simps, subst fwd_while.simps) (simp add: rope_simps)
  next
    case False
    then show ?thesis by (subst run_end.simps, subst fwd_while.simps) simp
  qed
qed simp

lemma run_end_correct:
  assumes "rope_ok R" and "len = length (rp_chars R d)" and "pos < len"
  shows "\<exists>p. run_end P R d len pos = Some p \<and> pos \<le> p \<and> p < len \<and>
    (\<forall>i. pos < i \<and> i \<le> p \<longrightarrow> P (rp_chars R d ! i)) \<and> (p + 1 < len \<longrightarrow> \<not> P (rp_chars R d ! (p + 1)))"
proof -
  obtain q where q: "fwd_while P R d len (Suc pos) = Some q" "Suc pos \<le> q" "q \<le> len"
    "\<forall>i. Suc pos \<le> i \<and> i < q \<longrightarrow> P (rp_chars R d ! i)" "q < len \<longrightarrow> \<not> P (rp_chars R d ! q)"
    using fwd_while_correct [OF assms(1,2), of "Suc pos" P] assms(3) by auto
  moreover have "run_end P R d len pos = Some (q - 1)" using run_end_fwd [OF assms] q(1) by simp
  ultimately show ?thesis by (intro exI [of _ "q - 1"]) auto
qed

lemma back_while_correct:
  assumes R: "rope_ok R"
  shows "pos \<le> length (rp_chars R d) \<Longrightarrow> \<exists>p. back_while P R d pos = Some p \<and> p \<le> pos \<and>
    (\<forall>i. p \<le> i \<and> i < pos \<longrightarrow> P (rp_chars R d ! i)) \<and> (0 < p \<longrightarrow> \<not> P (rp_chars R d ! (p - 1)))"
proof (induction pos)
  case (Suc pos)
  show ?case
  proof (cases "P (rp_chars R d ! pos)")
    case True
    obtain p where "back_while P R d pos = Some p" "p \<le> pos"
      "\<forall>i. p \<le> i \<and> i < pos \<longrightarrow> P (rp_chars R d ! i)" "0 < p \<longrightarrow> \<not> P (rp_chars R d ! (p - 1))"
      using Suc by auto
    then show ?thesis using True Suc.prems R by (auto simp: rope_simps less_Suc_eq)
  next
    case False
    then show ?thesis using Suc.prems R by (auto simp: rope_simps)
  qed
qed simp

lemma back_at_correct:
  assumes R: "rope_ok R"
  shows "pos < length (rp_chars R d) \<Longrightarrow> \<exists>p. back_at P R d pos = Some p \<and> p \<le> pos"
  by (induction pos) (auto simp: rope_simps [OF R] le_SucI)

lemma skip_blanks_correct:
  assumes R: "rope_ok R" and len: "len = length (rp_chars R d)"
  shows "pos \<le> len \<Longrightarrow> \<exists>p. skip_blanks R d len pos = Some p \<and> pos \<le> p \<and> p \<le> len"
proof (induction "len - pos" arbitrary: pos)
  case 0
  then show ?case by (subst skip_blanks.simps) simp
next
  case (Suc n)
  then have lt: "pos < len" by simp
  have "\<exists>p. skip_blanks R d len (Suc pos) = Some p \<and> Suc pos \<le> p \<and> p \<le> len" using Suc lt by auto
  then show ?case using lt R len by (subst skip_blanks.simps) (auto simp: rope_simps)
qed

lemma next_word_start_bound:
  assumes R: "rope_ok R" and len: "len = length (rp_chars R d)"
  shows "pos \<le> len \<Longrightarrow> \<exists>p. next_word_start_loop alnum wt R d len n pos = Some p \<and> pos \<le> p \<and> p \<le> len"
proof (induction n arbitrary: pos)
  case (Suc n)
  show ?case
  proof (cases "pos < len")
    case True
    then have "min pos (len - 1) = pos" by simp
    then have c: "rp_char R d (min pos (len - 1)) = Some (rp_chars R d ! pos)"
      using R len True by (simp add: rope_simps)
    let ?P = "\<lambda>c. in_word alnum wt c = in_word alnum wt (rp_chars R d ! pos)"
    obtain p where p: "fwd_while ?P R d len pos = Some p" "pos \<le> p" "p \<le> len"
      using fwd_while_correct [OF R len Suc.prems, of ?P] by blast
    obtain q where q: "skip_blanks R d len p = Some q" "p \<le> q" "q \<le> len"
      using skip_blanks_correct [OF R len p(3)] by blast
    from Suc.IH [OF q(3)] show ?thesis using True c p q by auto
  qed (use Suc.prems in auto)
qed simp

lemma next_word_end_bound:
  assumes R: "rope_ok R" and len: "len = length (rp_chars R d)"
  shows "pos \<le> len \<Longrightarrow> \<exists>p. next_word_end_loop alnum wt R d len n pos = Some p \<and> pos \<le> p \<and> p \<le> len"
proof (induction n arbitrary: pos)
  case (Suc n)
  let ?pos = "if pos < len then pos + 1 else pos"
  have "?pos \<le> len" using Suc.prems by simp
  then obtain p where p: "fwd_while is_whitespace R d len ?pos = Some p" "?pos \<le> p" "p \<le> len"
    using fwd_while_correct [OF R len] by blast
  show ?case
  proof (cases "p < len")
    case True
    let ?P = "\<lambda>c. in_word alnum wt c = in_word alnum wt (rp_chars R d ! p)"
    obtain q where q: "fwd_while ?P R d len p = Some q" "p \<le> q" "q \<le> len"
      using fwd_while_correct [OF R len p(3), of ?P] by blast
    have "rp_char R d p = Some (rp_chars R d ! p)" using R True len by (simp add: rope_simps)
    then show ?thesis using Suc.IH [OF q(3)] p q True by (auto split: if_splits)
  next
    case False
    then show ?thesis using p by (auto split: if_splits)
  qed
qed simp

lemma prev_word_start_bound:
  assumes R: "rope_ok R" and ne: "rp_chars R d \<noteq> []"
  shows "pos \<le> length (rp_chars R d) \<Longrightarrow> \<exists>p. prev_word_start_loop alnum wt R d n pos = Some p \<and> p \<le> pos"
proof (induction n arbitrary: pos)
  case (Suc n)
  have "pos - 1 < length (rp_chars R d)" using Suc.prems ne by (cases "rp_chars R d") auto
  then obtain p where p: "back_at is_whitespace R d (pos - 1) = Some p" "p \<le> pos - 1" "p < length (rp_chars R d)"
    using back_at_correct [OF R, of "pos - 1" d is_whitespace] by force
  let ?P = "\<lambda>c. in_word alnum wt c = in_word alnum wt (rp_chars R d ! p)"
  obtain q where q: "back_while ?P R d p = Some q" "q \<le> p"
    using back_while_correct [OF R, of p d ?P] p(3) by auto
  have "rp_char R d p = Some (rp_chars R d ! p)" using R p(3) by (simp add: rope_simps)
  moreover have "q \<le> length (rp_chars R d)" using q p by simp
  ultimately show ?case using Suc.IH [of q] p q by auto
qed simp

subsection \<open>Graphemes\<close>

lemma is_grapheme_boundary_Some:
  "rope_ok R \<Longrightarrow> i \<le> length (rp_chars R d) \<Longrightarrow> \<exists>b. is_grapheme_boundary G R d i = Some b"
  by (auto simp: is_grapheme_boundary_def rope_simps)

lemma next_boundary_bound:
  assumes R: "rope_ok R" and len: "len = length (rp_chars R d)"
  shows "i \<le> len \<Longrightarrow> \<exists>p. next_boundary_loop G R d len i = Some p \<and> i \<le> p \<and> p \<le> len"
proof (induction "len - i" arbitrary: i)
  case 0
  then show ?case by (subst next_boundary_loop.simps) auto
next
  case (Suc n)
  obtain b where "is_grapheme_boundary G R d i = Some b" using is_grapheme_boundary_Some [OF R] Suc.prems len by blast
  moreover have "\<exists>p. next_boundary_loop G R d len (Suc i) = Some p \<and> Suc i \<le> p \<and> p \<le> len" using Suc by auto
  ultimately show ?case using Suc.prems by (subst next_boundary_loop.simps) auto
qed

lemma prev_boundary_bound:
  "rope_ok R \<Longrightarrow> i \<le> length (rp_chars R d) \<Longrightarrow> \<exists>p. prev_boundary_loop G R d i = Some p \<and> p \<le> i"
proof (induction i)
  case (Suc i)
  obtain b where "is_grapheme_boundary G R d (Suc i) = Some b" using is_grapheme_boundary_Some [OF Suc.prems] by blast
  then show ?case using Suc by (auto simp: le_SucI)
qed simp

lemma grapheme_steps:
  assumes "rope_ok R" and "i \<le> length (rp_chars R d)"
  shows "\<exists>p. next_grapheme_boundary G R d i = Some p \<and> i \<le> p \<and> p \<le> length (rp_chars R d)"
    and "\<exists>p. prev_grapheme_boundary G R d i = Some p \<and> p \<le> i"
    and "\<exists>p. ensure_grapheme_boundary_next G R d i = Some p \<and> p \<le> length (rp_chars R d)"
    and "\<exists>p. ensure_grapheme_boundary_prev G R d i = Some p \<and> p \<le> length (rp_chars R d)"
proof -
  show n: "\<exists>p. next_grapheme_boundary G R d i = Some p \<and> i \<le> p \<and> p \<le> length (rp_chars R d)"
    using next_boundary_bound [OF assms(1) refl, of "Suc i" d G] assms
    by (cases "i < length (rp_chars R d)") (auto simp: next_grapheme_boundary_def rope_simps Let_def)
  show p: "\<exists>p. prev_grapheme_boundary G R d i = Some p \<and> p \<le> i"
    using prev_boundary_bound [OF assms(1), of "i - 1" d G] assms
    by (fastforce simp: prev_grapheme_boundary_def)
  obtain b where b: "is_grapheme_boundary G R d i = Some b" using is_grapheme_boundary_Some [OF assms] by blast
  show "\<exists>p. ensure_grapheme_boundary_next G R d i = Some p \<and> p \<le> length (rp_chars R d)"
    using n assms(2) b by (auto simp: ensure_grapheme_boundary_next_def)
  show "\<exists>p. ensure_grapheme_boundary_prev G R d i = Some p \<and> p \<le> length (rp_chars R d)"
    using p assms(2) b by (auto simp: ensure_grapheme_boundary_prev_def)
qed

lemma move_loops_bound:
  assumes R: "rope_ok R"
  shows "p \<le> length (rp_chars R d) \<Longrightarrow> \<exists>q. move_forward_loop G R d n p = Some q \<and> p \<le> q \<and> q \<le> length (rp_chars R d)"
    and "p \<le> length (rp_chars R d) \<Longrightarrow> \<exists>q. move_backward_loop G R d n p = Some q \<and> q \<le> p"
proof (induction n arbitrary: p)
  case (Suc n)
  {
    case 1
    then obtain q where "next_grapheme_boundary G R d p = Some q" "p \<le> q" "q \<le> length (rp_chars R d)"
      using grapheme_steps(1) [OF R] by blast
    then show ?case using Suc(1) [of q] R by (auto simp: max_cursor_pos_def rope_simps)
  next
    case 2
    then obtain q where "prev_grapheme_boundary G R d p = Some q" "q \<le> p"
      using grapheme_steps(2) [OF R] by blast
    then show ?case using Suc(2) [of q] 2 by auto
  }
qed auto

subsection \<open>Finding characters\<close>

lemma find_forward_loop_eq:
  assumes R: "rope_ok R" and len: "len = length (rp_chars R d)"
  shows "found < max 1 count \<Longrightarrow> find_forward_loop R d c count len found pos =
    Some (let ps = filter (\<lambda>i. rp_chars R d ! i = c) [pos..<len]; k = max 1 count - 1 - found
          in if k < length ps then Some (ps ! k) else None)"
proof (induction "len - pos" arbitrary: pos found)
  case 0
  then show ?case by (subst find_forward_loop.simps) (simp add: Let_def)
next
  case (Suc n)
  have lt: "pos < len" using Suc.hyps(2) by simp
  have up: "[pos..<len] = pos # [Suc pos..<len]" using lt by (simp add: upt_conv_Cons)
  have ch: "rp_char R d pos = Some (rp_chars R d ! pos)" using R lt len by (simp add: rope_simps)
  show ?case
  proof (cases "rp_chars R d ! pos = c \<and> \<not> found + 1 \<ge> count")
    case True
    then have "max 1 count - 1 - found = Suc (max 1 count - 1 - Suc found)" by (simp add: max_def) linarith
    then show ?thesis using True lt ch up Suc.hyps(1) [of "Suc pos" "Suc found"] Suc.hyps(2)
      by (subst find_forward_loop.simps) (simp add: Let_def)
  next
    case False
    then show ?thesis using lt ch up Suc.hyps(1) [of "Suc pos" found] Suc.hyps(2) Suc.prems
      by (subst find_forward_loop.simps) (auto simp: Let_def max_def split: if_splits)
  qed
qed

lemma find_backward_loop_eq:
  assumes R: "rope_ok R"
  shows "pos < length (rp_chars R d) \<Longrightarrow> found < max 1 count \<Longrightarrow> find_backward_loop R d c count found pos =
    Some (let ps = rev (filter (\<lambda>i. rp_chars R d ! i = c) [0..<Suc pos]); k = max 1 count - 1 - found
          in if k < length ps then Some (ps ! k) else None)"
proof (induction pos arbitrary: found)
  case 0
  then show ?case using R by (subst find_backward_loop.simps) (auto simp: Let_def rope_simps max_def split: if_splits)
next
  case (Suc pos)
  have ch: "rp_char R d (Suc pos) = Some (rp_chars R d ! Suc pos)" using R Suc.prems by (simp add: rope_simps)
  have up: "rev (filter (\<lambda>i. rp_chars R d ! i = c) [0..<Suc (Suc pos)]) =
      (if rp_chars R d ! Suc pos = c then [Suc pos] else []) @ rev (filter (\<lambda>i. rp_chars R d ! i = c) [0..<Suc pos])"
    by simp
  show ?case
  proof (cases "rp_chars R d ! Suc pos = c \<and> \<not> found + 1 \<ge> count")
    case True
    then have "max 1 count - 1 - found = Suc (max 1 count - 1 - Suc found)" by (simp add: max_def) linarith
    then show ?thesis using True ch Suc.IH [of "Suc found"] Suc.prems unfolding up
      by (subst find_backward_loop.simps) (simp add: Let_def)
  next
    case False
    then show ?thesis using ch Suc.IH [of found] Suc.prems unfolding up
      by (subst find_backward_loop.simps) (auto simp: Let_def max_def split: if_splits)
  qed
qed

subsection \<open>Lines\<close>

lemma line_end_offset_le: "line_end_offset line \<le> length line"
  by (simp add: line_end_offset_def Let_def)

lemma line_text_last:
  assumes "Suc l < length (line_starts t)" and "\<forall>i < length t. line_break_at t i \<longrightarrow> t ! i = newline"
  shows "line_start t l + line_end_offset (line_text t l) < line_start t (Suc l)"
proof -
  obtain b where b: "line_start t (Suc l) = Suc b" "b < length t" "line_break_at t b"
    using line_start_Suc_break [OF assms(1)] by blast
  have lt: "line_start t l < Suc b"
    using sorted_wrt_nth_less [OF line_starts_strict [of t], of l "Suc l"] assms(1) b(1) by (simp add: line_start_def)
  have "line_text t l ! (length (line_text t l) - 1) = t ! b"
    using b lt by (simp add: length_line_text line_text_def)
  then show ?thesis using assms(2) b lt by (simp add: line_end_offset_def Let_def length_line_text)
qed

lemma line_motion_reads:
  assumes "rope_ok R" and "i \<le> length (rp_chars R d)"
  shows "rp_char_to_line R d i = Some (line_of (rp_chars R d) i)"
    and "l < length (line_starts (rp_chars R d)) \<Longrightarrow> rp_line_to_char R d l = Some (line_start (rp_chars R d) l)"
    and "l < length (line_starts (rp_chars R d)) \<Longrightarrow> rp_line R d l = Some (line_text (rp_chars R d) l)"
    and "visible_line_count R d = length (line_starts (rp_chars R d))"
  using assms by (simp_all add: rope_simps visible_line_count_def)

lemma in_line_bound:
  "k \<le> length (line_text t l) \<Longrightarrow> line_start t l + k \<le> length t"
  using line_start_mono [of l "Suc l" t] line_start_le [of t "Suc l"] by (simp add: length_line_text del: line_start_le)

subsection \<open>Objects\<close>

text \<open>The balance of opening and closing delimiters between two positions.\<close>

lemma bal_simps [simp]: "bal t op cl i i = 0"
  by (simp add: bal_def)

lemma bal_step: "i < j \<Longrightarrow> bal t op cl i j = weight op cl (t ! i) + bal t op cl (Suc i) j"
  by (simp add: bal_def upt_conv_Cons)

lemma bal_split: "i \<le> j \<Longrightarrow> j \<le> k \<Longrightarrow> bal t op cl i k = bal t op cl i j + bal t op cl j k"
  using upt_add_eq_append [of i j "k - j"] by (simp add: bal_def)

lemma scan_close_correct:
  assumes R: "rope_ok R" and len: "len = length (rp_chars R d)" and ne: "op \<noteq> cl"
  shows "0 \<le> depth \<Longrightarrow> \<exists>res. scan_close R d op cl True len depth p = Some res \<and>
    (\<forall>b. res = Some b \<longrightarrow> p \<le> b \<and> b < len \<and> rp_chars R d ! b = cl \<and> depth + bal (rp_chars R d) op cl p b = 0 \<and>
      (\<forall>k. p \<le> k \<and> k \<le> b \<longrightarrow> 0 \<le> depth + bal (rp_chars R d) op cl p k))"
proof (induction "len - p" arbitrary: p depth)
  case 0
  then show ?case by (subst scan_close.simps) simp
next
  case (Suc n)
  let ?t = "rp_chars R d"
  have lt: "p < len" using Suc.hyps(2) by simp
  have ch: "rp_char R d p = Some (?t ! p)" using R lt len by (simp add: rope_simps)
  show ?case
  proof (cases "?t ! p = cl \<and> depth = 0")
    case True
    then show ?thesis using lt ch ne by (subst scan_close.simps) auto
  next
    case False
    have n: "n = len - Suc p" using Suc.hyps(2) by simp
    let ?d = "depth + weight op cl (?t ! p)"
    have eq: "scan_close R d op cl True len depth p = scan_close R d op cl True len ?d (Suc p)"
      using lt ch ne False by (subst scan_close.simps) (auto simp: weight_def)
    have "0 \<le> ?d" using Suc.prems False by (auto simp: weight_def)
    then obtain res where res: "scan_close R d op cl True len ?d (Suc p) = Some res"
      "\<And>b. res = Some b \<Longrightarrow> Suc p \<le> b \<and> b < len \<and> ?t ! b = cl \<and> ?d + bal ?t op cl (Suc p) b = 0 \<and>
        (\<forall>k. Suc p \<le> k \<and> k \<le> b \<longrightarrow> 0 \<le> ?d + bal ?t op cl (Suc p) k)"
      using Suc.hyps(1) [OF n, of ?d] by auto
    have shift: "depth + bal ?t op cl p k = ?d + bal ?t op cl (Suc p) k" if "p < k" for k
      using bal_step [OF that, of ?t op cl] by simp
    have "0 \<le> depth + bal ?t op cl p k" if "p \<le> k" "k \<le> b" "res = Some b" for k b
    proof (cases "k = p")
      case False
      then show ?thesis using shift [of k] res(2) [OF that(3)] that by (simp add: add.assoc)
    qed (simp add: Suc.prems)
    moreover have "depth + bal ?t op cl p b = 0 \<and> p \<le> b \<and> b < len \<and> ?t ! b = cl" if "res = Some b" for b
      using res(2) [OF that] shift [of b] by auto
    ultimately show ?thesis using eq res(1) by auto
  qed
qed

lemma scan_open_correct:
  assumes R: "rope_ok R" and ne: "op \<noteq> cl"
  shows "0 \<le> depth \<Longrightarrow> p \<le> length (rp_chars R d) \<Longrightarrow> \<exists>res. scan_open R d op cl True depth p = Some res \<and>
    (\<forall>a. res = Some a \<longrightarrow> a < p \<and> rp_chars R d ! a = op \<and> bal (rp_chars R d) op cl (Suc a) p = depth \<and>
      (\<forall>k. Suc a \<le> k \<and> k \<le> p \<longrightarrow> bal (rp_chars R d) op cl k p \<le> depth))"
proof (induction p arbitrary: depth)
  case 0
  then show ?case by simp
next
  case (Suc p)
  let ?t = "rp_chars R d"
  have ch: "rp_char R d p = Some (?t ! p)" using R Suc.prems by (simp add: rope_simps)
  have last: "bal ?t op cl k (Suc p) = bal ?t op cl k p + weight op cl (?t ! p)"
    if "k \<le> p" for k using bal_split [of k p "Suc p" ?t op cl] bal_step [of p "Suc p" ?t op cl] that by simp
  show ?case
  proof (cases "?t ! p = op \<and> depth = 0")
    case True
    then show ?thesis using ch ne by (auto simp: le_Suc_eq)
  next
    case False
    let ?d = "depth - weight op cl (?t ! p)"
    have eq: "scan_open R d op cl True depth (Suc p) = scan_open R d op cl True ?d p"
      using ch ne False by (auto simp: weight_def)
    have "0 \<le> ?d" using Suc.prems False by (auto simp: weight_def)
    then obtain res where res: "scan_open R d op cl True ?d p = Some res"
      "\<And>a. res = Some a \<Longrightarrow> a < p \<and> ?t ! a = op \<and> bal ?t op cl (Suc a) p = ?d \<and>
        (\<forall>k. Suc a \<le> k \<and> k \<le> p \<longrightarrow> bal ?t op cl k p \<le> ?d)"
      using Suc.IH [of ?d] Suc.prems by auto
    have "bal ?t op cl k (Suc p) \<le> depth" if "Suc a \<le> k" "k \<le> Suc p" "res = Some a" for k a
      using res(2) [OF that(3)] that Suc.prems last [of k] ne by (cases "k = Suc p") auto
    then show ?thesis using eq res last ne by (auto simp: Suc_le_eq)
  qed
qed

lemma scan_plain_Some:
  assumes R: "rope_ok R"
  shows "p \<le> length (rp_chars R d) \<Longrightarrow> \<exists>res. scan_open R d c c False depth p = Some res \<and> (\<forall>a. res = Some a \<longrightarrow> a < p)"
    and "\<exists>res. scan_close R d c c False (length (rp_chars R d)) depth p = Some res \<and>
      (\<forall>b. res = Some b \<longrightarrow> p \<le> b \<and> b < length (rp_chars R d))"
proof -
  show "p \<le> length (rp_chars R d) \<Longrightarrow> \<exists>res. scan_open R d c c False depth p = Some res \<and> (\<forall>a. res = Some a \<longrightarrow> a < p)"
    by (induction p) (auto simp: rope_simps [OF R])
  show "\<exists>res. scan_close R d c c False (length (rp_chars R d)) depth p = Some res \<and>
      (\<forall>b. res = Some b \<longrightarrow> p \<le> b \<and> b < length (rp_chars R d))"
  proof (induction "length (rp_chars R d) - p" arbitrary: p)
    case 0
    then show ?case by (subst scan_close.simps) simp
  next
    case (Suc n)
    have "n = length (rp_chars R d) - Suc p" using Suc.hyps(2) by simp
    from Suc.hyps(1) [OF this] show ?case using Suc.hyps(2) R by (subst scan_close.simps) (auto simp: rope_simps)
  qed
qed

subsection \<open>Motions end inside the document\<close>

lemma make_range_ends:
  assumes "anchor r \<le> n" and "head r \<le> n" and "p \<le> n"
  shows "ends_in n (Some (make_range r p ext))" and "ends_in n (Some (make_range_select r p ext))"
  using assms by (auto simp: ends_in_def make_range_def make_range_select_def range_point_def)

lemma ends_in_bind: "m = Some p \<Longrightarrow> ends_in n (f p) \<Longrightarrow> ends_in n (Option.bind m f)"
  by simp

lemma simple_motions_end:
  assumes R: "rope_ok R" and r: "anchor r \<le> length (rp_chars R d)" "head r \<le> length (rp_chars R d)"
  shows "ends_in (length (rp_chars R d)) (move_horizontally G R d r dir count ext)"
    and "ends_in (length (rp_chars R d)) (move_vertically R d r dir count ext)"
    and "ends_in (length (rp_chars R d)) (move_to_line_start R d r ext)"
    and "ends_in (length (rp_chars R d)) (move_to_line_end R d r ext)"
    and "ends_in (length (rp_chars R d)) (move_to_first_nonwhitespace R d r ext)"
    and "ends_in (length (rp_chars R d)) (range_grapheme_aligned G R d r)"
proof -
  let ?t = "rp_chars R d"
  note reads = line_motion_reads [OF R r(2)]
  note mk = make_range_ends(1) [OF r]
  show "ends_in (length ?t) (move_horizontally G R d r dir count ext)"
    using move_loops_bound [OF R r(2), of G count]
    by (cases dir) (auto simp: move_horizontally_def intro!: mk)
  define l' where "l' = (case dir of Forward \<Rightarrow> min (line_of ?t (head r) + count) (length (line_starts ?t) - 1)
      | Backward \<Rightarrow> line_of ?t (head r) - count)"
  have l': "l' < length (line_starts ?t)"
    using line_of_bracket(1) [of ?t "head r"] line_starts_nonempty(2) [of ?t]
    by (simp add: l'_def min_def split: direction.split) linarith
  then show "ends_in (length ?t) (move_vertically R d r dir count ext)"
    using line_of_bracket(1) [of ?t "head r"] line_end_offset_le [of "line_text ?t l'"]
    by (auto simp: move_vertically_def reads l'_def [symmetric] Let_def intro!: mk in_line_bound)
  show "ends_in (length ?t) (move_to_line_start R d r ext)"
    using line_of_bracket(1) [of ?t "head r"] by (auto simp: move_to_line_start_def reads intro!: mk)
  show "ends_in (length ?t) (move_to_line_end R d r ext)"
    using line_of_bracket(1) [of ?t "head r"] line_end_offset_le
    by (auto simp: move_to_line_end_def reads intro!: mk in_line_bound)
  have "(case position (\<lambda>c. \<not> is_whitespace c) (line_text ?t l) of Some i \<Rightarrow> line_start ?t l + i | None \<Rightarrow> line_start ?t l) \<le> length ?t" for l
    using position_Some [of "\<lambda>c. \<not> is_whitespace c" "line_text ?t l"]
    by (auto split: option.splits intro!: in_line_bound dest: less_imp_le)
  then show "ends_in (length ?t) (move_to_first_nonwhitespace R d r ext)"
    using line_of_bracket(1) [of ?t "head r"]
    by (auto simp: move_to_first_nonwhitespace_def reads intro!: mk)
  show "ends_in (length ?t) (range_grapheme_aligned G R d r)"
    using grapheme_steps(3,4) [OF R r(1), of G] grapheme_steps(3,4) [OF R r(2), of G] r
    by (auto simp: range_grapheme_aligned_def ends_in_def)
qed

lemma word_motions_end:
  assumes R: "rope_ok R" and r: "anchor r \<le> length (rp_chars R d)" "head r \<le> length (rp_chars R d)"
  shows "ends_in (length (rp_chars R d)) (move_to_next_word_start alnum R d r count wt ext)"
    and "ends_in (length (rp_chars R d)) (move_to_next_word_end alnum R d r count wt ext)"
    and "ends_in (length (rp_chars R d)) (move_to_prev_word_start alnum R d r count wt ext)"
proof -
  let ?t = "rp_chars R d"
  have same: "ends_in (length ?t) (Some r)" using r by (simp add: ends_in_def)
  note mk = make_range_ends(2) [OF r]
  show "ends_in (length ?t) (move_to_next_word_start alnum R d r count wt ext)"
    using next_word_start_bound [OF R refl r(2), of alnum wt count] same R
    by (auto simp: move_to_next_word_start_def rope_simps Let_def intro!: mk)
  show "ends_in (length ?t) (move_to_next_word_end alnum R d r count wt ext)"
    using next_word_end_bound [OF R refl r(2), of alnum wt count] same R
    by (auto simp: move_to_next_word_end_def rope_simps Let_def intro!: mk)
  show "ends_in (length ?t) (move_to_prev_word_start alnum R d r count wt ext)"
    using prev_word_start_bound [OF R _ r(2), of alnum wt count] same R r
    by (cases "?t = []") (auto simp: move_to_prev_word_start_def rope_simps Let_def intro!: mk)
qed

text \<open>The positions of a character after and before the head, in the order the searches meet them.\<close>

lemma find_char_eq:
  fixes count :: nat
  assumes R: "rope_ok R" and h: "head r \<le> length (rp_chars R d)"
  defines "k \<equiv> max 1 count - 1"
  shows "find_char_forward R d r c count incl ext =
      Some (let ps = hits_after (rp_chars R d) c (head r) in
            if k < length ps then make_range_select r (if incl then ps ! k else ps ! k - 1) ext else r)"
    and "find_char_backward R d r c count incl ext =
      Some (let ps = hits_before (rp_chars R d) c (head r) in
            if k < length ps then make_range_select r (if incl then ps ! k else ps ! k + 1) ext else r)"
proof -
  show "find_char_forward R d r c count incl ext =
      Some (let ps = hits_after (rp_chars R d) c (head r) in
            if k < length ps then make_range_select r (if incl then ps ! k else ps ! k - 1) ext else r)"
    using find_forward_loop_eq [OF R refl, of 0 count d c "Suc (head r)"] R
    by (simp add: find_char_forward_def rope_simps Let_def k_def hits_after_def)
  show "find_char_backward R d r c count incl ext =
      Some (let ps = hits_before (rp_chars R d) c (head r) in
            if k < length ps then make_range_select r (if incl then ps ! k else ps ! k + 1) ext else r)"
  proof (cases "head r")
    case 0
    then show ?thesis by (simp add: find_char_backward_def hits_before_def)
  next
    case (Suc p)
    then have "find_backward_loop R d c count 0 p =
        Some (let ps = hits_before (rp_chars R d) c (head r) in if k < length ps then Some (ps ! k) else None)"
      using find_backward_loop_eq [OF R, of p d 0 count c] h by (simp only: k_def hits_before_def) simp
    then show ?thesis by (simp add: find_char_backward_def Suc Let_def)
  qed
qed

lemma hits_bound:
  "k < length (hits_after t c h) \<Longrightarrow> h < hits_after t c h ! k \<and> hits_after t c h ! k < length t"
  "k < length (hits_before t c h) \<Longrightarrow> hits_before t c h ! k < h"
  using nth_mem [of k "hits_after t c h"] nth_mem [of k "hits_before t c h"]
  by (auto simp: hits_after_def hits_before_def)

lemma find_motions_end:
  assumes R: "rope_ok R" and r: "anchor r \<le> length (rp_chars R d)" "head r \<le> length (rp_chars R d)"
  shows "ends_in (length (rp_chars R d)) (find_char_forward R d r c count incl ext)"
    and "ends_in (length (rp_chars R d)) (find_char_backward R d r c count incl ext)"
proof -
  let ?t = "rp_chars R d" and ?k = "max 1 count - 1"
  have same: "ends_in (length ?t) (Some r)" using r by (simp add: ends_in_def)
  show "ends_in (length ?t) (find_char_forward R d r c count incl ext)"
    unfolding find_char_eq(1) [OF R r(2)] Let_def
    using hits_bound(1) [of ?k ?t c "head r"] same
    by (simp split: if_split) (auto intro!: make_range_ends(2) [OF r])
  show "ends_in (length ?t) (find_char_backward R d r c count incl ext)"
    unfolding find_char_eq(2) [OF R r(2)] Let_def
    using hits_bound(2) [of ?k ?t c "head r"] same r(2)
    by (simp split: if_split) (auto intro!: make_range_ends(2) [OF r])
qed

lemma opening_scan:
  assumes "rope_ok R" and "open \<noteq> close" and "t = rp_chars R d" and "pos < length t"
  defines "dep \<equiv> if t ! pos = close \<and> open \<noteq> close then 1 else (0 :: int)"
  shows "\<exists>oa. (if t ! pos = open then Some (Some pos) else scan_open R d open close (open \<noteq> close) dep pos) = Some oa \<and>
    (\<forall>a. oa = Some a \<longrightarrow> a \<le> pos \<and> t ! a = open \<and>
      (\<forall>k. Suc a \<le> k \<and> k \<le> pos \<longrightarrow> bal t open close k pos \<le> bal t open close (Suc a) pos))"
proof (cases "t ! pos = open")
  case False
  have dep: "0 \<le> dep" by (simp add: dep_def)
  obtain res where "scan_open R d open close True dep pos = Some res"
    "\<forall>a. res = Some a \<longrightarrow> a < pos \<and> t ! a = open \<and> bal t open close (Suc a) pos = dep \<and>
      (\<forall>k. Suc a \<le> k \<and> k \<le> pos \<longrightarrow> bal t open close k pos \<le> dep)"
    using scan_open_correct [OF assms(1,2) dep, of pos d] assms(3,4) by auto
  then show ?thesis using False assms(2) by auto
qed auto

text \<open>A closing delimiter that balances the opening one cannot lie before the cursor.\<close>

lemma closing_past_cursor:
  assumes "open \<noteq> close" and "Suc a \<le> b" and "t ! b = close" and "bal t open close (Suc a) b = 0"
    and enc: "\<And>k. Suc a \<le> k \<Longrightarrow> k \<le> pos \<Longrightarrow> bal t open close k pos \<le> bal t open close (Suc a) pos"
  shows "pos \<le> b"
proof (rule ccontr)
  assume "\<not> pos \<le> b"
  then have b: "Suc b \<le> pos" by simp
  have "bal t open close (Suc a) pos = -1 + bal t open close (Suc b) pos"
    using assms(1-4) b bal_split [of "Suc a" b pos t "open" close] bal_step [of b pos t "open" close]
    by (simp add: weight_def)
  moreover have "bal t open close (Suc b) pos \<le> bal t open close (Suc a) pos" using enc [of "Suc b"] assms(2) b by simp
  ultimately show False by simp
qed

section \<open>Properties\<close>

text \<open>
  C14. No motion panics and no motion leaves the document: for a range inside the document, whatever
  the count, the direction, the word class and the segmentation, every motion returns a range inside
  the document again.
\<close>

theorem motions_stay_inside:
  assumes "rope_ok R" and "anchor r \<le> length (rp_chars R d)" and "head r \<le> length (rp_chars R d)"
  defines "inside \<equiv> ends_in (length (rp_chars R d))"
  shows "inside (move_horizontally G R d r dir count ext) \<and> inside (move_vertically R d r dir count ext) \<and>
     inside (move_to_line_start R d r ext) \<and> inside (move_to_line_end R d r ext) \<and>
     inside (move_to_first_nonwhitespace R d r ext) \<and> inside (Some (move_to_document_start r ext)) \<and>
     inside (Some (move_to_document_end R d r ext)) \<and>
     inside (move_to_next_word_start alnum R d r count wt ext) \<and>
     inside (move_to_next_word_end alnum R d r count wt ext) \<and>
     inside (move_to_prev_word_start alnum R d r count wt ext) \<and>
     inside (find_char_forward R d r c count incl ext) \<and> inside (find_char_backward R d r c count incl ext) \<and>
     inside (range_grapheme_aligned G R d r)"
  unfolding inside_def move_to_document_start_def move_to_document_end_def max_cursor_pos_def
  by (intro conjI simple_motions_end word_motions_end find_motions_end make_range_ends(1) assms(1-3))
    (simp_all add: rope_simps assms)

theorem motions_stay_inside_witness:
  "ends_in 3 (move_vertically list_rope [97, 10, 98] (range_point 2) Backward 1 False)"
  using motions_stay_inside [of list_rope "range_point 2" "[97, 10, 98]", where dir = Backward and count = 1 and ext = False]
  by (simp add: range_point_def numeral_3_eq_3)

text \<open>
  Character search. \<open>f\<close> and \<open>t\<close> land on, or one before, the \<open>count\<close>-th occurrence of the target
  after the head (a count of zero acts as one), \<open>F\<close> and \<open>T\<close> on, or one after, the \<open>count\<close>-th occurrence
  before it, counted from the head; when there are fewer occurrences the range does not change.
\<close>

theorem find_char_correct:
  assumes "rope_ok R" and "head r \<le> length (rp_chars R d)"
  shows "find_char_forward R d r c count incl ext =
      Some (let ps = hits_after (rp_chars R d) c (head r); k = max 1 count - 1 in
            if k < length ps then make_range_select r (if incl then ps ! k else ps ! k - 1) ext else r) \<and>
    find_char_backward R d r c count incl ext =
      Some (let ps = hits_before (rp_chars R d) c (head r); k = max 1 count - 1 in
            if k < length ps then make_range_select r (if incl then ps ! k else ps ! k + 1) ext else r)"
  using find_char_eq [OF assms, of c count incl ext] by (simp add: Let_def)

theorem find_char_correct_witness:
  "find_char_forward list_rope [104, 111, 32, 111] (range_point 0) 111 2 True False = Some (range_new 0 3)"
  using find_char_correct [of list_rope "range_point 0" "[104, 111, 32, 111]" 111 2 True False]
  by (simp add: range_point_def hits_after_def make_range_select_def upt_rec)

text \<open>
  Vertical motion. In a text whose lines end in newlines, moving up or down reaches the line
  \<open>count\<close> lines away, or the first or last one, and the same column there or the end of the line,
  before its newline, when the line is shorter.
\<close>

theorem vertical_motion_correct:
  assumes "rope_ok R" and "head r \<le> length (rp_chars R d)"
    and "\<forall>i < length (rp_chars R d). line_break_at (rp_chars R d) i \<longrightarrow> rp_chars R d ! i = newline"
  shows "\<exists>r'. move_vertically R d r dir count ext = Some r' \<and>
     (let t = rp_chars R d; l = line_of t (head r); l' = line_of t (head r') in
      l' = (case dir of Forward \<Rightarrow> min (l + count) (length (line_starts t) - 1) | Backward \<Rightarrow> l - count) \<and>
      head r' - line_start t l' = min (head r - line_start t l) (line_end_offset (line_text t l')))"
proof -
  let ?t = "rp_chars R d" and ?l = "line_of (rp_chars R d) (head r)"
  define l' where "l' = (case dir of Forward \<Rightarrow> min (?l + count) (length (line_starts ?t) - 1) | Backward \<Rightarrow> ?l - count)"
  have l': "l' < length (line_starts ?t)"
    using line_of_bracket(1) [of ?t "head r"] line_starts_nonempty(2) [of ?t]
    by (simp add: l'_def min_def split: direction.split) linarith
  let ?p = "line_start ?t l' + min (head r - line_start ?t ?l) (line_end_offset (line_text ?t l'))"
  have "line_of ?t ?p = l'"
    using line_text_last [OF _ assms(3), of l'] l' by (intro line_of_eq) auto
  moreover have "move_vertically R d r dir count ext = Some (make_range r ?p ext)"
    using line_motion_reads [OF assms(1,2)] line_of_bracket(1) [of ?t "head r"] l'
    by (simp add: move_vertically_def l'_def [symmetric] Let_def)
  moreover have "head (make_range r ?p ext) = ?p" by (simp add: make_range_def range_point_def)
  ultimately show ?thesis by (simp add: Let_def l'_def)
qed

theorem vertical_motion_correct_witness:
  "\<exists>r'. move_vertically list_rope [97, 98, 10, 99] (range_point 1) Forward 1 False = Some r' \<and>
     line_of [97, 98, 10, 99] (head r') = 1"
proof -
  let ?t = "[97, 98, 10, 99] :: utext"
  have "\<forall>i < length ?t. line_break_at ?t i \<longrightarrow> ?t ! i = newline"
    by (simp add: All_less_Suc line_break_at_def newline_def)
  moreover have "line_starts ?t = [0, 3]" by (simp add: line_starts_def line_break_at_def upt_rec)
  moreover from this have "line_of ?t 1 = 0" by (simp add: line_of_def)
  ultimately show ?thesis
    using vertical_motion_correct [of list_rope "range_point 1" ?t Forward 1 False]
    by (auto simp: range_point_def Let_def simp del: One_nat_def)
qed

text \<open>
  The word object. On a non-empty text the inner word object is the maximal run around the
  cursor of characters on the same side of the word class as the character under it; the object with
  its surroundings contains it and adds only blanks other than newlines, on one side.
\<close>

theorem word_object_correct:
  fixes r :: range
  assumes "rope_ok R" and "rp_chars R d \<noteq> []"
  defines "t \<equiv> rp_chars R d"
  defines "pos \<equiv> min (head r) (length t - 1)"
  shows "\<exists>s e. select_word_object alnum R d r wt True = Some (range_new s e) \<and> s \<le> pos \<and> pos \<le> e \<and> e < length t \<and>
     (\<forall>i. s \<le> i \<and> i \<le> e \<longrightarrow> in_word alnum wt (t ! i) = in_word alnum wt (t ! pos)) \<and>
     (0 < s \<longrightarrow> in_word alnum wt (t ! (s - 1)) \<noteq> in_word alnum wt (t ! pos)) \<and>
     (e + 1 < length t \<longrightarrow> in_word alnum wt (t ! (e + 1)) \<noteq> in_word alnum wt (t ! pos)) \<and>
     (\<exists>s' e'. select_word_object alnum R d r wt False = Some (range_new s' e') \<and> s' \<le> s \<and> e \<le> e' \<and>
        e' < length t \<and> (s' = s \<or> e' = e) \<and>
        (\<forall>i. s' \<le> i \<and> i < s \<or> e < i \<and> i \<le> e' \<longrightarrow> is_whitespace (t ! i) \<and> t ! i \<noteq> newline))"
proof -
  let ?w = "in_word alnum wt" and ?b = "\<lambda>c. is_whitespace c \<and> c \<noteq> newline"
  let ?P = "\<lambda>c. ?w c = ?w (t ! pos)"
  have len: "length t = length (rp_chars R d)" and pos: "pos < length t"
    using assms(2) by (cases t; simp add: t_def pos_def)+
  have ch: "rp_char R d pos = Some (t ! pos)" and n: "rp_len_chars R d = length t" "length t \<noteq> 0"
    using assms(1,2) pos by (simp_all add: rope_simps t_def)
  obtain s where s: "back_while ?P R d pos = Some s" "s \<le> pos" "\<forall>i. s \<le> i \<and> i < pos \<longrightarrow> ?P (t ! i)"
    "0 < s \<longrightarrow> \<not> ?P (t ! (s - 1))"
    using back_while_correct [OF assms(1), of pos d ?P] pos by (auto simp: t_def)
  obtain e where e: "run_end ?P R d (length t) pos = Some e" "pos \<le> e" "e < length t"
    "\<forall>i. pos < i \<and> i \<le> e \<longrightarrow> ?P (t ! i)" "e + 1 < length t \<longrightarrow> \<not> ?P (t ! (e + 1))"
    using run_end_correct [OF assms(1) len pos, of ?P] by (auto simp: t_def)
  have pd: "min (head r) (length t - Suc 0) = pos" by (simp add: pos_def)
  have same: "?P = (if ?w (t ! pos) then ?w else (\<lambda>c. \<not> ?w c))" by auto
  have yes: "back_while ?w R d pos = Some s" "run_end ?w R d (length t) pos = Some e" if "?w (t ! pos)"
    using s(1) e(1) same that by simp_all
  have no: "back_while (\<lambda>c. \<not> ?w c) R d pos = Some s" "run_end (\<lambda>c. \<not> ?w c) R d (length t) pos = Some e"
    if "\<not> ?w (t ! pos)"
    using s(1) e(1) same that by simp_all
  have inner: "select_word_object alnum R d r wt True = Some (range_new s e)"
    using ch n yes no by (cases "?w (t ! pos)") (simp_all add: select_word_object_def Let_def pd)
  have run: "\<forall>i. s \<le> i \<and> i \<le> e \<longrightarrow> ?P (t ! i)" using s(3) e(4) by (metis linorder_neqE_nat)
  obtain e' where e': "run_end ?b R d (length t) e = Some e'" "e \<le> e'" "e' < length t"
    "\<forall>i. e < i \<and> i \<le> e' \<longrightarrow> ?b (t ! i)"
    using run_end_correct [OF assms(1) len e(3), of ?b] by (auto simp: t_def)
  obtain s' where s': "back_while ?b R d s = Some s'" "s' \<le> s" "\<forall>i. s' \<le> i \<and> i < s \<longrightarrow> ?b (t ! i)"
    using back_while_correct [OF assms(1), of s d ?b] s(2) pos by (auto simp: t_def)
  define Q where "Q s1 e1 \<longleftrightarrow> s1 \<le> s \<and> e \<le> e1 \<and> e1 < length t \<and> (s1 = s \<or> e1 = e) \<and>
      (\<forall>i. s1 \<le> i \<and> i < s \<or> e < i \<and> i \<le> e1 \<longrightarrow> ?b (t ! i))" for s1 e1
  have Q: "Q s e'" "Q s' e" "Q s e" using e' s' e(3) by (auto simp: Q_def)
  have "select_word_object alnum R d r wt False =
      Some (if ?w (t ! pos) then if e' > e then range_new s e' else range_new s' e else range_new s e)"
    using ch n yes no e'(1) s'(1)
    by (cases "?w (t ! pos)") (simp_all add: select_word_object_def Let_def pd)
  then have "\<exists>s1 e1. select_word_object alnum R d r wt False = Some (range_new s1 e1) \<and> Q s1 e1"
    using Q by (cases "?w (t ! pos)"; cases "e' > e") auto
  then show ?thesis using inner run s(2,4) e(2,3,5) unfolding Q_def by blast
qed

theorem word_object_correct_witness:
  "\<exists>s e. select_word_object (\<lambda>c. 97 \<le> c \<and> c \<le> 122) list_rope [97, 98, 32, 99] (range_point 1) Word_class True
       = Some (range_new s e) \<and> s \<le> 1 \<and> 1 \<le> e \<and> e < 4"
proof -
  let ?al = "\<lambda>c. 97 \<le> c \<and> c \<le> (122 :: nat)" and ?t = "[97, 98, 32, 99] :: utext"
  obtain s e where "select_word_object ?al list_rope ?t (range_point 1) Word_class True = Some (range_new s e)"
    "s \<le> min (head (range_point 1)) (length (rp_chars list_rope ?t) - 1)"
    "min (head (range_point 1)) (length (rp_chars list_rope ?t) - 1) \<le> e" "e < length (rp_chars list_rope ?t)"
    using word_object_correct [of list_rope ?t ?al "range_point 1" Word_class] by auto
  then show ?thesis by (intro exI [of _ s] exI [of _ e]) (simp add: range_point_def)
qed

text \<open>
  The surround object. For two different delimiters the search never panics, and what it returns
  is a pair around the cursor: an opening delimiter at or before it and a closing delimiter at or
  after it, with the delimiters between them balanced and never closing more than was opened.
\<close>

theorem surround_object_correct:
  fixes R :: "'r rope_ops" and d :: 'r and r :: range
  assumes "rope_ok R" and "open \<noteq> close"
  defines "t \<equiv> rp_chars R d"
  defines "pos \<equiv> min (head r) (length t - 1)"
  shows "\<exists>res. select_surround_object R d r open close inner = Some res \<and>
     (\<forall>r'. res = Some r' \<longrightarrow> (\<exists>a b. a \<le> pos \<and> pos \<le> b \<and> a < b \<and> b < length t \<and> t ! a = open \<and> t ! b = close \<and>
        bal t open close (Suc a) b = 0 \<and> (\<forall>k. Suc a \<le> k \<and> k \<le> b \<longrightarrow> 0 \<le> bal t open close (Suc a) k) \<and>
        r' = (if inner then if b > a + 1 then range_new (a + 1) (b - 1) else range_point (a + 1)
              else range_new a b)))"
proof (cases "t = []")
  case True
  then show ?thesis using assms(1) by (simp add: select_surround_object_def rope_simps t_def)
next
  case False
  then have pos: "pos < length t" by (simp add: pos_def min_less_iff_disj)
  have pd: "min (head r) (length t - Suc 0) = pos" by (simp add: pos_def)
  have ch: "rp_char R d pos = Some (t ! pos)" "rp_len_chars R d = length t"
    using assms(1) pos by (simp_all add: rope_simps t_def)
  let ?dep = "if t ! pos = close \<and> open \<noteq> close then 1 else (0 :: int)"
  let ?scan = "if t ! pos = open then Some (Some pos) else scan_open R d open close (open \<noteq> close) ?dep pos"
  define shape where "shape a b = (if inner then if b > a + 1 then range_new (a + 1) (b - 1) else range_point (a + 1)
      else range_new a b)" for a b
  have sel: "select_surround_object R d r open close inner =
      Option.bind ?scan (\<lambda>oa. case oa of None \<Rightarrow> Some None
        | Some a \<Rightarrow> Option.bind (scan_close R d open close (open \<noteq> close) (length t) 0 (Suc a))
            (\<lambda>ob. case ob of None \<Rightarrow> Some None | Some b \<Rightarrow> Some (Some (shape a b))))"
    using ch False by (simp add: select_surround_object_def pd Let_def shape_def)
  obtain oa where oa: "?scan = Some oa"
    and enc: "\<And>a. oa = Some a \<Longrightarrow> a \<le> pos \<and> t ! a = open \<and>
      (\<forall>k. Suc a \<le> k \<and> k \<le> pos \<longrightarrow> bal t open close k pos \<le> bal t open close (Suc a) pos)"
    using opening_scan [OF assms(1,2), of t d pos] pos t_def by blast
  show ?thesis
  proof (cases oa)
    case None
    then show ?thesis unfolding sel oa by simp
  next
    case (Some a)
    obtain ob where ob: "scan_close R d open close (open \<noteq> close) (length t) 0 (Suc a) = Some ob"
      and cl: "\<And>b. ob = Some b \<Longrightarrow> Suc a \<le> b \<and> b < length t \<and> t ! b = close \<and> bal t open close (Suc a) b = 0 \<and>
        (\<forall>k. Suc a \<le> k \<and> k \<le> b \<longrightarrow> 0 \<le> bal t open close (Suc a) k)"
      using scan_close_correct [OF assms(1) refl assms(2), of 0 d "Suc a"] assms(2) by (auto simp: t_def)
    have "pos \<le> b" if "ob = Some b" for b
      using closing_past_cursor [OF assms(2), of a b t pos] cl [OF that] enc [OF Some] by blast
    then show ?thesis unfolding sel oa shape_def [symmetric] using Some ob enc [OF Some] cl
      by (cases ob) (auto simp: Suc_le_eq)
  qed
qed

theorem surround_object_correct_witness:
  "select_surround_object list_rope [40, 97, 41] (range_point 1) 40 41 False = Some (Some (range_new 0 2)) \<and>
   (\<exists>a b. a \<le> 1 \<and> 1 \<le> b \<and> range_new 0 2 = range_new a b)"
proof -
  have *: "select_surround_object list_rope [40, 97, 41] (range_point 1) 40 41 False = Some (Some (range_new 0 2))"
    by (simp add: select_surround_object_def list_rope_def range_point_def scan_close.simps numeral_2_eq_2)
  show ?thesis
    using surround_object_correct [of list_rope 40 41 "[40, 97, 41]" "range_point 1" False] *
    by (auto simp: range_point_def)
qed

text \<open>With the cursor on a closing delimiter the pair it closes is not found.\<close>

lemma surround_misses_closing_cursor:
  "select_surround_object list_rope [40, 97, 41] (range_point 2) 40 41 False = Some None"
  by (simp add: select_surround_object_def list_rope_def range_point_def numeral_2_eq_2)

text \<open>A line that ends in another break than a newline is left by vertical motion onto it.\<close>

lemma vertical_motion_overshoots:
  "move_vertically list_rope [97, 98, 99, 10, 120, 13, 121] (range_point 2) Forward 1 False = Some (range_point 6) \<and>
   line_of [97, 98, 99, 10, 120, 13, 121] 6 = 2"
proof -
  let ?t = "[97, 98, 99, 10, 120, 13, 121] :: utext"
  have ls: "line_starts ?t = [0, 4, 6]" by (simp add: line_starts_def line_break_at_def upt_rec)
  show ?thesis
    by (simp add: move_vertically_def list_rope_def visible_line_count_def line_of_def line_start_def line_text_def ls
        range_point_def line_end_offset_def newline_def make_range_def)
qed

end
