(* ===== verification/Buffers.thy ===== *)
theory Buffers
  imports Documents Movement
begin

text \<open>
  Buffers, the views of documents: \<open>crates/editor/src/buffer/state.rs\<close>,
  \<open>crates/editor/src/buffer/editing/mod.rs\<close> and the view snapshots of
  \<open>crates/editor/src/impls/history/mod.rs\<close>. A \<open>Buffer\<close> holds a handle to a shared document; in the
  model the operations take the buffer and the document the handle points to, and return both. The
  modal input handler and the option overrides of a buffer play no part here and are left out; the
  per-thread lock bookkeeping of \<open>DocumentHandle\<close> is not needed since no operation nests another
  on the same document.

  The lemmas show that from any well-formed selection, in bounds or not, insertion and pasting
  return, change the text exactly at the cursors, and leave the view in a state that satisfies
  \<open>debug_assert_valid_state\<close>; that yanking returns exactly the characters a deletion removes; and
  that a read-only view never changes its document.
\<close>

section \<open>Views\<close>

record buffer =
  buf_id :: view_id
  buf_document_id :: nat
  cursor :: CharIdx
  buf_selection :: selection
  scroll_line :: nat
  scroll_segment :: nat
  text_width :: nat
  last_viewport_height :: nat
  last_rendered_cursor :: CharIdx
  suppress_auto_scroll :: bool
  readonly_override :: "bool option"
  goal_column :: "nat option"

definition buffer_new ::
  "'r rope_ops \<Rightarrow> view_id \<Rightarrow> nat \<Rightarrow> utext \<Rightarrow> utext option \<Rightarrow> buffer \<times> ('r, 'l) document" where
  "buffer_new R vid new_id content path =
     (let d = doc_new R new_id content path in
      (\<lparr> buf_id = vid, buf_document_id = doc_id d, cursor = 0, buf_selection = sel_point 0, scroll_line = 0,
         scroll_segment = 0, text_width = 80, last_viewport_height = 0, last_rendered_cursor = 0,
         suppress_auto_scroll = False, readonly_override = None, goal_column = None \<rparr>, d))"

definition clone_for_split :: "buffer \<Rightarrow> view_id \<Rightarrow> buffer" where
  "clone_for_split b new_id =
     \<lparr> buf_id = new_id, buf_document_id = buf_document_id b, cursor = cursor b, buf_selection = buf_selection b,
       scroll_line = scroll_line b, scroll_segment = scroll_segment b, text_width = text_width b,
       last_viewport_height = 0, last_rendered_cursor = cursor b, suppress_auto_scroll = False,
       readonly_override = None, goal_column = None \<rparr>"

definition is_readonly :: "buffer \<Rightarrow> ('r, 'l) document \<Rightarrow> bool" where
  "is_readonly b d \<longleftrightarrow> readonly_override b = Some True \<or> doc_readonly d"

definition set_readonly_override :: "buffer \<Rightarrow> bool option \<Rightarrow> buffer" where
  "set_readonly_override b ro =
     b\<lparr> readonly_override := (if ro = Some True then Some True else None) \<rparr>"

definition cursor_line :: "'r rope_ops \<Rightarrow> buffer \<Rightarrow> ('r, 'l) document \<Rightarrow> nat option" where
  "cursor_line R b d = rp_char_to_line R (doc_content d) (min (cursor b) (rp_len_chars R (doc_content d)))"

definition cursor_col :: "'r rope_ops \<Rightarrow> buffer \<Rightarrow> ('r, 'l) document \<Rightarrow> nat option" where
  "cursor_col R b d = do {
     line \<leftarrow> rp_char_to_line R (doc_content d) (min (cursor b) (rp_len_chars R (doc_content d)));
     start \<leftarrow> rp_line_to_char R (doc_content d) line;
     Some (cursor b - start) }"

definition ensure_valid_selection :: "'r rope_ops \<Rightarrow> buffer \<Rightarrow> ('r, 'l) document \<Rightarrow> buffer" where
  "ensure_valid_selection R b d =
     (let max_char = rp_len_chars R (doc_content d) in
      b\<lparr> cursor := min (cursor b) max_char, buf_selection := sel_clamp (buf_selection b) max_char \<rparr>)"

definition debug_assert_valid_state :: "'r rope_ops \<Rightarrow> buffer \<Rightarrow> ('r, 'l) document \<Rightarrow> bool" where
  "debug_assert_valid_state R b d \<longleftrightarrow>
     (let len = rp_len_chars R (doc_content d) in is_in_bounds (buf_selection b) len \<and> cursor b \<le> len)"

definition set_cursor :: "buffer \<Rightarrow> CharIdx \<Rightarrow> buffer" where
  "set_cursor b pos = b\<lparr> cursor := pos, goal_column := None \<rparr>"

definition set_selection :: "buffer \<Rightarrow> selection \<Rightarrow> buffer" where
  "set_selection b sel = b\<lparr> buf_selection := sel, goal_column := None \<rparr>"

definition sync_cursor_to_selection :: "buffer \<Rightarrow> buffer option" where
  "sync_cursor_to_selection b = do {
     p \<leftarrow> sel_primary (buf_selection b);
     Some (b\<lparr> cursor := head p \<rparr>) }"

definition set_cursor_and_selection :: "buffer \<Rightarrow> CharIdx \<Rightarrow> selection \<Rightarrow> buffer" where
  "set_cursor_and_selection b pos sel = b\<lparr> cursor := pos, buf_selection := sel, goal_column := None \<rparr>"

definition establish_goal_column :: "'r rope_ops \<Rightarrow> buffer \<Rightarrow> ('r, 'l) document \<Rightarrow> buffer option" where
  "establish_goal_column R b d = do {
     col \<leftarrow> cursor_col R b d;
     Some (b\<lparr> goal_column := Some col \<rparr>) }"

definition map_selection_through :: "buffer \<Rightarrow> transaction \<Rightarrow> buffer option" where
  "map_selection_through b tx = do {
     sel \<leftarrow> map_selection tx (buf_selection b);
     sync_cursor_to_selection (set_selection b sel) }"

definition finalize_selection :: "buffer \<Rightarrow> selection \<Rightarrow> buffer option" where
  "finalize_selection b new_selection = sync_cursor_to_selection (set_selection b new_selection)"

section \<open>View snapshots\<close>

record view_snapshot =
  vs_cursor :: CharIdx
  vs_selection :: selection
  vs_scroll_line :: nat
  vs_scroll_segment :: nat

definition snapshot_view :: "buffer \<Rightarrow> view_snapshot" where
  "snapshot_view b =
     \<lparr> vs_cursor = cursor b, vs_selection = buf_selection b, vs_scroll_line = scroll_line b,
       vs_scroll_segment = scroll_segment b \<rparr>"

definition restore_view :: "'r rope_ops \<Rightarrow> buffer \<Rightarrow> ('r, 'l) document \<Rightarrow> view_snapshot \<Rightarrow> buffer" where
  "restore_view R b d snapshot =
     ensure_valid_selection R
       (b\<lparr> cursor := vs_cursor snapshot, buf_selection := vs_selection snapshot,
           scroll_line := vs_scroll_line snapshot, scroll_segment := vs_scroll_segment snapshot \<rparr>) d"

section \<open>Editing\<close>

record apply_policy =
  ap_undo :: undo_policy
  ap_syntax :: syntax_policy

definition policy_edit :: apply_policy where
  "policy_edit = \<lparr> ap_undo = Record, ap_syntax = IncrementalOrDirty \<rparr>"

definition policy_insert :: apply_policy where
  "policy_insert = \<lparr> ap_undo = MergeWithCurrentGroup, ap_syntax = IncrementalOrDirty \<rparr>"

definition buf_apply ::
  "'r rope_ops \<Rightarrow> buffer \<Rightarrow> ('r, 'l) document \<Rightarrow> transaction \<Rightarrow> apply_policy \<Rightarrow>
   (('r, 'l) document \<times> commit_result) option" where
  "buf_apply R b d tx policy =
     (if is_readonly b d then Some (d, commit_blocked (doc_version d))
      else commit_unchecked R d
        (with_syntax (with_undo (edit_commit_new tx) (ap_undo policy)) (ap_syntax policy)) (Some (buf_id b)))"

definition prepare_insert ::
  "'r rope_ops \<Rightarrow> buffer \<Rightarrow> ('r, 'l) document \<Rightarrow> utext \<Rightarrow> (buffer \<times> transaction \<times> selection) option" where
  "prepare_insert R b d text = do {
     let b = ensure_valid_selection R b d;
     let insertion_points = transform_mut (buf_selection b) (\<lambda>r. range_point (head r));
     tx \<leftarrow> tx_insert R (doc_content d) insertion_points text;
     new_selection \<leftarrow> map_selection tx (buf_selection b);
     Some (b, tx, new_selection) }"

text \<open>The end that the edit operations share: apply, and on success install the new selection.\<close>

definition apply_and_select ::
  "'r rope_ops \<Rightarrow> buffer \<Rightarrow> ('r, 'l) document \<Rightarrow> transaction \<Rightarrow> selection \<Rightarrow> apply_policy \<Rightarrow>
   (buffer \<times> ('r, 'l) document \<times> bool) option" where
  "apply_and_select R b d tx new_selection policy = do {
     (d', res) \<leftarrow> buf_apply R b d tx policy;
     if cr_applied res then do {
       b' \<leftarrow> sync_cursor_to_selection (set_selection b new_selection);
       Some (b', d', True) }
     else Some (b, d', False) }"

definition insert_text ::
  "'r rope_ops \<Rightarrow> buffer \<Rightarrow> ('r, 'l) document \<Rightarrow> utext \<Rightarrow> (buffer \<times> ('r, 'l) document \<times> transaction) option" where
  "insert_text R b d text = do {
     (b, tx, new_selection) \<leftarrow> prepare_insert R b d text;
     (b, d, _) \<leftarrow> apply_and_select R b d tx new_selection policy_insert;
     Some (b, d, tx) }"

record yank =
  yank_parts :: "utext list"
  yank_total_chars :: nat

fun yank_loop :: "'r rope_ops \<Rightarrow> 'r \<Rightarrow> nat \<Rightarrow> range list \<Rightarrow> utext list \<Rightarrow> nat \<Rightarrow> (utext list \<times> nat) option" where
  "yank_loop R text len [] parts count = Some (parts, count)"
| "yank_loop R text len (r # rest) parts count =
     (let (from, to) = extent_clamped r len in
      if from < to then do {
        fragment \<leftarrow> rp_slice R text from to;
        yank_loop R text len rest (parts @ [fragment]) (count + length fragment) }
      else yank_loop R text len rest parts count)"

definition yank_selection ::
  "'r rope_ops \<Rightarrow> buffer \<Rightarrow> ('r, 'l) document \<Rightarrow> (buffer \<times> yank option) option" where
  "yank_selection R b d = do {
     let b = ensure_valid_selection R b d;
     (parts, count) \<leftarrow> yank_loop R (doc_content d) (rp_len_chars R (doc_content d))
       (sel_ranges (buf_selection b)) [] 0;
     Some (b, if parts = [] then None else Some \<lparr> yank_parts = parts, yank_total_chars = count \<rparr>) }"

definition prepare_paste_after ::
  "(utext \<Rightarrow> nat) \<Rightarrow> 'r rope_ops \<Rightarrow> buffer \<Rightarrow> ('r, 'l) document \<Rightarrow> utext \<Rightarrow>
   (buffer \<times> (transaction \<times> selection) option) option" where
  "prepare_paste_after G R b d text =
     (if text = [] then Some (b, None)
      else do {
        let b = ensure_valid_selection R b d;
        new_ranges \<leftarrow> those (map (\<lambda>r. move_horizontally G R (doc_content d) r Forward 1 False)
          (sel_ranges (buf_selection b)));
        sel \<leftarrow> from_vec new_ranges (primary_index (buf_selection b));
        (b, tx, new_selection) \<leftarrow> prepare_insert R (set_selection b sel) d text;
        Some (b, Some (tx, new_selection)) })"

definition paste_after ::
  "(utext \<Rightarrow> nat) \<Rightarrow> 'r rope_ops \<Rightarrow> buffer \<Rightarrow> ('r, 'l) document \<Rightarrow> utext \<Rightarrow>
   (buffer \<times> ('r, 'l) document \<times> transaction option) option" where
  "paste_after G R b d text = do {
     (b, prep) \<leftarrow> prepare_paste_after G R b d text;
     (case prep of
        None \<Rightarrow> Some (b, d, None)
      | Some (tx, new_selection) \<Rightarrow> do {
          (b, d, applied) \<leftarrow> apply_and_select R b d tx new_selection policy_edit;
          Some (b, d, if applied then Some tx else None) }) }"

definition prepare_paste_before ::
  "'r rope_ops \<Rightarrow> buffer \<Rightarrow> ('r, 'l) document \<Rightarrow> utext \<Rightarrow> (buffer \<times> (transaction \<times> selection) option) option" where
  "prepare_paste_before R b d text =
     (if text = [] then Some (b, None)
      else do {
        let b = ensure_valid_selection R b d;
        (b, tx, new_selection) \<leftarrow> prepare_insert R b d text;
        Some (b, Some (tx, new_selection)) })"

definition paste_before ::
  "'r rope_ops \<Rightarrow> buffer \<Rightarrow> ('r, 'l) document \<Rightarrow> utext \<Rightarrow>
   (buffer \<times> ('r, 'l) document \<times> transaction option) option" where
  "paste_before R b d text = do {
     (b, prep) \<leftarrow> prepare_paste_before R b d text;
     (case prep of
        None \<Rightarrow> Some (b, d, None)
      | Some (tx, new_selection) \<Rightarrow> do {
          (b, d, applied) \<leftarrow> apply_and_select R b d tx new_selection policy_edit;
          Some (b, d, if applied then Some tx else None) }) }"

definition prepare_delete_selection ::
  "'r rope_ops \<Rightarrow> buffer \<Rightarrow> ('r, 'l) document \<Rightarrow> (buffer \<times> transaction \<times> selection) option" where
  "prepare_delete_selection R b d = do {
     let b = ensure_valid_selection R b d;
     tx \<leftarrow> tx_delete R (doc_content d) (buf_selection b);
     new_selection \<leftarrow> map_selection tx (buf_selection b);
     Some (b, tx, new_selection) }"

text \<open>Unlike the other edits, \<open>delete_selection\<close> does not move the cursor to the new selection.\<close>

definition delete_selection ::
  "'r rope_ops \<Rightarrow> buffer \<Rightarrow> ('r, 'l) document \<Rightarrow> (buffer \<times> ('r, 'l) document \<times> transaction option) option" where
  "delete_selection R b d = do {
     (b, tx, new_selection) \<leftarrow> prepare_delete_selection R b d;
     (d, res) \<leftarrow> buf_apply R b d tx policy_edit;
     if cr_applied res then Some (set_selection b new_selection, d, Some tx) else Some (b, d, None) }"

section \<open>Specification predicates\<close>

text \<open>A document whose history is sound and whose counters have room for another edit.\<close>

definition editable :: "'r rope_ops \<Rightarrow> ('r, 'l) document \<Rightarrow> timeline \<Rightarrow> bool" where
  "editable R d tm \<longleftrightarrow> doc_tracks R d tm \<and> head_pos (doc_undo_backend d) < u64_max \<and> doc_version d < u64_max"

text \<open>The selection of a view, clamped to its document.\<close>

definition live_selection :: "'r rope_ops \<Rightarrow> buffer \<Rightarrow> ('r, 'l) document \<Rightarrow> selection" where
  "live_selection R b d = sel_clamp (buf_selection b) (length (doc_text R d))"

definition view_ok :: "'r rope_ops \<Rightarrow> buffer \<Rightarrow> ('r, 'l) document \<Rightarrow> bool" where
  "view_ok R b d \<longleftrightarrow> sel_wf (buf_selection b) \<and> debug_assert_valid_state R b d"

text \<open>An edit of a view: refused when read-only, otherwise the text becomes \<open>t\<close>; the view is
  valid and the document keeps a sound history.\<close>

definition view_edit ::
  "'r rope_ops \<Rightarrow> buffer \<Rightarrow> ('r, 'l) document \<Rightarrow> utext \<Rightarrow> buffer \<Rightarrow> ('r, 'l) document \<Rightarrow> bool" where
  "view_edit R b d t b' d' \<longleftrightarrow>
     view_ok R b' d' \<and> (\<exists>tm. doc_tracks R d' tm) \<and> (if is_readonly b d then d' = d else doc_text R d' = t)"

text \<open>Where \<open>paste_after\<close> inserts: one grapheme after each cursor.\<close>

definition after_cursors :: "(utext \<Rightarrow> nat) \<Rightarrow> 'r rope_ops \<Rightarrow> 'r \<Rightarrow> selection \<Rightarrow> nat set" where
  "after_cursors G R content s = {p. \<exists>r \<in> set (sel_ranges s). next_grapheme_boundary G R content (head r) = Some p}"

text \<open>A view of a two-character document, for the examples.\<close>

definition example_doc :: "(utext, unit) document" where
  "example_doc = doc_new list_rope 0 [97, 98] None"

definition example_view :: buffer where
  "example_view = fst (buffer_new list_rope 1 0 [97, 98] None :: buffer \<times> (utext, unit) document)"

section \<open>Lemmas\<close>

lemma points_stay_points:
  assumes "\<forall>r \<in> set (sel_ranges s). is_point r"
  shows "\<forall>r \<in> set (sel_ranges (sel_normalize s)). is_point r"
proof (cases "length (sel_ranges s) \<le> 1")
  case False
  let ?f = "merge_step overlaps (sel_ranges s ! primary_index s)"
  have "\<forall>r \<in> set (fst (foldl ?f ([], 0) (sort_key range_min (sel_ranges s)))). is_point r"
  proof (rule foldl_invariant, simp)
    fix st :: "range list \<times> nat" and x
    assume st: "\<forall>r \<in> set (fst st). is_point r" and x: "x \<in> set (sort_key range_min (sel_ranges s))"
    then have px: "is_point x" using assms by simp
    have join: "is_point (range_merge m x)" if "is_point m" "overlaps m x" for m
      using that px by (auto simp: is_point_def overlaps_def range_merge_def range_min_def range_max_def range_new_def Let_def)
    show "\<forall>r \<in> set (fst (?f st x)). is_point r"
      using st px join last_in_set [of "fst st"]
      by (auto simp: merge_step_def Let_def split: prod.splits dest: in_set_butlastD)
  qed
  then show ?thesis using False by (simp add: sel_normalize_def merge_ranges_def Let_def split: prod.splits)
qed (use assms in \<open>simp add: sel_normalize_def merge_ranges_short\<close>)

lemma points_covered: "\<forall>r \<in> set rs. is_point r \<Longrightarrow> range_from ` set rs = covered rs"
  by (auto simp: covered_def cells_def is_point_def range_from_def range_min_def range_max_def)

lemma in_bounds_heads: "is_in_bounds s n \<Longrightarrow> r \<in> set (sel_ranges s) \<Longrightarrow> head r \<le> n"
  by (auto simp: is_in_bounds_def list_all_iff split: if_splits)

lemma insertion_points:
  assumes "sel_wf s"
  shows "range_from ` set (sel_ranges (transform_mut s (\<lambda>r. range_point (head r)))) = head ` set (sel_ranges s)"
    and "sel_wf (transform_mut s (\<lambda>r. range_point (head r)))"
    and "is_in_bounds s n \<Longrightarrow> is_in_bounds (transform_mut s (\<lambda>r. range_point (head r))) n"
proof -
  let ?s = "s\<lparr> sel_ranges := map (\<lambda>r. range_point (head r)) (sel_ranges s) \<rparr>"
  have pt: "\<forall>r \<in> set (sel_ranges (sel_normalize ?s)). is_point r"
    by (rule points_stay_points) (auto simp: is_point_def range_point_def range_new_def)
  have cov: "covered (sel_ranges (sel_normalize ?s)) = head ` set (sel_ranges s)"
    using assms by (subst normalize_covered)
      (auto simp: sel_wf_def covered_def cells_def range_point_def range_new_def range_min_def range_max_def)
  show "range_from ` set (sel_ranges (transform_mut s (\<lambda>r. range_point (head r)))) = head ` set (sel_ranges s)"
    using points_covered [OF pt] cov by (simp add: transform_mut_def)
  show wf: "sel_wf (transform_mut s (\<lambda>r. range_point (head r)))" using assms by (rule sel_update_wf)
  show "is_in_bounds (transform_mut s (\<lambda>r. range_point (head r))) n" if "is_in_bounds s n"
    using that cov wf in_bounds_heads [OF that]
    by (auto simp: is_in_bounds_iff transform_mut_def sel_wf_def)
qed

lemma clamp_in_bounds_id:
  assumes "sel_wf s" and "is_in_bounds s n"
  shows "sel_clamp s n = s"
proof -
  have "map (\<lambda>r. range_clamp r n) (sel_ranges s) = sel_ranges s"
    using assms(2) by (intro map_idI) (auto simp: is_in_bounds_def list_all_iff range_clamp_def min_def split: if_splits)
  then show ?thesis by (simp add: sel_clamp_def normalize_wf_id [OF assms(1)])
qed

lemma view_ok_iff:
  "rope_ok R \<Longrightarrow> view_ok R b d \<longleftrightarrow>
     sel_wf (buf_selection b) \<and> is_in_bounds (buf_selection b) (length (doc_text R d)) \<and> cursor b \<le> length (doc_text R d)"
  by (auto simp: view_ok_def debug_assert_valid_state_def doc_text_def rope_len Let_def)

lemma ensure_valid_view:
  assumes "rope_ok R" and "sel_wf (buf_selection b)"
  shows "view_ok R (ensure_valid_selection R b d) d"
    and "buf_selection (ensure_valid_selection R b d) = live_selection R b d"
    and "is_readonly (ensure_valid_selection R b d) d = is_readonly b d"
    and "buf_id (ensure_valid_selection R b d) = buf_id b"
  using assms clamp_in_bounds [OF assms(2)] sel_update_wf(3) [OF assms(2)]
  by (simp_all add: view_ok_def debug_assert_valid_state_def ensure_valid_selection_def live_selection_def doc_text_def
      rope_len is_readonly_def fun_eq_iff Let_def)

lemma view_ok_live:
  "rope_ok R \<Longrightarrow> view_ok R b d \<Longrightarrow> live_selection R b d = buf_selection b \<and> ensure_valid_selection R b d = b"
  using clamp_in_bounds_id
  by (auto simp: view_ok_def debug_assert_valid_state_def live_selection_def doc_text_def rope_len
      ensure_valid_selection_def Let_def min_def)

lemma view_okI:
  assumes "rope_ok R" and "sel_wf s" and "is_in_bounds s (length (doc_text R d))"
  shows "\<exists>b'. sync_cursor_to_selection (set_selection b s) = Some b' \<and> view_ok R b' d"
  using assms sel_primary_Some [OF assms(2)] nth_mem [OF sel_wf_primary [OF assms(2)]]
  by (auto simp: sync_cursor_to_selection_def set_selection_def view_ok_def debug_assert_valid_state_def rope_len
      doc_text_def is_in_bounds_def list_all_iff Let_def split: if_splits)

lemma buf_apply_edit:
  assumes R: "rope_ok R" and d: "editable R d tm" and fits: "tx_fits tx (doc_text R d)" and pol: "ap_undo policy \<noteq> NoUndo"
  obtains d' res where "buf_apply R b d tx policy = Some (d', res)"
    and "\<exists>tm. doc_tracks R d' tm" and "\<not> cr_applied res \<Longrightarrow> d' = d"
    and "is_readonly b d \<Longrightarrow> \<not> cr_applied res"
    and "\<not> is_readonly b d \<Longrightarrow> doc_text R d' = tx_edit tx (doc_text R d)"
    and "cr_applied res \<Longrightarrow> doc_text R d' = tx_edit tx (doc_text R d)"
proof -
  let ?c = "with_syntax (with_undo (edit_commit_new tx) (ap_undo policy)) (ap_syntax policy)"
  have c: "ec_tx ?c = tx" "ec_undo ?c = ap_undo policy"
    by (simp_all add: with_syntax_def with_undo_def edit_commit_new_def)
  consider "is_readonly b d" | "\<not> is_readonly b d" "tx_is_identity tx" | "\<not> is_readonly b d" "\<not> tx_is_identity tx" by blast
  then show thesis
  proof cases
    case 1
    with d show thesis
      by (intro that [of d "commit_blocked (doc_version d)"])
        (auto simp: buf_apply_def commit_blocked_def editable_def)
  next
    case 2
    with d c identity_edit [OF _ fits] show thesis
      by (intro that [of d]) (auto simp: buf_apply_def commit_unchecked_def apply_commit_def editable_def Let_def)
  next
    case 3
    obtain d' new where "apply_commit R d ?c (Some (buf_id b)) =
        Some (d', \<lparr> cr_applied = True, cr_version_before = doc_version d, cr_version_after = doc_version d + 1,
                  cr_selection_after = ec_selection_after ?c, cr_undo_recorded = new \<rparr>)"
        and "doc_text R d' = tx_edit tx (doc_text R d)" and "\<exists>tm. doc_tracks R d' tm"
      using apply_commit_applied [OF R, of d tm ?c "Some (buf_id b)"] d fits pol 3 c by (auto simp: editable_def)
    then show thesis using 3 by (intro that [of d']) (auto simp: buf_apply_def commit_unchecked_def)
  qed
qed

lemma length_tx_edit: "tx_fits tx t \<Longrightarrow> length (tx_edit tx t) = cs_len_after (tx_changes tx)"
  by (simp add: tx_fits_def tx_wf_def cs_wf_def tx_edit_def length_edit_text)

lemma mapped_selection:
  assumes "tx_fits tx t" and "sel_wf s" and "is_in_bounds s (length t)"
  obtains s' where "map_selection tx s = Some s'" and "sel_wf s'" and "is_in_bounds s' (length (tx_edit tx t))"
  using map_selection_sound [of tx s] assms by (auto simp: length_tx_edit [OF assms(1)] tx_fits_def)

lemma apply_and_select_edit:
  assumes R: "rope_ok R" and d: "editable R d tm" and fits: "tx_fits tx (doc_text R d)" and pol: "ap_undo policy \<noteq> NoUndo"
    and b: "view_ok R b d" and s: "sel_wf s" "is_in_bounds s (length (tx_edit tx (doc_text R d)))"
  shows "\<exists>b' d' applied. apply_and_select R b d tx s policy = Some (b', d', applied) \<and>
     view_edit R b d (tx_edit tx (doc_text R d)) b' d'"
proof -
  obtain d' res where d': "buf_apply R b d tx policy = Some (d', res)" "\<exists>tm. doc_tracks R d' tm" "\<not> cr_applied res \<Longrightarrow> d' = d"
    "is_readonly b d \<Longrightarrow> \<not> cr_applied res"
    "\<not> is_readonly b d \<Longrightarrow> doc_text R d' = tx_edit tx (doc_text R d)"
    "cr_applied res \<Longrightarrow> doc_text R d' = tx_edit tx (doc_text R d)"
    by (rule buf_apply_edit [OF R d fits pol, of b]) blast
  show ?thesis
  proof (cases "cr_applied res")
    case True
    then obtain b' where "sync_cursor_to_selection (set_selection b s) = Some b'" "view_ok R b' d'"
      using view_okI [OF R s(1), of d' b] s(2) d'(6) by auto
    with True d' show ?thesis by (auto simp: apply_and_select_def view_edit_def)
  next
    case False
    with d' b show ?thesis by (auto simp: apply_and_select_def view_edit_def)
  qed
qed

lemma prepare_insert_edit:
  assumes R: "rope_ok R" and b: "view_ok R b d"
  obtains tx s where "prepare_insert R b d text = Some (b, tx, s)" and "tx_fits tx (doc_text R d)"
    and "tx_edit tx (doc_text R d) = insert_at (head ` set (sel_ranges (buf_selection b))) text 0 (doc_text R d)"
    and "sel_wf s" and "is_in_bounds s (length (tx_edit tx (doc_text R d)))"
proof -
  let ?s = "buf_selection b" and ?t = "doc_text R d"
  have s: "sel_wf ?s" "is_in_bounds ?s (length ?t)"
    using b by (auto simp: view_ok_iff [OF R])
  note ip = insertion_points [OF s(1)]
  obtain tx where tx: "tx_insert R (doc_content d) (transform_mut ?s (\<lambda>r. range_point (head r))) text = Some tx"
    "tx_fits tx ?t" "tx_edit tx ?t = insert_at (head ` set (sel_ranges ?s)) text 0 ?t"
    using selection_edits [OF R ip(2), of "doc_content d" "text"] ip(3) [OF s(2)] ip(1) by (auto simp: doc_text_def)
  obtain s' where "map_selection tx ?s = Some s'" "sel_wf s'" "is_in_bounds s' (length (tx_edit tx ?t))"
    using mapped_selection [OF tx(2) s] .
  with tx view_ok_live [OF R b] show thesis by (intro that) (auto simp: prepare_insert_def)
qed

lemma prepare_insert_valid:
  "view_ok R (ensure_valid_selection R b d) d \<Longrightarrow> rope_ok R \<Longrightarrow>
   prepare_insert R b d text = prepare_insert R (ensure_valid_selection R b d) d text"
  using view_ok_live [of R "ensure_valid_selection R b d" d] by (simp add: prepare_insert_def)

lemma insert_at_view:
  assumes R: "rope_ok R" and d: "editable R d tm" and b: "view_ok R b d" and pol: "ap_undo policy \<noteq> NoUndo"
  obtains tx s b' d' applied where "prepare_insert R b d text = Some (b, tx, s)"
    and "apply_and_select R b d tx s policy = Some (b', d', applied)"
    and "view_edit R b d (insert_at (head ` set (sel_ranges (buf_selection b))) text 0 (doc_text R d)) b' d'"
proof -
  obtain tx s where p: "prepare_insert R b d text = Some (b, tx, s)" "tx_fits tx (doc_text R d)"
    "tx_edit tx (doc_text R d) = insert_at (head ` set (sel_ranges (buf_selection b))) text 0 (doc_text R d)"
    "sel_wf s" "is_in_bounds s (length (tx_edit tx (doc_text R d)))"
    by (rule prepare_insert_edit [OF R b])
  obtain b' d' applied where "apply_and_select R b d tx s policy = Some (b', d', applied)"
    "view_edit R b d (tx_edit tx (doc_text R d)) b' d'"
    using apply_and_select_edit [OF R d p(2) pol b p(4,5)] by blast
  with p(1) show thesis unfolding p(3) by (rule that)
qed

lemma insert_at_Nil: "insert_at P [] i t = t"
  by (induction t arbitrary: i) auto


lemma ensure_valid_idem:
  assumes "rope_ok R" and "sel_wf (buf_selection b)"
  shows "ensure_valid_selection R (ensure_valid_selection R b d) d = ensure_valid_selection R b d"
  using view_ok_live [OF assms(1) ensure_valid_view(1) [OF assms, of d]] by simp

lemma insert_ops_edit:
  assumes R: "rope_ok R" and d: "editable R d tm" and b: "sel_wf (buf_selection b)"
  shows "\<exists>b' d' tx. insert_text R b d text = Some (b', d', tx) \<and>
      view_edit R b d (insert_at (head ` set (sel_ranges (live_selection R b d))) text 0 (doc_text R d)) b' d'"
    and "text \<noteq> [] \<Longrightarrow> \<exists>b' d' tx. paste_before R b d text = Some (b', d', tx) \<and>
      view_edit R b d (insert_at (head ` set (sel_ranges (live_selection R b d))) text 0 (doc_text R d)) b' d'"
proof -
  let ?b = "ensure_valid_selection R b d"
  note ev = ensure_valid_view [OF R b, of d]
  have ve: "view_edit R ?b d t b' d' = view_edit R b d t b' d'" for t b' d'
    by (simp add: view_edit_def ev)
  note prep = prepare_insert_valid [OF ev(1) R]
  show "\<exists>b' d' tx. insert_text R b d text = Some (b', d', tx) \<and>
      view_edit R b d (insert_at (head ` set (sel_ranges (live_selection R b d))) text 0 (doc_text R d)) b' d'"
    by (rule insert_at_view [OF R d ev(1), of policy_insert "text"])
      (auto simp: insert_text_def prep ve ev(2) policy_insert_def)
  show "\<exists>b' d' tx. paste_before R b d text = Some (b', d', tx) \<and>
      view_edit R b d (insert_at (head ` set (sel_ranges (live_selection R b d))) text 0 (doc_text R d)) b' d'"
    if "text \<noteq> []"
    by (rule insert_at_view [OF R d ev(1), of policy_edit "text"])
      (use that in \<open>auto simp: paste_before_def prepare_paste_before_def ve ev(2) policy_edit_def\<close>)
qed

lemma those_ends:
  assumes "\<forall>r \<in> set rs. ends_in n (f r)"
  shows "\<exists>rs'. those (map f rs) = Some rs' \<and> length rs' = length rs \<and> (\<forall>r \<in> set rs'. anchor r \<le> n \<and> head r \<le> n) \<and>
     set rs' = {r'. \<exists>r \<in> set rs. f r = Some r'}"
  using assms
proof (induction rs)
  case (Cons r rs)
  then show ?case by (force simp: ends_in_def)
qed simp

lemma move_one_forward:
  assumes "rope_ok R" and "head r \<le> length (rp_chars R d)"
  shows "move_horizontally G R d r Forward 1 False = map_option range_point (next_grapheme_boundary G R d (head r))"
  using grapheme_steps(1) [OF assms, of G] assms(1)
  by (auto simp: move_horizontally_def make_range_def max_cursor_pos_def rope_len)

lemma point_heads:
  assumes "\<forall>r \<in> set rs. is_point r"
  shows "covered rs = head ` set rs"
  using assms by (auto simp: covered_def cells_def is_point_def range_min_def range_max_def)

lemma moved_selection:
  assumes R: "rope_ok R" and s: "sel_wf s" "is_in_bounds s (length (rp_chars R c))"
  obtains rs s' where
    "those (map (\<lambda>r. move_horizontally G R c r Forward 1 False) (sel_ranges s)) = Some rs"
    and "from_vec rs (primary_index s) = Some s'" and "sel_wf s'" and "is_in_bounds s' (length (rp_chars R c))"
    and "head ` set (sel_ranges s') = after_cursors G R c s"
proof -
  have "\<forall>r \<in> set (sel_ranges s). ends_in (length (rp_chars R c)) (move_horizontally G R c r Forward 1 False)"
    using s(2) by (intro ballI simple_motions_end(1) [OF R]) (auto simp: is_in_bounds_def list_all_iff split: if_splits)
  then obtain rs where rs: "those (map (\<lambda>r. move_horizontally G R c r Forward 1 False) (sel_ranges s)) = Some rs"
    "length rs = length (sel_ranges s)" "\<forall>r \<in> set rs. anchor r \<le> length (rp_chars R c) \<and> head r \<le> length (rp_chars R c)"
    "set rs = {r'. \<exists>r \<in> set (sel_ranges s). move_horizontally G R c r Forward 1 False = Some r'}"
    using those_ends [of "sel_ranges s" "length (rp_chars R c)" "\<lambda>r. move_horizontally G R c r Forward 1 False"] by blast
  have set_rs: "set rs = range_point ` after_cursors G R c s"
    using rs(4) move_one_forward [OF R in_bounds_heads [OF s(2)], where G = G] by (auto simp: after_cursors_def)
  then have pts: "\<forall>r \<in> set rs. is_point r"
    by (auto simp: range_point_def is_point_def range_new_def)
  have i: "primary_index s < length rs" using s(1) rs(2) by (simp add: sel_wf_def)
  obtain s' where s': "from_vec rs (primary_index s) = Some s'" "sel_wf s'" "covered (sel_ranges s') = covered rs"
    by (rule from_vec_Some [OF i])
  have "\<forall>r \<in> set (sel_ranges s'). is_point r"
    using s'(1) points_stay_points [of "\<lparr> sel_ranges = rs, primary_index = j \<rparr>" for j] pts
    by (auto simp: from_vec_def Let_def split: if_splits)
  then have "head ` set (sel_ranges s') = head ` set rs" using point_heads [OF pts] point_heads s'(3) by metis
  also have "\<dots> = after_cursors G R c s"
    unfolding set_rs by (simp add: image_image range_point_def range_new_def)
  finally have h: "head ` set (sel_ranges s') = after_cursors G R c s" .
  have "is_in_bounds s' (length (rp_chars R c))"
    using s' rs(3) sel_wf_primary [OF s'(2)] point_heads [OF pts] by (auto simp: is_in_bounds_iff)
  with rs(1) s' h show thesis by (intro that)
qed

lemma paste_after_edit:
  assumes R: "rope_ok R" and d: "editable R d tm" and b: "sel_wf (buf_selection b)" and ne: "text \<noteq> []"
  shows "\<exists>b' d' tx. paste_after G R b d text = Some (b', d', tx) \<and>
      view_edit R b d (insert_at (after_cursors G R (doc_content d) (live_selection R b d)) text 0 (doc_text R d)) b' d'"
proof -
  let ?b = "ensure_valid_selection R b d" and ?s = "live_selection R b d" and ?c = "doc_content d"
  note ev = ensure_valid_view [OF R b, of d]
  have s: "sel_wf ?s" "is_in_bounds ?s (length (rp_chars R ?c))"
    using ev(1,2) by (auto simp: view_ok_iff [OF R] doc_text_def)
  obtain rs s' where m: "those (map (\<lambda>r. move_horizontally G R ?c r Forward 1 False) (sel_ranges ?s)) = Some rs"
    "from_vec rs (primary_index ?s) = Some s'" "sel_wf s'" "is_in_bounds s' (length (rp_chars R ?c))"
    "head ` set (sel_ranges s') = after_cursors G R ?c ?s"
    by (rule moved_selection [OF R s])
  let ?b2 = "set_selection ?b s'"
  have b2: "view_ok R ?b2 d" "buf_selection ?b2 = s'" "is_readonly ?b2 d = is_readonly b d"
    using ev(1) m(3,4) R ev(3) by (auto simp: view_ok_iff [OF R] doc_text_def set_selection_def is_readonly_def fun_eq_iff)
  show ?thesis
    by (rule insert_at_view [OF R d b2(1), of policy_edit "text"])
      (use ne m(1,2,5) ev(2) b2(2,3) in \<open>auto simp: paste_after_def prepare_paste_after_def view_edit_def policy_edit_def\<close>)
qed


lemma nths_covered_Cons:
  assumes "separated 0 (r # rs)" and "n = length t" and "\<forall>s \<in> set (r # rs). lst \<le> range_min s \<and> range_max s \<le> n"
  shows "nths (drop lst t) {j. j + lst \<in> covered (r # rs)} =
     take (min (range_to r) n - range_min r) (drop (range_min r) t) @
     nths (drop (min (range_to r) n) t) {j. j + min (range_to r) n \<in> covered rs}"
proof -
  let ?a = "range_min r" and ?b = "min (range_to r) n"
  have ab: "lst \<le> ?a" "?a \<le> ?b" "?b \<le> length t"
    using assms range_min_le_max [of r] by (auto simp: range_to_def simp del: range_min_le_max)
  have later: "range_to r \<le> range_min s" if "s \<in> set rs" for s
    using assms that by (auto simp: separated_def range_to_def)
  have notin: "x \<notin> covered (r # rs)" if "x < ?a" for x
    using that later ab by (fastforce simp: covered_def cells_def range_to_def)
  have "nths (drop lst t) {j. j + lst \<in> covered (r # rs)} =
      nths (take (?a - lst) (drop lst t)) {j. j + lst \<in> covered (r # rs)} @
      nths (take (?b - ?a) (drop ?a t)) {j. j + ?a \<in> covered (r # rs)} @
      nths (drop ?b t) {j. j + ?b \<in> covered (r # rs)}"
    by (rule nths_cut [OF ab])
  also have "nths (take (?a - lst) (drop lst t)) {j. j + lst \<in> covered (r # rs)} = []"
    using notin ab by (intro nths_all_out) (auto simp: less_diff_conv simp del: covered_simps)
  also have "nths (take (?b - ?a) (drop ?a t)) {j. j + ?a \<in> covered (r # rs)} = take (?b - ?a) (drop ?a t)"
    by (rule nths_all) (auto simp: cells_def range_to_def)
  also have "nths (drop ?b t) {j. j + ?b \<in> covered (r # rs)} = nths (drop ?b t) {j. j + ?b \<in> covered rs}"
    by (rule nths_cong_in) (auto simp: cells_def range_to_def min_def assms(2) split: if_splits)
  finally show ?thesis by simp
qed

lemma yank_loop_spec:
  assumes R: "rope_ok R" and "separated 0 rs" and "\<forall>r \<in> set rs. lst \<le> range_min r \<and> range_max r \<le> length (rp_chars R c)"
  shows "\<exists>P. yank_loop R c (length (rp_chars R c)) rs parts count = Some (parts @ P, count + length (concat P)) \<and>
     concat P = nths (drop lst (rp_chars R c)) {j. j + lst \<in> covered rs} \<and> [] \<notin> set P"
  using assms(2,3)
proof (induction rs arbitrary: lst parts count)
  case (Cons r rs)
  let ?t = "rp_chars R c"
  let ?a = "range_min r" and ?b = "min (range_to r) (length ?t)"
  let ?frag = "take (?b - ?a) (drop ?a ?t)"
  have ab: "lst \<le> ?a" "?a \<le> ?b" "?b \<le> length ?t"
    using Cons.prems range_min_le_max [of r] by (auto simp: range_to_def simp del: range_min_le_max)
  have later: "range_to r \<le> range_min s" if "s \<in> set rs" for s
    using Cons.prems that by (auto simp: separated_def range_to_def)
  have ext: "extent_clamped r (length ?t) = (?a, ?b)" using ab by (auto simp: extent_clamped_def range_from_def)
  have IH: "\<exists>P. yank_loop R c (length ?t) rs parts' count' = Some (parts' @ P, count' + length (concat P)) \<and>
      concat P = nths (drop ?b ?t) {j. j + ?b \<in> covered rs} \<and> [] \<notin> set P" for parts' count'
    using Cons.prems later by (intro Cons.IH) (auto simp: separated_def min.coboundedI1)
  have cut: "nths (drop lst ?t) {j. j + lst \<in> covered (r # rs)} = ?frag @ nths (drop ?b ?t) {j. j + ?b \<in> covered rs}"
    using nths_covered_Cons [OF Cons.prems(1), where lst = lst and n = "length ?t" and t = ?t] Cons.prems(2) by simp
  show ?case
  proof (cases "?a < ?b")
    case True
    obtain F where F: "rp_slice R c ?a ?b = Some F" "F \<noteq> []"
      "nths (drop lst ?t) {j. j + lst \<in> covered (r # rs)} = F @ nths (drop ?b ?t) {j. j + ?b \<in> covered rs}"
    proof (rule that)
      show "rp_slice R c ?a ?b = Some ?frag" using ab R by (simp only: rope_slice) simp
      show "?frag \<noteq> []" using True by simp linarith
    qed (rule cut)
    obtain P where P: "yank_loop R c (length ?t) rs (parts @ [F]) (count + length F) =
        Some ((parts @ [F]) @ P, (count + length F) + length (concat P))"
      "concat P = nths (drop ?b ?t) {j. j + ?b \<in> covered rs}" "[] \<notin> set P"
      using IH by blast
    have "yank_loop R c (length ?t) (r # rs) parts count = yank_loop R c (length ?t) rs (parts @ [F]) (count + length F)"
      using True F(1) ext by simp
    with F P show ?thesis by (intro exI [of _ "F # P"]) (simp del: covered_simps)
  next
    case False
    then have "?frag = []" by (simp add: not_less [symmetric] del: min_less_iff_conj)
    with IH [of parts count] False ext cut show ?thesis by (simp del: covered_simps min_less_iff_conj)
  qed
qed (simp add: nths_empty)


lemma yank_delete_edit:
  assumes R: "rope_ok R" and d: "editable R d tm" and b: "sel_wf (buf_selection b)"
  shows "\<exists>b' y. yank_selection R b d = Some (b', y) \<and> view_ok R b' d \<and> buf_selection b' = live_selection R b d \<and>
      (let t = nths (doc_text R d) (covered (sel_ranges (live_selection R b d))) in
       case y of None \<Rightarrow> t = []
       | Some k \<Rightarrow> concat (yank_parts k) = t \<and> yank_total_chars k = length t \<and> [] \<notin> set (yank_parts k) \<and> t \<noteq> [])"
    and "\<exists>b' d' tx. delete_selection R b d = Some (b', d', tx) \<and> sel_wf (buf_selection b') \<and>
      is_in_bounds (buf_selection b') (length (doc_text R d')) \<and> (\<exists>tm. doc_tracks R d' tm) \<and>
      (if is_readonly b d then d' = d
       else doc_text R d' = nths (doc_text R d) (- covered (sel_ranges (live_selection R b d))))"
proof -
  let ?b = "ensure_valid_selection R b d" and ?s = "live_selection R b d" and ?c = "doc_content d" and ?t = "doc_text R d"
  note ev = ensure_valid_view [OF R b, of d]
  have s: "sel_wf ?s" "is_in_bounds ?s (length ?t)" using ev(1,2) by (auto simp: view_ok_iff [OF R])
  obtain P where P: "yank_loop R ?c (length ?t) (sel_ranges ?s) [] 0 = Some (P, length (concat P))"
    "concat P = nths ?t (covered (sel_ranges ?s))" "[] \<notin> set P"
    using yank_loop_spec [OF R, of "sel_ranges ?s" 0 ?c "[]" 0] s in_bounds_mins [OF s(2)]
    by (auto simp: sel_wf_def doc_text_def)
  have "P \<noteq> [] \<Longrightarrow> concat P \<noteq> []" using P(3) by (cases P) auto
  with P ev(1,2) R show "\<exists>b' y. yank_selection R b d = Some (b', y) \<and> view_ok R b' d \<and> buf_selection b' = ?s \<and>
      (let t = nths ?t (covered (sel_ranges ?s)) in
       case y of None \<Rightarrow> t = []
       | Some k \<Rightarrow> concat (yank_parts k) = t \<and> yank_total_chars k = length t \<and> [] \<notin> set (yank_parts k) \<and> t \<noteq> [])"
    by (cases "P = []") (auto simp: yank_selection_def rope_len doc_text_def)
  obtain tx where tx: "tx_delete R ?c ?s = Some tx" "tx_fits tx ?t" "tx_edit tx ?t = nths ?t (- covered (sel_ranges ?s))"
    using selection_edits [OF R s(1), of ?c "[]"] s(2) by (auto simp: doc_text_def)
  obtain s' where s': "map_selection tx ?s = Some s'" "sel_wf s'" "is_in_bounds s' (length (tx_edit tx ?t))"
    by (rule mapped_selection [OF tx(2) s])
  have pol: "ap_undo policy_edit \<noteq> NoUndo" by (simp add: policy_edit_def)
  obtain d' res where d': "buf_apply R ?b d tx policy_edit = Some (d', res)" "\<exists>tm. doc_tracks R d' tm" "\<not> cr_applied res \<Longrightarrow> d' = d"
    "is_readonly ?b d \<Longrightarrow> \<not> cr_applied res"
    "\<not> is_readonly ?b d \<Longrightarrow> doc_text R d' = tx_edit tx ?t" "cr_applied res \<Longrightarrow> doc_text R d' = tx_edit tx ?t"
    by (rule buf_apply_edit [OF R d tx(2) pol, of ?b]) blast
  show "\<exists>b' d' tx. delete_selection R b d = Some (b', d', tx) \<and> sel_wf (buf_selection b') \<and>
      is_in_bounds (buf_selection b') (length (doc_text R d')) \<and> (\<exists>tm. doc_tracks R d' tm) \<and>
      (if is_readonly b d then d' = d else doc_text R d' = nths ?t (- covered (sel_ranges ?s)))"
    using tx s' s d' ev(2,3) by (cases "cr_applied res")
      (auto simp: delete_selection_def prepare_delete_selection_def set_selection_def)
qed

lemma new_buffer_editable:
  "editable list_rope (doc_new list_rope i t p) \<lparr> tl_past = [], tl_future = [], tl_saved = Some t \<rparr>"
  using fresh_tracks [of list_rope t]
  by (simp add: editable_def doc_tracks_def doc_text_def doc_new_def list_rope_def store_set_modified_def store_default_def u64_max_def)

lemma example_view:
  "editable list_rope example_doc \<lparr> tl_past = [], tl_future = [], tl_saved = Some [97, 98] \<rparr>"
  "sel_wf (buf_selection example_view)" "live_selection list_rope example_view example_doc = sel_point 0"
  "\<not> is_readonly example_view example_doc" "doc_text list_rope example_doc = [97, 98]"
  unfolding example_doc_def using new_buffer_editable
  by (simp_all add: example_view_def live_selection_def buffer_new_def Let_def sel_clamp_def sel_normalize_def merge_ranges_def
      sel_point_def sel_single_def range_new_def range_clamp_def is_readonly_def doc_new_def doc_text_def list_rope_def sel_wf_def)

section \<open>Properties\<close>

text \<open>
  Typing and pasting edit exactly at the cursors. For every view with a well-formed selection,
  even one left out of bounds by edits made through another view, and every document with a sound
  history: \<open>insert_text\<close>, \<open>paste_before\<close> and \<open>paste_after\<close> return; unless the view or
  the document is read-only the new text is the old one with the given text inserted once at each distinct
  cursor position (one grapheme further for \<open>paste_after\<close>); a read-only view leaves the document
  untouched; and afterwards selection and cursor satisfy \<open>debug_assert_valid_state\<close>.
\<close>

theorem cursor_insertions_correct:
  assumes "rope_ok R" and "editable R d tm" and "sel_wf (buf_selection b)" and "s \<noteq> []"
  shows "(\<exists>b' d' tx. insert_text R b d s = Some (b', d', tx) \<and>
       view_edit R b d (insert_at (head ` set (sel_ranges (live_selection R b d))) s 0 (doc_text R d)) b' d') \<and>
    (\<exists>b' d' tx. paste_before R b d s = Some (b', d', tx) \<and>
       view_edit R b d (insert_at (head ` set (sel_ranges (live_selection R b d))) s 0 (doc_text R d)) b' d') \<and>
    (\<exists>b' d' tx. paste_after G R b d s = Some (b', d', tx) \<and>
       view_edit R b d (insert_at (after_cursors G R (doc_content d) (live_selection R b d)) s 0 (doc_text R d)) b' d')"
  using insert_ops_edit [OF assms(1-3)] paste_after_edit [OF assms] assms(4) by blast

theorem cursor_insertions_correct_witness:
  "\<exists>b d tx. insert_text list_rope example_view example_doc [120] = Some (b, d, tx) \<and> doc_text list_rope d = [120, 97, 98]"
  using cursor_insertions_correct [OF list_rope_ok example_view(1,2), of "[120]" "\<lambda>_. 1"] example_view
  by (auto simp: view_edit_def sel_point_def sel_single_def range_new_def)

text \<open>
  Yanking and deleting are complementary. From any view with a well-formed selection,
  \<open>yank_selection\<close> returns the selected characters of the document in order, in non-empty parts whose total
  length it reports, or nothing when no character is selected; \<open>delete_selection\<close> returns, removes
  exactly these characters (or nothing when read-only) and leaves a selection inside the document.
\<close>

theorem yank_delete_correct:
  assumes "rope_ok R" and "editable R d tm" and "sel_wf (buf_selection b)"
  shows "(\<exists>b' y. yank_selection R b d = Some (b', y) \<and> view_ok R b' d \<and>
      (let t = nths (doc_text R d) (covered (sel_ranges (live_selection R b d))) in
       case y of None \<Rightarrow> t = []
       | Some k \<Rightarrow> concat (yank_parts k) = t \<and> yank_total_chars k = length t \<and> [] \<notin> set (yank_parts k) \<and> t \<noteq> [])) \<and>
    (\<exists>b' d' tx. delete_selection R b d = Some (b', d', tx) \<and> sel_wf (buf_selection b') \<and>
      is_in_bounds (buf_selection b') (length (doc_text R d')) \<and> (\<exists>tm. doc_tracks R d' tm) \<and>
      (if is_readonly b d then d' = d
       else doc_text R d' = nths (doc_text R d) (- covered (sel_ranges (live_selection R b d)))))"
  using yank_delete_edit [OF assms] by blast

theorem yank_delete_correct_witness:
  "\<exists>b d tx. delete_selection list_rope example_view example_doc = Some (b, d, tx) \<and> doc_text list_rope d = [98]"
  using yank_delete_correct [OF list_rope_ok example_view(1,2)] example_view
  by (auto simp: sel_point_def sel_single_def range_new_def cells_def range_min_def range_max_def nths_Cons)

text \<open>\<open>delete_selection\<close> keeps the old cursor, which may lie behind the end of the shortened text.\<close>

lemma delete_selection_cursor:
  assumes "delete_selection R b d = Some (b', d', tx)" and "rope_ok R"
  shows "cursor b' = min (cursor b) (length (doc_text R d))"
  using assms
  by (auto simp: delete_selection_def prepare_delete_selection_def ensure_valid_selection_def set_selection_def rope_len
      doc_text_def Let_def map_option_bind_Some split: if_splits prod.splits)

lemma delete_selection_stale_cursor:
  "\<exists>b d tx. delete_selection list_rope (set_cursor_and_selection example_view 2 (sel_single 0 2)) example_doc = Some (b, d, tx) \<and>
     doc_text list_rope d = [] \<and> \<not> debug_assert_valid_state list_rope b d"
proof -
  let ?b = "set_cursor_and_selection example_view 2 (sel_single 0 2)"
  have "sel_wf (buf_selection ?b)" "\<not> is_readonly ?b example_doc" "cursor ?b = 2"
    using example_view(4) by (simp_all add: set_cursor_and_selection_def is_readonly_def sel_wf_def sel_single_def)
  moreover have "live_selection list_rope ?b example_doc = sel_single 0 2"
    using example_view(5) by (simp add: live_selection_def set_cursor_and_selection_def sel_clamp_def sel_normalize_def
        merge_ranges_def sel_single_def range_new_def range_clamp_def)
  moreover have "nths [97, 98] (- covered (sel_ranges (sel_single 0 2))) = []"
    by (simp add: sel_single_def range_new_def cells_def range_min_def range_max_def nths_Cons)
  ultimately obtain b d tx where "delete_selection list_rope ?b example_doc = Some (b, d, tx)" "doc_text list_rope d = []"
    using yank_delete_edit(2) [OF list_rope_ok example_view(1), of ?b] example_view(5) by auto
  with delete_selection_cursor [OF this(1) list_rope_ok] example_view(5) \<open>cursor ?b = 2\<close> show ?thesis
    by (force simp: debug_assert_valid_state_def doc_text_def rope_len Let_def)
qed

end
