(* ===== verification/View_Manager.thy ===== *)
theory View_Manager
  imports Buffers "HOL-Library.AList"
begin

text \<open>
  The view manager, \<open>crates/editor/src/view_manager/mod.rs\<close>. It owns the buffers and keeps a reverse
  index from documents to the views that show them.

  The hash map of buffers is a list of pairs in its iteration order; no theorem depends on that order.
  The documents behind the \<open>Arc\<close> handles of the buffers are an explicit store, so that buffers with
  the same document id share one document. The identifier a new document draws from the global counter
  is an argument of the operations that create one. The input handler of a buffer is not modelled, so
  \<open>initial_mode\<close> is not either.

  The invariant \<open>vm_ok\<close> says that the index lists for each document exactly its views, each once,
  that buffers are stored under their own identifier, below the next free one, and that handles do not
  dangle. All operations keep it.
\<close>

section \<open>State\<close>

record ('r, 'l) view_manager =
  vm_buffers :: "(view_id \<times> buffer) list"
  vm_docs :: "nat \<rightharpoonup> ('r, 'l) document"
  doc_to_views :: "nat \<rightharpoonup> view_id list"
  next_buffer_id :: nat

section \<open>The reverse index\<close>

definition index_add :: "nat \<Rightarrow> view_id \<Rightarrow> ('r, 'l) view_manager \<Rightarrow> ('r, 'l) view_manager" where
  "index_add doc view vm =
     vm\<lparr> doc_to_views := (doc_to_views vm)(doc \<mapsto> (case doc_to_views vm doc of None \<Rightarrow> [] | Some vs \<Rightarrow> vs) @ [view]) \<rparr>"

definition index_remove :: "nat \<Rightarrow> view_id \<Rightarrow> ('r, 'l) view_manager \<Rightarrow> ('r, 'l) view_manager" where
  "index_remove doc view vm =
     (case doc_to_views vm doc of
        None \<Rightarrow> vm
      | Some vs \<Rightarrow>
          (let vs' = filter (\<lambda>v. v \<noteq> view) vs in
           vm\<lparr> doc_to_views := (doc_to_views vm)(doc := if vs' = [] then None else Some vs') \<rparr>))"

section \<open>Operations\<close>

definition get_buffer :: "('r, 'l) view_manager \<Rightarrow> view_id \<Rightarrow> buffer option" where
  "get_buffer vm v = map_of (vm_buffers vm) v"

definition buffer_ids :: "('r, 'l) view_manager \<Rightarrow> view_id list" where
  "buffer_ids vm = map fst (vm_buffers vm)"

definition vm_new ::
  "'r rope_ops \<Rightarrow> 'l language_loader \<Rightarrow> nat \<Rightarrow> utext \<Rightarrow> utext option \<Rightarrow> ('r, 'l) view_manager" where
  "vm_new R loader doc content path =
     (let (b, d) = buffer_new R 1 doc content path; d = init_syntax loader d in
      \<lparr> vm_buffers = [(1, b)], vm_docs = [buf_document_id b \<mapsto> d],
        doc_to_views = [buf_document_id b \<mapsto> [1]], next_buffer_id = 2 \<rparr>)"

definition with_buffer :: "buffer \<Rightarrow> ('r, 'l) document \<Rightarrow> ('r, 'l) view_manager option" where
  "with_buffer b d = do {
     n \<leftarrow> checked_add64 (buf_id b) 1;
     Some \<lparr> vm_buffers = [(buf_id b, b)], vm_docs = [buf_document_id b \<mapsto> d],
            doc_to_views = [buf_document_id b \<mapsto> [buf_id b]], next_buffer_id = n \<rparr> }"

definition take_buffer_id :: "('r, 'l) view_manager \<Rightarrow> (nat \<times> ('r, 'l) view_manager) option" where
  "take_buffer_id vm = do {
     n \<leftarrow> checked_add64 (next_buffer_id vm) 1;
     Some (next_buffer_id vm, vm\<lparr> next_buffer_id := n \<rparr>) }"

text \<open>\<open>gutter\<close> is the width of the gutter columns of the registry for a number of lines and a viewport
  width. Subtraction on \<open>u16\<close> saturates.\<close>

definition create_buffer ::
  "'r rope_ops \<Rightarrow> 'l language_loader \<Rightarrow> (nat \<Rightarrow> nat \<Rightarrow> nat) \<Rightarrow> nat \<Rightarrow> utext \<Rightarrow> utext option \<Rightarrow> nat option \<Rightarrow>
   ('r, 'l) view_manager \<Rightarrow> (view_id \<times> ('r, 'l) view_manager) option" where
  "create_buffer R loader gutter doc content path window_width vm = do {
     (v, vm) \<leftarrow> take_buffer_id vm;
     let (b, d) = buffer_new R v doc content path;
     let d = init_syntax loader d;
     let b = (case window_width of
         None \<Rightarrow> b
       | Some w \<Rightarrow> b\<lparr> text_width := w - gutter (rp_len_lines R (doc_content d)) (text_width b) \<rparr>);
     let vm = vm\<lparr> vm_buffers := AList.update v b (vm_buffers vm), vm_docs := (vm_docs vm)(doc \<mapsto> d) \<rparr>;
     Some (v, index_add (buf_document_id b) v vm) }"

definition create_scratch ::
  "'r rope_ops \<Rightarrow> nat \<Rightarrow> ('r, 'l) view_manager \<Rightarrow> (view_id \<times> ('r, 'l) view_manager) option" where
  "create_scratch R doc vm = do {
     (v, vm) \<leftarrow> take_buffer_id vm;
     let (b, d) = buffer_new R v doc [] None;
     let vm = vm\<lparr> vm_buffers := AList.update v b (vm_buffers vm), vm_docs := (vm_docs vm)(doc \<mapsto> d) \<rparr>;
     Some (v, index_add (buf_document_id b) v vm) }"

text \<open>The outer option is a panic of the counter, the inner one the \<open>Option\<close> of the code.\<close>

definition clone_buffer_for_split ::
  "view_id \<Rightarrow> ('r, 'l) view_manager \<Rightarrow> (view_id option \<times> ('r, 'l) view_manager) option" where
  "clone_buffer_for_split source vm =
     (case get_buffer vm source of
        None \<Rightarrow> Some (None, vm)
      | Some sb \<Rightarrow> do {
          (v, vm) \<leftarrow> take_buffer_id vm;
          let b = clone_for_split sb v;
          let vm = vm\<lparr> vm_buffers := AList.update v b (vm_buffers vm) \<rparr>;
          Some (Some v, index_add (buf_document_id b) v vm) })"

definition insert_buffer :: "view_id \<Rightarrow> buffer \<Rightarrow> ('r, 'l) view_manager \<Rightarrow> ('r, 'l) view_manager" where
  "insert_buffer v b vm = index_add (buf_document_id b) v (vm\<lparr> vm_buffers := AList.update v b (vm_buffers vm) \<rparr>)"

definition replace_buffer :: "view_id \<Rightarrow> buffer \<Rightarrow> ('r, 'l) view_manager \<Rightarrow> buffer option \<times> ('r, 'l) view_manager" where
  "replace_buffer v b vm =
     (let old = get_buffer vm v;
          vm = vm\<lparr> vm_buffers := AList.update v b (vm_buffers vm) \<rparr> in
      (old,
       case old of
         Some ob \<Rightarrow>
           if buf_document_id ob \<noteq> buf_document_id b
           then index_add (buf_document_id b) v (index_remove (buf_document_id ob) v vm) else vm
       | None \<Rightarrow> index_add (buf_document_id b) v vm))"

definition remove_buffer_raw :: "view_id \<Rightarrow> ('r, 'l) view_manager \<Rightarrow> buffer option \<times> ('r, 'l) view_manager" where
  "remove_buffer_raw v vm =
     (let removed = get_buffer vm v;
          vm = vm\<lparr> vm_buffers := AList.delete v (vm_buffers vm) \<rparr> in
      (removed, case removed of Some b \<Rightarrow> index_remove (buf_document_id b) v vm | None \<Rightarrow> vm))"

definition find_by_path :: "utext \<Rightarrow> ('r, 'l) view_manager \<Rightarrow> view_id option" where
  "find_by_path path vm =
     map_option buf_id
       (find (\<lambda>b. Option.bind (vm_docs vm (buf_document_id b)) doc_path = Some path) (map snd (vm_buffers vm)))"

definition any_buffer_for_doc :: "('r, 'l) view_manager \<Rightarrow> nat \<Rightarrow> view_id option" where
  "any_buffer_for_doc vm doc =
     (case doc_to_views vm doc of None \<Rightarrow> None | Some vs \<Rightarrow> (case vs of [] \<Rightarrow> None | v # _ \<Rightarrow> Some v))"

definition views_for_doc :: "('r, 'l) view_manager \<Rightarrow> nat \<Rightarrow> view_id list" where
  "views_for_doc vm doc = (case doc_to_views vm doc of None \<Rightarrow> [] | Some vs \<Rightarrow> vs)"

section \<open>Specification predicates\<close>

definition views_of :: "('r, 'l) view_manager \<Rightarrow> nat \<Rightarrow> view_id set" where
  "views_of vm doc = {v. \<exists>b. get_buffer vm v = Some b \<and> buf_document_id b = doc}"

definition buffers_ok :: "('r, 'l) view_manager \<Rightarrow> bool" where
  "buffers_ok vm \<longleftrightarrow>
     distinct (buffer_ids vm) \<and>
     (\<forall>v b. get_buffer vm v = Some b \<longrightarrow> buf_id b = v \<and> v < next_buffer_id vm \<and> buf_document_id b \<in> dom (vm_docs vm))"

definition index_ok :: "('r, 'l) view_manager \<Rightarrow> bool" where
  "index_ok vm \<longleftrightarrow>
     (\<forall>doc. distinct (views_for_doc vm doc) \<and> set (views_for_doc vm doc) = views_of vm doc \<and> doc_to_views vm doc \<noteq> Some [])"

definition vm_ok :: "('r, 'l) view_manager \<Rightarrow> bool" where
  "vm_ok vm \<longleftrightarrow> buffers_ok vm \<and> index_ok vm \<and> (\<forall>i d. vm_docs vm i = Some d \<longrightarrow> doc_id d = i)"

text \<open>
  The ways the editor changes its views: opening a file or a scratch buffer, splitting (through
  \<open>clone_buffer_for_split\<close> or, as \<open>allocate_split_buffer\<close> does, through \<open>insert_buffer\<close>),
  pointing a view at another open document or at a newly loaded one, and closing a view.
\<close>

inductive vm_step :: "'r rope_ops \<Rightarrow> ('r, 'l) view_manager \<Rightarrow> ('r, 'l) view_manager \<Rightarrow> bool" for R where
  vm_step_create: "doc \<notin> dom (vm_docs vm) \<Longrightarrow> create_buffer R loader gutter doc content path width vm = Some (v, vm') \<Longrightarrow>
     vm_step R vm vm'"
| vm_step_scratch: "doc \<notin> dom (vm_docs vm) \<Longrightarrow> create_scratch R doc vm = Some (v, vm') \<Longrightarrow> vm_step R vm vm'"
| vm_step_split: "clone_buffer_for_split source vm = Some (r, vm') \<Longrightarrow> vm_step R vm vm'"
| vm_step_take_insert: "take_buffer_id vm = Some (v, vm1) \<Longrightarrow> get_buffer vm source = Some b \<Longrightarrow>
     vm' = insert_buffer v (clone_for_split b v) vm1 \<Longrightarrow> vm_step R vm vm'"
| vm_step_replace: "get_buffer vm v = Some old \<Longrightarrow> get_buffer vm source = Some b \<Longrightarrow>
     vm' = snd (replace_buffer v (clone_for_split b v) vm) \<Longrightarrow> vm_step R vm vm'"
| vm_step_replace_new: "get_buffer vm v = Some old \<Longrightarrow> doc \<notin> dom (vm_docs vm) \<Longrightarrow>
     (b, d) = buffer_new R v doc content path \<Longrightarrow>
     vm' = snd (replace_buffer v b (vm\<lparr> vm_docs := (vm_docs vm)(doc \<mapsto> d) \<rparr>)) \<Longrightarrow> vm_step R vm vm'"
| vm_step_remove: "vm' = snd (remove_buffer_raw v vm) \<Longrightarrow> vm_step R vm vm'"

inductive vm_reach :: "'r rope_ops \<Rightarrow> ('r, 'l) view_manager \<Rightarrow> bool" for R where
  vm_reach_new: "vm_reach R (vm_new R loader doc content path)"
| vm_reach_step: "vm_reach R vm \<Longrightarrow> vm_step R vm vm' \<Longrightarrow> vm_reach R vm'"

text \<open>A loader that knows no language, for the examples.\<close>

definition no_languages :: "unit language_loader" where
  "no_languages = \<lparr> language_for_path = \<lambda>_. None, language_for_name = \<lambda>_. None, language_name = \<lambda>_. None \<rparr>"

text \<open>Creating a buffer stores a new document and inserts a view of it.\<close>

definition creates :: "'r rope_ops \<Rightarrow> ('r, 'l) view_manager \<Rightarrow> nat \<Rightarrow> utext \<Rightarrow> view_id \<Rightarrow> ('r, 'l) view_manager \<Rightarrow> bool" where
  "creates R vm doc content v vm' \<longleftrightarrow>
     (\<exists>vm1 b d. take_buffer_id vm = Some (v, vm1) \<and> buf_id b = v \<and> buf_document_id b = doc \<and> doc_id d = doc \<and>
        doc_content d = rp_from R content \<and> doc_undo_backend d = store_set_modified store_default False \<and>
        buf_selection b = sel_point 0 \<and> cursor b = 0 \<and>
        vm' = insert_buffer v b (vm1\<lparr> vm_docs := (vm_docs vm1)(doc \<mapsto> d) \<rparr>))"

section \<open>Lemmas\<close>

lemma get_buffer_simps [simp]:
  "get_buffer (vm\<lparr> vm_buffers := AList.update v b (vm_buffers vm) \<rparr>) w = (if w = v then Some b else get_buffer vm w)"
  "get_buffer (vm\<lparr> vm_buffers := AList.delete v (vm_buffers vm) \<rparr>) w = (if w = v then None else get_buffer vm w)"
  "get_buffer (vm\<lparr> vm_docs := ds \<rparr>) w = get_buffer vm w"
  "get_buffer (vm\<lparr> next_buffer_id := n \<rparr>) w = get_buffer vm w"
  "get_buffer (index_add doc u vm) w = get_buffer vm w"
  "get_buffer (index_remove doc u vm) w = get_buffer vm w"
  by (auto simp: get_buffer_def update_conv' delete_conv' index_add_def index_remove_def Let_def restrict_map_def split: option.splits)

lemma index_frame [simp]:
  "vm_docs (index_add doc u vm) = vm_docs vm" "next_buffer_id (index_add doc u vm) = next_buffer_id vm"
  "buffer_ids (index_add doc u vm) = buffer_ids vm"
  "vm_docs (index_remove doc u vm) = vm_docs vm" "next_buffer_id (index_remove doc u vm) = next_buffer_id vm"
  "buffer_ids (index_remove doc u vm) = buffer_ids vm"
  "buffer_ids (vm\<lparr> vm_docs := ds \<rparr>) = buffer_ids vm" "buffer_ids (vm\<lparr> next_buffer_id := n \<rparr>) = buffer_ids vm"
  by (auto simp: index_add_def index_remove_def buffer_ids_def Let_def split: option.splits)

lemma views_for_doc_simps [simp]:
  "views_for_doc (index_add doc v vm) = (views_for_doc vm)(doc := views_for_doc vm doc @ [v])"
  "views_for_doc (index_remove doc v vm) = (views_for_doc vm)(doc := filter (\<lambda>w. w \<noteq> v) (views_for_doc vm doc))"
  "views_for_doc (vm\<lparr> vm_buffers := bs \<rparr>) = views_for_doc vm" "views_for_doc (vm\<lparr> vm_docs := ds \<rparr>) = views_for_doc vm"
  "views_for_doc (vm\<lparr> next_buffer_id := n \<rparr>) = views_for_doc vm"
  by (auto simp: index_add_def index_remove_def views_for_doc_def fun_eq_iff Let_def split: option.splits)

lemma doc_to_views_nonempty [simp]:
  "doc_to_views (index_add doc v vm) i \<noteq> Some [] \<longleftrightarrow> i = doc \<or> doc_to_views vm i \<noteq> Some []"
  "doc_to_views vm i \<noteq> Some [] \<Longrightarrow> doc_to_views (index_remove doc v vm) i \<noteq> Some []"
  by (auto simp: index_add_def index_remove_def Let_def split: option.splits if_splits)

lemma update_ids_distinct:
  "distinct (buffer_ids vm) \<Longrightarrow> distinct (buffer_ids (vm\<lparr> vm_buffers := AList.update v b (vm_buffers vm) \<rparr>))"
  "distinct (buffer_ids vm) \<Longrightarrow> distinct (buffer_ids (vm\<lparr> vm_buffers := AList.delete v (vm_buffers vm) \<rparr>))"
  by (simp_all add: buffer_ids_def distinct_update distinct_delete)

lemma vm_okD:
  assumes "vm_ok vm" and "get_buffer vm v = Some b"
  shows "buf_id b = v" "v < next_buffer_id vm" "buf_document_id b \<in> dom (vm_docs vm)"
  using assms by (auto simp: vm_ok_def buffers_ok_def)

lemma insert_buffer_ok:
  assumes "vm_ok vm" and "get_buffer vm v = None" and "buf_id b = v" and "v < next_buffer_id vm"
    and "buf_document_id b \<in> dom (vm_docs vm)"
  shows "vm_ok (insert_buffer v b vm)"
proof -
  have v: "v \<notin> views_of vm doc" for doc using assms(2) by (simp add: views_of_def)
  have "views_of (insert_buffer v b vm) doc = (if doc = buf_document_id b then insert v (views_of vm doc) else views_of vm doc)" for doc
    using assms(2) by (auto simp: views_of_def insert_buffer_def)
  with v assms show ?thesis
    by (auto simp: vm_ok_def buffers_ok_def index_ok_def insert_buffer_def update_ids_distinct)
qed

lemma add_doc_ok: "vm_ok vm \<Longrightarrow> doc_id d = i \<Longrightarrow> vm_ok (vm\<lparr> vm_docs := (vm_docs vm)(i \<mapsto> d) \<rparr>)"
  by (auto simp: vm_ok_def buffers_ok_def index_ok_def views_of_def)

lemma take_buffer_id_ok:
  assumes "vm_ok vm" and "take_buffer_id vm = Some (v, vm')"
  shows "vm_ok vm'" "get_buffer vm' = get_buffer vm" "get_buffer vm v = None" "v < next_buffer_id vm'" "vm_docs vm' = vm_docs vm"
proof -
  have "vm' = vm\<lparr> next_buffer_id := v + 1 \<rparr>" and v: "v = next_buffer_id vm"
    using assms(2) by (auto simp: take_buffer_id_def map_option_bind_Some dest!: checkedD)
  with assms(1) show "vm_ok vm'" "get_buffer vm' = get_buffer vm" "v < next_buffer_id vm'" "vm_docs vm' = vm_docs vm"
    by (auto simp: vm_ok_def buffers_ok_def index_ok_def views_of_def fun_eq_iff less_Suc_eq)
  show "get_buffer vm v = None" using assms(1) v vm_okD(2) [of vm v] by fastforce
qed

lemma insert_new_doc:
  "insert_buffer v b (vm\<lparr> vm_docs := ds \<rparr>) =
     index_add (buf_document_id b) v (vm\<lparr> vm_buffers := AList.update v b (vm_buffers vm), vm_docs := ds \<rparr>)"
  by (cases vm) (simp add: insert_buffer_def)

lemma init_syntax_frame [simp]:
  "doc_id (init_syntax loader d) = doc_id d" "doc_content (init_syntax loader d) = doc_content d"
  "doc_version (init_syntax loader d) = doc_version d" "doc_undo_backend (init_syntax loader d) = doc_undo_backend d"
  by (simp_all add: init_syntax_def Let_def split: option.splits)

lemma create_buffer_creates:
  assumes "create_buffer R loader gutter doc content path width vm = Some (v, vm')"
  shows "creates R vm doc content v vm'"
proof -
  obtain vm1 where vm1: "take_buffer_id vm = Some (v, vm1)"
    using assms by (auto simp: create_buffer_def map_option_bind_Some Let_def case_prod_beta)
  let ?b = "fst (buffer_new R v doc content path :: buffer \<times> ('a, 'b) document)"
  let ?d = "init_syntax loader (snd (buffer_new R v doc content path))"
  let ?b' = "case width of None \<Rightarrow> ?b | Some w \<Rightarrow> ?b\<lparr> text_width := w - gutter (rp_len_lines R (doc_content ?d)) (text_width ?b) \<rparr>"
  have b: "buf_id ?b' = v" "buf_document_id ?b' = doc" "doc_id ?d = doc" "doc_content ?d = rp_from R content"
    "doc_undo_backend ?d = store_set_modified store_default False" "buf_selection ?b' = sel_point 0" "cursor ?b' = 0"
    by (simp_all add: buffer_new_def doc_new_def Let_def split: option.splits)
  moreover have "vm' = insert_buffer v ?b' (vm1\<lparr> vm_docs := (vm_docs vm1)(doc \<mapsto> ?d) \<rparr>)"
    using assms vm1 b by (cases width) (simp_all add: create_buffer_def insert_new_doc Let_def case_prod_beta)
  ultimately show ?thesis using vm1 unfolding creates_def by blast
qed

lemma create_scratch_creates:
  assumes "create_scratch R doc vm = Some (v, vm')"
  shows "creates R vm doc [] v vm'"
proof -
  obtain vm1 where vm1: "take_buffer_id vm = Some (v, vm1)"
    using assms by (auto simp: create_scratch_def map_option_bind_Some Let_def case_prod_beta)
  let ?b = "fst (buffer_new R v doc [] None :: buffer \<times> ('a, 'b) document)"
  let ?d = "snd (buffer_new R v doc [] None) :: ('a, 'b) document"
  have b: "buf_id ?b = v" "buf_document_id ?b = doc" "doc_id ?d = doc" "doc_content ?d = rp_from R []"
    "doc_undo_backend ?d = store_set_modified store_default False" "buf_selection ?b = sel_point 0" "cursor ?b = 0"
    by (simp_all add: buffer_new_def doc_new_def Let_def)
  moreover have "vm' = insert_buffer v ?b (vm1\<lparr> vm_docs := (vm_docs vm1)(doc \<mapsto> ?d) \<rparr>)"
    using assms vm1 b by (simp add: create_scratch_def insert_new_doc Let_def case_prod_beta)
  ultimately show ?thesis using vm1 unfolding creates_def by blast
qed

lemma creates_ok:
  assumes ok: "vm_ok vm" and "creates R vm doc content v vm'"
  shows "vm_ok vm'"
proof -
  obtain vm1 b d where c: "take_buffer_id vm = Some (v, vm1)" "buf_id b = v" "buf_document_id b = doc" "doc_id d = doc"
    "vm' = insert_buffer v b (vm1\<lparr> vm_docs := (vm_docs vm1)(doc \<mapsto> d) \<rparr>)"
    using assms(2) unfolding creates_def by blast
  note t = take_buffer_id_ok [OF ok c(1)]
  show ?thesis unfolding c(5) by (rule insert_buffer_ok) (use t c add_doc_ok [OF t(1) c(4)] in simp_all)
qed

lemma replace_buffer_ok:
  assumes ok: "vm_ok vm" and v: "get_buffer vm v = Some old" and b: "buf_id b = v" "buf_document_id b \<in> dom (vm_docs vm)"
  shows "vm_ok (snd (replace_buffer v b vm))"
proof -
  let ?new = "snd (replace_buffer v b vm)"
  have get: "get_buffer ?new w = (if w = v then Some b else get_buffer vm w)" for w
    by (simp add: replace_buffer_def Let_def v)
  have views: "views_of ?new doc =
      (if doc = buf_document_id b then insert v (views_of vm doc) else views_of vm doc - {v})" for doc
    by (auto simp: views_of_def get)
  have old: "v \<in> views_of vm doc \<longleftrightarrow> doc = buf_document_id old" for doc by (auto simp: views_of_def v)
  show ?thesis
  proof (cases "buf_document_id old = buf_document_id b")
    case True
    then have new: "?new = vm\<lparr> vm_buffers := AList.update v b (vm_buffers vm) \<rparr>"
      by (simp add: replace_buffer_def v Let_def)
    have "views_of ?new doc = views_of vm doc" for doc using views [of doc] old [of doc] True by auto
    with ok get b vm_okD(2) [OF ok v] show ?thesis unfolding new
      by (auto simp: vm_ok_def buffers_ok_def index_ok_def update_ids_distinct)
  next
    case False
    then have new: "?new = index_add (buf_document_id b) v
        (index_remove (buf_document_id old) v (vm\<lparr> vm_buffers := AList.update v b (vm_buffers vm) \<rparr>))"
      by (simp add: replace_buffer_def v Let_def)
    have "views_of ?new doc = (if doc = buf_document_id b then insert v (views_of vm doc)
        else if doc = buf_document_id old then views_of vm doc - {v} else views_of vm doc)" for doc
      using views [of doc] old [of doc] by auto
    then have "index_ok ?new" using ok old False unfolding new
      by (auto simp: vm_ok_def index_ok_def)
    then show ?thesis using ok get b vm_okD(2) [OF ok v] unfolding new
      by (auto simp: vm_ok_def buffers_ok_def update_ids_distinct)
  qed
qed

lemma remove_buffer_ok:
  assumes ok: "vm_ok vm"
  shows "vm_ok (snd (remove_buffer_raw v vm))"
proof (cases "get_buffer vm v")
  case None
  then have "snd (remove_buffer_raw v vm) = vm"
    using delete_id [of v "vm_buffers vm"] by (simp add: remove_buffer_raw_def Let_def get_buffer_def map_of_eq_None_iff [symmetric])
  with ok show ?thesis by simp
next
  case (Some b)
  let ?new = "snd (remove_buffer_raw v vm)"
  have new: "?new = index_remove (buf_document_id b) v (vm\<lparr> vm_buffers := AList.delete v (vm_buffers vm) \<rparr>)"
    by (simp add: remove_buffer_raw_def Some Let_def)
  have "views_of ?new doc = (if doc = buf_document_id b then views_of vm doc - {v} else views_of vm doc)" for doc
    by (auto simp: views_of_def new Some)
  then have "index_ok ?new" using ok unfolding new by (auto simp: vm_ok_def index_ok_def)
  then show ?thesis using ok unfolding new by (auto simp: vm_ok_def buffers_ok_def update_ids_distinct)
qed

lemma vm_new_ok: "vm_ok (vm_new R loader doc content path)"
  by (auto simp: vm_ok_def vm_new_def buffer_new_def doc_new_def init_syntax_def Let_def buffers_ok_def buffer_ids_def get_buffer_def
      index_ok_def views_for_doc_def views_of_def split: option.splits if_splits)


lemma clone_frame [simp]:
  "buf_id (clone_for_split b v) = v" "buf_document_id (clone_for_split b v) = buf_document_id b"
  "buf_selection (clone_for_split b v) = buf_selection b" "cursor (clone_for_split b v) = cursor b"
  by (simp_all add: clone_for_split_def)

lemma split_insert:
  assumes "clone_buffer_for_split source vm = Some (r, vm')"
  shows "r = None \<and> vm' = vm \<and> get_buffer vm source = None \<or>
    (\<exists>v b vm1. r = Some v \<and> get_buffer vm source = Some b \<and> take_buffer_id vm = Some (v, vm1) \<and>
       vm' = insert_buffer v (clone_for_split b v) vm1)"
  using assms by (auto simp: clone_buffer_for_split_def insert_buffer_def map_option_bind_Some split: option.splits)

lemma split_insert_ok:
  assumes ok: "vm_ok vm" and "take_buffer_id vm = Some (v, vm1)" and "get_buffer vm source = Some b"
  shows "vm_ok (insert_buffer v (clone_for_split b v) vm1)"
  using take_buffer_id_ok [OF assms(1,2)] vm_okD(3) [OF ok assms(3)] by (intro insert_buffer_ok) auto

lemma vm_step_ok:
  assumes "vm_step R vm vm'" and ok: "vm_ok vm"
  shows "vm_ok vm'"
  using assms
proof (induction rule: vm_step.induct)
  case (vm_step_split source vm r vm')
  then show ?case using split_insert split_insert_ok by blast
next
  case (vm_step_replace vm v old source b vm')
  then show ?case using vm_okD(3) by (fastforce intro!: replace_buffer_ok)
next
  case (vm_step_replace_new vm v old doc b d content path vm')
  then have "doc_id d = doc" "buf_id b = v" "buf_document_id b = doc"
    by (auto simp: buffer_new_def doc_new_def Let_def)
  with vm_step_replace_new show ?case by (auto intro!: replace_buffer_ok add_doc_ok)
qed (auto intro: creates_ok create_buffer_creates create_scratch_creates split_insert_ok remove_buffer_ok)

lemma vm_reach_ok: "vm_reach R vm \<Longrightarrow> vm_ok vm"
  by (induction rule: vm_reach.induct) (auto intro: vm_new_ok vm_step_ok)

lemma index_lookup:
  assumes "vm_ok vm"
  shows "distinct (views_for_doc vm doc)" "set (views_for_doc vm doc) = views_of vm doc"
    "any_buffer_for_doc vm doc = None \<longleftrightarrow> views_of vm doc = {}"
    "any_buffer_for_doc vm doc = Some v \<Longrightarrow> v \<in> views_of vm doc"
proof -
  show "distinct (views_for_doc vm doc)" "set (views_for_doc vm doc) = views_of vm doc"
    using assms by (auto simp: vm_ok_def index_ok_def)
  then show "any_buffer_for_doc vm doc = None \<longleftrightarrow> views_of vm doc = {}"
    "any_buffer_for_doc vm doc = Some v \<Longrightarrow> v \<in> views_of vm doc"
    by (auto simp: any_buffer_for_doc_def views_for_doc_def split: option.splits list.splits)
qed

lemma find_by_path_Some:
  assumes "vm_ok vm" and "find_by_path path vm = Some v"
  shows "\<exists>b d. get_buffer vm v = Some b \<and> vm_docs vm (buf_document_id b) = Some d \<and> doc_path d = Some path"
proof -
  obtain b where b: "b \<in> snd ` set (vm_buffers vm)" "Option.bind (vm_docs vm (buf_document_id b)) doc_path = Some path" "buf_id b = v"
    using assms(2) unfolding find_by_path_def find_Some_iff by (auto simp: find_Some_iff) (metis image_eqI nth_mem)
  then obtain w where "(w, b) \<in> set (vm_buffers vm)" by force
  then have "get_buffer vm w = Some b" using assms(1) by (auto simp: get_buffer_def vm_ok_def buffers_ok_def buffer_ids_def)
  with b vm_okD(1) [OF assms(1) this] show ?thesis by (cases "vm_docs vm (buf_document_id b)") auto
qed

lemma find_by_path_None:
  assumes "vm_ok vm"
  shows "find_by_path path vm = None \<longleftrightarrow>
    (\<nexists>v b d. get_buffer vm v = Some b \<and> vm_docs vm (buf_document_id b) = Some d \<and> doc_path d = Some path)"
proof
  assume *: "find_by_path path vm = None"
  show "\<nexists>v b d. get_buffer vm v = Some b \<and> vm_docs vm (buf_document_id b) = Some d \<and> doc_path d = Some path"
  proof clarify
    fix v b d assume "get_buffer vm v = Some b" "vm_docs vm (buf_document_id b) = Some d" "doc_path d = Some path"
    then show False using * by (force simp: find_by_path_def find_None_iff get_buffer_def dest: map_of_SomeD)
  qed
next
  assume "\<nexists>v b d. get_buffer vm v = Some b \<and> vm_docs vm (buf_document_id b) = Some d \<and> doc_path d = Some path"
  then show "find_by_path path vm = None" using find_by_path_Some [OF assms] by (cases "find_by_path path vm") blast+
qed

section \<open>Properties\<close>

text \<open>
  C19. The reverse index is exact. However the editor opens, splits, retargets and closes views, every
  document lists exactly the views that show it, each once; \<open>any_buffer_for_doc\<close> finds a view if and only if
  there is one, so a document is finalised only when its last view is gone; \<open>find_by_path\<close> finds a view of a
  file if and only if one is open; and views are stored under their own, still unused, identifiers.
\<close>

theorem view_index_exact:
  assumes "vm_reach R vm"
  shows "distinct (views_for_doc vm doc) \<and> set (views_for_doc vm doc) = views_of vm doc \<and>
    (any_buffer_for_doc vm doc = None \<longleftrightarrow> views_of vm doc = {}) \<and>
    (\<forall>v. any_buffer_for_doc vm doc = Some v \<longrightarrow> v \<in> views_of vm doc) \<and>
    (\<forall>v b. get_buffer vm v = Some b \<longrightarrow> buf_id b = v \<and> v < next_buffer_id vm \<and> buf_document_id b \<in> dom (vm_docs vm)) \<and>
    (find_by_path path vm = None \<longleftrightarrow>
       (\<nexists>v b d. get_buffer vm v = Some b \<and> vm_docs vm (buf_document_id b) = Some d \<and> doc_path d = Some path))"
  using vm_reach_ok [OF assms] index_lookup [of vm doc] vm_okD [of vm] find_by_path_None [of vm path] by blast

lemma vm_new_split:
  "clone_buffer_for_split 1 (vm_new R loader doc content path) =
     Some (Some 2, insert_buffer 2 (clone_for_split (fst (buffer_new R 1 doc content path :: buffer \<times> ('r, 'l) document)) 2)
       ((vm_new R loader doc content path :: ('r, 'l) view_manager)\<lparr> next_buffer_id := 3 \<rparr>))"
  by (simp add: clone_buffer_for_split_def vm_new_def buffer_new_def Let_def get_buffer_def take_buffer_id_def
      checked_add64_def u64_max_def insert_buffer_def)

theorem view_index_exact_witness:
  "\<exists>vm. clone_buffer_for_split 1 (vm_new list_rope no_languages 7 [97] None) = Some (Some 2, vm) \<and>
     set (views_for_doc vm 7) = {1, 2} \<and> views_of vm 7 = {1, 2}"
proof -
  let ?vm0 = "vm_new list_rope no_languages 7 [97] None"
  obtain vm where vm: "clone_buffer_for_split 1 ?vm0 = Some (Some 2, vm)" "views_for_doc vm 7 = [1, 2]"
    using vm_new_split [of list_rope no_languages 7 "[97]" None]
    by (simp add: insert_buffer_def buffer_new_def Let_def vm_new_def views_for_doc_def index_add_def doc_new_def)
  have "vm_reach list_rope vm" using vm(1) vm_reach_new vm_step_split vm_reach_step by metis
  with vm show ?thesis using view_index_exact [of list_rope vm 7] by auto
qed

end
