(* ===== verification/Editor_History.thy ===== *)
theory Editor_History
  imports View_Manager
begin

text \<open>
  Editor-level undo and redo: \<open>crates/editor/src/types/undo_manager/mod.rs\<close>,
  \<open>crates/editor/src/types/history.rs\<close>, \<open>crates/editor/src/impls/undo_host.rs\<close> and the editing
  entry points of \<open>crates/editor/src/impls/editing.rs\<close> and \<open>crates/editor/src/impls/history/mod.rs\<close>.

  \<open>UndoManager\<close> is written against the trait \<open>UndoHost\<close>. The trait is the record
  \<open>undo_host\<close> of its methods over a host state \<open>'h\<close>, an argument of the manager's operations;
  the editor's implementation is \<open>editor_host\<close>. An operation that may panic returns an option. The top
  of a stack is the head of the list. Calls to the syntax manager, the LSP sync manager and the
  notification centre are recorded in the host state in the order they are made; the frame's set of
  dirty buffers is kept as it is. Tracing output is left out.
\<close>

section \<open>The undo manager\<close>

record undo_group =
  g_docs :: "nat list"
  g_views :: "view_id \<rightharpoonup> view_snapshot"
  g_origin :: edit_origin

record undo_manager =
  um_undo_stack :: "undo_group list"
  um_redo_stack :: "undo_group list"

record 'h undo_host =
  uh_guard_readonly :: "'h \<Rightarrow> (bool \<times> 'h) option"
  uh_doc_id_for_buffer :: "'h \<Rightarrow> view_id \<Rightarrow> nat option"
  uh_collect_view_snapshots :: "'h \<Rightarrow> nat \<Rightarrow> (view_id \<rightharpoonup> view_snapshot)"
  uh_capture_current_view_snapshots :: "'h \<Rightarrow> nat list \<Rightarrow> (view_id \<rightharpoonup> view_snapshot)"
  uh_restore_view_snapshots :: "'h \<Rightarrow> (view_id \<rightharpoonup> view_snapshot) \<Rightarrow> 'h option"
  uh_undo_documents :: "'h \<Rightarrow> nat list \<Rightarrow> (bool \<times> 'h) option"
  uh_redo_documents :: "'h \<Rightarrow> nat list \<Rightarrow> (bool \<times> 'h) option"
  uh_notify_undo :: "'h \<Rightarrow> 'h"
  uh_notify_redo :: "'h \<Rightarrow> 'h"
  uh_notify_nothing_to_undo :: "'h \<Rightarrow> 'h"
  uh_notify_nothing_to_redo :: "'h \<Rightarrow> 'h"

definition um_new :: undo_manager where
  "um_new = \<lparr> um_undo_stack = [], um_redo_stack = [] \<rparr>"

definition um_can_undo :: "undo_manager \<Rightarrow> bool" where
  "um_can_undo m \<longleftrightarrow> um_undo_stack m \<noteq> []"

definition um_can_redo :: "undo_manager \<Rightarrow> bool" where
  "um_can_redo m \<longleftrightarrow> um_redo_stack m \<noteq> []"

definition push_undo_group :: "undo_manager \<Rightarrow> undo_group \<Rightarrow> undo_manager" where
  "push_undo_group m g = m\<lparr> um_undo_stack := g # um_undo_stack m \<rparr>"

definition push_group :: "undo_manager \<Rightarrow> undo_group \<Rightarrow> undo_manager" where
  "push_group m g = push_undo_group (m\<lparr> um_redo_stack := [] \<rparr>) g"

record prepared_edit =
  pe_docs :: "nat list"
  pe_views :: "view_id \<rightharpoonup> view_snapshot"
  pe_origin :: edit_origin

definition prepare_edit :: "'h undo_host \<Rightarrow> 'h \<Rightarrow> view_id \<Rightarrow> edit_origin \<Rightarrow> prepared_edit option" where
  "prepare_edit H h view origin = do {
     doc \<leftarrow> uh_doc_id_for_buffer H h view;
     Some \<lparr> pe_docs = [doc], pe_views = uh_collect_view_snapshots H h doc, pe_origin = origin \<rparr> }"

definition finalize_edit :: "undo_manager \<Rightarrow> commit_result \<Rightarrow> prepared_edit \<Rightarrow> undo_manager" where
  "finalize_edit m res prep =
     (if cr_applied res then
        let m = m\<lparr> um_redo_stack := [] \<rparr> in
        if cr_undo_recorded res
        then push_undo_group m \<lparr> g_docs = pe_docs prep, g_views = pe_views prep, g_origin = pe_origin prep \<rparr>
        else m
      else m)"

definition with_edit ::
  "'h undo_host \<Rightarrow> undo_manager \<Rightarrow> 'h \<Rightarrow> view_id \<Rightarrow> edit_origin \<Rightarrow> ('h \<Rightarrow> (commit_result \<times> 'h) option) \<Rightarrow>
   (bool \<times> undo_manager \<times> 'h) option" where
  "with_edit H m h view origin apply_fn = do {
     prep \<leftarrow> prepare_edit H h view origin;
     (res, h) \<leftarrow> apply_fn h;
     Some (cr_applied res, finalize_edit m res prep, h) }"

definition um_undo :: "'h undo_host \<Rightarrow> undo_manager \<Rightarrow> 'h \<Rightarrow> (bool \<times> undo_manager \<times> 'h) option" where
  "um_undo H m h = do {
     (writable, h) \<leftarrow> uh_guard_readonly H h;
     if \<not> writable then Some (False, m, h)
     else (case um_undo_stack m of
         [] \<Rightarrow> Some (False, m, uh_notify_nothing_to_undo H h)
       | g # rest \<Rightarrow> do {
           let current = uh_capture_current_view_snapshots H h (g_docs g);
           (ok, h) \<leftarrow> uh_undo_documents H h (g_docs g);
           if ok then do {
             h \<leftarrow> uh_restore_view_snapshots H h (g_views g);
             Some (True,
               m\<lparr> um_undo_stack := rest,
                  um_redo_stack := \<lparr> g_docs = g_docs g, g_views = current, g_origin = g_origin g \<rparr> # um_redo_stack m \<rparr>,
               uh_notify_undo H h) }
           else Some (False, m\<lparr> um_undo_stack := g # rest \<rparr>, uh_notify_nothing_to_undo H h) }) }"

definition um_redo :: "'h undo_host \<Rightarrow> undo_manager \<Rightarrow> 'h \<Rightarrow> (bool \<times> undo_manager \<times> 'h) option" where
  "um_redo H m h = do {
     (writable, h) \<leftarrow> uh_guard_readonly H h;
     if \<not> writable then Some (False, m, h)
     else (case um_redo_stack m of
         [] \<Rightarrow> Some (False, m, uh_notify_nothing_to_redo H h)
       | g # rest \<Rightarrow> do {
           let current = uh_capture_current_view_snapshots H h (g_docs g);
           (ok, h) \<leftarrow> uh_redo_documents H h (g_docs g);
           if ok then do {
             h \<leftarrow> uh_restore_view_snapshots H h (g_views g);
             Some (True,
               m\<lparr> um_redo_stack := rest,
                  um_undo_stack := \<lparr> g_docs = g_docs g, g_views = current, g_origin = g_origin g \<rparr> # um_undo_stack m \<rparr>,
               uh_notify_redo H h) }
           else Some (False, m\<lparr> um_redo_stack := g # rest \<rparr>, uh_notify_nothing_to_redo H h) }) }"

section \<open>The editor as undo host\<close>

datatype notice =
  BufferReadonly | NoticeUndo | NoticeRedo | NothingToUndo | NothingToRedo | YankedChars nat

record ('r, 'l) editor_state =
  es_views :: "('r, 'l) view_manager"
  es_focused :: view_id
  dirty_buffers :: "view_id set"
  needs_redraw :: bool
  es_notifications :: "notice list"
  lsp_local_edits :: "(nat \<times> transaction \<times> commit_result) list"
  lsp_full_syncs :: "nat list"
  syntax_edits :: "(nat \<times> nat \<times> changeset) list"

definition es_notify :: "notice \<Rightarrow> ('r, 'l) editor_state \<Rightarrow> ('r, 'l) editor_state" where
  "es_notify k s = s\<lparr> es_notifications := es_notifications s @ [k], needs_redraw := True \<rparr>"

text \<open>The document behind the handle of a view.\<close>

definition doc_of :: "('r, 'l) editor_state \<Rightarrow> buffer \<Rightarrow> ('r, 'l) document option" where
  "doc_of s b = vm_docs (es_views s) (buf_document_id b)"

definition set_buffer :: "buffer \<Rightarrow> ('r, 'l) editor_state \<Rightarrow> ('r, 'l) editor_state" where
  "set_buffer b s = s\<lparr> es_views := (es_views s)\<lparr> vm_buffers := AList.update (buf_id b) b (vm_buffers (es_views s)) \<rparr> \<rparr>"

definition set_doc :: "nat \<Rightarrow> ('r, 'l) document \<Rightarrow> ('r, 'l) editor_state \<Rightarrow> ('r, 'l) editor_state" where
  "set_doc i d s = s\<lparr> es_views := (es_views s)\<lparr> vm_docs := (vm_docs (es_views s))(i \<mapsto> d) \<rparr> \<rparr>"

text \<open>\<open>for\<close> loops over the buffers of the manager, updating those that satisfy a condition.\<close>

fun for_buffers ::
  "(buffer \<Rightarrow> bool) \<Rightarrow> (buffer \<Rightarrow> buffer option) \<Rightarrow> (view_id \<times> buffer) list \<Rightarrow> (view_id \<times> buffer) list option" where
  "for_buffers P f [] = Some []"
| "for_buffers P f ((v, b) # rest) = do {
     b' \<leftarrow> (if P b then f b else Some b);
     rest' \<leftarrow> for_buffers P f rest;
     Some ((v, b') # rest') }"

definition update_views ::
  "(buffer \<Rightarrow> bool) \<Rightarrow> (buffer \<Rightarrow> buffer option) \<Rightarrow> ('r, 'l) editor_state \<Rightarrow> ('r, 'l) editor_state option" where
  "update_views P f s = do {
     bs \<leftarrow> for_buffers P f (vm_buffers (es_views s));
     Some (s\<lparr> es_views := (es_views s)\<lparr> vm_buffers := bs \<rparr> \<rparr>) }"

fun map_through_all :: "transaction list \<Rightarrow> buffer \<Rightarrow> buffer option" where
  "map_through_all [] b = Some b"
| "map_through_all (tx # txs) b = do { b' \<leftarrow> map_selection_through b tx; map_through_all txs b' }"

text \<open>\<open>ensure_valid_selection\<close> followed by \<open>debug_assert_valid_state\<close>, which panics in debug builds.\<close>

definition clamp_checked :: "'r rope_ops \<Rightarrow> ('r, 'l) document \<Rightarrow> buffer \<Rightarrow> buffer option" where
  "clamp_checked R d b =
     (let b = ensure_valid_selection R b d in if debug_assert_valid_state R b d then Some b else None)"

definition sync_all_view_selections_for_doc ::
  "'r rope_ops \<Rightarrow> nat \<Rightarrow> transaction list \<Rightarrow> view_id option \<Rightarrow> ('r, 'l) editor_state \<Rightarrow> ('r, 'l) editor_state option" where
  "sync_all_view_selections_for_doc R doc txs exclude s =
     update_views (\<lambda>b. Some (buf_id b) \<noteq> exclude \<and> buf_document_id b = doc)
       (\<lambda>b. do { b \<leftarrow> map_through_all txs b; d \<leftarrow> doc_of s b; clamp_checked R d b }) s"

definition normalize_all_views_for_doc ::
  "'r rope_ops \<Rightarrow> nat \<Rightarrow> ('r, 'l) editor_state \<Rightarrow> ('r, 'l) editor_state option" where
  "normalize_all_views_for_doc R doc s =
     update_views (\<lambda>b. buf_document_id b = doc) (\<lambda>b. do { d \<leftarrow> doc_of s b; clamp_checked R d b }) s"

definition mark_views_dirty :: "nat \<Rightarrow> ('r, 'l) editor_state \<Rightarrow> ('r, 'l) editor_state" where
  "mark_views_dirty doc s = s\<lparr> dirty_buffers := dirty_buffers s \<union>
     set (filter (\<lambda>v. case get_buffer (es_views s) v of Some b \<Rightarrow> buf_document_id b = doc | None \<Rightarrow> False)
       (buffer_ids (es_views s))) \<rparr>"

definition mark_buffer_dirty_for_full_sync :: "view_id \<Rightarrow> ('r, 'l) editor_state \<Rightarrow> ('r, 'l) editor_state" where
  "mark_buffer_dirty_for_full_sync v s =
     (let s = (case get_buffer (es_views s) v of
            None \<Rightarrow> s | Some b \<Rightarrow> s\<lparr> lsp_full_syncs := lsp_full_syncs s @ [buf_document_id b] \<rparr>)
      in s\<lparr> dirty_buffers := insert v (dirty_buffers s) \<rparr>)"

definition apply_transaction_inner ::
  "'r rope_ops \<Rightarrow> view_id \<Rightarrow> transaction \<Rightarrow> selection option \<Rightarrow> undo_policy \<Rightarrow> ('r, 'l) editor_state \<Rightarrow>
   (commit_result \<times> ('r, 'l) editor_state) option" where
  "apply_transaction_inner R v tx new_selection undo s = do {
     let policy = policy_edit\<lparr> ap_undo := undo, ap_syntax := IncrementalOrDirty \<rparr>;
     b \<leftarrow> get_buffer (es_views s) v;
     d \<leftarrow> doc_of s b;
     (d', res) \<leftarrow> buf_apply R b d tx policy;
     b' \<leftarrow> (case new_selection of
         Some sel \<Rightarrow> if cr_applied res then finalize_selection b sel else Some b
       | None \<Rightarrow> Some b);
     let s = set_buffer b' (set_doc (buf_document_id b) d' s);
     let s = s\<lparr> lsp_local_edits := lsp_local_edits s @ [(buf_document_id b, tx, res)] \<rparr>;
     if cr_applied res then do {
       let s = s\<lparr> syntax_edits := syntax_edits s @ [(buf_document_id b, doc_version d', tx_changes tx)] \<rparr>;
       s \<leftarrow> sync_all_view_selections_for_doc R (buf_document_id b) [tx] (Some v) s;
       let s = mark_views_dirty (buf_document_id b) s;
       Some (res, s\<lparr> dirty_buffers := insert v (dirty_buffers s) \<rparr>) }
     else Some (res, s) }"

fun compose_all :: "changeset \<Rightarrow> transaction list \<Rightarrow> changeset option" where
  "compose_all net [] = Some net"
| "compose_all net (tx # txs) = do { net \<leftarrow> cs_compose net (tx_changes tx); compose_all net txs }"

definition apply_history_op ::
  "'r rope_ops \<Rightarrow> (('r, 'l) document \<Rightarrow> (('r, 'l) document \<times> transaction list option) option) \<Rightarrow> nat \<Rightarrow>
   ('r, 'l) editor_state \<Rightarrow> (bool \<times> ('r, 'l) editor_state) option" where
  "apply_history_op R op doc s =
     (case find (\<lambda>b. buf_document_id b = doc) (map snd (vm_buffers (es_views s))) of
        None \<Rightarrow> Some (False, s)
      | Some b \<Rightarrow> do {
          d \<leftarrow> doc_of s b;
          (d', txs) \<leftarrow> op d;
          let s = set_doc doc d' s;
          (case txs of
             None \<Rightarrow> Some (False, s)
           | Some txs \<Rightarrow> do {
               s \<leftarrow> (case txs of
                   [] \<Rightarrow> Some s
                 | tx # rest \<Rightarrow> do {
                     net \<leftarrow> compose_all (tx_changes tx) rest;
                     Some (s\<lparr> syntax_edits := syntax_edits s @ [(doc, doc_version d', net)] \<rparr>) });
               s \<leftarrow> sync_all_view_selections_for_doc R doc txs None s;
               let s = mark_views_dirty doc s;
               let s = mark_buffer_dirty_for_full_sync (buf_id b) s;
               s \<leftarrow> normalize_all_views_for_doc R doc s;
               Some (True, s) }) })"

definition undo_document :: "'r rope_ops \<Rightarrow> nat \<Rightarrow> ('r, 'l) editor_state \<Rightarrow> (bool \<times> ('r, 'l) editor_state) option" where
  "undo_document R doc s = apply_history_op R (doc_undo R) doc s"

definition redo_document :: "'r rope_ops \<Rightarrow> nat \<Rightarrow> ('r, 'l) editor_state \<Rightarrow> (bool \<times> ('r, 'l) editor_state) option" where
  "redo_document R doc s = apply_history_op R (doc_redo R) doc s"

text \<open>\<open>iter().all(..)\<close> stops at the first document that fails.\<close>

fun all_docs :: "(nat \<Rightarrow> 'h \<Rightarrow> (bool \<times> 'h) option) \<Rightarrow> 'h \<Rightarrow> nat list \<Rightarrow> (bool \<times> 'h) option" where
  "all_docs f s [] = Some (True, s)"
| "all_docs f s (doc # docs) = do {
     (ok, s) \<leftarrow> f doc s;
     if ok then all_docs f s docs else Some (False, s) }"

definition es_guard_readonly :: "('r, 'l) editor_state \<Rightarrow> (bool \<times> ('r, 'l) editor_state) option" where
  "es_guard_readonly s = do {
     b \<leftarrow> get_buffer (es_views s) (es_focused s);
     d \<leftarrow> doc_of s b;
     Some (if is_readonly b d then (False, es_notify BufferReadonly s) else (True, s)) }"

definition view_snapshots :: "(buffer \<Rightarrow> bool) \<Rightarrow> ('r, 'l) editor_state \<Rightarrow> (view_id \<rightharpoonup> view_snapshot)" where
  "view_snapshots P s v =
     (case get_buffer (es_views s) v of
        Some b \<Rightarrow> if P b then Some (snapshot_view b) else None
      | None \<Rightarrow> None)"

definition restore_view_snapshots ::
  "'r rope_ops \<Rightarrow> ('r, 'l) editor_state \<Rightarrow> (view_id \<rightharpoonup> view_snapshot) \<Rightarrow> ('r, 'l) editor_state option" where
  "restore_view_snapshots R s snaps =
     update_views (\<lambda>b. snaps (buf_id b) \<noteq> None)
       (\<lambda>b. do { snap \<leftarrow> snaps (buf_id b); d \<leftarrow> doc_of s b; Some (restore_view R b d snap) }) s"

definition editor_host :: "'r rope_ops \<Rightarrow> ('r, 'l) editor_state undo_host" where
  "editor_host R =
     \<lparr> uh_guard_readonly = es_guard_readonly,
       uh_doc_id_for_buffer = (\<lambda>s v. map_option buf_document_id (get_buffer (es_views s) v)),
       uh_collect_view_snapshots = (\<lambda>s doc. view_snapshots (\<lambda>b. buf_document_id b = doc) s),
       uh_capture_current_view_snapshots = (\<lambda>s docs. view_snapshots (\<lambda>b. buf_document_id b \<in> set docs) s),
       uh_restore_view_snapshots = restore_view_snapshots R,
       uh_undo_documents = all_docs (undo_document R),
       uh_redo_documents = all_docs (redo_document R),
       uh_notify_undo = es_notify NoticeUndo,
       uh_notify_redo = es_notify NoticeRedo,
       uh_notify_nothing_to_undo = es_notify NothingToUndo,
       uh_notify_nothing_to_redo = es_notify NothingToRedo \<rparr>"

section \<open>The editing entry points\<close>

record ('r, 'l) editor =
  ed_state :: "('r, 'l) editor_state"
  ed_undo_manager :: undo_manager
  ed_yank :: yank
  ed_edited :: "(view_id \<times> transaction) list"

definition apply_edit ::
  "'r rope_ops \<Rightarrow> view_id \<Rightarrow> transaction \<Rightarrow> selection option \<Rightarrow> undo_policy \<Rightarrow> edit_origin \<Rightarrow> ('r, 'l) editor \<Rightarrow>
   (bool \<times> ('r, 'l) editor) option" where
  "apply_edit R v tx new_selection undo origin e = do {
     (res, m, s) \<leftarrow> with_edit (editor_host R) (ed_undo_manager e) (ed_state e) v origin
       (apply_transaction_inner R v tx new_selection undo);
     let e = e\<lparr> ed_undo_manager := m, ed_state := s \<rparr>;
     Some (res, if res then e\<lparr> ed_edited := ed_edited e @ [(v, tx)] \<rparr> else e) }"

definition ed_undo :: "'r rope_ops \<Rightarrow> ('r, 'l) editor \<Rightarrow> (bool \<times> ('r, 'l) editor) option" where
  "ed_undo R e = do {
     (ok, m, s) \<leftarrow> um_undo (editor_host R) (ed_undo_manager e) (ed_state e);
     Some (ok, e\<lparr> ed_undo_manager := m, ed_state := s \<rparr>) }"

definition ed_redo :: "'r rope_ops \<Rightarrow> ('r, 'l) editor \<Rightarrow> (bool \<times> ('r, 'l) editor) option" where
  "ed_redo R e = do {
     (ok, m, s) \<leftarrow> um_redo (editor_host R) (ed_undo_manager e) (ed_state e);
     Some (ok, e\<lparr> ed_undo_manager := m, ed_state := s \<rparr>) }"

text \<open>
  The shape that the edits of the focused view share: refuse when read-only, prepare a transaction on
  the buffer, apply it, and report a failed application.
\<close>

definition edit_focused ::
  "'r rope_ops \<Rightarrow> (buffer \<Rightarrow> ('r, 'l) document \<Rightarrow> (buffer \<times> (transaction \<times> selection) option) option) \<Rightarrow>
   undo_policy \<Rightarrow> edit_origin \<Rightarrow> ('r, 'l) editor \<Rightarrow> ('r, 'l) editor option" where
  "edit_focused R prepare undo origin e = do {
     (writable, s) \<leftarrow> es_guard_readonly (ed_state e);
     let e = e\<lparr> ed_state := s \<rparr>;
     if \<not> writable then Some e
     else do {
       b \<leftarrow> get_buffer (es_views s) (es_focused s);
       d \<leftarrow> doc_of s b;
       (b', prep) \<leftarrow> prepare b d;
       let e = e\<lparr> ed_state := set_buffer b' s \<rparr>;
       (case prep of
          None \<Rightarrow> Some e
        | Some (tx, sel) \<Rightarrow> do {
            (applied, e) \<leftarrow> apply_edit R (es_focused s) tx (Some sel) undo origin e;
            Some (if applied then e else e\<lparr> ed_state := es_notify BufferReadonly (ed_state e) \<rparr>) }) } }"

definition some_prep :: "(buffer \<times> transaction \<times> selection) option \<Rightarrow> (buffer \<times> (transaction \<times> selection) option) option" where
  "some_prep = map_option (\<lambda>(b, tx, sel). (b, Some (tx, sel)))"

text \<open>The static strings that name the origin of an edit.\<close>

definition origin_internal :: "string \<Rightarrow> edit_origin" where
  "origin_internal name = OriginInternal (map of_char name)"

definition ed_insert_text :: "'r rope_ops \<Rightarrow> bool \<Rightarrow> utext \<Rightarrow> ('r, 'l) editor \<Rightarrow> ('r, 'l) editor option" where
  "ed_insert_text R insert_mode text e =
     edit_focused R (\<lambda>b d. some_prep (prepare_insert R b d text))
       (if insert_mode then MergeWithCurrentGroup else Record) (origin_internal ''insert'') e"

definition ed_insert_newline_with_indent :: "'r rope_ops \<Rightarrow> bool \<Rightarrow> ('r, 'l) editor \<Rightarrow> ('r, 'l) editor option" where
  "ed_insert_newline_with_indent R insert_mode e = do {
     b \<leftarrow> get_buffer (es_views (ed_state e)) (es_focused (ed_state e));
     d \<leftarrow> doc_of (ed_state e) b;
     line \<leftarrow> rp_char_to_line R (doc_content d) (cursor b);
     l \<leftarrow> rp_line R (doc_content d) line;
     ed_insert_text R insert_mode (newline # takeWhile (\<lambda>c. c = 32 \<or> c = 9) l) e }"

definition ed_paste_text :: "'r rope_ops \<Rightarrow> utext \<Rightarrow> ('r, 'l) editor \<Rightarrow> ('r, 'l) editor option" where
  "ed_paste_text R text e =
     (if text = [] then Some e
      else edit_focused R (\<lambda>b d. some_prep (prepare_insert R b d text)) Record (origin_internal ''paste'') e)"

definition yank_joined :: "yank \<Rightarrow> utext" where
  "yank_joined y = concat (case yank_parts y of [] \<Rightarrow> [] | p # ps \<Rightarrow> p # map (\<lambda>q. newline # q) ps)"

definition yank_is_empty :: "yank \<Rightarrow> bool" where
  "yank_is_empty y \<longleftrightarrow> yank_parts y = []"

definition ed_yank_selection :: "'r rope_ops \<Rightarrow> ('r, 'l) editor \<Rightarrow> ('r, 'l) editor option" where
  "ed_yank_selection R e = do {
     b \<leftarrow> get_buffer (es_views (ed_state e)) (es_focused (ed_state e));
     d \<leftarrow> doc_of (ed_state e) b;
     (b', y) \<leftarrow> yank_selection R b d;
     let e = e\<lparr> ed_state := set_buffer b' (ed_state e) \<rparr>;
     Some (case y of
        None \<Rightarrow> e
      | Some k \<Rightarrow> e\<lparr> ed_yank := k, ed_state := es_notify (YankedChars (yank_total_chars k)) (ed_state e) \<rparr>) }"

definition ed_paste_after :: "(utext \<Rightarrow> nat) \<Rightarrow> 'r rope_ops \<Rightarrow> ('r, 'l) editor \<Rightarrow> ('r, 'l) editor option" where
  "ed_paste_after G R e =
     (if yank_is_empty (ed_yank e) then Some e
      else edit_focused R (\<lambda>b d. prepare_paste_after G R b d (yank_joined (ed_yank e))) Record (origin_internal ''paste'') e)"

definition ed_paste_before :: "'r rope_ops \<Rightarrow> ('r, 'l) editor \<Rightarrow> ('r, 'l) editor option" where
  "ed_paste_before R e =
     (if yank_is_empty (ed_yank e) then Some e
      else edit_focused R (\<lambda>b d. prepare_paste_before R b d (yank_joined (ed_yank e))) Record (origin_internal ''paste'') e)"

definition ed_delete_selection :: "'r rope_ops \<Rightarrow> ('r, 'l) editor \<Rightarrow> ('r, 'l) editor option" where
  "ed_delete_selection R e =
     edit_focused R (\<lambda>b d. some_prep (prepare_delete_selection R b d)) Record (origin_internal ''delete'') e"

section \<open>Specification predicates\<close>

definition docs_sound :: "'r rope_ops \<Rightarrow> ('r, 'l) view_manager \<Rightarrow> bool" where
  "docs_sound R vm \<longleftrightarrow> (\<forall>i d. vm_docs vm i = Some d \<longrightarrow> (\<exists>tm. doc_tracks R d tm))"

text \<open>All views are valid, except perhaps those that satisfy \<open>P\<close>, whose selection is at least well-formed.\<close>

definition views_sound :: "'r rope_ops \<Rightarrow> (buffer \<Rightarrow> bool) \<Rightarrow> ('r, 'l) editor_state \<Rightarrow> bool" where
  "views_sound R P s \<longleftrightarrow> vm_ok (es_views s) \<and> docs_sound R (es_views s) \<and>
     (\<forall>v b. get_buffer (es_views s) v = Some b \<longrightarrow>
        sel_wf (buf_selection b) \<and> (P b \<or> (\<exists>d. doc_of s b = Some d \<and> view_ok R b d)))"

definition es_ok :: "'r rope_ops \<Rightarrow> ('r, 'l) editor_state \<Rightarrow> bool" where
  "es_ok R s \<longleftrightarrow> views_sound R (\<lambda>b. False) s \<and> get_buffer (es_views s) (es_focused s) \<noteq> None"

definition keeps :: "buffer \<Rightarrow> buffer \<Rightarrow> bool" where
  "keeps b b' \<longleftrightarrow> buf_id b' = buf_id b \<and> buf_document_id b' = buf_document_id b \<and> readonly_override b' = readonly_override b"

text \<open>The texts of the documents and the snapshots of the views, as far as a user sees them.\<close>

definition texts :: "'r rope_ops \<Rightarrow> ('r, 'l) editor_state \<Rightarrow> nat \<Rightarrow> utext option" where
  "texts R s i = map_option (doc_text R) (vm_docs (es_views s) i)"

definition snaps :: "('r, 'l) editor_state \<Rightarrow> view_id \<Rightarrow> view_snapshot option" where
  "snaps s v = map_option snapshot_view (get_buffer (es_views s) v)"

text \<open>Between two states only views that satisfy \<open>P\<close> changed, and these kept their identity.\<close>

definition views_moved :: "(view_id \<Rightarrow> buffer \<Rightarrow> bool) \<Rightarrow> ('r, 'l) editor_state \<Rightarrow> ('r, 'l) editor_state \<Rightarrow> bool" where
  "views_moved P s s' \<longleftrightarrow>
     (\<forall>v. rel_option keeps (get_buffer (es_views s) v) (get_buffer (es_views s') v)) \<and>
     (\<forall>v b. get_buffer (es_views s) v = Some b \<longrightarrow> \<not> P v b \<longrightarrow> get_buffer (es_views s') v = Some b) \<and>
     vm_docs (es_views s') = vm_docs (es_views s) \<and> es_focused s' = es_focused s"

definition snaps_wf :: "(view_id \<rightharpoonup> view_snapshot) \<Rightarrow> bool" where
  "snaps_wf sn \<longleftrightarrow> (\<forall>v x. sn v = Some x \<longrightarrow> sel_wf (vs_selection x))"

text \<open>The selection an edit of a view installs, or leaves, must fit the edited text.\<close>

definition selection_fits :: "selection option \<Rightarrow> buffer \<Rightarrow> utext \<Rightarrow> bool" where
  "selection_fits sel b t \<longleftrightarrow> (case sel of
      Some x \<Rightarrow> sel_wf x \<and> is_in_bounds x (length t)
    | None \<Rightarrow> is_in_bounds (buf_selection b) (length t) \<and> cursor b \<le> length t)"

text \<open>
  What an applied edit of view \<open>v\<close> does: the document has the edited text and one more entry of history, the other
  documents and the views of other documents are untouched, all views are valid.
\<close>

definition edited :: "'r rope_ops \<Rightarrow> nat \<Rightarrow> ('r, 'l) document \<Rightarrow> ('r, 'l) editor_state \<Rightarrow> ('r, 'l) editor_state \<Rightarrow> bool" where
  "edited R i d' s s' \<longleftrightarrow>
     vm_docs (es_views s') = (vm_docs (es_views s))(i \<mapsto> d') \<and> es_focused s' = es_focused s \<and>
     (\<forall>v. rel_option keeps (get_buffer (es_views s) v) (get_buffer (es_views s') v)) \<and>
     (\<forall>v b. get_buffer (es_views s) v = Some b \<longrightarrow> buf_document_id b \<noteq> i \<longrightarrow> get_buffer (es_views s') v = Some b)"

definition groups_wf :: "undo_manager \<Rightarrow> bool" where
  "groups_wf m \<longleftrightarrow> (\<forall>g \<in> set (um_undo_stack m) \<union> set (um_redo_stack m). snaps_wf (g_views g))"

text \<open>Redo is undo with the two stacks and the two directions of the host exchanged.\<close>

definition swap_stacks :: "undo_manager \<Rightarrow> undo_manager" where
  "swap_stacks m = \<lparr> um_undo_stack = um_redo_stack m, um_redo_stack = um_undo_stack m \<rparr>"

definition swap_host :: "'h undo_host \<Rightarrow> 'h undo_host" where
  "swap_host H = H\<lparr> uh_undo_documents := uh_redo_documents H, uh_redo_documents := uh_undo_documents H,
     uh_notify_undo := uh_notify_redo H, uh_notify_redo := uh_notify_undo H,
     uh_notify_nothing_to_undo := uh_notify_nothing_to_redo H, uh_notify_nothing_to_redo := uh_notify_nothing_to_undo H \<rparr>"

section \<open>Lemmas\<close>

subsection \<open>Updating views\<close>

lemma keeps_refl [simp]: "keeps b b"
  by (simp add: keeps_def)

lemma keeps_trans: "keeps a b \<Longrightarrow> keeps b c \<Longrightarrow> keeps a c"
  by (simp add: keeps_def)

lemma for_buffers_map:
  assumes "\<And>v b. (v, b) \<in> set bs \<Longrightarrow> P b \<Longrightarrow> f b \<noteq> None"
  shows "for_buffers P f bs = Some (map (\<lambda>(v, b). (v, if P b then the (f b) else b)) bs)"
  using assms
proof (induction bs)
  case (Cons x bs)
  obtain v b where x: "x = (v, b)" by fastforce
  have "P b \<Longrightarrow> f b \<noteq> None" using Cons.prems [of v b] x by auto
  moreover have "for_buffers P f bs = Some (map (\<lambda>(v, b). (v, if P b then the (f b) else b)) bs)"
    using Cons.prems by (intro Cons.IH) auto
  ultimately show ?case using x by (cases "P b"; cases "f b") auto
qed simp

lemma map_of_map_snd: "map_of (map (\<lambda>(v, b). (v, g b)) bs) v = map_option g (map_of bs v)"
  by (induction bs) auto

lemma map_buffers_ok:
  assumes ok: "vm_ok vm" and g: "\<And>v b. get_buffer vm v = Some b \<Longrightarrow> keeps b (g b)"
  shows "vm_ok (vm\<lparr> vm_buffers := map (\<lambda>(v, b). (v, g b)) (vm_buffers vm) \<rparr>)"
proof -
  let ?new = "vm\<lparr> vm_buffers := map (\<lambda>(v, b). (v, g b)) (vm_buffers vm) \<rparr>"
  have get: "get_buffer ?new v = map_option g (get_buffer vm v)" for v by (simp add: get_buffer_def map_of_map_snd)
  have ids: "buffer_ids ?new = buffer_ids vm" by (auto simp: buffer_ids_def)
  have "views_of ?new doc = views_of vm doc" for doc
  proof -
    have "(\<exists>b'. map_option g (get_buffer vm v) = Some b' \<and> buf_document_id b' = doc) \<longleftrightarrow>
        (\<exists>b. get_buffer vm v = Some b \<and> buf_document_id b = doc)" for v
      using g [of v] by (cases "get_buffer vm v") (auto simp: keeps_def)
    then show ?thesis by (simp add: views_of_def get)
  qed
  moreover have "buf_id b' = v \<and> v < next_buffer_id vm \<and> buf_document_id b' \<in> dom (vm_docs vm)"
    if new: "get_buffer ?new v = Some b'" for v b'
  proof -
    obtain b where "get_buffer vm v = Some b" "b' = g b" using new by (auto simp: get)
    with vm_okD [OF ok] g show ?thesis by (auto simp: keeps_def)
  qed
  ultimately show ?thesis using ok ids by (simp add: vm_ok_def buffers_ok_def index_ok_def)
qed

lemma update_views_spec:
  assumes ok: "vm_ok (es_views s)"
    and f: "\<forall>v b. get_buffer (es_views s) v = Some b \<longrightarrow> P b \<longrightarrow> (\<exists>b'. f b = Some b' \<and> keeps b b')"
  shows "\<exists>s'. update_views P f s = Some s' \<and> vm_ok (es_views s') \<and>
    (\<forall>v. get_buffer (es_views s') v = map_option (\<lambda>b. if P b then the (f b) else b) (get_buffer (es_views s) v)) \<and>
    vm_docs (es_views s') = vm_docs (es_views s) \<and> es_focused s' = es_focused s"
proof -
  let ?g = "\<lambda>b. if P b then the (f b) else b"
  have dist: "distinct (map fst (vm_buffers (es_views s)))" using ok by (simp add: vm_ok_def buffers_ok_def buffer_ids_def)
  have mem: "get_buffer (es_views s) v = Some b" if "(v, b) \<in> set (vm_buffers (es_views s))" for v b
    using that dist by (simp add: get_buffer_def)
  have loop: "for_buffers P f (vm_buffers (es_views s)) = Some (map (\<lambda>(v, b). (v, ?g b)) (vm_buffers (es_views s)))"
    by (rule for_buffers_map) (use mem f in fastforce)
  have "keeps b (?g b)" if "get_buffer (es_views s) v = Some b" for v b using f that by fastforce
  then have "vm_ok ((es_views s)\<lparr> vm_buffers := map (\<lambda>(v, b). (v, ?g b)) (vm_buffers (es_views s)) \<rparr>)"
    by (intro map_buffers_ok ok)
  with loop show ?thesis
    by (intro exI [of _ "s\<lparr> es_views := (es_views s)\<lparr> vm_buffers := map (\<lambda>(v, b). (v, ?g b)) (vm_buffers (es_views s)) \<rparr> \<rparr>"])
      (auto simp: update_views_def get_buffer_def map_of_map_snd)
qed

lemma map_selection_through_wf:
  assumes "sel_wf (buf_selection b)"
  shows "\<exists>b'. map_selection_through b tx = Some b' \<and> sel_wf (buf_selection b') \<and> keeps b b'"
proof -
  obtain s' where "map_selection tx (buf_selection b) = Some s'" "sel_wf s'" by (rule covered_map_selection [OF assms])
  then show ?thesis
    by (simp add: map_selection_through_def sync_cursor_to_selection_def set_selection_def sel_primary_Some keeps_def)
qed

lemma map_through_all_wf:
  "sel_wf (buf_selection b) \<Longrightarrow> \<exists>b'. map_through_all txs b = Some b' \<and> sel_wf (buf_selection b') \<and> keeps b b'"
proof (induction txs arbitrary: b)
  case (Cons tx txs)
  obtain b1 where b1: "map_selection_through b tx = Some b1" "sel_wf (buf_selection b1)" "keeps b b1"
    using map_selection_through_wf [OF Cons.prems] by blast
  with Cons.IH [OF b1(2)] keeps_trans show ?case by fastforce
qed simp

lemma clamp_checked_ok:
  assumes "rope_ok R" and "sel_wf (buf_selection b)"
  shows "\<exists>b'. clamp_checked R d b = Some b' \<and> view_ok R b' d \<and> keeps b b'"
  using ensure_valid_view(1) [OF assms, of d]
  by (auto simp: clamp_checked_def Let_def view_ok_def keeps_def ensure_valid_selection_def)

lemma views_soundD:
  assumes "views_sound R P s" and "get_buffer (es_views s) v = Some b"
  shows "sel_wf (buf_selection b)" and "\<exists>d. doc_of s b = Some d" and "doc_of s b = Some d \<Longrightarrow> P b \<or> view_ok R b d"
  using assms vm_okD(3) [of "es_views s" v b] by (fastforce simp: views_sound_def doc_of_def)+

text \<open>Bringing all views that satisfy a condition back into bounds.\<close>

lemma update_views_sound:
  assumes R: "rope_ok R" and s: "views_sound R P s"
    and f: "\<forall>v b d. get_buffer (es_views s) v = Some b \<longrightarrow> Q b \<longrightarrow> doc_of s b = Some d \<longrightarrow>
      (\<exists>b'. f b = Some b' \<and> keeps b b' \<and> view_ok R b' d)"
  shows "\<exists>s'. update_views Q f s = Some s' \<and> views_sound R (\<lambda>b. P b \<and> \<not> Q b) s' \<and>
    (\<forall>v. get_buffer (es_views s') v = map_option (\<lambda>b. if Q b then the (f b) else b) (get_buffer (es_views s) v)) \<and>
    vm_docs (es_views s') = vm_docs (es_views s) \<and> es_focused s' = es_focused s"
proof -
  have ok: "vm_ok (es_views s)" using s by (simp add: views_sound_def)
  have f': "\<forall>v b. get_buffer (es_views s) v = Some b \<longrightarrow> Q b \<longrightarrow> (\<exists>b'. f b = Some b' \<and> keeps b b')"
    using f views_soundD(2) [OF s] by blast
  obtain s' where s': "update_views Q f s = Some s'" "vm_ok (es_views s')"
    "\<forall>v. get_buffer (es_views s') v = map_option (\<lambda>b. if Q b then the (f b) else b) (get_buffer (es_views s) v)"
    "vm_docs (es_views s') = vm_docs (es_views s)" "es_focused s' = es_focused s"
    using update_views_spec [OF ok f'] by blast
  have "sel_wf (buf_selection b') \<and> (P b' \<and> \<not> Q b' \<or> (\<exists>d. doc_of s' b' = Some d \<and> view_ok R b' d))"
    if new: "get_buffer (es_views s') v = Some b'" for v b'
  proof -
    obtain b where b: "get_buffer (es_views s) v = Some b" "b' = (if Q b then the (f b) else b)"
      using new s'(3) by auto
    obtain d where d: "doc_of s b = Some d" using views_soundD(2) [OF s b(1)] by blast
    show ?thesis
    proof (cases "Q b")
      case True
      with f b d obtain "keeps b b'" "view_ok R b' d" by fastforce
      then show ?thesis using d s'(4) by (auto simp: doc_of_def keeps_def view_ok_def)
    next
      case False
      then show ?thesis using b d views_soundD [OF s b(1)] s'(4) by (auto simp: doc_of_def)
    qed
  qed
  then have "views_sound R (\<lambda>b. P b \<and> \<not> Q b) s'" using s s'(2,4) by (auto simp: views_sound_def docs_sound_def)
  with s'(1,3-5) show ?thesis by blast
qed

lemma views_sound_mono: "views_sound R P s \<Longrightarrow> (\<And>b. P b \<Longrightarrow> Q b) \<Longrightarrow> views_sound R Q s"
  unfolding views_sound_def by blast

lemma sync_views_sound:
  assumes R: "rope_ok R" and s: "views_sound R P s"
  shows "\<exists>s'. sync_all_view_selections_for_doc R doc txs exclude s = Some s' \<and>
    views_sound R (\<lambda>b. P b \<and> (Some (buf_id b) = exclude \<or> buf_document_id b \<noteq> doc)) s' \<and>
    views_moved (\<lambda>v b. buf_document_id b = doc \<and> Some v \<noteq> exclude) s s'"
proof -
  let ?Q = "\<lambda>b. Some (buf_id b) \<noteq> exclude \<and> buf_document_id b = doc"
  let ?f = "\<lambda>b. do { b \<leftarrow> map_through_all txs b; d \<leftarrow> doc_of s b; clamp_checked R d b }"
  have f: "\<exists>b'. ?f b = Some b' \<and> keeps b b' \<and> view_ok R b' d"
    if b: "get_buffer (es_views s) v = Some b" and d: "doc_of s b = Some d" for v b d
  proof -
    obtain b1 where b1: "map_through_all txs b = Some b1" "sel_wf (buf_selection b1)" "keeps b b1"
      using map_through_all_wf [OF views_soundD(1) [OF s b]] by blast
    moreover have "doc_of s b1 = Some d" using b1(3) d by (simp add: doc_of_def keeps_def)
    ultimately show ?thesis using clamp_checked_ok [OF R b1(2), of d] keeps_trans by fastforce
  qed
  obtain s' where s': "update_views ?Q ?f s = Some s'" "views_sound R (\<lambda>b. P b \<and> \<not> ?Q b) s'"
    "\<forall>v. get_buffer (es_views s') v = map_option (\<lambda>b. if ?Q b then the (?f b) else b) (get_buffer (es_views s) v)"
    "vm_docs (es_views s') = vm_docs (es_views s)" "es_focused s' = es_focused s"
    using update_views_sound [OF R s, of ?Q ?f] f by blast
  have "rel_option keeps (get_buffer (es_views s) v) (get_buffer (es_views s') v)" for v
  proof (cases "get_buffer (es_views s) v")
    case (Some b)
    with f [OF Some] views_soundD(2) [OF s Some] show ?thesis by (auto simp: s'(3))
  qed (simp add: s'(3))
  moreover have "get_buffer (es_views s') v = Some b"
    if "get_buffer (es_views s) v = Some b" "\<not> (buf_document_id b = doc \<and> Some v \<noteq> exclude)" for v b
    using that s vm_okD(1) [of "es_views s" v b] by (auto simp: s'(3) views_sound_def)
  moreover have "views_sound R (\<lambda>b. P b \<and> (Some (buf_id b) = exclude \<or> buf_document_id b \<noteq> doc)) s'"
    by (rule views_sound_mono [OF s'(2)]) auto
  ultimately show ?thesis using s'(1,4,5) by (auto simp: sync_all_view_selections_for_doc_def views_moved_def)
qed


lemma normalize_views_sound:
  assumes R: "rope_ok R" and s: "views_sound R P s"
  shows "\<exists>s'. normalize_all_views_for_doc R doc s = Some s' \<and>
    views_sound R (\<lambda>b. P b \<and> buf_document_id b \<noteq> doc) s' \<and> views_moved (\<lambda>v b. buf_document_id b = doc) s s'"
proof -
  let ?Q = "\<lambda>b. buf_document_id b = doc"
  let ?f = "\<lambda>b. do { d \<leftarrow> doc_of s b; clamp_checked R d b }"
  have f: "\<exists>b'. ?f b = Some b' \<and> keeps b b' \<and> view_ok R b' d"
    if "get_buffer (es_views s) v = Some b" "doc_of s b = Some d" for v b d
    using clamp_checked_ok [OF R views_soundD(1) [OF s that(1)], of d] that(2) by auto
  obtain s' where s': "update_views ?Q ?f s = Some s'" "views_sound R (\<lambda>b. P b \<and> \<not> ?Q b) s'"
    "\<forall>v. get_buffer (es_views s') v = map_option (\<lambda>b. if ?Q b then the (?f b) else b) (get_buffer (es_views s) v)"
    "vm_docs (es_views s') = vm_docs (es_views s)" "es_focused s' = es_focused s"
    using update_views_sound [OF R s, of ?Q ?f] f by blast
  have "rel_option keeps (get_buffer (es_views s) v) (get_buffer (es_views s') v)" for v
  proof (cases "get_buffer (es_views s) v")
    case (Some b)
    with f [OF Some] views_soundD(2) [OF s Some] show ?thesis by (auto simp: s'(3))
  qed (simp add: s'(3))
  with s' show ?thesis by (auto simp: normalize_all_views_for_doc_def views_moved_def)
qed

text \<open>Restoring snapshots leaves every view valid, and a view shows its snapshot if that fits the document.\<close>

lemma restore_view_ok:
  assumes "rope_ok R" and "sel_wf (vs_selection snap)"
  shows "view_ok R (restore_view R b d snap) d" and "keeps b (restore_view R b d snap)"
  using ensure_valid_view(1) [OF assms(1), of "b\<lparr> cursor := vs_cursor snap, buf_selection := vs_selection snap,
      scroll_line := vs_scroll_line snap, scroll_segment := vs_scroll_segment snap \<rparr>" d] assms(2)
  by (auto simp: restore_view_def keeps_def ensure_valid_selection_def Let_def)

lemma restore_snapshot_view:
  assumes R: "rope_ok R" and b: "view_ok R b d" and d: "doc_text R d' = doc_text R d"
  shows "snapshot_view (restore_view R b' d' (snapshot_view b)) = snapshot_view b"
proof -
  let ?b = "b'\<lparr> cursor := cursor b, buf_selection := buf_selection b, scroll_line := scroll_line b, scroll_segment := scroll_segment b \<rparr>"
  have "view_ok R ?b d'" using b d by (simp add: view_ok_iff [OF R])
  then have "ensure_valid_selection R ?b d' = ?b" using view_ok_live [OF R] by blast
  then show ?thesis by (simp add: restore_view_def snapshot_view_def)
qed

lemma restore_snapshots_sound:
  assumes R: "rope_ok R" and s: "views_sound R P s" and sn: "snaps_wf sn"
  shows "\<exists>s'. restore_view_snapshots R s sn = Some s' \<and> views_sound R P s' \<and>
    views_moved (\<lambda>v b. sn v \<noteq> None) s s' \<and>
    (\<forall>v b x d. get_buffer (es_views s) v = Some b \<longrightarrow> sn v = Some x \<longrightarrow> doc_of s b = Some d \<longrightarrow>
       get_buffer (es_views s') v = Some (restore_view R b d x))"
proof -
  let ?Q = "\<lambda>b. sn (buf_id b) \<noteq> None"
  let ?f = "\<lambda>b. do { snap \<leftarrow> sn (buf_id b); d \<leftarrow> doc_of s b; Some (restore_view R b d snap) }"
  have f: "\<exists>b'. ?f b = Some b' \<and> keeps b b' \<and> view_ok R b' d"
    if "get_buffer (es_views s) v = Some b" "?Q b" "doc_of s b = Some d" for v b d
    using restore_view_ok [OF R, of _ b d] sn that by (auto simp: snaps_wf_def)
  obtain s' where s': "update_views ?Q ?f s = Some s'" "views_sound R (\<lambda>b. P b \<and> \<not> ?Q b) s'"
    "\<forall>v. get_buffer (es_views s') v = map_option (\<lambda>b. if ?Q b then the (?f b) else b) (get_buffer (es_views s) v)"
    "vm_docs (es_views s') = vm_docs (es_views s)" "es_focused s' = es_focused s"
    using update_views_sound [OF R s, of ?Q ?f] f by blast
  have id: "buf_id b = v" if "get_buffer (es_views s) v = Some b" for v b
    using s vm_okD(1) [OF _ that] by (auto simp: views_sound_def)
  have "rel_option keeps (get_buffer (es_views s) v) (get_buffer (es_views s') v)" for v
  proof (cases "get_buffer (es_views s) v")
    case (Some b)
    with f [OF Some] views_soundD(2) [OF s Some] show ?thesis by (auto simp: s'(3))
  qed (simp add: s'(3))
  moreover have "views_sound R P s'" by (rule views_sound_mono [OF s'(2)]) auto
  ultimately show ?thesis using s' id by (auto simp: restore_view_snapshots_def views_moved_def)
qed

subsection \<open>Applying edits\<close>

lemma set_doc_simps [simp]:
  "get_buffer (es_views (set_doc i d s)) v = get_buffer (es_views s) v"
  "vm_docs (es_views (set_doc i d s)) = (vm_docs (es_views s))(i \<mapsto> d)"
  "doc_of (set_doc i d s) b = (if buf_document_id b = i then Some d else doc_of s b)"
  "es_focused (set_doc i d s) = es_focused s"
  by (simp_all add: set_doc_def doc_of_def)

lemma set_buffer_simps [simp]:
  "get_buffer (es_views (set_buffer b s)) v = (if v = buf_id b then Some b else get_buffer (es_views s) v)"
  "vm_docs (es_views (set_buffer b s)) = vm_docs (es_views s)"
  "doc_of (set_buffer b s) c = doc_of s c" "es_focused (set_buffer b s) = es_focused s"
  by (simp_all add: set_buffer_def doc_of_def)

lemma set_doc_sound:
  assumes s: "views_sound R P s" and d: "vm_docs (es_views s) i = Some d0" "doc_id d = i" "\<exists>tm. doc_tracks R d tm"
  shows "views_sound R (\<lambda>b. P b \<or> buf_document_id b = i) (set_doc i d s)"
proof -
  have "vm_ok (es_views (set_doc i d s))" using s d by (simp add: views_sound_def set_doc_def add_doc_ok)
  then show ?thesis using s d(3) by (auto simp: views_sound_def docs_sound_def)
qed

lemma set_doc_same_text:
  assumes R: "rope_ok R" and s: "views_sound R P s" and d: "vm_docs (es_views s) i = Some d0" "doc_id d = i" "\<exists>tm. doc_tracks R d tm"
    and "doc_text R d = doc_text R d0"
  shows "views_sound R P (set_doc i d s)"
proof -
  have "vm_ok (es_views (set_doc i d s))" using s d by (simp add: views_sound_def set_doc_def add_doc_ok)
  moreover have "view_ok R b d \<longleftrightarrow> view_ok R b d0" for b using assms(6) by (simp add: view_ok_iff [OF R])
  moreover have "\<exists>d'. doc_of (set_doc i d s) b = Some d' \<and> view_ok R b d'"
    if b: "doc_of s b = Some d1" "view_ok R b d1" for b d1
  proof (cases "buf_document_id b = i")
    case True
    then have "d1 = d0" using b(1) d(1) by (simp add: doc_of_def)
    then show ?thesis using b(2) True assms(6) by (simp add: view_ok_iff [OF R])
  qed (use b in simp)
  moreover have "docs_sound R (es_views (set_doc i d s))" using s d(3) by (auto simp: views_sound_def docs_sound_def)
  ultimately show ?thesis using s unfolding views_sound_def set_doc_simps(1) by blast
qed

lemma set_buffer_sound:
  assumes s: "views_sound R P s" and b: "get_buffer (es_views s) v = Some b" "keeps b b'" "sel_wf (buf_selection b')"
    and ok: "P b' \<or> (\<exists>d. doc_of s b' = Some d \<and> view_ok R b' d)"
  shows "views_sound R P (set_buffer b' s)"
proof -
  have vm: "vm_ok (es_views s)" using s by (simp add: views_sound_def)
  have id: "buf_id b' = v" using vm_okD(1) [OF vm b(1)] b(2) by (simp add: keeps_def)
  have "es_views (set_buffer b' s) = snd (replace_buffer v b' (es_views s))"
    using b id by (simp add: set_buffer_def replace_buffer_def keeps_def Let_def)
  then have "vm_ok (es_views (set_buffer b' s))"
    using replace_buffer_ok [OF vm b(1) id] vm_okD(3) [OF vm b(1)] b(2) by (simp add: keeps_def)
  then show ?thesis using s b id ok by (auto simp: views_sound_def docs_sound_def)
qed


lemma apply_commit_frame:
  "apply_commit R d c view = Some (d', res) \<Longrightarrow> doc_id d' = doc_id d \<and> doc_readonly d' = doc_readonly d \<and> doc_path d' = doc_path d"
  by (auto simp: apply_commit_def Let_def map_option_bind_Some split: if_splits)

lemma buf_apply_sound:
  assumes R: "rope_ok R" and d: "doc_tracks R d tm" and fits: "tx_fits tx (doc_text R d)"
    and run: "buf_apply R b d tx policy = Some (d', res)"
  shows "\<exists>tm. doc_tracks R d' tm" and "\<not> cr_applied res \<Longrightarrow> d' = d"
    and "cr_applied res \<Longrightarrow> doc_text R d' = tx_edit tx (doc_text R d) \<and> doc_version d' = doc_version d + 1"
    and "doc_id d' = doc_id d" and "doc_readonly d' = doc_readonly d"
    and "cr_applied res \<Longrightarrow> doc_tracks R d' (tl_record tm (doc_text R d) (cr_undo_recorded res) (undo_len (doc_undo_backend d')))"
proof -
  let ?c = "with_syntax (with_undo (edit_commit_new tx) (ap_undo policy)) (ap_syntax policy)"
  have c: "ec_tx ?c = tx" by (simp add: with_syntax_def with_undo_def edit_commit_new_def)
  show frame: "doc_id d' = doc_id d" "doc_readonly d' = doc_readonly d"
    using run by (auto simp: buf_apply_def commit_unchecked_def dest: apply_commit_frame split: if_splits)
  consider "is_readonly b d" | "\<not> is_readonly b d" "tx_is_identity tx" | "\<not> is_readonly b d" "\<not> tx_is_identity tx" by blast
  then have "(\<exists>tm. doc_tracks R d' tm) \<and> (\<not> cr_applied res \<longrightarrow> d' = d) \<and>
    (cr_applied res \<longrightarrow> doc_text R d' = tx_edit tx (doc_text R d) \<and> doc_version d' = doc_version d + 1 \<and>
       doc_tracks R d' (tl_record tm (doc_text R d) (cr_undo_recorded res) (undo_len (doc_undo_backend d'))))"
  proof cases
    case 3
    then have a: "apply_commit R d ?c (Some (buf_id b)) = Some (d', res)"
      using run by (simp add: buf_apply_def commit_unchecked_def)
    have u: "ec_undo ?c \<noteq> NoUndo" "head_pos (doc_undo_backend d) < u64_max" "doc_version d < u64_max"
      using apply_commit_SomeD [OF a] 3 c by auto
    show ?thesis
      using apply_commit_applied [OF R d _ _ u, of "Some (buf_id b)"] a fits 3 c by auto
  qed (use run d in \<open>auto simp: buf_apply_def commit_blocked_def commit_unchecked_def apply_commit_def c Let_def\<close>)
  then show "\<exists>tm. doc_tracks R d' tm" "\<not> cr_applied res \<Longrightarrow> d' = d"
    "cr_applied res \<Longrightarrow> doc_text R d' = tx_edit tx (doc_text R d) \<and> doc_version d' = doc_version d + 1"
    "cr_applied res \<Longrightarrow> doc_tracks R d' (tl_record tm (doc_text R d) (cr_undo_recorded res) (undo_len (doc_undo_backend d')))"
    by blast+
qed

lemma view_ok_finalized:
  assumes R: "rope_ok R" and b: "sel_wf (buf_selection b)" and sel: "selection_fits sel b (doc_text R d')"
    and run: "(case sel of Some x \<Rightarrow> finalize_selection b x | None \<Rightarrow> Some b) = Some b'"
  shows "view_ok R b' d'" and "keeps b b'"
proof -
  have "view_ok R b' d' \<and> keeps b b'"
  proof (cases sel)
    case None
    with sel run b show ?thesis by (simp add: selection_fits_def view_ok_iff [OF R])
  next
    case (Some x)
    with sel have "sel_wf x" "is_in_bounds x (length (doc_text R d'))" by (simp_all add: selection_fits_def)
    from view_okI [OF R this, of b] Some run show ?thesis
      by (auto simp: finalize_selection_def sync_cursor_to_selection_def set_selection_def keeps_def map_option_bind_Some)
  qed
  then show "view_ok R b' d'" "keeps b b'" by blast+
qed

lemma views_sound_except:
  "views_sound R P s \<Longrightarrow> doc_of s c = Some d \<Longrightarrow> view_ok R c d \<Longrightarrow> views_sound R (\<lambda>b. P b \<and> b \<noteq> c) s"
  unfolding views_sound_def by blast

text \<open>An edit through one view: the document and this view are replaced, then the other views follow.\<close>

lemma edit_own_view_sound:
  assumes s: "views_sound R (\<lambda>b. False) s" and b: "get_buffer (es_views s) v = Some b" "vm_docs (es_views s) (buf_document_id b) = Some d"
    and d': "doc_id d' = buf_document_id b" "\<exists>tm. doc_tracks R d' tm" and b': "view_ok R b' d'" "keeps b b'"
  shows "views_sound R (\<lambda>c. buf_document_id c = buf_document_id b \<and> c \<noteq> b') (set_buffer b' (set_doc (buf_document_id b) d' s))"
proof (rule views_sound_except)
  let ?i = "buf_document_id b"
  have doc: "doc_of (set_doc ?i d' s) b' = Some d'" using b'(2) by (simp add: keeps_def)
  have "views_sound R (\<lambda>c. buf_document_id c = ?i) (set_doc ?i d' s)"
    using set_doc_sound [OF s b(2) d'] by simp
  then show "views_sound R (\<lambda>c. buf_document_id c = ?i) (set_buffer b' (set_doc ?i d' s))"
    using b' b(1) doc by (intro set_buffer_sound [where b = b and v = v]) (auto simp: view_ok_def)
  show "doc_of (set_buffer b' (set_doc ?i d' s)) b' = Some d'" using doc by simp
qed (rule b'(1))

lemma siblings_synced:
  assumes R: "rope_ok R" and s: "views_sound R (\<lambda>c. buf_document_id c = i \<and> c \<noteq> b) s" and b: "get_buffer (es_views s) v = Some b"
  shows "\<exists>s'. sync_all_view_selections_for_doc R i txs (Some v) s = Some s' \<and> views_sound R (\<lambda>b. False) s' \<and>
    views_moved (\<lambda>w c. buf_document_id c = i \<and> w \<noteq> v) s s'"
proof -
  obtain s' where s': "sync_all_view_selections_for_doc R i txs (Some v) s = Some s'"
    "views_sound R (\<lambda>c. (buf_document_id c = i \<and> c \<noteq> b) \<and> (Some (buf_id c) = Some v \<or> buf_document_id c \<noteq> i)) s'"
    "views_moved (\<lambda>w c. buf_document_id c = i \<and> Some w \<noteq> Some v) s s'"
    using sync_views_sound [OF R s] by blast
  have own: "get_buffer (es_views s') v = Some b" using s'(3) b by (simp add: views_moved_def)
  have "c = b" if "get_buffer (es_views s') w = Some c" "buf_id c = v" for w c
    using that own s'(2) vm_okD(1) [of "es_views s'" w c] by (auto simp: views_sound_def)
  then have "views_sound R (\<lambda>b. False) s'" using s'(2) unfolding views_sound_def by blast
  with s'(1,3) show ?thesis by auto
qed

lemma rel_keeps_trans:
  "rel_option keeps x y \<Longrightarrow> rel_option keeps y z \<Longrightarrow> rel_option keeps x z"
  by (auto simp: option.rel_sel keeps_def)

lemma rel_keeps_refl [simp]: "rel_option keeps x x"
  by (simp add: option.rel_refl)

lemma edited_es_ok: "edited R i d' s s' \<Longrightarrow> es_ok R s \<Longrightarrow> views_sound R (\<lambda>b. False) s' \<Longrightarrow> es_ok R s'"
  by (auto simp: es_ok_def edited_def option.rel_sel)

lemma edit_outcome_sound:
  assumes R: "rope_ok R" and s: "es_ok R s" and b: "get_buffer (es_views s) v = Some b" "doc_of s b = Some d"
    and d: "tx_fits tx (doc_text R d)" and sel: "selection_fits sel b (tx_edit tx (doc_text R d))"
    and ap: "buf_apply R b d tx (policy_edit\<lparr> ap_undo := undo, ap_syntax := IncrementalOrDirty \<rparr>) = Some (d', res)"
  shows "\<exists>s'. apply_transaction_inner R v tx sel undo s = Some (res, s') \<and> es_ok R s' \<and>
     edited R (buf_document_id b) d' s s' \<and> (\<not> cr_applied res \<longrightarrow> snaps s' = snaps s)"
proof -
  let ?i = "buf_document_id b"
  have vs: "views_sound R (\<lambda>b. False) s" and vm: "vm_ok (es_views s)" using s by (auto simp: es_ok_def views_sound_def)
  have di: "vm_docs (es_views s) ?i = Some d" "doc_id d = ?i" using b(2) vm by (auto simp: doc_of_def vm_ok_def)
  obtain tm where tm: "doc_tracks R d tm" using vs di(1) unfolding views_sound_def docs_sound_def by blast
  note bs = buf_apply_sound [OF R tm d ap]
  have id: "buf_id b = v" by (rule vm_okD(1) [OF vm b(1)])
  show ?thesis
  proof (cases "cr_applied res")
    case False
    with bs(2) have "d' = d" by blast
    let ?s = "s\<lparr> lsp_local_edits := lsp_local_edits s @ [(?i, tx, res)] \<rparr>"
    have "set_buffer b (set_doc ?i d s) = s"
      using di(1) b(1) id by (simp add: set_doc_def set_buffer_def fun_upd_idem update_triv get_buffer_def)
    then have "apply_transaction_inner R v tx sel undo s = Some (res, ?s)"
      using b False ap \<open>d' = d\<close> by (auto simp: apply_transaction_inner_def split: option.splits)
    moreover have "es_ok R ?s" using s by (simp add: es_ok_def views_sound_def doc_of_def)
    ultimately show ?thesis using di(1) \<open>d' = d\<close> by (auto simp: edited_def snaps_def fun_eq_iff)
  next
    case True
    have wf: "sel_wf (buf_selection b)" by (rule views_soundD(1) [OF vs b(1)])
    have sel': "selection_fits sel b (doc_text R d')" using sel bs(3) True by simp
    obtain b' where fin: "(case sel of Some x \<Rightarrow> finalize_selection b x | None \<Rightarrow> Some b) = Some b'"
      using sel' by (cases sel) (auto simp: selection_fits_def finalize_selection_def sync_cursor_to_selection_def
          set_selection_def sel_primary_Some)
    note vb = view_ok_finalized [OF R wf sel' fin]
    have idb: "buf_id b' = v" using vb(2) id by (simp add: keeps_def)
    let ?s1 = "set_buffer b' (set_doc ?i d' s)"
    let ?s3 = "?s1\<lparr> lsp_local_edits := lsp_local_edits ?s1 @ [(?i, tx, res)],
      syntax_edits := syntax_edits ?s1 @ [(?i, doc_version d', tx_changes tx)] \<rparr>"
    have "views_sound R (\<lambda>c. buf_document_id c = ?i \<and> c \<noteq> b') ?s3"
      using edit_own_view_sound [OF vs b(1) di(1) _ bs(1) vb] bs(4) di(2) by (simp add: views_sound_def doc_of_def)
    then obtain s4 where s4: "sync_all_view_selections_for_doc R ?i [tx] (Some v) ?s3 = Some s4"
      "views_sound R (\<lambda>b. False) s4" "views_moved (\<lambda>w c. buf_document_id c = ?i \<and> w \<noteq> v) ?s3 s4"
      using siblings_synced [OF R, of ?i b' ?s3 v] idb by auto
    let ?s5 = "(mark_views_dirty ?i s4)\<lparr> dirty_buffers := insert v (dirty_buffers (mark_views_dirty ?i s4)) \<rparr>"
    have run: "apply_transaction_inner R v tx sel undo s = Some (res, ?s5)"
      using b True ap fin s4(1) by (auto simp: apply_transaction_inner_def Let_def split: option.splits)
    have views: "es_views ?s5 = es_views s4" "es_focused ?s5 = es_focused s" "doc_of ?s5 = doc_of s4"
      using s4(3) by (auto simp: mark_views_dirty_def doc_of_def fun_eq_iff views_moved_def)
    have "rel_option keeps (get_buffer (es_views s) w) (get_buffer (es_views s4) w)" for w
    proof (rule rel_keeps_trans)
      show "rel_option keeps (get_buffer (es_views s) w) (get_buffer (es_views ?s3) w)" using b(1) vb(2) idb by auto
      show "rel_option keeps (get_buffer (es_views ?s3) w) (get_buffer (es_views s4) w)" using s4(3) by (simp add: views_moved_def)
    qed
    moreover have "get_buffer (es_views s4) w = Some c" if "get_buffer (es_views s) w = Some c" "buf_document_id c \<noteq> ?i" for w c
      using that s4(3) idb b(1) by (cases "w = v") (auto simp: views_moved_def)
    ultimately have ed: "edited R ?i d' s ?s5" using s4(3) unfolding edited_def views by (simp add: views_moved_def)
    moreover have "views_sound R (\<lambda>b. False) ?s5" using s4(2) unfolding views_sound_def views .
    ultimately have "es_ok R ?s5" using s edited_es_ok by blast
    with run ed True show ?thesis by blast
  qed
qed


subsection \<open>Undo and redo of a document\<close>

lemma compose_all_from:
  "cs_wf net \<Longrightarrow> canonical (changes net) \<Longrightarrow> cs_len_after net = length u \<Longrightarrow> chain_fits txs u \<Longrightarrow>
     \<exists>net'. compose_all net txs = Some net' \<and> cs_wf net' \<and> canonical (changes net') \<and> cs_len net' = cs_len net"
proof (induction txs arbitrary: net u)
  case (Cons x txs)
  then have x: "tx_fits x u" "chain_fits txs (tx_edit x u)" by simp_all
  then have wf: "cs_wf (tx_changes x)" "canonical (changes (tx_changes x))" "cs_len (tx_changes x) = length u"
    by (simp_all add: tx_fits_def tx_wf_def)
  obtain c where c: "cs_compose net (tx_changes x) = Some c" "cs_wf c" "canonical (changes c)" "cs_len c = cs_len net"
    "cs_len_after c = cs_len_after (tx_changes x)"
    using cs_compose_spec [OF Cons.prems(1,2) wf(1,2)] Cons.prems(3) wf(3) by auto
  have "cs_len_after c = length (tx_edit x u)" using c length_tx_edit [OF x(1)] by simp
  from Cons.IH [OF c(2,3) this x(2)] c(1,4) show ?case by simp
qed simp

lemma compose_all_ok:
  assumes "chain_fits (tx # txs) t"
  shows "\<exists>net. compose_all (tx_changes tx) txs = Some net"
  using compose_all_from [of "tx_changes tx" "tx_edit tx t" txs] length_tx_edit [of tx t] assms
  by (auto simp: tx_fits_def tx_wf_def)

lemma find_view:
  assumes "get_buffer vm v = Some b"
  shows "\<exists>b0. find (\<lambda>c. buf_document_id c = buf_document_id b) (map snd (vm_buffers vm)) = Some b0 \<and>
    buf_document_id b0 = buf_document_id b"
  using assms by (cases "find (\<lambda>c. buf_document_id c = buf_document_id b) (map snd (vm_buffers vm))")
    (auto simp: find_None_iff find_Some_iff get_buffer_def dest!: map_of_SomeD)

lemma found_view:
  assumes "vm_ok vm" and "find (\<lambda>c. buf_document_id c = i) (map snd (vm_buffers vm)) = Some b"
  shows "\<exists>v. get_buffer vm v = Some b \<and> buf_document_id b = i"
proof -
  have "b \<in> snd ` set (vm_buffers vm)" "buf_document_id b = i"
    using assms(2) by (auto simp: find_Some_iff)
  moreover from this obtain v where "(v, b) \<in> set (vm_buffers vm)" by force
  ultimately show ?thesis using assms(1) by (auto simp: get_buffer_def vm_ok_def buffers_ok_def buffer_ids_def)
qed

lemma moved_twice:
  assumes "views_moved P s2 s3" and "views_moved P s4 s5" and "es_views s4 = es_views s3" "es_focused s4 = es_focused s3"
    and "\<And>v b b'. P v b \<Longrightarrow> keeps b b' \<Longrightarrow> P v b'"
  shows "vm_docs (es_views s5) = vm_docs (es_views s2)" "es_focused s5 = es_focused s2"
    "rel_option keeps (get_buffer (es_views s2) v) (get_buffer (es_views s5) v)"
    "get_buffer (es_views s2) v = Some b \<Longrightarrow> \<not> P v b \<Longrightarrow> get_buffer (es_views s5) v = Some b"
  using assms
  by (auto simp: views_moved_def intro: rel_keeps_trans)

text \<open>
  The two directions of history have one contract. \<open>ahead\<close> are the texts the operation leads to, the next one
  first: without any, it leaves the text alone and reports nothing; otherwise it takes one step, reports
  transactions that fit the present text one after the other, and shifts the timeline.
\<close>

locale history_direction =
  fixes R :: "'r rope_ops" and op :: "('r, 'l) document \<Rightarrow> (('r, 'l) document \<times> transaction list option) option"
    and ahead :: "timeline \<Rightarrow> utext list" and shift :: "timeline \<Rightarrow> utext \<Rightarrow> timeline"
  assumes frame: "op d = Some (d', txs) \<Longrightarrow> doc_id d' = doc_id d \<and> doc_readonly d' = doc_readonly d"
    and at_end: "doc_tracks R d tm \<Longrightarrow> ahead tm = [] \<Longrightarrow>
      \<exists>d'. op d = Some (d', None) \<and> doc_text R d' = doc_text R d \<and> doc_tracks R d' tm"
    and step: "doc_tracks R d tm \<Longrightarrow> ahead tm \<noteq> [] \<Longrightarrow> doc_version d < u64_max \<Longrightarrow>
      \<exists>d' txs. op d = Some (d', Some txs) \<and> doc_text R d' = hd (ahead tm) \<and> doc_version d' = doc_version d + 1 \<and>
        doc_tracks R d' (shift tm (doc_text R d)) \<and> chain_fits txs (doc_text R d)"
    and bounded: "doc_tracks R d tm \<Longrightarrow> ahead tm \<noteq> [] \<Longrightarrow> op d = Some r \<Longrightarrow> doc_version d < u64_max"
begin

lemma history_op_step:
  assumes R: "rope_ok R" and s: "es_ok R s" and b: "get_buffer (es_views s) v = Some b" "doc_of s b = Some d"
    and tm: "doc_tracks R d tm" "ahead tm \<noteq> []" "doc_version d < u64_max"
  shows "\<exists>d' s'. apply_history_op R op (buf_document_id b) s = Some (True, s') \<and> es_ok R s' \<and>
    edited R (buf_document_id b) d' s s' \<and> doc_text R d' = hd (ahead tm) \<and> doc_version d' = doc_version d + 1 \<and>
    doc_tracks R d' (shift tm (doc_text R d)) \<and> doc_readonly d' = doc_readonly d"
proof -
  let ?i = "buf_document_id b"
  have vs: "views_sound R (\<lambda>b. False) s" and vm: "vm_ok (es_views s)" using s by (auto simp: es_ok_def views_sound_def)
  have di: "vm_docs (es_views s) ?i = Some d" "doc_id d = ?i" using b(2) vm by (auto simp: doc_of_def vm_ok_def)
  obtain b0 where b0: "find (\<lambda>b. buf_document_id b = ?i) (map snd (vm_buffers (es_views s))) = Some b0" "buf_document_id b0 = ?i"
    using find_view [OF b(1)] by blast
  obtain d' txs where d': "op d = Some (d', Some txs)" "doc_text R d' = hd (ahead tm)" "doc_version d' = doc_version d + 1"
    "doc_tracks R d' (shift tm (doc_text R d))" "chain_fits txs (doc_text R d)"
    using step [OF tm] by blast
  note fr = frame [OF d'(1)]
  let ?s1 = "set_doc ?i d' s"
  have s1: "views_sound R (\<lambda>c. buf_document_id c = ?i) ?s1"
    using set_doc_sound [OF vs di(1), of d'] fr di(2) d'(4) by auto
  obtain s2 where s2: "(case txs of [] \<Rightarrow> Some ?s1
      | tx # rest \<Rightarrow> do { net \<leftarrow> compose_all (tx_changes tx) rest;
          Some (?s1\<lparr> syntax_edits := syntax_edits ?s1 @ [(?i, doc_version d', net)] \<rparr>) }) = Some s2"
      "es_views s2 = es_views ?s1" "es_focused s2 = es_focused s"
  proof (cases txs)
    case (Cons tx rest)
    then obtain net where "compose_all (tx_changes tx) rest = Some net" using compose_all_ok d'(5) by blast
    with Cons show thesis
      by (intro that [of "?s1\<lparr> syntax_edits := syntax_edits ?s1 @ [(?i, doc_version d', net)] \<rparr>"]) simp_all
  qed (intro that [of ?s1], simp_all)
  have "doc_of s2 = doc_of ?s1" using s2(2) by (simp add: doc_of_def fun_eq_iff)
  then have "views_sound R (\<lambda>c. buf_document_id c = ?i) s2" using s1 s2(2) by (simp add: views_sound_def)
  then obtain s3 where s3: "sync_all_view_selections_for_doc R ?i txs None s2 = Some s3"
    "views_sound R (\<lambda>b. False) s3" "views_moved (\<lambda>v b. buf_document_id b = ?i) s2 s3"
    using sync_views_sound [OF R, of "\<lambda>c. buf_document_id c = ?i" s2 ?i txs None] by auto
  let ?s4 = "mark_buffer_dirty_for_full_sync (buf_id b0) (mark_views_dirty ?i s3)"
  have s4: "es_views ?s4 = es_views s3" "es_focused ?s4 = es_focused s3" "doc_of ?s4 = doc_of s3"
    by (simp_all add: mark_buffer_dirty_for_full_sync_def mark_views_dirty_def Let_def doc_of_def fun_eq_iff split: option.splits)
  then have "views_sound R (\<lambda>b. False) ?s4" using s3(2) by (simp add: views_sound_def)
  then obtain s5 where s5: "normalize_all_views_for_doc R ?i ?s4 = Some s5" "views_sound R (\<lambda>b. False) s5"
    "views_moved (\<lambda>v b. buf_document_id b = ?i) ?s4 s5"
    using normalize_views_sound [OF R, of "\<lambda>b. False" ?s4 ?i] by auto
  have run: "apply_history_op R op ?i s = Some (True, s5)"
    using b0(1) di(1) b0(2) d'(1) s2(1) s3(1) s5(1) by (simp add: apply_history_op_def doc_of_def Let_def)
  have "edited R ?i d' s s5"
    using moved_twice [OF s3(3) s5(3) s4(1,2)] s2 by (auto simp: edited_def keeps_def)
  with run d' edited_es_ok [OF this s s5(2)] fr show ?thesis by blast
qed

lemma history_op_end:
  assumes R: "rope_ok R" and s: "es_ok R s" and b: "get_buffer (es_views s) v = Some b" "doc_of s b = Some d"
    and tm: "doc_tracks R d tm" "ahead tm = []"
  shows "\<exists>d' s'. apply_history_op R op (buf_document_id b) s = Some (False, s') \<and> es_ok R s' \<and>
    edited R (buf_document_id b) d' s s' \<and> doc_text R d' = doc_text R d \<and> snaps s' = snaps s \<and> doc_tracks R d' tm"
proof -
  let ?i = "buf_document_id b"
  have vs: "views_sound R (\<lambda>b. False) s" and vm: "vm_ok (es_views s)" using s by (auto simp: es_ok_def views_sound_def)
  have di: "vm_docs (es_views s) ?i = Some d" "doc_id d = ?i" using b(2) vm by (auto simp: doc_of_def vm_ok_def)
  obtain b0 where b0: "find (\<lambda>b. buf_document_id b = ?i) (map snd (vm_buffers (es_views s))) = Some b0" "buf_document_id b0 = ?i"
    using find_view [OF b(1)] by blast
  obtain d' where d': "op d = Some (d', None)" "doc_text R d' = doc_text R d" "doc_tracks R d' tm" using at_end [OF tm] by blast
  have run: "apply_history_op R op ?i s = Some (False, set_doc ?i d' s)"
    using b0 di(1) d'(1) by (simp add: apply_history_op_def doc_of_def Let_def)
  moreover have "views_sound R (\<lambda>b. False) (set_doc ?i d' s)"
    using set_doc_same_text [OF R vs di(1), of d'] frame [OF d'(1)] di(2) d'(2,3) by auto
  ultimately show ?thesis using s d' by (auto simp: es_ok_def edited_def snaps_def fun_eq_iff)
qed

lemma history_op_sound:
  assumes R: "rope_ok R" and s: "es_ok R s" and run: "apply_history_op R op i s = Some (ok, s')"
  shows "es_ok R s' \<and> (\<not> ok \<longrightarrow> texts R s' = texts R s \<and> snaps s' = snaps s)"
proof (cases "find (\<lambda>b. buf_document_id b = i) (map snd (vm_buffers (es_views s)))")
  case None
  with run s show ?thesis by (simp add: apply_history_op_def)
next
  case (Some b)
  have vs: "views_sound R (\<lambda>b. False) s" and vm: "vm_ok (es_views s)" using s by (auto simp: es_ok_def views_sound_def)
  obtain v where b: "get_buffer (es_views s) v = Some b" "buf_document_id b = i"
    using found_view [OF vm Some] by blast
  obtain d where d: "doc_of s b = Some d" using views_soundD(2) [OF vs b(1)] by blast
  have di: "vm_docs (es_views s) i = Some d" using d b(2) by (simp add: doc_of_def)
  obtain tm where tm: "doc_tracks R d tm" using vs di unfolding views_sound_def docs_sound_def by blast
  show ?thesis
  proof (cases "ahead tm = []")
    case True
    then show ?thesis using history_op_end [OF R s b(1) d tm] run b(2) di by (auto simp: texts_def edited_def fun_eq_iff)
  next
    case False
    have "op d \<noteq> None" using run Some d by (auto simp: apply_history_op_def map_option_bind_Some)
    then have "doc_version d < u64_max" using bounded [OF tm False] by blast
    from history_op_step [OF R s b(1) d tm False this] run b(2) show ?thesis by auto
  qed
qed

end

lemma doc_undo_frame:
  "doc_undo R d = Some (d', txs) \<Longrightarrow> doc_id d' = doc_id d \<and> doc_readonly d' = doc_readonly d"
  "doc_redo R d = Some (d', txs) \<Longrightarrow> doc_id d' = doc_id d \<and> doc_readonly d' = doc_readonly d"
  by (auto simp: doc_undo_def doc_redo_def map_option_bind_Some)

lemma past_iff_undo_stack:
  "simulates R s t tm \<Longrightarrow> tl_past tm = [] \<longleftrightarrow> undo_stack s = []"
  "simulates R s t tm \<Longrightarrow> tl_future tm = [] \<longleftrightarrow> redo_stack s = []"
  by (auto simp: simulates_def tracks_def length_0_conv [symmetric] simp del: length_0_conv)

lemma drop_owner_simulates: "simulates R s t tm \<Longrightarrow> simulates R (s\<lparr> active_group_owner := None \<rparr>) t tm"
  by (auto simp: simulates_def tracks_def store_inv_counted counted_def)

interpretation undo_dir: history_direction R "doc_undo R" tl_past tl_undo
  for R :: "'r rope_ops"
proof
  fix d d' :: "('r, 'l) document" and txs tm r
  show "doc_undo R d = Some (d', txs) \<Longrightarrow> doc_id d' = doc_id d \<and> doc_readonly d' = doc_readonly d"
    by (rule doc_undo_frame)
  show "\<exists>d'. doc_undo R d = Some (d', None) \<and> doc_text R d' = doc_text R d \<and> doc_tracks R d' tm"
    if "doc_tracks R d tm" "tl_past tm = []"
    using that past_iff_undo_stack(1) [of R "doc_undo_backend d" "doc_text R d" tm] drop_owner_simulates
    by (simp add: doc_tracks_def doc_undo_def backend_undo_def store_undo_def Let_def doc_text_def)
  show "\<exists>d' txs. doc_undo R d = Some (d', Some txs) \<and> doc_text R d' = hd (tl_past tm) \<and> doc_version d' = doc_version d + 1 \<and>
      doc_tracks R d' (tl_undo tm (doc_text R d)) \<and> chain_fits txs (doc_text R d)"
    if "doc_tracks R d tm" "tl_past tm \<noteq> []" "doc_version d < u64_max"
    using that backend_undo_simulates [of R "doc_undo_backend d" "doc_content d" tm "doc_version d"]
      history_steps_fit(1) [of R "doc_undo_backend d" "doc_text R d" tm] past_iff_undo_stack(1)
    by (fastforce simp: doc_tracks_def doc_text_def doc_undo_def)
  show "doc_version d < u64_max" if "doc_tracks R d tm" "tl_past tm \<noteq> []" "doc_undo R d = Some r"
    using that past_iff_undo_stack(1) backend_undo_version
    by (fastforce simp: doc_tracks_def doc_undo_def map_option_bind_Some)
qed

interpretation redo_dir: history_direction R "doc_redo R" tl_future tl_redo
  for R :: "'r rope_ops"
proof
  fix d d' :: "('r, 'l) document" and txs tm r
  show "doc_redo R d = Some (d', txs) \<Longrightarrow> doc_id d' = doc_id d \<and> doc_readonly d' = doc_readonly d"
    by (rule doc_undo_frame)
  show "\<exists>d'. doc_redo R d = Some (d', None) \<and> doc_text R d' = doc_text R d \<and> doc_tracks R d' tm"
    if "doc_tracks R d tm" "tl_future tm = []"
    using that past_iff_undo_stack(2) [of R "doc_undo_backend d" "doc_text R d" tm] drop_owner_simulates
    by (simp add: doc_tracks_def doc_redo_def backend_redo_def store_redo_def Let_def doc_text_def)
  show "\<exists>d' txs. doc_redo R d = Some (d', Some txs) \<and> doc_text R d' = hd (tl_future tm) \<and> doc_version d' = doc_version d + 1 \<and>
      doc_tracks R d' (tl_redo tm (doc_text R d)) \<and> chain_fits txs (doc_text R d)"
    if "doc_tracks R d tm" "tl_future tm \<noteq> []" "doc_version d < u64_max"
    using that backend_redo_simulates [of R "doc_undo_backend d" "doc_content d" tm "doc_version d"]
      history_steps_fit(2) [of R "doc_undo_backend d" "doc_text R d" tm] past_iff_undo_stack(2)
    by (fastforce simp: doc_tracks_def doc_text_def doc_redo_def)
  show "doc_version d < u64_max" if "doc_tracks R d tm" "tl_future tm \<noteq> []" "doc_redo R d = Some r"
    using that past_iff_undo_stack(2) backend_redo_version
    by (fastforce simp: doc_tracks_def doc_redo_def map_option_bind_Some)
qed


subsection \<open>The contract between the undo manager and its host\<close>

text \<open>
  What the manager relies on: the host stays in a sound state, snapshots it hands out are well-formed and it can
  restore any such snapshots, an operation on one document that fails leaves what the user sees
  (\<open>shown\<close>) as it is, and notifications only notify.
\<close>

locale host_contract =
  fixes H :: "'h undo_host" and sound :: "'h \<Rightarrow> bool" and shown :: "'h \<Rightarrow> 'o"
  assumes guard: "sound h \<Longrightarrow> uh_guard_readonly H h = Some (w, h') \<Longrightarrow> sound h' \<and> shown h' = shown h"
    and snapshots: "sound h \<Longrightarrow> snaps_wf (uh_collect_view_snapshots H h doc)"
      "sound h \<Longrightarrow> snaps_wf (uh_capture_current_view_snapshots H h docs)"
    and restore: "sound h \<Longrightarrow> snaps_wf sn \<Longrightarrow> uh_restore_view_snapshots H h sn = Some h' \<Longrightarrow> sound h'"
    and documents: "sound h \<Longrightarrow> uh_undo_documents H h docs = Some (ok, h') \<Longrightarrow> sound h'"
      "sound h \<Longrightarrow> uh_redo_documents H h docs = Some (ok, h') \<Longrightarrow> sound h'"
    and single: "sound h \<Longrightarrow> uh_undo_documents H h [doc] = Some (False, h') \<Longrightarrow> shown h' = shown h"
      "sound h \<Longrightarrow> uh_redo_documents H h [doc] = Some (False, h') \<Longrightarrow> shown h' = shown h"
    and notify: "sound h \<Longrightarrow> sound (uh_notify_undo H h)" "sound h \<Longrightarrow> sound (uh_notify_redo H h)"
      "sound h \<Longrightarrow> sound (uh_notify_nothing_to_undo H h) \<and> shown (uh_notify_nothing_to_undo H h) = shown h"
      "sound h \<Longrightarrow> sound (uh_notify_nothing_to_redo H h) \<and> shown (uh_notify_nothing_to_redo H h) = shown h"
begin

lemma um_undo_keeps:
  assumes "sound h" and "groups_wf m" and "um_undo H m h = Some (ok, m', h')"
  shows "sound h'" and "groups_wf m'" and "\<not> ok \<Longrightarrow> m' = m"
    and "\<not> ok \<Longrightarrow> \<forall>g \<in> set (um_undo_stack m). length (g_docs g) = 1 \<Longrightarrow> shown h' = shown h"
proof -
  obtain w h1 where g: "uh_guard_readonly H h = Some (w, h1)" "sound h1" "shown h1 = shown h"
    using assms(1,3) guard by (fastforce simp: um_undo_def map_option_bind_Some)
  consider "\<not> w" | "w" "um_undo_stack m = []" | grp rest where "w" "um_undo_stack m = grp # rest"
    by (cases "um_undo_stack m") auto
  then have "sound h' \<and> groups_wf m' \<and> (\<not> ok \<longrightarrow> m' = m \<and>
      ((\<forall>g \<in> set (um_undo_stack m). length (g_docs g) = 1) \<longrightarrow> shown h' = shown h))"
  proof cases
    case 3
    then obtain ok1 h2 where d: "uh_undo_documents H h1 (g_docs grp) = Some (ok1, h2)"
      using assms(3) g(1) by (auto simp: um_undo_def map_option_bind_Some Let_def split: if_splits)
    have wf: "snaps_wf (g_views grp)" using assms(2) 3(2) by (simp add: groups_wf_def)
    show ?thesis
    proof (cases ok1)
      case True
      then obtain h3 where "uh_restore_view_snapshots H h2 (g_views grp) = Some h3"
        using assms(3) g(1) d 3 by (auto simp: um_undo_def map_option_bind_Some Let_def)
      then show ?thesis
        using assms(2,3) g d 3 True snapshots(2) [OF g(2)] documents(1) [OF g(2) d] restore notify(1) wf
        by (auto simp: um_undo_def groups_wf_def Let_def)
    next
      case False
      have one: "shown h2 = shown h1" if "length (g_docs grp) = 1"
        using that single(1) [OF g(2)] d False by (auto simp: length_Suc_conv)
      have "m' = m\<lparr> um_undo_stack := grp # rest \<rparr>" "h' = uh_notify_nothing_to_undo H h2" "\<not> ok"
        using assms(3) g(1) d 3 False by (auto simp: um_undo_def)
      with 3(2) show ?thesis using assms(2) g(3) one documents(1) [OF g(2) d] notify(3) by (cases m) auto
    qed
  qed (use assms g notify in \<open>auto simp: um_undo_def\<close>)
  then show "sound h'" "groups_wf m'" "\<not> ok \<Longrightarrow> m' = m"
    "\<not> ok \<Longrightarrow> \<forall>g \<in> set (um_undo_stack m). length (g_docs g) = 1 \<Longrightarrow> shown h' = shown h" by blast+
qed

lemma with_edit_keeps:
  assumes "sound h" and "groups_wf m" and "with_edit H m h view origin f = Some (ok, m', h')"
    and "\<And>res h1. f h = Some (res, h1) \<Longrightarrow> sound h1"
  shows "sound h' \<and> groups_wf m' \<and> (\<not> ok \<longrightarrow> m' = m)"
  using assms snapshots(1) [OF assms(1)]
  by (auto simp: with_edit_def prepare_edit_def finalize_edit_def push_undo_group_def groups_wf_def map_option_bind_Some Let_def
      split: if_splits)

end

lemma um_redo_dual:
  "um_redo H m h = map_option (\<lambda>(ok, m, h). (ok, swap_stacks m, h)) (um_undo (swap_host H) (swap_stacks m) h)"
proof (cases "uh_guard_readonly H h")
  case (Some wh)
  obtain w h1 where wh: "wh = (w, h1)" by fastforce
  show ?thesis
  proof (cases "um_redo_stack m")
    case (Cons g rest)
    show ?thesis
    proof (cases "uh_redo_documents H h1 (g_docs g)")
      case d: (Some r)
      obtain ok h2 where r: "r = (ok, h2)" by fastforce
      show ?thesis
        using Some wh Cons d r by (cases "uh_restore_view_snapshots H h2 (g_views g)")
          (simp_all add: um_redo_def um_undo_def swap_stacks_def swap_host_def Let_def)
    qed (use Some wh Cons in \<open>simp add: um_redo_def um_undo_def swap_stacks_def swap_host_def Let_def\<close>)
  qed (use Some wh in \<open>simp add: um_redo_def um_undo_def swap_stacks_def swap_host_def\<close>)
qed (simp add: um_redo_def um_undo_def swap_host_def)

lemma swap_contract:
  assumes c: "host_contract H sound shown"
  shows "host_contract (swap_host H) sound shown"
proof -
  have swap: "uh_guard_readonly (swap_host H) = uh_guard_readonly H"
    "uh_collect_view_snapshots (swap_host H) = uh_collect_view_snapshots H"
    "uh_capture_current_view_snapshots (swap_host H) = uh_capture_current_view_snapshots H"
    "uh_restore_view_snapshots (swap_host H) = uh_restore_view_snapshots H"
    "uh_undo_documents (swap_host H) = uh_redo_documents H" "uh_redo_documents (swap_host H) = uh_undo_documents H"
    "uh_notify_undo (swap_host H) = uh_notify_redo H" "uh_notify_redo (swap_host H) = uh_notify_undo H"
    "uh_notify_nothing_to_undo (swap_host H) = uh_notify_nothing_to_redo H"
    "uh_notify_nothing_to_redo (swap_host H) = uh_notify_nothing_to_undo H"
    by (simp_all add: swap_host_def)
  show ?thesis using c unfolding host_contract_def swap by (elim conjE) (intro conjI; assumption)
qed

context host_contract
begin

lemma um_redo_keeps:
  assumes "sound h" and "groups_wf m" and run: "um_redo H m h = Some (ok, m', h')"
  shows "sound h'" and "groups_wf m'" and "\<not> ok \<Longrightarrow> m' = m"
    and "\<not> ok \<Longrightarrow> \<forall>g \<in> set (um_redo_stack m). length (g_docs g) = 1 \<Longrightarrow> shown h' = shown h"
proof -
  obtain m1 where m1: "um_undo (swap_host H) (swap_stacks m) h = Some (ok, m1, h')" "m' = swap_stacks m1"
    using run unfolding um_redo_dual by auto
  have sw: "groups_wf (swap_stacks x) = groups_wf x" "swap_stacks (swap_stacks x) = x"
    "um_undo_stack (swap_stacks x) = um_redo_stack x" for x
    by (auto simp: groups_wf_def swap_stacks_def)
  note k = host_contract.um_undo_keeps [OF swap_contract [OF host_contract_axioms] assms(1) _ m1(1)]
  show "sound h'" "groups_wf m'" "\<not> ok \<Longrightarrow> m' = m"
    "\<not> ok \<Longrightarrow> \<forall>g \<in> set (um_redo_stack m). length (g_docs g) = 1 \<Longrightarrow> shown h' = shown h"
    using k assms(2) m1(2) sw by auto
qed

end


subsection \<open>The editor fulfils the contract\<close>

lemma es_notify_simps [simp]:
  "es_views (es_notify k s) = es_views s" "es_focused (es_notify k s) = es_focused s" "doc_of (es_notify k s) = doc_of s"
  "texts R (es_notify k s) = texts R s" "snaps (es_notify k s) = snaps s" "es_ok R (es_notify k s) = es_ok R s"
  by (simp_all add: es_notify_def doc_of_def texts_def snaps_def es_ok_def views_sound_def fun_eq_iff)

lemma guard_readonly_cases:
  "es_guard_readonly s = Some (w, s') \<Longrightarrow> w \<and> s' = s \<or> \<not> w \<and> s' = es_notify BufferReadonly s"
  by (auto simp: es_guard_readonly_def map_option_bind_Some split: if_splits)

lemma view_snapshots_wf: "es_ok R s \<Longrightarrow> snaps_wf (view_snapshots P s)"
  by (auto simp: snaps_wf_def view_snapshots_def es_ok_def views_sound_def snapshot_view_def split: option.splits if_splits)

lemma moved_es_ok: "views_moved P s s' \<Longrightarrow> es_ok R s \<Longrightarrow> views_sound R (\<lambda>b. False) s' \<Longrightarrow> es_ok R s'"
  by (auto simp: es_ok_def views_moved_def option.rel_sel)

lemma restore_es_ok:
  assumes "rope_ok R" and s: "es_ok R s" and "snaps_wf sn" and "restore_view_snapshots R s sn = Some s'"
  shows "es_ok R s'"
proof -
  have "views_sound R (\<lambda>b. False) s" using s by (simp add: es_ok_def)
  from restore_snapshots_sound [OF assms(1) this assms(3)] assms(4)
  have "views_sound R (\<lambda>b. False) s'" "views_moved (\<lambda>v b. sn v \<noteq> None) s s'" by auto
  then show ?thesis using moved_es_ok s by blast
qed

lemma all_docs_invariant:
  assumes "\<And>i s ok s'. I s \<Longrightarrow> f i s = Some (ok, s') \<Longrightarrow> I s'"
  shows "I s \<Longrightarrow> all_docs f s docs = Some (ok, s') \<Longrightarrow> I s'"
proof (induction docs arbitrary: s)
  case (Cons i docs)
  then show ?case using assms by (fastforce simp: map_option_bind_Some split: if_splits)
qed simp

lemma all_docs_single: "all_docs f s [i] = Some (False, s') \<Longrightarrow> f i s = Some (False, s')"
  by (auto simp: map_option_bind_Some split: if_splits)

interpretation ehc: host_contract "editor_host R" "\<lambda>s. rope_ok R \<and> es_ok R s" "\<lambda>s. (texts R s, snaps s)"
  for R :: "'r rope_ops"
proof
  fix s s' :: "('r, 'l) editor_state" and w ok :: bool and docs doc sn
  show "rope_ok R \<and> es_ok R s \<Longrightarrow> uh_guard_readonly (editor_host R) s = Some (w, s') \<Longrightarrow>
      (rope_ok R \<and> es_ok R s') \<and> (texts R s', snaps s') = (texts R s, snaps s)"
    using guard_readonly_cases [of s w s'] by (auto simp: editor_host_def)
  show "rope_ok R \<and> es_ok R s \<Longrightarrow> snaps_wf (uh_collect_view_snapshots (editor_host R) s doc)"
    "rope_ok R \<and> es_ok R s \<Longrightarrow> snaps_wf (uh_capture_current_view_snapshots (editor_host R) s docs)"
    using view_snapshots_wf by (auto simp: editor_host_def)
  show "rope_ok R \<and> es_ok R s \<Longrightarrow> snaps_wf sn \<Longrightarrow> uh_restore_view_snapshots (editor_host R) s sn = Some s' \<Longrightarrow> rope_ok R \<and> es_ok R s'"
    using restore_es_ok [of R s sn s'] by (auto simp: editor_host_def)
  show "rope_ok R \<and> es_ok R s \<Longrightarrow> uh_undo_documents (editor_host R) s docs = Some (ok, s') \<Longrightarrow> rope_ok R \<and> es_ok R s'"
    using all_docs_invariant [of "\<lambda>s. rope_ok R \<and> es_ok R s" "undo_document R" s docs ok s'] undo_dir.history_op_sound [of R]
    by (auto simp: editor_host_def undo_document_def)
  show "rope_ok R \<and> es_ok R s \<Longrightarrow> uh_redo_documents (editor_host R) s docs = Some (ok, s') \<Longrightarrow> rope_ok R \<and> es_ok R s'"
    using all_docs_invariant [of "\<lambda>s. rope_ok R \<and> es_ok R s" "redo_document R" s docs ok s'] redo_dir.history_op_sound [of R]
    by (auto simp: editor_host_def redo_document_def)
  show "rope_ok R \<and> es_ok R s \<Longrightarrow> uh_undo_documents (editor_host R) s [doc] = Some (False, s') \<Longrightarrow>
      (texts R s', snaps s') = (texts R s, snaps s)"
    using all_docs_single [of "undo_document R" s doc s'] undo_dir.history_op_sound [of R s doc False s']
    by (simp add: editor_host_def undo_document_def del: all_docs.simps)
  show "rope_ok R \<and> es_ok R s \<Longrightarrow> uh_redo_documents (editor_host R) s [doc] = Some (False, s') \<Longrightarrow>
      (texts R s', snaps s') = (texts R s, snaps s)"
    using all_docs_single [of "redo_document R" s doc s'] redo_dir.history_op_sound [of R s doc False s']
    by (simp add: editor_host_def redo_document_def del: all_docs.simps)
qed (simp_all add: editor_host_def)

subsection \<open>One edit, undone and redone\<close>

text \<open>
  A step of history from \<open>s1\<close> back to what was seen in \<open>s0\<close>: when the two differ in one document and its views
  only, and the next text of that document is its text in \<open>s0\<close>, then moving the document and restoring the snapshots
  taken in \<open>s0\<close> shows again what was seen there.
\<close>

context history_direction
begin

lemma history_leg:
  assumes R: "rope_ok R" and s0: "es_ok R s0" and s1: "es_ok R s1" and ed: "edited R i d1 s0 s1"
    and d0: "vm_docs (es_views s0) i = Some d0" and v: "views_of (es_views s0) i \<noteq> {}"
    and tm: "doc_tracks R d1 tm" "ahead tm = doc_text R d0 # rest" "doc_version d1 < u64_max"
  shows "\<exists>s2 s3 d2. apply_history_op R op i s1 = Some (True, s2) \<and>
    restore_view_snapshots R s2 (view_snapshots (\<lambda>b. buf_document_id b = i) s0) = Some s3 \<and> es_ok R s3 \<and>
    texts R s3 = texts R s0 \<and> snaps s3 = snaps s0 \<and> edited R i d2 s1 s3 \<and>
    doc_tracks R d2 (shift tm (doc_text R d1)) \<and> doc_version d2 = doc_version d1 + 1 \<and> doc_readonly d2 = doc_readonly d1"
proof -
  let ?sn = "view_snapshots (\<lambda>b. buf_document_id b = i) s0"
  obtain w b0 where w: "get_buffer (es_views s0) w = Some b0" "buf_document_id b0 = i" using v by (auto simp: views_of_def)
  then obtain b1 where b1: "get_buffer (es_views s1) w = Some b1" "buf_document_id b1 = i"
    using ed by (auto simp: edited_def option.rel_sel keeps_def)
  have doc1: "doc_of s1 b1 = Some d1" using ed b1(2) by (simp add: edited_def doc_of_def)
  obtain d2 s2 where s2: "apply_history_op R op i s1 = Some (True, s2)" "es_ok R s2" "edited R i d2 s1 s2"
    "doc_text R d2 = doc_text R d0" "doc_version d2 = doc_version d1 + 1" "doc_tracks R d2 (shift tm (doc_text R d1))"
    "doc_readonly d2 = doc_readonly d1"
    using history_op_step [OF R s1 b1(1) doc1 tm(1) _ tm(3)] tm(2) b1(2) by auto
  have "views_sound R (\<lambda>b. False) s2" using s2(2) by (simp add: es_ok_def)
  from restore_snapshots_sound [OF R this view_snapshots_wf [OF s0]]
  obtain s3 where s3: "restore_view_snapshots R s2 ?sn = Some s3" "views_sound R (\<lambda>b. False) s3"
    "views_moved (\<lambda>v b. ?sn v \<noteq> None) s2 s3"
    "\<forall>v b x d. get_buffer (es_views s2) v = Some b \<longrightarrow> ?sn v = Some x \<longrightarrow> doc_of s2 b = Some d \<longrightarrow>
       get_buffer (es_views s3) v = Some (restore_view R b d x)"
    by blast
  have rel: "rel_option keeps (get_buffer (es_views s0) v) (get_buffer (es_views s2) v)" for v
    using ed s2(3) by (auto simp: edited_def intro: rel_keeps_trans)
  have snap: "snaps s3 v = snaps s0 v" for v
  proof (cases "get_buffer (es_views s0) v")
    case None
    then show ?thesis using rel [of v] s3(3) by (auto simp: snaps_def views_moved_def option.rel_sel)
  next
    case (Some b)
    then obtain b2 where b2: "get_buffer (es_views s2) v = Some b2" "keeps b b2" using rel [of v] by (auto simp: option.rel_sel)
    show ?thesis
    proof (cases "buf_document_id b = i")
      case True
      have "doc_of s2 b2 = Some d2" using s2(3) b2(2) True by (simp add: doc_of_def edited_def keeps_def)
      moreover have "?sn v = Some (snapshot_view b)" using Some True by (simp add: view_snapshots_def)
      moreover have "view_ok R b d0" using views_soundD(3) [of R _ s0, OF _ Some] s0 True d0 by (auto simp: es_ok_def doc_of_def)
      ultimately show ?thesis using s3(4) b2(1) restore_snapshot_view [OF R _ s2(4)] Some by (simp add: snaps_def)
    next
      case False
      then have "get_buffer (es_views s2) v = Some b" using Some ed s2(3) by (auto simp: edited_def)
      moreover have "?sn v = None" using Some False by (simp add: view_snapshots_def)
      ultimately show ?thesis using s3(3) Some by (simp add: snaps_def views_moved_def)
    qed
  qed
  have "texts R s3 j = texts R s0 j" for j
    using s3(3) s2(3,4) ed d0 by (auto simp: texts_def views_moved_def edited_def)
  moreover have "edited R i d2 s1 s3"
  proof -
    have other: "?sn v = None" if "get_buffer (es_views s1) v = Some b" "buf_document_id b \<noteq> i" for v b
    proof -
      have "rel_option keeps (get_buffer (es_views s0) v) (get_buffer (es_views s1) v)" using ed by (simp add: edited_def)
      then show ?thesis using that by (auto simp: view_snapshots_def option.rel_sel keeps_def split: option.splits)
    qed
    have "rel_option keeps (get_buffer (es_views s1) v) (get_buffer (es_views s3) v)" for v
      using s2(3) s3(3) by (auto simp: edited_def views_moved_def intro: rel_keeps_trans)
    moreover have "get_buffer (es_views s3) v = Some b" if "get_buffer (es_views s1) v = Some b" "buf_document_id b \<noteq> i" for v b
      using that s2(3) s3(3) other [OF that] by (simp add: edited_def views_moved_def)
    ultimately show ?thesis using s2(3) s3(3) by (simp add: edited_def views_moved_def)
  qed
  moreover have "es_ok R s3" using moved_es_ok [OF s3(3) s2(2) s3(2)] .
  ultimately show ?thesis using s2(1,5-7) s3(1) ext [of "snaps s3" "snaps s0", OF snap] by (blast intro: ext)
qed

end


text \<open>The focused view stays writable when a document changes but not its read-only flag.\<close>

lemma guard_edited:
  assumes "es_guard_readonly s = Some (True, s)" and "edited R i d' s s'"
    and "vm_docs (es_views s) i = Some d" and "doc_readonly d' = doc_readonly d"
  shows "es_guard_readonly s' = Some (True, s')"
proof -
  obtain b db where b: "get_buffer (es_views s) (es_focused s) = Some b" "doc_of s b = Some db" "\<not> is_readonly b db"
    using assms(1) by (auto simp: es_guard_readonly_def map_option_bind_Some split: if_splits)
  then obtain b' where b': "get_buffer (es_views s') (es_focused s') = Some b'" "keeps b b'"
    using assms(2) by (auto simp: edited_def option.rel_sel)
  moreover from b b' assms(2-4) have "doc_of s' b' = Some (if buf_document_id b = i then d' else db)"
    by (auto simp: doc_of_def edited_def keeps_def)
  ultimately show ?thesis using b assms(3,4)
    by (auto simp: es_guard_readonly_def is_readonly_def keeps_def doc_of_def)
qed

lemma edited_mono: "edited R i d' s s' \<Longrightarrow> edited R i d' (es_notify k s) s'" "edited R i d' s s' \<Longrightarrow> edited R i d' s (es_notify k s')"
  by (auto simp: edited_def)

lemma um_undo_run:
  assumes "es_guard_readonly s = Some (True, s)" and "um_undo_stack m = g # rest" and "g_docs g = [i]"
    and "apply_history_op R (doc_undo R) i s = Some (True, s2)" and "restore_view_snapshots R s2 (g_views g) = Some s3"
  shows "um_undo (editor_host R) m s = Some (True,
    m\<lparr> um_undo_stack := rest, um_redo_stack :=
      \<lparr> g_docs = [i], g_views = view_snapshots (\<lambda>b. buf_document_id b = i) s, g_origin = g_origin g \<rparr> # um_redo_stack m \<rparr>,
    es_notify NoticeUndo s3)"
  using assms by (simp add: um_undo_def editor_host_def undo_document_def)

lemma um_redo_run:
  assumes "es_guard_readonly s = Some (True, s)" and "um_redo_stack m = g # rest" and "g_docs g = [i]"
    and "apply_history_op R (doc_redo R) i s = Some (True, s2)" and "restore_view_snapshots R s2 (g_views g) = Some s3"
  shows "um_redo (editor_host R) m s = Some (True,
    m\<lparr> um_redo_stack := rest, um_undo_stack :=
      \<lparr> g_docs = [i], g_views = view_snapshots (\<lambda>b. buf_document_id b = i) s, g_origin = g_origin g \<rparr> # um_undo_stack m \<rparr>,
    es_notify NoticeRedo s3)"
  using assms by (simp add: um_redo_def editor_host_def redo_document_def)

lemma view_snapshots_notify [simp]: "view_snapshots P (es_notify k s) = view_snapshots P s"
  by (simp add: view_snapshots_def fun_eq_iff)

text \<open>From any state in which one document and its views were edited, with the edit on top of the histories.\<close>

lemma undo_redo_from:
  assumes R: "rope_ok R" and s: "es_ok R s" "es_ok R s1" and ed: "edited R i d1 s s1" and d: "vm_docs (es_views s) i = Some d"
    and v: "views_of (es_views s) i \<noteq> {}" and ro: "es_guard_readonly s = Some (True, s)" "doc_readonly d1 = doc_readonly d"
    and tm: "doc_tracks R d1 tm" "tl_past tm = doc_text R d # past" and room: "doc_version d1 + 1 < u64_max"
    and m: "um_undo_stack m = \<lparr> g_docs = [i], g_views = view_snapshots (\<lambda>b. buf_document_id b = i) s, g_origin = o1 \<rparr> # us"
  shows "\<exists>m2 s2 m3 s3. um_undo (editor_host R) m s1 = Some (True, m2, s2) \<and> texts R s2 = texts R s \<and> snaps s2 = snaps s \<and>
    um_undo_stack m2 = us \<and> um_redo (editor_host R) m2 s2 = Some (True, m3, s3) \<and> texts R s3 = texts R s1 \<and> snaps s3 = snaps s1 \<and>
    um_redo_stack m3 = um_redo_stack m"
proof -
  have room1: "doc_version d1 < u64_max" using room by simp
  obtain s2 s3 d2 where u: "apply_history_op R (doc_undo R) i s1 = Some (True, s2)"
    "restore_view_snapshots R s2 (view_snapshots (\<lambda>b. buf_document_id b = i) s) = Some s3" "es_ok R s3"
    "texts R s3 = texts R s" "snaps s3 = snaps s" "edited R i d2 s1 s3" "doc_tracks R d2 (tl_undo tm (doc_text R d1))"
    "doc_version d2 = doc_version d1 + 1" "doc_readonly d2 = doc_readonly d1"
    using undo_dir.history_leg [OF R s ed d v tm(1,2) room1] by auto
  have g1: "es_guard_readonly s1 = Some (True, s1)" by (rule guard_edited [OF ro(1) ed d ro(2)])
  have d1: "vm_docs (es_views s1) i = Some d1" using ed by (simp add: edited_def)
  let ?s3 = "es_notify NoticeUndo s3"
  have ed3: "edited R i d2 s1 ?s3" by (rule edited_mono(2) [OF u(6)])
  have g3: "es_guard_readonly ?s3 = Some (True, ?s3)" by (rule guard_edited [OF g1 ed3 d1 u(9)])
  have v1: "views_of (es_views s1) i \<noteq> {}"
    using v ed by (fastforce simp: views_of_def edited_def option.rel_sel keeps_def)
  have "es_ok R ?s3" using u(3) by simp
  moreover have "tl_future (tl_undo tm (doc_text R d1)) = doc_text R d1 # tl_future tm" by (simp add: tl_undo_def)
  ultimately obtain s4 s5 where r: "apply_history_op R (doc_redo R) i ?s3 = Some (True, s4)"
    "restore_view_snapshots R s4 (view_snapshots (\<lambda>b. buf_document_id b = i) s1) = Some s5"
    "texts R s5 = texts R s1" "snaps s5 = snaps s1"
    using redo_dir.history_leg [OF R s(2) _ ed3 d1 v1 u(7)] u(8) room by auto
  let ?m2 = "m\<lparr> um_undo_stack := us, um_redo_stack :=
      \<lparr> g_docs = [i], g_views = view_snapshots (\<lambda>b. buf_document_id b = i) s1, g_origin = o1 \<rparr> # um_redo_stack m \<rparr>"
  have "um_undo (editor_host R) m s1 = Some (True, ?m2, ?s3)"
    using um_undo_run [OF g1 m _ u(1)] u(2) by simp
  moreover have "um_redo (editor_host R) ?m2 ?s3 = Some (True,
      ?m2\<lparr> um_redo_stack := um_redo_stack m, um_undo_stack :=
        \<lparr> g_docs = [i], g_views = view_snapshots (\<lambda>b. buf_document_id b = i) ?s3, g_origin = o1 \<rparr> # us \<rparr>, es_notify NoticeRedo s5)"
    using um_redo_run [OF g3, of ?m2 _ _ i R s4 s5] r(1,2) by simp
  ultimately show ?thesis using u(4,5) r(3,4) by simp
qed

end
