(* ===== verification/Editor_Sound.thy ===== *)
theory Editor_Sound
  imports Editor_History
begin

text \<open>
  The editor as a whole: the states that are reachable through its editing entry points, undo, redo and the management of
  views, and what holds in all of them. The entry points and the undo manager are those of the theory
  \<open>Editor_History\<close>; here they are composed into steps. The lemmas show that every step keeps all views valid, all
  histories sound and the view index exact, that undo and redo after an edit restore texts and views, and that a failed
  undo or redo changes nothing, with the one exception of groups about several documents.
\<close>

section \<open>States and steps\<close>


text \<open>The invariant of the editor.\<close>

definition editor_ok :: "'r rope_ops \<Rightarrow> ('r, 'l) editor \<Rightarrow> bool" where
  "editor_ok R e \<longleftrightarrow> es_ok R (ed_state e) \<and> groups_wf (ed_undo_manager e)"

text \<open>An editor after start-up with one buffer.\<close>

definition ed_new :: "'r rope_ops \<Rightarrow> 'l language_loader \<Rightarrow> nat \<Rightarrow> utext \<Rightarrow> utext option \<Rightarrow> ('r, 'l) editor" where
  "ed_new R loader doc content path =
     \<lparr> ed_state = \<lparr> es_views = vm_new R loader doc content path, es_focused = 1, dirty_buffers = {}, needs_redraw = False,
         es_notifications = [], lsp_local_edits = [], lsp_full_syncs = [], syntax_edits = [] \<rparr>,
       ed_undo_manager = um_new, ed_yank = \<lparr> yank_parts = [], yank_total_chars = 0 \<rparr>, ed_edited = [] \<rparr>"



text \<open>The invariant of the view manager together with its documents.\<close>

definition vm_sound :: "'r rope_ops \<Rightarrow> ('r, 'l) view_manager \<Rightarrow> bool" where
  "vm_sound R vm \<longleftrightarrow> vm_ok vm \<and> docs_sound R vm \<and>
     (\<forall>v b. get_buffer vm v = Some b \<longrightarrow> (\<exists>d. vm_docs vm (buf_document_id b) = Some d \<and> view_ok R b d))"

text \<open>An editor on a document of one character, for the examples.\<close>

definition example_editor :: "(utext, unit) editor" where
  "example_editor = ed_new list_rope no_languages 7 [4] None"

section \<open>Lemmas\<close>

subsection \<open>Preparing edits\<close>







subsection \<open>Reachable editors\<close>


lemma editor_ok_simps [simp]:
  "editor_ok R (e\<lparr> ed_state := es_notify k (ed_state e) \<rparr>) = editor_ok R e"
  "editor_ok R (e\<lparr> ed_yank := y \<rparr>) = editor_ok R e"
  by (simp_all add: editor_ok_def)




lemma es_ok_vm: "es_ok R s \<longleftrightarrow> vm_sound R (es_views s) \<and> get_buffer (es_views s) (es_focused s) \<noteq> None"
  unfolding es_ok_def vm_sound_def views_sound_def doc_of_def by (auto simp: view_ok_def)


lemma new_view_ok: "rope_ok R \<Longrightarrow> buf_selection b = sel_point 0 \<Longrightarrow> cursor b = 0 \<Longrightarrow> view_ok R b d"
  by (simp add: view_ok_iff sel_point_def sel_single_def sel_wf_def is_in_bounds_def range_new_def range_from_def range_to_def
      range_min_def range_max_def)

lemma fresh_doc_tracks: "doc_undo_backend d = store_set_modified store_default False \<Longrightarrow> \<exists>tm. doc_tracks R d tm"
  using fresh_tracks [of R "doc_text R d"] by (auto simp: doc_tracks_def)









lemma ed_new_ok: "rope_ok R \<Longrightarrow> editor_ok R (ed_new R loader doc content path)"
proof -
  assume R: "rope_ok R"
  let ?vm = "vm_new R loader doc content path"
  have "\<exists>tm. doc_tracks R d tm" if "vm_docs ?vm i = Some d" for i d
    using that by (intro fresh_doc_tracks) (auto simp: vm_new_def buffer_new_def doc_new_def Let_def split: if_splits)
  moreover have "\<exists>d. vm_docs ?vm (buf_document_id b) = Some d \<and> view_ok R b d" if "get_buffer ?vm v = Some b" for v b
    using that by (auto simp: vm_new_def buffer_new_def get_buffer_def Let_def split: if_splits intro!: new_view_ok [OF R])
  moreover have "get_buffer ?vm 1 \<noteq> None" by (simp add: vm_new_def buffer_new_def get_buffer_def Let_def)
  ultimately show ?thesis
    by (auto simp: editor_ok_def es_ok_vm vm_sound_def docs_sound_def vm_new_ok ed_new_def groups_wf_def um_new_def)
qed






subsection \<open>An example\<close>

lemma example_apply:
  "\<exists>d res. buf_apply list_rope (fst (buffer_new list_rope 1 7 [4] None :: buffer \<times> (utext, unit) document))
       (init_syntax no_languages (doc_new list_rope 7 [4] None)) example_tx
       (policy_edit\<lparr> ap_undo := Record, ap_syntax := IncrementalOrDirty \<rparr>) = Some (d, res) \<and>
     cr_applied res \<and> cr_undo_recorded res \<and> can_undo (doc_undo_backend d)"
  by (simp add: buf_apply_def is_readonly_def buffer_new_def commit_unchecked_def apply_commit_def doc_new_def edit_commit_new_def
      with_syntax_def with_undo_def policy_edit_def example_tx_def tx_is_identity_def cs_is_identity_def tx_apply_def cs_apply_def
      list_rope_def insertion_new_def init_syntax_def no_languages_def can_undo_def store_set_modified_def store_eval)

lemma example_view1:
  "get_buffer (es_views (ed_state example_editor)) 1 = Some (fst (buffer_new list_rope 1 7 [4] None :: buffer \<times> (utext, unit) document))"
  "doc_of (ed_state example_editor) (fst (buffer_new list_rope 1 7 [4] None :: buffer \<times> (utext, unit) document)) =
     Some (init_syntax no_languages (doc_new list_rope 7 [4] None))"
  "tx_fits example_tx (doc_text list_rope (init_syntax no_languages (doc_new list_rope 7 [4] None)))"
  "selection_fits None (fst (buffer_new list_rope 1 7 [4] None :: buffer \<times> (utext, unit) document))
     (tx_edit example_tx (doc_text list_rope (init_syntax no_languages (doc_new list_rope 7 [4] None))))"
  "es_guard_readonly (ed_state example_editor) = Some (True, ed_state example_editor)"
  "texts list_rope (ed_state example_editor) 7 = Some [4]"
  using example_tx_fits
  by (simp_all add: example_editor_def ed_new_def vm_new_def get_buffer_def buffer_new_def Let_def doc_of_def doc_new_def doc_text_def
      list_rope_def selection_fits_def is_in_bounds_def sel_point_def sel_single_def range_new_def range_from_def range_to_def
      range_min_def range_max_def es_guard_readonly_def is_readonly_def init_syntax_def no_languages_def texts_def)

lemma example_edit:
  "\<exists>e1 d1. apply_edit list_rope 1 example_tx None Record MacroReplay example_editor = Some (True, e1) \<and>
     um_undo_stack (ed_undo_manager e1) \<noteq> um_undo_stack (ed_undo_manager example_editor) \<and>
     vm_docs (es_views (ed_state e1)) (buf_document_id (fst (buffer_new list_rope 1 7 [4] None :: buffer \<times> (utext, unit) document))) = Some d1 \<and>
     can_undo (doc_undo_backend d1)"
proof -
  have es: "es_ok list_rope (ed_state example_editor)"
    using ed_new_ok [OF list_rope_ok, of no_languages 7 "[4]" None] by (simp add: example_editor_def editor_ok_def)
  obtain d res where a: "buf_apply list_rope (fst (buffer_new list_rope 1 7 [4] None :: buffer \<times> (utext, unit) document))
       (init_syntax no_languages (doc_new list_rope 7 [4] None)) example_tx
       (policy_edit\<lparr> ap_undo := Record, ap_syntax := IncrementalOrDirty \<rparr>) = Some (d, res)"
    and res: "cr_applied res" "cr_undo_recorded res" "can_undo (doc_undo_backend d)"
    using example_apply by blast
  from edit_outcome_sound [OF list_rope_ok es example_view1(1-4) a] obtain s' where
    "apply_transaction_inner list_rope 1 example_tx None Record (ed_state example_editor) = Some (res, s')"
    "vm_docs (es_views s') (buf_document_id (fst (buffer_new list_rope 1 7 [4] None :: buffer \<times> (utext, unit) document))) = Some d"
    by (auto simp: edited_def)
  then show ?thesis using res example_view1(1)
    by (simp add: apply_edit_def with_edit_def prepare_edit_def editor_host_def finalize_edit_def push_undo_group_def Let_def)
qed

section \<open>Properties\<close>




text \<open>
  C21. Undo and redo restore what the user saw. After an applied edit that recorded a step of history which was not evicted
  at once, and with a writable focused view: undo succeeds, brings back the text of every document and the cursor,
  selection and scroll position of every view, and takes the group off the undo stack; redo then succeeds and leads
  back to the texts and views after the edit.
\<close>

theorem edit_undo_redo_roundtrip:
  assumes "rope_ok R" and "editor_ok R e" and "get_buffer (es_views (ed_state e)) v = Some b" and "doc_of (ed_state e) b = Some d"
    and "tx_fits tx (doc_text R d)" and "selection_fits sel b (tx_edit tx (doc_text R d))"
    and "apply_edit R v tx sel undo origin e = Some (True, e1)"
    and "um_undo_stack (ed_undo_manager e1) \<noteq> um_undo_stack (ed_undo_manager e)"
    and "vm_docs (es_views (ed_state e1)) (buf_document_id b) = Some d1" and "can_undo (doc_undo_backend d1)"
    and "es_guard_readonly (ed_state e) = Some (True, ed_state e)" and "doc_version d + 2 < u64_max"
  shows "\<exists>e2 e3. ed_undo R e1 = Some (True, e2) \<and> texts R (ed_state e2) = texts R (ed_state e) \<and>
    snaps (ed_state e2) = snaps (ed_state e) \<and> um_undo_stack (ed_undo_manager e2) = um_undo_stack (ed_undo_manager e) \<and>
    ed_redo R e2 = Some (True, e3) \<and> texts R (ed_state e3) = texts R (ed_state e1) \<and> snaps (ed_state e3) = snaps (ed_state e1)"
proof -
  let ?s = "ed_state e" and ?i = "buf_document_id b" and ?m = "ed_undo_manager e1"
  have es: "es_ok R ?s" using assms(2) by (simp add: editor_ok_def)
  obtain res s1 where r: "apply_transaction_inner R v tx sel undo ?s = Some (res, s1)" "cr_applied res" "ed_state e1 = s1"
    and m: "?m = finalize_edit (ed_undo_manager e) res
      \<lparr> pe_docs = [?i], pe_views = view_snapshots (\<lambda>b. buf_document_id b = ?i) ?s, pe_origin = origin \<rparr>"
    using assms(3,7) by (auto simp: apply_edit_def with_edit_def prepare_edit_def editor_host_def map_option_bind_Some Let_def
        split: if_splits)
  obtain d' res' where ap: "buf_apply R b d tx (policy_edit\<lparr> ap_undo := undo, ap_syntax := IncrementalOrDirty \<rparr>) = Some (d', res')"
    using r(1) assms(3,4) by (auto simp: apply_transaction_inner_def map_option_bind_Some Let_def)
  have o: "es_ok R s1" "edited R ?i d' ?s s1" "res' = res"
    using edit_outcome_sound [OF assms(1) es assms(3-6) ap] r(1) by auto
  have d1: "d1 = d'" using o(2) r(3) assms(9) by (simp add: edited_def)
  have rec: "cr_undo_recorded res" using m assms(8) r(2) by (auto simp: finalize_edit_def Let_def split: if_splits)
  have di: "vm_docs (es_views ?s) ?i = Some d" using assms(4) by (simp add: doc_of_def)
  obtain tm where tm: "doc_tracks R d tm" using es di unfolding es_ok_def views_sound_def docs_sound_def by blast
  note bs = buf_apply_sound [OF assms(1) tm assms(5) ap]
  let ?tm = "tl_record tm (doc_text R d) True (undo_len (doc_undo_backend d'))"
  have "undo_len (doc_undo_backend d') > 0" using assms(10) d1 by (simp add: can_undo_def undo_len_def)
  then have past: "tl_past ?tm = doc_text R d # take (undo_len (doc_undo_backend d') - 1) (tl_past tm)"
    by (simp add: tl_record_def take_Cons')
  have tr: "doc_tracks R d' ?tm" using bs(6) o(3) r(2) rec by simp
  have room: "doc_version d' + 1 < u64_max" using bs(3) o(3) r(2) assms(12) by simp
  have vne: "views_of (es_views ?s) ?i \<noteq> {}" using assms(3) by (auto simp: views_of_def)
  have stk: "um_undo_stack ?m = \<lparr> g_docs = [?i], g_views = view_snapshots (\<lambda>b. buf_document_id b = ?i) ?s, g_origin = origin \<rparr>
      # um_undo_stack (ed_undo_manager e)"
    using m r(2) rec by (simp add: finalize_edit_def push_undo_group_def)
  show ?thesis
    using undo_redo_from [OF assms(1) es o(1,2) di vne assms(11) bs(5) tr past room stk] r(3)
    by (fastforce simp: ed_undo_def ed_redo_def)
qed

theorem edit_undo_redo_roundtrip_witness:
  "\<exists>e1 e2. apply_edit list_rope 1 example_tx None Record MacroReplay example_editor = Some (True, e1) \<and>
     ed_undo list_rope e1 = Some (True, e2) \<and> texts list_rope (ed_state e2) 7 = Some [4]"
proof -
  let ?e = example_editor and ?b = "fst (buffer_new list_rope 1 7 [4] None :: buffer \<times> (utext, unit) document)"
  let ?d = "init_syntax no_languages (doc_new list_rope 7 [4] None) :: (utext, unit) document"
  have ok: "editor_ok list_rope ?e" unfolding example_editor_def by (rule ed_new_ok [OF list_rope_ok])
  note x = example_view1
  obtain e1 d1 where e1: "apply_edit list_rope 1 example_tx None Record MacroReplay ?e = Some (True, e1)"
    "um_undo_stack (ed_undo_manager e1) \<noteq> um_undo_stack (ed_undo_manager ?e)"
    "vm_docs (es_views (ed_state e1)) (buf_document_id ?b) = Some d1" "can_undo (doc_undo_backend d1)"
    using example_edit by blast
  have "\<exists>e2 e3. ed_undo list_rope e1 = Some (True, e2) \<and> texts list_rope (ed_state e2) = texts list_rope (ed_state ?e) \<and>
      snaps (ed_state e2) = snaps (ed_state ?e) \<and> um_undo_stack (ed_undo_manager e2) = um_undo_stack (ed_undo_manager ?e) \<and>
      ed_redo list_rope e2 = Some (True, e3) \<and> texts list_rope (ed_state e3) = texts list_rope (ed_state e1) \<and>
      snaps (ed_state e3) = snaps (ed_state e1)"
    by (rule edit_undo_redo_roundtrip [OF list_rope_ok ok x(1-4) e1 x(5)]) (simp add: doc_new_def u64_max_def)
  with e1(1) x(6) show ?thesis by auto
qed





text \<open>
  A group about two documents is undone only in part when the second one has nothing to undo: undo reports failure, the group
  stays on the stack, but the first document was already undone. Trying again undoes it once more.
\<close>

lemma partial_undo:
  assumes R: "rope_ok R" and s: "es_ok R s" and ro: "es_guard_readonly s = Some (True, s)"
    and m: "um_undo_stack m = g # rest" "g_docs g = [i, j]" "i \<noteq> j"
    and bi: "get_buffer (es_views s) v = Some b" "buf_document_id b = i" "doc_of s b = Some d"
      "doc_tracks R d tm" "tl_past tm = t # past" "doc_version d < u64_max"
    and bj: "get_buffer (es_views s) w = Some c" "buf_document_id c = j" "doc_of s c = Some d2" "doc_tracks R d2 tm2" "tl_past tm2 = []"
  shows "\<exists>s'. um_undo (editor_host R) m s = Some (False, m, s') \<and> texts R s' i = Some t"
proof -
  obtain d' s1 where s1: "apply_history_op R (doc_undo R) i s = Some (True, s1)" "es_ok R s1" "edited R i d' s s1" "doc_text R d' = t"
    using undo_dir.history_op_step [OF R s bi(1,3,4)] bi(2,5,6) by auto
  have c: "get_buffer (es_views s1) w = Some c" "doc_of s1 c = Some d2"
    using s1(3) bj m(3) by (auto simp: edited_def doc_of_def)
  obtain d2' s2 where s2: "apply_history_op R (doc_undo R) j s1 = Some (False, s2)" "edited R j d2' s1 s2"
    using undo_dir.history_op_end [OF R s1(2) c bj(4,5)] bj(2) by auto
  have "texts R s2 i = Some t" using s1(3,4) s2(2) m(3) by (simp add: texts_def edited_def)
  moreover have "um_undo (editor_host R) m s = Some (False, m, es_notify NothingToUndo s2)"
    using ro m s1(1) s2(1) by (cases m) (simp add: um_undo_def editor_host_def undo_document_def)
  ultimately show ?thesis by simp
qed

end
