(* ===== verification/Lsp_Positions.thy ===== *)
theory Lsp_Positions
  imports Transactions "HOL-Library.Word"
begin

text \<open>
  Positions and incremental changes of the language server protocol:
  \<open>crates/lsp_framework/src/position/mod.rs\<close>, \<open>crates/lsp_framework/src/changes/mod.rs\<close>,
  \<open>crates/lsp_framework/src/encoding.rs\<close> and the types of \<open>crates/primitives/src/lsp.rs\<close>. A
  position is a pair of 32-bit numbers, a line and a column counted in the units of the
  negotiated encoding. Where the code returns \<open>None\<close> for a position out of bounds, the model
  returns \<open>Some None\<close>; the outer \<open>None\<close> is a panic of the rope.

  What a server does with a change is \<open>server_apply\<close>, which follows the protocol: lines end at LF,
  CR LF or CR only, and a column past the end of its line means the end of the line. The lemmas
  show that conversion to a position and back is the identity in all three encodings, and that a
  server that applies the changes computed from a transaction obtains the text the transaction
  produces, provided the text has no line breaks but LF.
\<close>

section \<open>Data\<close>

type_synonym u32 = "32 word"

datatype offset_encoding = Utf8 | Utf16 | Utf32

record lsp_position =
  lp_line :: u32
  lp_character :: u32

record lsp_range =
  lr_start :: lsp_position
  lr_end :: lsp_position

definition lsp_range_point :: "lsp_position \<Rightarrow> lsp_range" where
  "lsp_range_point pos = \<lparr> lr_start = pos, lr_end = pos \<rparr>"

record lsp_document_change =
  dc_range :: lsp_range
  dc_new_text :: utext

datatype incremental_result = Incremental "lsp_document_change list" | FallbackToFull

section \<open>Columns\<close>

definition line_char_len_without_newline :: "utext \<Rightarrow> nat" where
  "line_char_len_without_newline line =
     (let len = length line in if len > 0 \<and> line ! (len - 1) = newline then len - 1 else len)"

text \<open>The two loops over the characters of a line, with the width of a character as argument.\<close>

fun col_scan :: "(uchar \<Rightarrow> nat) \<Rightarrow> nat \<Rightarrow> nat \<Rightarrow> nat \<Rightarrow> utext \<Rightarrow> nat option" where
  "col_scan w target char_idx count [] = None"
| "col_scan w target char_idx count (ch # chars) =
     (if count \<ge> target then Some char_idx
      else col_scan w target (Suc char_idx) (count + w ch) chars)"

fun col_count :: "(uchar \<Rightarrow> nat) \<Rightarrow> nat \<Rightarrow> nat \<Rightarrow> nat \<Rightarrow> utext \<Rightarrow> nat" where
  "col_count w char_offset idx count [] = count"
| "col_count w char_offset idx count (ch # chars) =
     (if idx \<ge> char_offset then count
      else col_count w char_offset (Suc idx) (count + w ch) chars)"

definition lsp_col_to_char_offset :: "utext \<Rightarrow> u32 \<Rightarrow> offset_encoding \<Rightarrow> nat option" where
  "lsp_col_to_char_offset line lsp_col encoding =
     (case encoding of
        Utf32 \<Rightarrow> Some (min (unat lsp_col) (line_char_len_without_newline line))
      | Utf8 \<Rightarrow> (case col_scan len_utf8 (unat lsp_col) 0 0 line of
          Some char_idx \<Rightarrow> Some char_idx
        | None \<Rightarrow> Some (line_char_len_without_newline line))
      | Utf16 \<Rightarrow> (case col_scan len_utf16 (unat lsp_col) 0 0 line of
          Some char_idx \<Rightarrow> Some char_idx
        | None \<Rightarrow> Some (line_char_len_without_newline line)))"

definition char_offset_to_lsp_col :: "utext \<Rightarrow> nat \<Rightarrow> offset_encoding \<Rightarrow> u32" where
  "char_offset_to_lsp_col line char_offset encoding =
     (case encoding of
        Utf32 \<Rightarrow> word_of_nat char_offset
      | Utf8 \<Rightarrow> word_of_nat (col_count len_utf8 char_offset 0 0 line)
      | Utf16 \<Rightarrow> word_of_nat (col_count len_utf16 char_offset 0 0 line))"

section \<open>Positions\<close>

definition lsp_position_to_char ::
  "'r rope_ops \<Rightarrow> 'r \<Rightarrow> lsp_position \<Rightarrow> offset_encoding \<Rightarrow> nat option option" where
  "lsp_position_to_char R text pos encoding =
     (let line = unat (lp_line pos) in
      if line \<ge> rp_len_lines R text then Some None
      else do {
        line_start \<leftarrow> rp_line_to_char R text line;
        line_text \<leftarrow> rp_line R text line;
        Some (map_option (\<lambda>char_offset. line_start + char_offset)
          (lsp_col_to_char_offset line_text (lp_character pos) encoding)) })"

definition char_to_lsp_position ::
  "'r rope_ops \<Rightarrow> 'r \<Rightarrow> nat \<Rightarrow> offset_encoding \<Rightarrow> lsp_position option option" where
  "char_to_lsp_position R text char_idx encoding =
     (if char_idx > rp_len_chars R text then Some None
      else do {
        line \<leftarrow> rp_char_to_line R text char_idx;
        line_start \<leftarrow> rp_line_to_char R text line;
        char_offset \<leftarrow> checked_sub64 char_idx line_start;
        line_text \<leftarrow> rp_line R text line;
        Some (Some \<lparr> lp_line = word_of_nat line,
          lp_character = char_offset_to_lsp_col line_text char_offset encoding \<rparr>) })"

definition lsp_range_to_char_range ::
  "'r rope_ops \<Rightarrow> 'r \<Rightarrow> lsp_range \<Rightarrow> offset_encoding \<Rightarrow> (nat \<times> nat) option option" where
  "lsp_range_to_char_range R text rng encoding = do {
     start \<leftarrow> lsp_position_to_char R text (lr_start rng) encoding;
     (case start of None \<Rightarrow> Some None
      | Some s \<Rightarrow> do {
          stop \<leftarrow> lsp_position_to_char R text (lr_end rng) encoding;
          Some (map_option (Pair s) stop) }) }"

definition char_range_to_lsp_range ::
  "'r rope_ops \<Rightarrow> 'r \<Rightarrow> nat \<Rightarrow> nat \<Rightarrow> offset_encoding \<Rightarrow> lsp_range option option" where
  "char_range_to_lsp_range R text start stop encoding = do {
     start_pos \<leftarrow> char_to_lsp_position R text start encoding;
     (case start_pos of None \<Rightarrow> Some None
      | Some s \<Rightarrow> do {
          stoppos \<leftarrow> char_to_lsp_position R text stop encoding;
          Some (map_option (\<lambda>e. \<lparr> lr_start = s, lr_end = e \<rparr>) stoppos) }) }"

section \<open>Changes of a transaction\<close>

text \<open>The loop of \<open>compute_lsp_changes\<close> with \<open>scratch\<close>, \<open>pos\<close> and the changes so far.\<close>

fun lsp_changes_loop ::
  "'r rope_ops \<Rightarrow> offset_encoding \<Rightarrow> operation list \<Rightarrow> 'r \<Rightarrow> nat \<Rightarrow> lsp_document_change list
     \<Rightarrow> incremental_result option" where
  "lsp_changes_loop R encoding [] scratch pos chs = Some (Incremental chs)"
| "lsp_changes_loop R encoding (Retain n # ops) scratch pos chs =
     lsp_changes_loop R encoding ops scratch (pos + n) chs"
| "lsp_changes_loop R encoding (Delete n # ops) scratch pos chs =
     (let stop = min (pos + n) (rp_len_chars R scratch) in do {
        rng \<leftarrow> char_range_to_lsp_range R scratch pos stop encoding;
        (case rng of None \<Rightarrow> Some FallbackToFull
         | Some rng \<Rightarrow> do {
             scratch' \<leftarrow> rp_remove R scratch pos stop;
             lsp_changes_loop R encoding ops scratch' pos
               (chs @ [\<lparr> dc_range = rng, dc_new_text = [] \<rparr>]) }) })"
| "lsp_changes_loop R encoding (Insert ins # ops) scratch pos chs = do {
     lsp_pos \<leftarrow> char_to_lsp_position R scratch pos encoding;
     (case lsp_pos of None \<Rightarrow> Some FallbackToFull
      | Some lsp_pos \<Rightarrow> do {
          scratch' \<leftarrow> rp_insert R scratch pos (ins_text ins);
          lsp_changes_loop R encoding ops scratch' (pos + ins_char_len ins)
            (chs @ [\<lparr> dc_range = lsp_range_point lsp_pos, dc_new_text = ins_text ins \<rparr>]) }) }"

definition compute_lsp_changes ::
  "'r rope_ops \<Rightarrow> 'r \<Rightarrow> transaction \<Rightarrow> offset_encoding \<Rightarrow> incremental_result option" where
  "compute_lsp_changes R rope tx encoding =
     (if cs_is_empty (tx_changes tx) then Some (Incremental [])
      else lsp_changes_loop R encoding (tx_operations tx) rope 0 [])"

section \<open>Specification predicates\<close>

text \<open>The width of a character in the units of an encoding, and texts whose columns fit 32 bits.\<close>

fun char_units :: "offset_encoding \<Rightarrow> uchar \<Rightarrow> nat" where
  "char_units Utf8 = len_utf8"
| "char_units Utf16 = len_utf16"
| "char_units Utf32 = (\<lambda>c. 1)"

definition fits32 :: "utext \<Rightarrow> bool" where
  "fits32 t \<longleftrightarrow> 4 * length t + 4 < 2 ^ 32"

text \<open>Texts whose only line break is LF.\<close>

definition lf_text :: "utext \<Rightarrow> bool" where
  "lf_text t \<longleftrightarrow> list_all (\<lambda>c. c \<notin> {11, 12, 13, 133, 8232, 8233}) t"

definition replace_span :: "utext \<Rightarrow> nat \<Rightarrow> nat \<Rightarrow> utext \<Rightarrow> utext" where
  "replace_span t i j s = take i t @ s @ drop j t"

text \<open>
  A server's reading of a position: the protocol's line breaks, and columns clamped to the
  content of the line. A position inside a character means the start of the next one.
\<close>

definition server_break_at :: "utext \<Rightarrow> nat \<Rightarrow> bool" where
  "server_break_at t i \<longleftrightarrow> t ! i = 10 \<or> (t ! i = 13 \<and> \<not> (Suc i < length t \<and> t ! Suc i = 10))"

definition server_lines :: "utext \<Rightarrow> nat list" where
  "server_lines t = 0 # map Suc (filter (server_break_at t) [0..<length t])"

fun units_index :: "(uchar \<Rightarrow> nat) \<Rightarrow> nat \<Rightarrow> utext \<Rightarrow> nat" where
  "units_index w n [] = 0"
| "units_index w n (c # cs) = (if n = 0 then 0 else Suc (units_index w (n - w c) cs))"

definition server_index :: "offset_encoding \<Rightarrow> utext \<Rightarrow> lsp_position \<Rightarrow> nat option" where
  "server_index encoding t pos =
     (let l = unat (lp_line pos); starts = server_lines t in
      if l < length starts then
        let content = takeWhile (\<lambda>c. c \<noteq> 10 \<and> c \<noteq> 13) (drop (starts ! l) t)
        in Some (starts ! l + units_index (char_units encoding) (unat (lp_character pos)) content)
      else None)"

definition change_apply :: "(utext \<Rightarrow> lsp_position \<Rightarrow> nat option) \<Rightarrow> lsp_document_change \<Rightarrow> utext \<Rightarrow> utext option" where
  "change_apply index c t = do {
     i \<leftarrow> index t (lr_start (dc_range c));
     j \<leftarrow> index t (lr_end (dc_range c));
     if i \<le> j then Some (replace_span t i j (dc_new_text c)) else None }"

definition server_apply :: "offset_encoding \<Rightarrow> lsp_document_change \<Rightarrow> utext \<Rightarrow> utext option" where
  "server_apply encoding = change_apply (server_index encoding)"

text \<open>The position of a text index and back, and the changes of an operation list, on plain texts.\<close>

definition breaks_before :: "utext \<Rightarrow> nat \<Rightarrow> nat list" where
  "breaks_before t i = 0 # map Suc (filter (line_break_at t) [0..<i])"

definition text_pos :: "offset_encoding \<Rightarrow> utext \<Rightarrow> nat \<Rightarrow> lsp_position" where
  "text_pos encoding t i =
     \<lparr> lp_line = word_of_nat (line_of t i),
       lp_character = char_offset_to_lsp_col (line_text t (line_of t i)) (i - line_start t (line_of t i)) encoding \<rparr>"

definition text_index :: "offset_encoding \<Rightarrow> utext \<Rightarrow> lsp_position \<Rightarrow> nat option" where
  "text_index encoding t pos =
     (let l = unat (lp_line pos) in
      if l < length (line_starts t)
      then map_option (\<lambda>n. line_start t l + n) (lsp_col_to_char_offset (line_text t l) (lp_character pos) encoding)
      else None)"

fun op_changes :: "(utext \<Rightarrow> nat \<Rightarrow> lsp_position) \<Rightarrow> operation list \<Rightarrow> nat \<Rightarrow> utext \<Rightarrow> lsp_document_change list" where
  "op_changes pos [] p t = []"
| "op_changes pos (Retain n # ops) p t = op_changes pos ops (p + n) t"
| "op_changes pos (Delete n # ops) p t =
     \<lparr> dc_range = \<lparr> lr_start = pos t p, lr_end = pos t (p + n) \<rparr>, dc_new_text = [] \<rparr> #
     op_changes pos ops p (replace_span t p (p + n) [])"
| "op_changes pos (Insert ins # ops) p t =
     \<lparr> dc_range = lsp_range_point (pos t p), dc_new_text = ins_text ins \<rparr> #
     op_changes pos ops (p + length (ins_text ins)) (replace_span t p p (ins_text ins))"

fun all_texts :: "(utext \<Rightarrow> bool) \<Rightarrow> operation list \<Rightarrow> nat \<Rightarrow> utext \<Rightarrow> bool" where
  "all_texts ok [] p t = ok t"
| "all_texts ok (Retain n # ops) p t = all_texts ok ops (p + n) t"
| "all_texts ok (Delete n # ops) p t \<longleftrightarrow> ok t \<and> all_texts ok ops p (replace_span t p (p + n) [])"
| "all_texts ok (Insert ins # ops) p t \<longleftrightarrow>
     ok t \<and> all_texts ok ops (p + length (ins_text ins)) (replace_span t p p (ins_text ins))"

fun inserted :: "operation list \<Rightarrow> utext" where
  "inserted [] = []"
| "inserted (Insert ins # ops) = ins_text ins @ inserted ops"
| "inserted (op # ops) = inserted ops"

definition sync_example_tx :: transaction where
  "sync_example_tx = \<lparr> tx_changes = \<lparr> changes = [Retain 1, Insert (insertion_new [128512, 10]), Delete 2, Retain 1],
     cs_len = 4, cs_len_after = 4 \<rparr>, tx_selection = None \<rparr>"

section \<open>Position codecs\<close>

text \<open>
  What the translation of changes relies on: positions of a text can be read back. A prefix
  codec moreover gives an index a position that depends only on the text before it.
\<close>

locale position_codec =
  fixes ok :: "utext \<Rightarrow> bool"
    and pos_of :: "utext \<Rightarrow> nat \<Rightarrow> lsp_position"
    and index_of :: "utext \<Rightarrow> lsp_position \<Rightarrow> nat option"
  assumes index_pos: "ok t \<Longrightarrow> i \<le> length t \<Longrightarrow> index_of t (pos_of t i) = Some i"
begin

lemma pos_inj: "ok t \<Longrightarrow> i \<le> length t \<Longrightarrow> j \<le> length t \<Longrightarrow> pos_of t i = pos_of t j \<longleftrightarrow> i = j"
  by (metis index_pos option.inject)

lemma change_apply_pos:
  assumes "ok t" and "i \<le> j" and "j \<le> length t"
  shows "change_apply index_of \<lparr> dc_range = \<lparr> lr_start = pos_of t i, lr_end = pos_of t j \<rparr>, dc_new_text = s \<rparr> t
    = Some (replace_span t i j s)"
  using assms by (simp add: change_apply_def index_pos)

lemma replay_op_changes:
  assumes "length t = in_len ops" and "all_texts ok ops (length u) (u @ t)"
  shows "replay (change_apply index_of) (op_changes pos_of ops (length u) (u @ t)) (u @ t) = Some (u @ edit_text ops t)"
  using assms
proof (induction ops arbitrary: u t rule: in_len.induct)
  case 1
  then show ?case by simp
next
  case (2 n ops)
  then show ?case using "2.IH" [of "drop n t" "u @ take n t"] by simp
next
  case (3 n ops)
  have s: "replace_span (u @ t) (length u) (length u + n) [] = u @ drop n t" by (simp add: replace_span_def)
  then show ?case using 3 by (simp add: change_apply_pos)
next
  case (4 ins ops)
  have s: "replace_span (u @ t) (length u) (length u) (ins_text ins) = (u @ ins_text ins) @ t" by (simp add: replace_span_def)
  then show ?case
    using "4.prems" "4.IH" [of t "u @ ins_text ins"] by (simp add: lsp_range_point_def change_apply_pos del: append_assoc)
qed

end

locale prefix_codec = position_codec +
  assumes pos_prefix: "ok t \<Longrightarrow> ok u \<Longrightarrow> i \<le> length t \<Longrightarrow> i \<le> length u \<Longrightarrow> take i t = take i u \<Longrightarrow> pos_of t i = pos_of u i"
begin

text \<open>A position before an edit is the same after it, and equal positions are equal indices.\<close>

lemma pos_after_edit:
  assumes "ok t" and "ok (replace_span t i j s)" and "i \<le> j" and "j \<le> length t" and "k \<le> i"
  shows "pos_of (replace_span t i j s) k = pos_of t k"
  using assms by (intro pos_prefix) (auto simp: replace_span_def)

lemma same_start:
  assumes "ok t" and "ok (replace_span t i j s)" and "i \<le> j" and "j \<le> length t" and "k \<le> length (replace_span t i j s)"
  shows "pos_of (replace_span t i j s) k = pos_of t i \<longleftrightarrow> k = i"
  using assms pos_after_edit [of t i j s i] pos_inj [of "replace_span t i j s" k i] by (auto simp: replace_span_def)

end

section \<open>Lemmas\<close>

subsection \<open>Lines before an index\<close>

lemma breaks_before_split:
  "i \<le> length t \<Longrightarrow> line_starts t = breaks_before t i @ map Suc (filter (line_break_at t) [i..<length t])"
  using upt_add_eq_append [of 0 i "length t - i"] by (simp add: line_starts_def breaks_before_def)

lemma line_of_breaks:
  assumes "i \<le> length t"
  shows "line_of t i = length (breaks_before t i) - 1"
    and "line_start t (line_of t i) = last (breaks_before t i)"
proof -
  have "filter (\<lambda>s. s \<le> i) (breaks_before t i) = breaks_before t i"
    by (auto simp: breaks_before_def filter_id_conv)
  moreover have "filter (\<lambda>s. s \<le> i) (map Suc (filter (line_break_at t) [i..<length t])) = []"
    by (auto simp: filter_empty_conv)
  ultimately show l: "line_of t i = length (breaks_before t i) - 1"
    by (simp add: line_of_def breaks_before_split [OF assms])
  show "line_start t (line_of t i) = last (breaks_before t i)"
    unfolding l by (simp add: line_start_def breaks_before_split [OF assms] breaks_before_def last_conv_nth nth_append)
qed

lemma no_break_since:
  assumes "last (breaks_before t i) \<le> b" and "b < i"
  shows "\<not> line_break_at t b"
proof
  assume "line_break_at t b"
  then have m: "Suc b \<in> set (breaks_before t i)" using assms by (auto simp: breaks_before_def)
  have "sorted (breaks_before t i)"
    by (simp add: breaks_before_def sorted_map sorted_wrt_filter)
  then have "Suc b \<le> last (breaks_before t i)"
    using m by (cases "breaks_before t i" rule: rev_cases) (auto simp: sorted_append)
  then show False using assms by simp
qed

lemma last_breaks_le: "last (breaks_before t i) \<le> i"
proof -
  have "last (breaks_before t i) \<in> set (breaks_before t i)" by (rule last_in_set) (simp add: breaks_before_def)
  then show ?thesis by (auto simp: breaks_before_def)
qed

lemma take_line_text:
  assumes "i \<le> length t"
  shows "take (i - line_start t (line_of t i)) (line_text t (line_of t i)) = drop (line_start t (line_of t i)) (take i t)"
  using line_of_end [OF assms] by (simp add: line_text_def drop_take)

subsection \<open>Columns\<close>

lemma col_count_sum:
  "idx \<le> off \<Longrightarrow> col_count w off idx count line = count + sum_list (map w (take (off - idx) line))"
proof (induction line arbitrary: idx count)
  case (Cons c line)
  show ?case
  proof (cases "idx = off")
    case False
    then show ?thesis using Cons.prems Cons.IH [of "Suc idx" "count + w c"] by (simp add: Suc_diff_Suc [symmetric] take_Cons')
  qed simp
qed simp

lemma char_units_pos [simp]: "0 < char_units e c" "char_units e c \<le> 4"
  by (cases e; simp add: len_utf8_def len_utf16_def)+

lemma lsp_col_units:
  "char_offset_to_lsp_col line off e = word_of_nat (sum_list (map (char_units e) (take off line)))"
  if "off \<le> length line"
  using that by (cases e) (simp_all add: char_offset_to_lsp_col_def col_count_sum map_replicate_const sum_list_replicate)

lemma col_scan_units:
  assumes "\<And>c. 0 < w c" and "k \<le> length line"
  shows "col_scan w (count + sum_list (map w (take k line))) idx count line = (if k < length line then Some (idx + k) else None)"
  using assms(2)
proof (induction line arbitrary: k count idx)
  case (Cons c line)
  show ?case
  proof (cases k)
    case (Suc m)
    then show ?thesis using Cons.prems Cons.IH [of m "count + w c" "Suc idx"] assms(1) [of c] by (simp add: add.assoc)
  qed simp
qed simp

lemma sum_units_le: "sum_list (map (char_units e) line) \<le> 4 * length line"
proof (induction line)
  case (Cons c line)
  then show ?case using add_mono [OF char_units_pos(2) [of e c] Cons.IH] by simp
qed simp


lemma len_without_newline:
  assumes "k < length line \<or> (k = length line \<and> (line = [] \<or> last line \<noteq> 10))"
  shows "k \<le> line_char_len_without_newline line"
  using assms by (auto simp: line_char_len_without_newline_def newline_def last_conv_nth Let_def)

lemma lsp_col_roundtrip:
  assumes "k < length line \<or> (k = length line \<and> (line = [] \<or> last line \<noteq> 10))" and "4 * length line < 2 ^ 32"
  shows "lsp_col_to_char_offset line (char_offset_to_lsp_col line k e) e = Some k"
proof -
  let ?n = "sum_list (map (char_units e) (take k line))"
  have k: "k \<le> length line" using assms(1) by auto
  have "?n \<le> 4 * length (take k line)" by (rule sum_units_le)
  then have "?n < 2 ^ 32" using k assms(2) by simp
  then have u: "unat (char_offset_to_lsp_col line k e) = ?n"
    using lsp_col_units [OF k, of e] by (simp add: unat_of_nat take_bit_nat_eq_self)
  have full: "line_char_len_without_newline line = length line" if "k = length line"
    using that assms(1) by (auto simp: line_char_len_without_newline_def newline_def last_conv_nth Let_def)
  show ?thesis
  proof (cases e)
    case Utf32
    then have "?n = k" using k by (simp add: map_replicate_const sum_list_replicate)
    then show ?thesis using u len_without_newline [OF assms(1)] Utf32 by (simp add: lsp_col_to_char_offset_def)
  next
    case Utf8
    then show ?thesis
      using u k full col_scan_units [of len_utf8 k line 0 0] char_units_pos(1) [of Utf8] by (auto simp: lsp_col_to_char_offset_def)
  next
    case Utf16
    then show ?thesis
      using u k full col_scan_units [of len_utf16 k line 0 0] char_units_pos(1) [of Utf16] by (auto simp: lsp_col_to_char_offset_def)
  qed
qed



text \<open>The last line of a text does not end in a line break.\<close>

lemma line_offset_inside:
  assumes "i \<le> length t"
  defines "l \<equiv> line_of t i"
  shows "i - line_start t l < length (line_text t l) \<or>
    (i - line_start t l = length (line_text t l) \<and> (line_text t l = [] \<or> last (line_text t l) \<noteq> 10))"
proof (cases "Suc l < length (line_starts t)")
  case True
  then have "i < line_start t (Suc l)" using line_of_bracket(3) [of t i] by (simp add: l_def)
  then show ?thesis using line_of_bracket(2) [of t i] by (simp add: length_line_text l_def diff_less_mono)
next
  case False
  then have e: "line_start t (Suc l) = length t" by (simp add: line_start_def)
  have "last (line_text t l) \<noteq> 10" if "line_text t l \<noteq> []"
  proof
    assume 10: "last (line_text t l) = 10"
    have lt: "line_start t l < length t" using that e by (auto simp: line_text_def)
    then have "t ! (length t - 1) = 10" using 10 e by (simp add: line_text_def last_drop last_conv_nth)
    then have "line_break_at t (length t - 1)" by (simp add: line_break_at_def Let_def)
    then have "Suc (length t - 1) \<in> set (line_starts t)" using lt by (simp add: line_starts_def)
    moreover have "Suc (length t - 1) = length t" using lt by simp
    ultimately have "length t \<in> set (line_starts t)" by simp
    then obtain m where m: "m < length (line_starts t)" "line_start t m = length t"
      by (auto simp: in_set_conv_nth line_start_def)
    then have "m \<le> l" using False by simp
    then show False using line_start_mono [of m l t] m lt by simp
  qed
  then show ?thesis using e assms by (auto simp: length_line_text le_less)
qed

lemma length_line_starts: "length (line_starts t) \<le> Suc (length t)"
  using length_filter_le [of "line_break_at t" "[0..<length t]"] by (simp add: line_starts_def)

lemma unat_line_of: "fits32 t \<Longrightarrow> unat (word_of_nat (line_of t i) :: u32) = line_of t i"
  using line_of_bracket(1) [of t i] length_line_starts [of t]
  by (simp add: unat_of_nat take_bit_nat_eq_self fits32_def)

lemma text_roundtrip:
  assumes "fits32 t" and "i \<le> length t"
  shows "text_index e t (text_pos e t i) = Some i"
proof -
  have "4 * length (line_text t (line_of t i)) < 2 ^ 32"
    using assms(1) line_start_le [of t "Suc (line_of t i)"] by (simp add: fits32_def length_line_text del: line_start_le)
  then show ?thesis
    using assms unat_line_of [OF assms(1), of i] line_of_bracket(1,2) [of t i]
      lsp_col_roundtrip [OF line_offset_inside [OF assms(2)], of e]
    by (simp add: text_index_def text_pos_def Let_def)
qed

interpretation edc: position_codec fits32 "text_pos e" "text_index e" for e
  by unfold_locales (rule text_roundtrip)


subsection \<open>Texts with LF only\<close>

lemma lf_break: "lf_text t \<Longrightarrow> i < length t \<Longrightarrow> line_break_at t i \<longleftrightarrow> t ! i = 10"
  by (auto simp: lf_text_def line_break_at_def list_all_length Let_def)

lemma lf_server_break: "lf_text t \<Longrightarrow> i < length t \<Longrightarrow> server_break_at t i \<longleftrightarrow> t ! i = 10"
  by (auto simp: lf_text_def server_break_at_def list_all_length)

lemma server_lines_lf: "lf_text t \<Longrightarrow> server_lines t = line_starts t"
  by (auto simp: server_lines_def line_starts_def lf_break lf_server_break intro!: filter_cong)

lemma breaks_before_prefix:
  assumes "lf_text t" and "lf_text u" and "i \<le> length t" and "i \<le> length u" and "take i t = take i u"
  shows "breaks_before t i = breaks_before u i"
proof -
  have "t ! b = u ! b" if "b < i" for b using that assms(5) by (metis nth_take)
  then show ?thesis using assms by (auto simp: breaks_before_def lf_break intro!: filter_cong)
qed

lemma text_pos_breaks:
  assumes "i \<le> length t"
  shows "text_pos e t i = \<lparr> lp_line = word_of_nat (length (breaks_before t i) - 1),
    lp_character = word_of_nat (sum_list (map (char_units e) (drop (last (breaks_before t i)) (take i t)))) \<rparr>"
proof -
  let ?l = "line_of t i"
  have "i - line_start t ?l \<le> length (line_text t ?l)"
    using line_of_end [OF assms] by (simp add: length_line_text)
  then show ?thesis
    using line_of_breaks [OF assms] take_line_text [OF assms] by (simp add: text_pos_def lsp_col_units)
qed

lemma units_index_sum:
  assumes "\<And>c. 0 < w c"
  shows "units_index w (sum_list (map w xs)) (xs @ ys) = length xs"
proof (induction xs)
  case Nil
  then show ?case by (cases ys) simp_all
next
  case (Cons c xs)
  then show ?case using assms [of c] by simp
qed

lemma server_roundtrip:
  assumes "lf_text t" and "fits32 t" and i: "i \<le> length t"
  shows "server_index e t (text_pos e t i) = Some i"
proof -
  let ?s = "line_start t (line_of t i)" and ?nl = "\<lambda>c. c \<noteq> 10 \<and> c \<noteq> (13::nat)"
  let ?xs = "drop ?s (take i t)"
  have s: "?s \<le> i" by (rule line_of_bracket(2))
  have "?nl (t ! b)" if "?s \<le> b" "b < i" for b
  proof -
    have "\<not> line_break_at t b" using that line_of_breaks(2) [OF i] by (intro no_break_since) auto
    then have "t ! b \<noteq> 10" using lf_break [OF assms(1), of b] that i by simp
    moreover have "t ! b \<noteq> 13" using assms(1) that i by (simp add: lf_text_def list_all_length)
    ultimately show ?thesis by simp
  qed
  then have all: "\<And>c. c \<in> set ?xs \<Longrightarrow> ?nl c" using i by (auto simp: in_set_conv_nth)
  have "take i t @ drop i t = t" by simp
  then have "drop ?s t = drop ?s (take i t @ drop i t)" by simp
  also have "\<dots> = ?xs @ drop i t" using s i unfolding drop_append by simp
  finally have split: "drop ?s t = ?xs @ drop i t" .
  have ys: "takeWhile ?nl (drop ?s t) = ?xs @ takeWhile ?nl (drop i t)"
    unfolding split by (rule takeWhile_append2) (rule all)
  have w: "unat (lp_character (text_pos e t i)) = sum_list (map (char_units e) ?xs)"
    using sum_units_le [of e ?xs] assms(2) i
    by (simp add: text_pos_breaks [OF i] line_of_breaks(2) [OF i, symmetric] unat_of_nat take_bit_nat_eq_self fits32_def)
  have l: "unat (lp_line (text_pos e t i)) = line_of t i"
    using unat_line_of [OF assms(2)] by (simp add: text_pos_def)
  have "line_starts t ! line_of t i = ?s" using line_of_bracket(1) [of t i] by (simp add: line_start_def)
  then show ?thesis
    using l w ys s i line_of_bracket(1) [of t i] units_index_sum [of "char_units e" ?xs "takeWhile ?nl (drop i t)"]
    by (simp add: server_index_def server_lines_lf [OF assms(1)] Let_def)
qed

interpretation srv: prefix_codec "\<lambda>t. lf_text t \<and> fits32 t" "text_pos e" "server_index e" for e
proof unfold_locales
  fix t i assume "lf_text t \<and> fits32 t" "i \<le> length t"
  then show "server_index e t (text_pos e t i) = Some i" using server_roundtrip by blast
next
  fix t u i assume "lf_text t \<and> fits32 t" "lf_text u \<and> fits32 u" "i \<le> length t" "i \<le> length u" "take i t = take i u"
  then show "text_pos e t i = text_pos e u i"
    using breaks_before_prefix [of t u i] by (simp add: text_pos_breaks)
qed

subsection \<open>The code on ropes\<close>

lemma char_to_lsp_position_text:
  assumes "rope_ok R"
  shows "char_to_lsp_position R d i e =
    Some (if i \<le> length (rp_chars R d) then Some (text_pos e (rp_chars R d) i) else None)"
  using line_of_bracket(1,2) [of "rp_chars R d" i]
  by (simp add: char_to_lsp_position_def text_pos_def rope_simps assms)


lemma char_range_to_lsp_range_text:
  "rope_ok R \<Longrightarrow> i \<le> j \<Longrightarrow> j \<le> length (rp_chars R d) \<Longrightarrow>
   char_range_to_lsp_range R d i j e = Some (Some \<lparr> lr_start = text_pos e (rp_chars R d) i, lr_end = text_pos e (rp_chars R d) j \<rparr>)"
  by (simp add: char_range_to_lsp_range_def char_to_lsp_position_text)

lemma lsp_changes_loop_text:
  assumes "rope_ok R" and "rp_chars R d = u @ t" and "length t = in_len ops" and "list_all op_wf ops"
  shows "lsp_changes_loop R e ops d (length u) chs =
    Some (Incremental (chs @ op_changes (text_pos e) ops (length u) (u @ t)))"
  using assms(2-)
proof (induction ops arbitrary: u t d chs rule: in_len.induct)
  case (2 n ops)
  then show ?case using "2.IH" [of d "u @ take n t" "drop n t" chs] by simp
next
  case (3 n ops)
  have n: "length u + n \<le> length (rp_chars R d)" using "3.prems" by simp
  obtain d' where d': "rp_remove R d (length u) (length u + n) = Some d'" "rp_chars R d' = u @ drop n t"
    using rope_remove [OF assms(1) le_add1 n] "3.prems"(1) by auto
  have "replace_span (u @ t) (length u) (length u + n) [] = u @ drop n t" by (simp add: replace_span_def)
  then show ?case
    using "3.prems" n d' "3.IH" [OF d'(2)]
    by (simp add: char_range_to_lsp_range_text assms(1) rope_simps Let_def)
next
  case (4 ins ops)
  obtain d' where d': "rp_insert R d (length u) (ins_text ins) = Some d'" "rp_chars R d' = (u @ ins_text ins) @ t"
    using rope_insert [OF assms(1), of "length u" d "ins_text ins"] "4.prems"(1) by auto
  have "replace_span (u @ t) (length u) (length u) (ins_text ins) = (u @ ins_text ins) @ t" by (simp add: replace_span_def)
  then show ?case
    using "4.prems" d' "4.IH" [OF d'(2)]
    by (simp add: char_to_lsp_position_text assms(1) del: append_assoc)
qed simp


lemma all_texts_lf:
  assumes "lf_text t" and "lf_text (inserted ops)" and "4 * (length t + length (inserted ops)) + 4 < 2 ^ 32"
  shows "all_texts (\<lambda>t. lf_text t \<and> fits32 t) ops p t"
  using assms
proof (induction ops arbitrary: p t rule: in_len.induct)
  case (3 n ops)
  have "lf_text (replace_span t p (p + n) [])"
    using "3.prems"(1) by (auto simp: lf_text_def list_all_iff replace_span_def dest: in_set_takeD in_set_dropD)
  then show ?case using "3.prems" "3.IH" [of "replace_span t p (p + n) []" p]
    by (simp add: fits32_def replace_span_def)
next
  case (4 ins ops)
  let ?t' = "replace_span t p p (ins_text ins)"
  have "lf_text ?t'"
    using "4.prems"(1,2) by (auto simp: lf_text_def list_all_iff replace_span_def dest: in_set_takeD in_set_dropD)
  then show ?case using "4.prems" "4.IH" [of ?t' "p + length (ins_text ins)"]
    by (simp add: fits32_def lf_text_def replace_span_def)
qed (auto simp: fits32_def)

lemma compute_lsp_changes_text:
  assumes "rope_ok R" and "tx_fits tx (rp_chars R d)"
  shows "compute_lsp_changes R d tx e = Some (Incremental (op_changes (text_pos e) (tx_operations tx) 0 (rp_chars R d)))"
  using lsp_changes_loop_text [OF assms(1), of d "[]" "rp_chars R d" "tx_operations tx" e "[]"] assms(2)
  by (auto simp: compute_lsp_changes_def cs_is_empty_def tx_operations_def tx_fits_def tx_wf_def cs_wf_def)

text \<open>
  The editor's own reading of positions replays the changes of any text, whatever its line breaks.
\<close>

lemma editor_replay:
  assumes "rope_ok R" and "tx_fits tx (rp_chars R d)" and "all_texts fits32 (tx_operations tx) 0 (rp_chars R d)"
  shows "\<exists>chs. compute_lsp_changes R d tx e = Some (Incremental chs)
    \<and> replay (change_apply (text_index e)) chs (rp_chars R d) = Some (tx_edit tx (rp_chars R d))"
  using edc.replay_op_changes [of "rp_chars R d" "tx_operations tx" "[]" e] compute_lsp_changes_text [OF assms(1,2)] assms(2,3)
  by (simp add: tx_operations_def tx_edit_def tx_fits_def tx_wf_def cs_wf_def)

section \<open>Properties\<close>



text \<open>
  C16. Incremental synchronisation: for a transaction that fits a document with LF line ends, the
  changes are computed incrementally (no fallback, no panic), and a server that starts from the
  document's text and applies them in order, reading positions as the protocol says, ends with
  the text the transaction produces in the editor.
\<close>

theorem lsp_changes_replay:
  assumes "rope_ok R" and "tx_fits tx (rp_chars R d)"
    and "lf_text (rp_chars R d)" and "lf_text (inserted (tx_operations tx))"
    and "4 * (length (rp_chars R d) + length (inserted (tx_operations tx))) + 4 < 2 ^ 32"
  shows "\<exists>chs d'. compute_lsp_changes R d tx e = Some (Incremental chs) \<and> tx_run R tx d = Some d'
    \<and> replay (server_apply e) chs (rp_chars R d) = Some (rp_chars R d')"
proof -
  obtain d' where d': "tx_run R tx d = Some d'" "rp_chars R d' = tx_edit tx (rp_chars R d)"
    using tx_apply_edit [OF assms(1,2)] by (auto simp: tx_run_def)
  show ?thesis
    using srv.replay_op_changes [of "rp_chars R d" "tx_operations tx" "[]" e] all_texts_lf [OF assms(3-5), of 0]
      compute_lsp_changes_text [OF assms(1,2)] d' assms(2)
    by (simp add: server_apply_def tx_operations_def tx_edit_def tx_fits_def tx_wf_def cs_wf_def)
qed


theorem lsp_changes_replay_witness:
  "\<exists>chs d'. compute_lsp_changes list_rope [97, 98, 10, 99] sync_example_tx Utf16 = Some (Incremental chs)
     \<and> tx_run list_rope sync_example_tx [97, 98, 10, 99] = Some d'
     \<and> replay (server_apply Utf16) chs [97, 98, 10, 99] = Some d'"
proof -
  have "canonical (tx_operations sync_example_tx)"
    by (simp add: canonical_def sync_example_tx_def tx_operations_def)
  then have "tx_fits sync_example_tx [97, 98, 10, 99]"
    by (simp add: tx_fits_def tx_wf_def cs_wf_def sync_example_tx_def tx_operations_def)
  then show ?thesis
    using lsp_changes_replay [of list_rope sync_example_tx "[97, 98, 10, 99]" Utf16]
    by (simp add: lf_text_def sync_example_tx_def tx_operations_def)
qed

text \<open>
  The restriction to LF is needed: the rope also breaks lines at a vertical tab, so on the text
  a VT b the editor calls the last character line 1 while a server has a single line.
\<close>

lemma vertical_tab_breaks_sync:
  "compute_lsp_changes list_rope [97, 11, 98]
     \<lparr> tx_changes = \<lparr> changes = [Retain 2, Delete 1], cs_len = 3, cs_len_after = 2 \<rparr>, tx_selection = None \<rparr> Utf16
   = Some (Incremental [\<lparr> dc_range = \<lparr> lr_start = \<lparr> lp_line = 1, lp_character = 0 \<rparr>,
       lr_end = \<lparr> lp_line = 1, lp_character = 1 \<rparr> \<rparr>, dc_new_text = [] \<rparr>])
   \<and> server_apply Utf16 \<lparr> dc_range = \<lparr> lr_start = \<lparr> lp_line = 1, lp_character = 0 \<rparr>,
       lr_end = \<lparr> lp_line = 1, lp_character = 1 \<rparr> \<rparr>, dc_new_text = [] \<rparr> [97, 11, 98] = None"
proof -
  have ls: "line_starts [97, 11, 98] = [0, 2]" "server_lines [97, 11, 98] = [0]" by code_simp+
  have lo: "line_of [97, 11, 98] 2 = 1" "line_of [97, 11, 98] 3 = 1" "line_start [97, 11, 98] 1 = 2"
    "line_text [97, 11, 98] 1 = [98]"
    by (simp_all add: line_of_def line_start_def line_text_def ls)
  show ?thesis
    by (simp add: compute_lsp_changes_def cs_is_empty_def tx_operations_def char_range_to_lsp_range_def
        char_to_lsp_position_text text_pos_def lo [unfolded numeral_2_eq_2 numeral_3_eq_3 One_nat_def] list_rope_def [THEN arg_cong, of rp_remove] list_rope_def [THEN arg_cong, of rp_len_chars]
        char_offset_to_lsp_col_def len_utf16_def server_apply_def change_apply_def server_index_def ls Let_def)
qed

end
