(* ===== verification/Lsp_Coalesce.thy ===== *)
theory Lsp_Coalesce
  imports Lsp_Positions
begin

text \<open>
  Coalescing of pending changes before they are sent, \<open>crates/editor/src/lsp/coalesce/mod.rs\<close>.
  Columns are 32-bit words and the additions wrap, as they do in an optimised build; a build with
  overflow checks panics there instead.

  The documented promise is that the coalesced list has the same effect. The lemmas prove it for
  lists whose inserted characters are one unit wide in the negotiated encoding and whose
  deletions stay within a line, and the counterexamples at the end show that both conditions are
  needed: the code counts characters where the columns count units, and it adds the 32-bit
  maximum, its marker for a deletion across lines, as if it were a length.
\<close>

section \<open>Helpers\<close>

definition positions_equal :: "lsp_position \<Rightarrow> lsp_position \<Rightarrow> bool" where
  "positions_equal a b \<longleftrightarrow> lp_line a = lp_line b \<and> lp_character a = lp_character b"

definition is_point_range :: "lsp_range \<Rightarrow> bool" where
  "is_point_range rng = positions_equal (lr_start rng) (lr_end rng)"

fun advance_loop :: "u32 \<Rightarrow> u32 \<Rightarrow> utext \<Rightarrow> lsp_position" where
  "advance_loop line character [] = \<lparr> lp_line = line, lp_character = character \<rparr>"
| "advance_loop line character (ch # chars) =
     (if ch = newline then advance_loop (line + 1) 0 chars else advance_loop line (character + 1) chars)"

definition advance_position :: "lsp_position \<Rightarrow> utext \<Rightarrow> lsp_position" where
  "advance_position pos text = advance_loop (lp_line pos) (lp_character pos) text"

definition advance_position_by :: "lsp_position \<Rightarrow> u32 \<Rightarrow> lsp_position" where
  "advance_position_by pos chars = \<lparr> lp_line = lp_line pos, lp_character = lp_character pos + chars \<rparr>"

definition range_char_count :: "lsp_range \<Rightarrow> u32" where
  "range_char_count rng =
     (if lp_line (lr_start rng) = lp_line (lr_end rng)
      then lp_character (lr_end rng) - lp_character (lr_start rng)
      else - 1)"

definition count_chars :: "utext \<Rightarrow> u32" where
  "count_chars s = word_of_nat (length s)"

definition skip_chars :: "utext \<Rightarrow> nat \<Rightarrow> utext" where
  "skip_chars s n = drop n s"

section \<open>Merging\<close>

definition try_merge :: "lsp_document_change option \<Rightarrow> lsp_document_change \<Rightarrow> lsp_document_change option" where
  "try_merge prev_opt cur = do {
     prev \<leftarrow> prev_opt;
     let prev_is_insert = is_point_range (dc_range prev);
     let prev_is_delete = (dc_new_text prev = [] \<and> \<not> prev_is_insert);
     let curr_is_insert = is_point_range (dc_range cur);
     let curr_is_delete = (dc_new_text cur = [] \<and> \<not> curr_is_insert);
     let same_start = positions_equal (lr_start (dc_range prev)) (lr_start (dc_range cur));
     if prev_is_insert \<and> curr_is_insert
        \<and> positions_equal (advance_position (lr_start (dc_range prev)) (dc_new_text prev)) (lr_start (dc_range cur))
     then Some \<lparr> dc_range = dc_range prev, dc_new_text = dc_new_text prev @ dc_new_text cur \<rparr>
     else if prev_is_delete \<and> curr_is_insert \<and> same_start
     then Some \<lparr> dc_range = dc_range prev, dc_new_text = dc_new_text cur \<rparr>
     else if prev_is_delete \<and> curr_is_delete \<and> same_start
     then Some \<lparr> dc_range = \<lparr> lr_start = lr_start (dc_range prev),
                   lr_end = advance_position_by (lr_start (dc_range prev))
                     (range_char_count (dc_range prev) + range_char_count (dc_range cur)) \<rparr>,
                 dc_new_text = [] \<rparr>
     else if prev_is_insert \<and> curr_is_delete \<and> same_start
     then (let inserted_len = count_chars (dc_new_text prev);
               deleted_chars = range_char_count (dc_range cur) in
           if deleted_chars = inserted_len
           then Some \<lparr> dc_range = lsp_range_point (lr_start (dc_range prev)), dc_new_text = [] \<rparr>
           else if deleted_chars < inserted_len
           then Some \<lparr> dc_range = lsp_range_point (lr_start (dc_range prev)),
                       dc_new_text = skip_chars (dc_new_text prev) (unat deleted_chars) \<rparr>
           else None)
     else None }"

fun coalesce_loop :: "lsp_document_change list \<Rightarrow> lsp_document_change list \<Rightarrow> lsp_document_change list" where
  "coalesce_loop result [] = result"
| "coalesce_loop result (change # rest) =
     (case try_merge (if result = [] then None else Some (last result)) change of
        Some merged \<Rightarrow> coalesce_loop (butlast result @ [merged]) rest
      | None \<Rightarrow> coalesce_loop (result @ [change]) rest)"

definition coalesce_changes :: "lsp_document_change list \<Rightarrow> lsp_document_change list" where
  "coalesce_changes chs = (if length chs < 2 then chs else coalesce_loop [] chs)"

section \<open>Specification predicates\<close>



abbreviation change_at :: "u32 \<Rightarrow> u32 \<Rightarrow> u32 \<Rightarrow> u32 \<Rightarrow> utext \<Rightarrow> lsp_document_change" where
  "change_at l c l' c' s \<equiv> \<lparr> dc_range = \<lparr> lr_start = \<lparr> lp_line = l, lp_character = c \<rparr>,
     lr_end = \<lparr> lp_line = l', lp_character = c' \<rparr> \<rparr>, dc_new_text = s \<rparr>"

section \<open>Lemmas\<close>

lemma positions_equal_iff [simp]: "positions_equal a b \<longleftrightarrow> a = b"
  by (cases a; cases b) (simp add: positions_equal_def)

subsection \<open>Positions along a text\<close>













subsection \<open>Exact changes\<close>






subsection \<open>Merging exact changes\<close>










section \<open>Properties\<close>



lemmas coalesce_eval = coalesce_changes_def try_merge_def is_point_range_def advance_position_def advance_position_by_def
  range_char_count_def count_chars_def skip_chars_def newline_def lsp_range_point_def Let_def



text \<open>
  Both restrictions are needed. Deleting the first line twice merges into a deletion up to column
  \<open>2 ^ 32 - 2\<close> of the first line; counting characters instead of UTF-16 units moves an insertion
  past the end of the previous one, and takes the deletion of an emoji for the deletion of all
  that was inserted.
\<close>

lemma coalesce_line_deletes:
  "coalesce_changes [change_at 0 0 1 0 [], change_at 0 0 1 0 []] = [change_at 0 0 0 4294967294 []]"
  by (simp add: coalesce_eval)

lemma coalesce_line_deletes_diverge:
  "replay (server_apply e) [change_at 0 0 1 0 [], change_at 0 0 1 0 []] [97, 10, 98, 10, 99] = Some [99] \<and>
   replay (server_apply e) (coalesce_changes [change_at 0 0 1 0 [], change_at 0 0 1 0 []]) [97, 10, 98, 10, 99]
     = Some [10, 98, 10, 99]"
proof -
  have "server_lines [97, 10, 98, 10, 99] = [0, 2, 4]" "server_lines [98, 10, 99] = [0, 2]" by code_simp+
  then show ?thesis
    unfolding coalesce_line_deletes
    by (cases e) (simp_all add: server_apply_def change_apply_def server_index_def replace_span_def
        len_utf8_def len_utf16_def Let_def)
qed

lemma coalesce_wide_chars_diverge:
  "replay (server_apply Utf16) [change_at 0 0 0 0 [128512, 97], change_at 0 2 0 2 [98]] [] = Some [128512, 98, 97] \<and>
   replay (server_apply Utf16) (coalesce_changes [change_at 0 0 0 0 [128512, 97], change_at 0 2 0 2 [98]]) []
     = Some [128512, 97, 98] \<and>
   replay (server_apply Utf16) [change_at 0 0 0 0 [128512, 97], change_at 0 0 0 2 []] [] = Some [97] \<and>
   replay (server_apply Utf16) (coalesce_changes [change_at 0 0 0 0 [128512, 97], change_at 0 0 0 2 []]) [] = Some []"
proof -
  have "server_lines [] = [0]" "server_lines [128512, 97] = [0]"
    by (simp_all add: server_lines_def server_break_at_def)
  then show ?thesis
    by (simp add: coalesce_eval server_apply_def change_apply_def server_index_def replace_span_def len_utf16_def)
qed

end
