(* ===== verification/Workspace.thy ===== *)
theory Workspace
  imports Prelude "HOL-Library.AList"
begin

text \<open>
  The state that outlives buffers, \<open>crates/editor/src/types/workspace.rs\<close>: the jump list, macros and the
  key-value store of scripts. (The yank register is with the buffers, in \<open>Buffers\<close> and
  \<open>Editor_History\<close>.) Locations and keys are only stored, so their types are parameters.

  The lemmas show that the jump list is a bounded history with a cursor whose index never leaves it, that a
  push can be jumped back to and that jumping back and forth cancels out; that the script store is a finite map
  that forgets only its oldest entry, and only when a new key arrives at a full store; and that a recorded macro
  is what was typed.
\<close>

section \<open>Jump list\<close>

record 'a jump_list =
  jl_locations :: "'a list"
  jl_index :: nat

definition MAX_JUMPS :: nat where
  "MAX_JUMPS = 100"

definition jl_default :: "'a jump_list" where
  "jl_default = \<lparr> jl_locations = [], jl_index = 0 \<rparr>"

definition jl_push :: "'a \<Rightarrow> 'a jump_list \<Rightarrow> 'a jump_list" where
  "jl_push loc j =
     (let locs = take (jl_index j) (jl_locations j) @ [loc] in
      if length locs > MAX_JUMPS then j\<lparr> jl_locations := tl locs \<rparr>
      else j\<lparr> jl_locations := locs, jl_index := length locs \<rparr>)"

definition jl_get :: "'a list \<Rightarrow> nat \<Rightarrow> 'a option" where
  "jl_get xs i = (if i < length xs then Some (xs ! i) else None)"

definition jump_backward :: "'a jump_list \<Rightarrow> 'a option \<times> 'a jump_list" where
  "jump_backward j =
     (if jl_index j > 0 then
        let j = j\<lparr> jl_index := jl_index j - 1 \<rparr> in (jl_get (jl_locations j) (jl_index j), j)
      else (None, j))"

definition jump_forward :: "'a jump_list \<Rightarrow> 'a option \<times> 'a jump_list" where
  "jump_forward j =
     (if jl_index j < length (jl_locations j) then
        (jl_get (jl_locations j) (jl_index j), j\<lparr> jl_index := jl_index j + 1 \<rparr>)
      else (None, j))"

section \<open>Macros\<close>

record ('c, 'k) macro_state =
  recording_register :: "'c option"
  recording_keys :: "'k list"
  macros :: "'c \<rightharpoonup> 'k list"
  last_register :: "'c option"

definition macro_default :: "('c, 'k) macro_state" where
  "macro_default = \<lparr> recording_register = None, recording_keys = [], macros = Map.empty, last_register = None \<rparr>"

definition stop_recording :: "('c, 'k) macro_state \<Rightarrow> ('c, 'k) macro_state" where
  "stop_recording m =
     (case recording_register m of
        None \<Rightarrow> m
      | Some reg \<Rightarrow>
          (let ks = recording_keys m; m = m\<lparr> recording_register := None, recording_keys := [] \<rparr> in
           if ks \<noteq> [] then m\<lparr> macros := (macros m)(reg \<mapsto> ks), last_register := Some reg \<rparr> else m))"

definition start_recording :: "'c \<Rightarrow> ('c, 'k) macro_state \<Rightarrow> ('c, 'k) macro_state" where
  "start_recording reg m =
     (let m = (if recording_register m \<noteq> None then stop_recording m else m) in
      m\<lparr> recording_register := Some reg, recording_keys := [] \<rparr>)"

definition record_key :: "'k \<Rightarrow> ('c, 'k) macro_state \<Rightarrow> ('c, 'k) macro_state" where
  "record_key k m = (if recording_register m \<noteq> None then m\<lparr> recording_keys := recording_keys m @ [k] \<rparr> else m)"

definition macro_get :: "'c \<Rightarrow> ('c, 'k) macro_state \<Rightarrow> 'k list option" where
  "macro_get reg m = macros m reg"

section \<open>Script state\<close>

definition MAX_ENTRIES :: nat where
  "MAX_ENTRIES = 64"

type_synonym nu_state = "(utext \<times> utext) list"

fun set_entry :: "utext \<Rightarrow> utext \<Rightarrow> nu_state \<Rightarrow> nu_state option" where
  "set_entry k v [] = None"
| "set_entry k v (e # es) =
     (if fst e = k then Some ((fst e, v) # es) else map_option ((#) e) (set_entry k v es))"

definition nu_set :: "utext \<Rightarrow> utext \<Rightarrow> nu_state \<Rightarrow> nu_state" where
  "nu_set k v es =
     (case set_entry k v es of
        Some es' \<Rightarrow> es'
      | None \<Rightarrow> (if length es \<ge> MAX_ENTRIES then tl es else es) @ [(k, v)])"

fun nu_unset :: "utext \<Rightarrow> nu_state \<Rightarrow> nu_state" where
  "nu_unset k [] = []"
| "nu_unset k (e # es) = (if fst e = k then es else e # nu_unset k es)"

section \<open>Specification predicates\<close>

definition jl_ok :: "'a jump_list \<Rightarrow> bool" where
  "jl_ok j \<longleftrightarrow> jl_index j \<le> length (jl_locations j) \<and> length (jl_locations j) \<le> MAX_JUMPS"

inductive jl_reach :: "'a jump_list \<Rightarrow> bool" where
  jl_reach_default: "jl_reach jl_default"
| jl_reach_push: "jl_reach j \<Longrightarrow> jl_reach (jl_push loc j)"
| jl_reach_back: "jl_reach j \<Longrightarrow> jl_reach (snd (jump_backward j))"
| jl_reach_forward: "jl_reach j \<Longrightarrow> jl_reach (snd (jump_forward j))"

definition nu_ok :: "nu_state \<Rightarrow> bool" where
  "nu_ok es \<longleftrightarrow> distinct (map fst es) \<and> length es \<le> MAX_ENTRIES"

inductive nu_reach :: "nu_state \<Rightarrow> bool" where
  nu_reach_default: "nu_reach []"
| nu_reach_set: "nu_reach es \<Longrightarrow> nu_reach (nu_set k v es)"
| nu_reach_unset: "nu_reach es \<Longrightarrow> nu_reach (nu_unset k es)"

section \<open>Lemmas\<close>

lemma jl_ok_ops:
  "jl_ok jl_default" "jl_ok j \<Longrightarrow> jl_ok (jl_push loc j)" "jl_ok j \<Longrightarrow> jl_ok (snd (jump_backward j))"
  "jl_ok j \<Longrightarrow> jl_ok (snd (jump_forward j))"
  by (auto simp: jl_ok_def jl_default_def jl_push_def jump_backward_def jump_forward_def Let_def)

lemma jl_reach_ok: "jl_reach j \<Longrightarrow> jl_ok j"
  by (induction rule: jl_reach.induct) (auto intro: jl_ok_ops)

lemma push_then_back:
  assumes "jl_ok j"
  shows "fst (jump_backward (jl_push loc j)) = Some loc"
  using assms
  by (auto simp: jl_ok_def jl_push_def jump_backward_def jl_get_def Let_def nth_append nth_tl MAX_JUMPS_def min_def)

lemma push_locations:
  assumes "jl_ok j"
  shows "jl_locations (jl_push loc j) =
    (let locs = take (jl_index j) (jl_locations j) @ [loc] in drop (length locs - MAX_JUMPS) locs)"
    and "jl_index (jl_push loc j) = length (jl_locations (jl_push loc j))"
proof -
  let ?locs = "take (jl_index j) (jl_locations j) @ [loc]"
  have len: "length ?locs = Suc (jl_index j)" "jl_index j \<le> MAX_JUMPS" using assms by (auto simp: jl_ok_def)
  show "jl_locations (jl_push loc j) = (let locs = ?locs in drop (length locs - MAX_JUMPS) locs)"
  proof (cases "length ?locs > MAX_JUMPS")
    case True
    then have "length ?locs - MAX_JUMPS = 1" using len by linarith
    then have "drop (length ?locs - MAX_JUMPS) ?locs = tl ?locs" by (simp only: drop_Suc One_nat_def drop_0)
    then show ?thesis using True by (simp only: jl_push_def Let_def if_True) simp
  next
    case False
    then have "drop (length ?locs - MAX_JUMPS) ?locs = ?locs" by (simp only: not_less diff_is_0_eq [symmetric] drop_0)
    then show ?thesis using False by (simp only: jl_push_def Let_def if_False) simp
  qed
  show "jl_index (jl_push loc j) = length (jl_locations (jl_push loc j))"
    using len by (auto simp: jl_push_def Let_def)
qed

lemma back_then_forward:
  assumes "jl_ok j" and "jump_backward j = (Some loc, j')"
  shows "jump_forward j' = (Some loc, j)"
  using assms by (cases j) (auto simp: jl_ok_def jump_backward_def jump_forward_def Let_def split: if_splits)

lemma forward_then_back:
  assumes "jump_forward j = (Some loc, j')"
  shows "jump_backward j' = (Some loc, j)"
  using assms by (cases j) (auto simp: jump_backward_def jump_forward_def Let_def jl_get_def split: if_splits)

lemma set_entry_None: "set_entry k v es = None \<longleftrightarrow> k \<notin> fst ` set es"
  by (induction es) auto

lemma set_entry_Some:
  "set_entry k v es = Some es' \<Longrightarrow> map fst es' = map fst es \<and> map_of es' = (map_of es)(k \<mapsto> v)"
proof (induction es arbitrary: es')
  case (Cons e es)
  then show ?case by (cases e) (auto simp: fun_eq_iff split: if_splits)
qed simp

lemma nu_unset_map: "distinct (map fst es) \<Longrightarrow> map_of (nu_unset k es) = (map_of es)(k := None)"
proof (induction es)
  case (Cons e es)
  then show ?case by (auto simp: fun_eq_iff map_of_eq_None_iff)
qed simp

lemma nu_unset_set: "set (nu_unset k es) \<subseteq> set es" "length (nu_unset k es) \<le> length es"
  by (induction es) auto

lemma nu_unset_distinct: "distinct (map fst es) \<Longrightarrow> distinct (map fst (nu_unset k es))"
proof (induction es)
  case (Cons e es)
  then show ?case using nu_unset_set(1) [of k es] by auto
qed simp

lemma nu_ok_ops: "nu_ok []" "nu_ok es \<Longrightarrow> nu_ok (nu_set k v es)" "nu_ok es \<Longrightarrow> nu_ok (nu_unset k es)"
proof -
  show "nu_ok []" by (simp add: nu_ok_def)
  show "nu_ok (nu_unset k es)" if "nu_ok es"
    using that nu_unset_distinct nu_unset_set(2) [of k es] by (auto simp: nu_ok_def)
  show "nu_ok (nu_set k v es)" if ok: "nu_ok es"
  proof (cases "set_entry k v es")
    case None
    then show ?thesis using ok set_entry_None [of k v es] distinct_tl [of "map fst es"] list.set_sel(2) [of es]
      by (cases es) (auto simp: nu_set_def nu_ok_def MAX_ENTRIES_def)
  next
    case (Some es')
    then show ?thesis using ok set_entry_Some [OF Some] by (auto simp: nu_set_def nu_ok_def dest: map_eq_imp_length_eq)
  qed
qed

lemma nu_reach_ok: "nu_reach es \<Longrightarrow> nu_ok es"
  by (induction rule: nu_reach.induct) (auto intro: nu_ok_ops)

text \<open>Recording a macro: the register holds what was typed; an empty recording changes nothing.\<close>

lemma record_keys:
  "recording_register m = Some reg \<Longrightarrow>
   foldl (\<lambda>m k. record_key k m) m ks = m\<lparr> recording_keys := recording_keys m @ ks \<rparr>"
  by (induction ks arbitrary: m) (simp_all add: record_key_def)

lemma macro_roundtrip:
  assumes "recording_register m = None"
  shows "let m' = stop_recording (foldl (\<lambda>m k. record_key k m) (start_recording reg m) ks) in
    recording_register m' = None \<and> macro_get reg m' = (if ks = [] then macro_get reg m else Some ks) \<and>
    (\<forall>other. other \<noteq> reg \<longrightarrow> macro_get other m' = macro_get other m) \<and>
    last_register m' = (if ks = [] then last_register m else Some reg)"
  using assms by (simp add: start_recording_def record_keys stop_recording_def macro_get_def Let_def)

section \<open>Properties\<close>

text \<open>
  The jump list is a bounded history with a cursor. In every reachable jump list the index is at most the number of
  locations, which is at most \<open>MAX_JUMPS\<close>; a push drops the locations after the cursor, keeps the latest
  \<open>MAX_JUMPS\<close> and puts the cursor at the end, so that jumping back returns the pushed location; and jumping back and then
  forward, or forward and then back, returns the same location twice and restores the list.
\<close>

theorem jump_list_correct:
  assumes "jl_reach j"
  shows "jl_index j \<le> length (jl_locations j) \<and> length (jl_locations j) \<le> MAX_JUMPS \<and>
    jl_locations (jl_push loc j) =
      (let locs = take (jl_index j) (jl_locations j) @ [loc] in drop (length locs - MAX_JUMPS) locs) \<and>
    jl_index (jl_push loc j) = length (jl_locations (jl_push loc j)) \<and>
    fst (jump_backward (jl_push loc j)) = Some loc \<and>
    (\<forall>l j'. jump_backward j = (Some l, j') \<longrightarrow> jump_forward j' = (Some l, j)) \<and>
    (\<forall>l j'. jump_forward j = (Some l, j') \<longrightarrow> jump_backward j' = (Some l, j)) \<and>
    (fst (jump_backward j) = None \<longleftrightarrow> jl_index j = 0)"
proof -
  have ok: "jl_ok j" by (rule jl_reach_ok [OF assms])
  show ?thesis
  proof (intro conjI allI impI)
    show "jl_index j \<le> length (jl_locations j)" "length (jl_locations j) \<le> MAX_JUMPS" using ok by (simp_all add: jl_ok_def)
    show "fst (jump_backward j) = None \<longleftrightarrow> jl_index j = 0"
      using ok by (auto simp: jl_ok_def jump_backward_def jl_get_def Let_def)
  qed (rule push_locations [OF ok] push_then_back [OF ok] | erule back_then_forward [OF ok] forward_then_back)+
qed

theorem jump_list_correct_witness:
  "fst (jump_backward (jl_push (5 :: nat) (jl_push 4 jl_default))) = Some 5"
  using jump_list_correct [OF jl_reach_push [OF jl_reach_default], of "4 :: nat" 5] by blast

text \<open>
  The script store is a bounded finite map. In every reachable store keys are distinct and there are at most
  \<open>MAX_ENTRIES\<close>; setting a key updates the map at that key and keeps all other entries, except that a new key in a
  full store evicts the oldest entry; unsetting a key removes exactly that key; and existing keys keep their order.
\<close>

theorem nu_state_correct:
  assumes "nu_reach es"
  shows "distinct (map fst es) \<and> length es \<le> MAX_ENTRIES \<and>
    map_of (nu_unset k es) = (map_of es)(k := None) \<and>
    (if k \<in> fst ` set es then map_of (nu_set k v es) = (map_of es)(k \<mapsto> v) \<and> map fst (nu_set k v es) = map fst es
     else nu_set k v es = (if length es = MAX_ENTRIES then tl es else es) @ [(k, v)])"
proof -
  have ok: "nu_ok es" by (rule nu_reach_ok [OF assms])
  have "nu_set k v es = (if length es = MAX_ENTRIES then tl es else es) @ [(k, v)]" if "k \<notin> fst ` set es"
    using that set_entry_None [of k v es] ok by (simp add: nu_set_def nu_ok_def)
  moreover have "map_of (nu_set k v es) = (map_of es)(k \<mapsto> v) \<and> map fst (nu_set k v es) = map fst es" if "k \<in> fst ` set es"
    using that set_entry_None [of k v es] set_entry_Some [of k v es] by (auto simp: nu_set_def split: option.splits)
  ultimately show ?thesis using ok nu_unset_map [of es k] by (simp add: nu_ok_def)
qed

theorem nu_state_correct_witness:
  "nu_set [1] [2] (nu_set [3] [4] []) = [([3], [4]), ([1], [2])]"
  using nu_state_correct [OF nu_reach_set [OF nu_reach_default], of "[3]" "[4]" "[1]" "[2]"] by (simp add: nu_set_def MAX_ENTRIES_def)

end
