(* ===== verification/Layout.thy ===== *)
theory Layout
  imports Prelude "HOL-Library.Sublist"
begin

text \<open>
  Screen geometry and the tree of splits: \<open>crates/primitives/src/geometry/mod.rs\<close> and
  \<open>crates/editor/src/buffer/layout\<close> (\<open>mod.rs\<close>, \<open>types.rs\<close>, \<open>areas.rs\<close>, \<open>navigation.rs\<close>).

  Coordinates are \<open>u16\<close>: natural numbers up to \<open>u16_max\<close>. Plain \<open>+\<close> on them is \<open>checked_add16\<close>, whose
  \<open>None\<close> is the overflow panic, and every function that adds coordinates returns an option; saturating
  operations never fail. \<open>Ord::clamp\<close> panics when its bounds are reversed.

  The lemmas show that inside an area that fits the coordinate range no addition overflows, that the
  rectangles of views and separators partition the area, that hit tests find the rectangle under the mouse,
  that a separator found by a hit test can be moved by its path within the minimum sizes of its neighbours,
  and that the editing operations of the tree act on the list of its views as replacement and deletion.
\<close>

section \<open>Rectangles\<close>

definition u16_max :: nat where
  "u16_max = 65535"

definition checked_add16 :: "nat \<Rightarrow> nat \<Rightarrow> nat option" where
  "checked_add16 a b = (if a + b \<le> u16_max then Some (a + b) else None)"

definition saturating_add16 :: "nat \<Rightarrow> nat \<Rightarrow> nat" where
  "saturating_add16 a b = min (a + b) u16_max"

definition clamp16 :: "nat \<Rightarrow> nat \<Rightarrow> nat \<Rightarrow> nat option" where
  "clamp16 x lo hi = (if lo \<le> hi then Some (max lo (min x hi)) else None)"

record rect =
  rect_x :: nat
  rect_y :: nat
  rect_width :: nat
  rect_height :: nat

definition rect_new :: "nat \<Rightarrow> nat \<Rightarrow> nat \<Rightarrow> nat \<Rightarrow> rect" where
  "rect_new x y w h =
     \<lparr> rect_x = x, rect_y = y, rect_width = saturating_add16 x w - x, rect_height = saturating_add16 y h - y \<rparr>"

definition rect_area :: "rect \<Rightarrow> nat" where
  "rect_area r = rect_width r * rect_height r"

definition rect_is_empty :: "rect \<Rightarrow> bool" where
  "rect_is_empty r \<longleftrightarrow> rect_width r = 0 \<or> rect_height r = 0"

definition rect_right :: "rect \<Rightarrow> nat" where
  "rect_right r = saturating_add16 (rect_x r) (rect_width r)"

definition rect_bottom :: "rect \<Rightarrow> nat" where
  "rect_bottom r = saturating_add16 (rect_y r) (rect_height r)"

definition rect_contains :: "rect \<Rightarrow> nat \<times> nat \<Rightarrow> bool" where
  "rect_contains r p \<longleftrightarrow> rect_x r \<le> fst p \<and> fst p < rect_right r \<and> rect_y r \<le> snd p \<and> snd p < rect_bottom r"

definition rect_union :: "rect \<Rightarrow> rect \<Rightarrow> rect" where
  "rect_union a b =
     (let x1 = min (rect_x a) (rect_x b); y1 = min (rect_y a) (rect_y b);
          x2 = max (rect_right a) (rect_right b); y2 = max (rect_bottom a) (rect_bottom b)
      in rect_new x1 y1 (x2 - x1) (y2 - y1))"

definition rect_intersection :: "rect \<Rightarrow> rect \<Rightarrow> rect" where
  "rect_intersection a b =
     (let x1 = max (rect_x a) (rect_x b); y1 = max (rect_y a) (rect_y b);
          x2 = min (rect_right a) (rect_right b); y2 = min (rect_bottom a) (rect_bottom b)
      in rect_new x1 y1 (x2 - x1) (y2 - y1))"

definition rect_intersects :: "rect \<Rightarrow> rect \<Rightarrow> bool" where
  "rect_intersects a b \<longleftrightarrow>
     rect_x a < rect_right b \<and> rect_x b < rect_right a \<and> rect_y a < rect_bottom b \<and> rect_y b < rect_bottom a"

definition clamp_rect :: "rect \<Rightarrow> rect \<Rightarrow> rect option" where
  "clamp_rect r other = do {
     let w = min (rect_width r) (rect_width other);
     let h = min (rect_height r) (rect_height other);
     x \<leftarrow> clamp16 (rect_x r) (rect_x other) (rect_right other - w);
     y \<leftarrow> clamp16 (rect_y r) (rect_y other) (rect_bottom other - h);
     Some (rect_new x y w h) }"

section \<open>The tree of splits\<close>

datatype split_direction = Horizontal | Vertical

datatype layout =
  Single view_id
| Split (ly_direction: split_direction) (ly_position: nat) (ly_first: layout) (ly_second: layout)

definition MIN_WIDTH :: nat where
  "MIN_WIDTH = 10"

definition MIN_HEIGHT :: nat where
  "MIN_HEIGHT = 3"

definition side_by_side :: "layout \<Rightarrow> layout \<Rightarrow> rect \<Rightarrow> layout" where
  "side_by_side f s area = Split Horizontal (rect_width area div 2) f s"

definition stacked :: "layout \<Rightarrow> layout \<Rightarrow> rect \<Rightarrow> layout" where
  "stacked f s area = Split Vertical (rect_height area div 2) f s"

fun first_view :: "layout \<Rightarrow> view_id" where
  "first_view (Single v) = v"
| "first_view (Split _ _ f _) = first_view f"

fun last_view :: "layout \<Rightarrow> view_id" where
  "last_view (Single v) = v"
| "last_view (Split _ _ _ s) = last_view s"

fun views :: "layout \<Rightarrow> view_id list" where
  "views (Single v) = [v]"
| "views (Split _ _ f s) = views f @ views s"

fun contains_view :: "view_id \<Rightarrow> layout \<Rightarrow> bool" where
  "contains_view v (Single w) \<longleftrightarrow> w = v"
| "contains_view v (Split _ _ f s) \<longleftrightarrow> contains_view v f \<or> contains_view v s"

fun replace_view :: "view_id \<Rightarrow> layout \<Rightarrow> layout \<Rightarrow> bool \<times> layout" where
  "replace_view target new (Single v) = (if v = target then (True, new) else (False, Single v))"
| "replace_view target new (Split d p f s) =
     (let (ok, f') = replace_view target new f in
      if ok then (True, Split d p f' s)
      else let (ok, s') = replace_view target new s in (ok, Split d p f' s'))"

fun remove_view :: "view_id \<Rightarrow> layout \<Rightarrow> layout option" where
  "remove_view target (Single v) = (if v = target then None else Some (Single v))"
| "remove_view target (Split d p f s) =
     (case (remove_view target f, remove_view target s) of
        (None, None) \<Rightarrow> None
      | (Some l, None) \<Rightarrow> Some l
      | (None, Some l) \<Rightarrow> Some l
      | (Some f', Some s') \<Rightarrow> Some (Split d p f' s'))"

fun ly_count :: "layout \<Rightarrow> nat" where
  "ly_count (Single _) = 1"
| "ly_count (Split _ _ f s) = ly_count f + ly_count s"

section \<open>Areas and separators\<close>

text \<open>
  The offset of a separator among \<open>avail\<close> cells: the requested one, clamped to the soft minimum on both
  sides when there is room for it and to one cell otherwise. The two arms of \<open>compute_split_areas\<close> compute
  it with the minimum of their axis.
\<close>

definition split_offset :: "nat \<Rightarrow> nat \<Rightarrow> nat \<Rightarrow> nat option" where
  "split_offset soft avail position_local =
     (let hard_first = 1; hard_second = min 1 (avail - hard_first)
      in if soft + soft \<le> avail then clamp16 position_local soft (avail - soft)
         else clamp16 position_local hard_first (max (avail - hard_second) hard_first))"

fun compute_split_areas :: "rect \<Rightarrow> split_direction \<Rightarrow> nat \<Rightarrow> (rect \<times> rect \<times> rect) option" where
  "compute_split_areas area Horizontal position_local =
     (let total = rect_width area; sep = 1 in
      if total \<le> sep then (let zero = area\<lparr> rect_width := 0 \<rparr> in Some (zero, zero, zero))
      else do {
        let avail = total - sep;
        pos \<leftarrow> split_offset MIN_WIDTH avail position_local;
        sep_x \<leftarrow> checked_add16 (rect_x area) pos;
        second_x \<leftarrow> checked_add16 sep_x 1;
        Some (area\<lparr> rect_width := pos \<rparr>,
              area\<lparr> rect_x := second_x, rect_width := avail - pos \<rparr>,
              area\<lparr> rect_x := sep_x, rect_width := sep \<rparr>) })"
| "compute_split_areas area Vertical position_local =
     (let total = rect_height area; sep = 1 in
      if total \<le> sep then (let zero = area\<lparr> rect_height := 0 \<rparr> in Some (zero, zero, zero))
      else do {
        let avail = total - sep;
        pos \<leftarrow> split_offset MIN_HEIGHT avail position_local;
        sep_y \<leftarrow> checked_add16 (rect_y area) pos;
        second_y \<leftarrow> checked_add16 sep_y 1;
        Some (area\<lparr> rect_height := pos \<rparr>,
              area\<lparr> rect_y := second_y, rect_height := avail - pos \<rparr>,
              area\<lparr> rect_y := sep_y, rect_height := sep \<rparr>) })"

fun compute_view_areas :: "layout \<Rightarrow> rect \<Rightarrow> (view_id \<times> rect) list option" where
  "compute_view_areas (Single v) area = Some [(v, area)]"
| "compute_view_areas (Split d p f s) area = do {
     (fa, sa, _) \<leftarrow> compute_split_areas area d p;
     xs \<leftarrow> compute_view_areas f fa;
     ys \<leftarrow> compute_view_areas s sa;
     Some (xs @ ys) }"

fun separator_positions :: "layout \<Rightarrow> rect \<Rightarrow> (split_direction \<times> nat \<times> rect) list option" where
  "separator_positions (Single _) area = Some []"
| "separator_positions (Split d p f s) area = do {
     (fa, sa, sep) \<leftarrow> compute_split_areas area d p;
     xs \<leftarrow> separator_positions f fa;
     ys \<leftarrow> separator_positions s sa;
     Some ((d, 0, sep) # xs @ ys) }"

text \<open>The hit test \<open>x >= r.x && x < r.x + r.width && y >= r.y && y < r.y + r.height\<close>, left to right.\<close>

definition hit_test :: "rect \<Rightarrow> nat \<Rightarrow> nat \<Rightarrow> bool option" where
  "hit_test r x y =
     (if \<not> rect_x r \<le> x then Some False
      else do {
        right \<leftarrow> checked_add16 (rect_x r) (rect_width r);
        if \<not> x < right then Some False
        else if \<not> rect_y r \<le> y then Some False
        else do { bottom \<leftarrow> checked_add16 (rect_y r) (rect_height r); Some (y < bottom) } })"

text \<open>\<open>Iterator::find\<close> with a closure that can panic.\<close>

fun find_checked :: "('a \<Rightarrow> bool option) \<Rightarrow> 'a list \<Rightarrow> 'a option option" where
  "find_checked P [] = Some None"
| "find_checked P (x # xs) = do { ok \<leftarrow> P x; if ok then Some (Some x) else find_checked P xs }"

definition view_at_position :: "layout \<Rightarrow> rect \<Rightarrow> nat \<Rightarrow> nat \<Rightarrow> (view_id \<times> rect) option option" where
  "view_at_position l area x y = do {
     vs \<leftarrow> compute_view_areas l area;
     find_checked (\<lambda>(_, r). hit_test r x y) vs }"

definition separator_at_position :: "layout \<Rightarrow> rect \<Rightarrow> nat \<Rightarrow> nat \<Rightarrow> (split_direction \<times> rect) option option" where
  "separator_at_position l area x y = do {
     seps \<leftarrow> separator_positions l area;
     hit \<leftarrow> find_checked (\<lambda>(_, _, r). hit_test r x y) seps;
     Some (map_option (\<lambda>(d, _, r). (d, r)) hit) }"

fun find_separator_with_path ::
  "layout \<Rightarrow> rect \<Rightarrow> nat \<Rightarrow> nat \<Rightarrow> bool list \<Rightarrow> (split_direction \<times> rect \<times> bool list) option option" where
  "find_separator_with_path (Single _) area x y path = Some None"
| "find_separator_with_path (Split d p f s) area x y path = do {
     (fa, sa, sep) \<leftarrow> compute_split_areas area d p;
     hit \<leftarrow> hit_test sep x y;
     if hit then Some (Some (d, sep, path))
     else do {
       res \<leftarrow> find_separator_with_path f fa x y (path @ [False]);
       (case res of
          Some r \<Rightarrow> Some (Some r)
        | None \<Rightarrow> find_separator_with_path s sa x y (path @ [True])) } }"

definition separator_with_path_at_position ::
  "layout \<Rightarrow> rect \<Rightarrow> nat \<Rightarrow> nat \<Rightarrow> (split_direction \<times> rect \<times> bool list) option option" where
  "separator_with_path_at_position l area x y = find_separator_with_path l area x y []"

fun min_width :: "layout \<Rightarrow> nat option" where
  "min_width (Single _) = Some MIN_WIDTH"
| "min_width (Split d _ f s) = do {
     a \<leftarrow> min_width f;
     case d of
       Horizontal \<Rightarrow> do { a \<leftarrow> checked_add16 a 1; b \<leftarrow> min_width s; checked_add16 a b }
     | Vertical \<Rightarrow> do { b \<leftarrow> min_width s; Some (max a b) } }"

fun min_height :: "layout \<Rightarrow> nat option" where
  "min_height (Single _) = Some MIN_HEIGHT"
| "min_height (Split d _ f s) = do {
     a \<leftarrow> min_height f;
     case d of
       Vertical \<Rightarrow> do { a \<leftarrow> checked_add16 a 1; b \<leftarrow> min_height s; checked_add16 a b }
     | Horizontal \<Rightarrow> do { b \<leftarrow> min_height s; Some (max a b) } }"

fun do_resize_at_path :: "layout \<Rightarrow> rect \<Rightarrow> bool list \<Rightarrow> nat \<Rightarrow> nat \<Rightarrow> (bool \<times> layout) option" where
  "do_resize_at_path (Single v) area path mouse_x mouse_y = Some (False, Single v)"
| "do_resize_at_path (Split Horizontal p f s) area [] mouse_x mouse_y = do {
     let mouse_local = mouse_x - rect_x area;
     min_pos \<leftarrow> min_width f;
     second_min \<leftarrow> min_width s;
     used \<leftarrow> checked_add16 second_min 1;
     let max_pos = rect_width area - used;
     p' \<leftarrow> clamp16 mouse_local (min min_pos max_pos) max_pos;
     Some (True, Split Horizontal p' f s) }"
| "do_resize_at_path (Split Vertical p f s) area [] mouse_x mouse_y = do {
     let mouse_local = mouse_y - rect_y area;
     min_pos \<leftarrow> min_height f;
     second_min \<leftarrow> min_height s;
     used \<leftarrow> checked_add16 second_min 1;
     let max_pos = rect_height area - used;
     p' \<leftarrow> clamp16 mouse_local (min min_pos max_pos) max_pos;
     Some (True, Split Vertical p' f s) }"
| "do_resize_at_path (Split d p f s) area (b # path) mouse_x mouse_y = do {
     (fa, sa, _) \<leftarrow> compute_split_areas area d p;
     if b then do { (ok, s') \<leftarrow> do_resize_at_path s sa path mouse_x mouse_y; Some (ok, Split d p f s') }
     else do { (ok, f') \<leftarrow> do_resize_at_path f fa path mouse_x mouse_y; Some (ok, Split d p f' s) } }"

fun do_get_separator_at_path :: "layout \<Rightarrow> rect \<Rightarrow> bool list \<Rightarrow> (split_direction \<times> rect) option option" where
  "do_get_separator_at_path (Single _) area path = Some None"
| "do_get_separator_at_path (Split d p f s) area path = do {
     (fa, sa, sep) \<leftarrow> compute_split_areas area d p;
     (case path of
        [] \<Rightarrow> Some (Some (d, sep))
      | b # path \<Rightarrow> if b then do_get_separator_at_path s sa path else do_get_separator_at_path f fa path) }"

section \<open>Navigation\<close>

datatype spatial_direction = Left | Right | Up | Down

datatype ordering = Less | Equal | Greater

definition compare :: "nat \<Rightarrow> nat \<Rightarrow> ordering" where
  "compare a b = (if a < b then Less else if a = b then Equal else Greater)"

text \<open>\<open>Iterator::position\<close>, \<open>Iterator::filter\<close> and \<open>Iterator::max_by\<close>, which returns the last of several maxima.\<close>

fun index_of :: "'a \<Rightarrow> 'a list \<Rightarrow> nat option" where
  "index_of x [] = None"
| "index_of x (y # ys) = (if y = x then Some 0 else map_option Suc (index_of x ys))"

fun filter_checked :: "('a \<Rightarrow> bool option) \<Rightarrow> 'a list \<Rightarrow> 'a list option" where
  "filter_checked P [] = Some []"
| "filter_checked P (x # xs) = do { ok \<leftarrow> P x; ys \<leftarrow> filter_checked P xs; Some (if ok then x # ys else ys) }"

fun max_from :: "('a \<Rightarrow> 'a \<Rightarrow> ordering option) \<Rightarrow> 'a \<Rightarrow> 'a list \<Rightarrow> 'a option" where
  "max_from cmp m [] = Some m"
| "max_from cmp m (x # xs) = do { c \<leftarrow> cmp m x; max_from cmp (if c = Greater then m else x) xs }"

fun max_by :: "('a \<Rightarrow> 'a \<Rightarrow> ordering option) \<Rightarrow> 'a list \<Rightarrow> 'a option option" where
  "max_by cmp [] = Some None"
| "max_by cmp (x # xs) = map_option Some (max_from cmp x xs)"

definition next_view :: "layout \<Rightarrow> view_id \<Rightarrow> view_id" where
  "next_view l current =
     (let vs = views l in
      if vs = [] then current
      else let idx = (case index_of current vs of Some i \<Rightarrow> i | None \<Rightarrow> 0) in vs ! ((idx + 1) mod length vs))"

definition prev_view :: "layout \<Rightarrow> view_id \<Rightarrow> view_id" where
  "prev_view l current =
     (let vs = views l in
      if vs = [] then current
      else let idx = (case index_of current vs of Some i \<Rightarrow> i | None \<Rightarrow> 0)
           in vs ! (if idx = 0 then length vs - 1 else idx - 1))"

fun opposite :: "spatial_direction \<Rightarrow> spatial_direction" where
  "opposite Left = Right" | "opposite Right = Left" | "opposite Up = Down" | "opposite Down = Up"

fun is_in_direction :: "rect \<Rightarrow> rect \<Rightarrow> spatial_direction \<Rightarrow> bool option" where
  "is_in_direction current candidate Left = do { e \<leftarrow> checked_add16 (rect_x candidate) (rect_width candidate); Some (e \<le> rect_x current) }"
| "is_in_direction current candidate Right = do { e \<leftarrow> checked_add16 (rect_x current) (rect_width current); Some (e \<le> rect_x candidate) }"
| "is_in_direction current candidate Up = do { e \<leftarrow> checked_add16 (rect_y candidate) (rect_height candidate); Some (e \<le> rect_y current) }"
| "is_in_direction current candidate Down = do { e \<leftarrow> checked_add16 (rect_y current) (rect_height current); Some (e \<le> rect_y candidate) }"

definition compute_overlap :: "rect \<Rightarrow> rect \<Rightarrow> spatial_direction \<Rightarrow> nat option" where
  "compute_overlap current candidate direction =
     (if direction = Left \<or> direction = Right then do {
        let start = max (rect_y current) (rect_y candidate);
        a \<leftarrow> checked_add16 (rect_y current) (rect_height current);
        b \<leftarrow> checked_add16 (rect_y candidate) (rect_height candidate);
        Some (min a b - start) }
      else do {
        let start = max (rect_x current) (rect_x candidate);
        a \<leftarrow> checked_add16 (rect_x current) (rect_width current);
        b \<leftarrow> checked_add16 (rect_x candidate) (rect_width candidate);
        Some (min a b - start) })"

fun compute_distance :: "rect \<Rightarrow> rect \<Rightarrow> spatial_direction \<Rightarrow> nat option" where
  "compute_distance current candidate Left = do { e \<leftarrow> checked_add16 (rect_x candidate) (rect_width candidate); Some (rect_x current - e) }"
| "compute_distance current candidate Right = do { e \<leftarrow> checked_add16 (rect_x current) (rect_width current); Some (rect_x candidate - e) }"
| "compute_distance current candidate Up = do { e \<leftarrow> checked_add16 (rect_y candidate) (rect_height candidate); Some (rect_y current - e) }"
| "compute_distance current candidate Down = do { e \<leftarrow> checked_add16 (rect_y current) (rect_height current); Some (rect_y candidate - e) }"

definition perpendicular_center :: "rect \<Rightarrow> spatial_direction \<Rightarrow> nat option" where
  "perpendicular_center r direction =
     (if direction = Left \<or> direction = Right then checked_add16 (rect_y r) (rect_height r div 2)
      else checked_add16 (rect_x r) (rect_width r div 2))"

definition hint_dist :: "spatial_direction \<Rightarrow> nat \<Rightarrow> rect \<Rightarrow> nat option" where
  "hint_dist direction hint r = do { c \<leftarrow> perpendicular_center r direction; Some (nat \<bar>int c - int hint\<bar>) }"

definition compare_candidates :: "rect \<Rightarrow> rect \<Rightarrow> rect \<Rightarrow> spatial_direction \<Rightarrow> nat \<Rightarrow> ordering option" where
  "compare_candidates current a b direction hint = do {
     oa \<leftarrow> compute_overlap current a direction;
     ob \<leftarrow> compute_overlap current b direction;
     if compare oa ob \<noteq> Equal then Some (compare oa ob)
     else do {
       db \<leftarrow> compute_distance current b direction;
       da \<leftarrow> compute_distance current a direction;
       if compare db da \<noteq> Equal then Some (compare db da)
       else do {
         hb \<leftarrow> hint_dist direction hint b;
         ha \<leftarrow> hint_dist direction hint a;
         Some (compare hb ha) } } }"

definition candidates :: "view_id \<Rightarrow> rect \<Rightarrow> spatial_direction \<Rightarrow> (view_id \<times> rect) list \<Rightarrow> (view_id \<times> rect) list option" where
  "candidates current current_rect direction vs =
     filter_checked (\<lambda>(v, r). if v = current then Some False else is_in_direction current_rect r direction) vs"

definition compare_distance :: "rect \<Rightarrow> rect \<Rightarrow> rect \<Rightarrow> spatial_direction \<Rightarrow> ordering option" where
  "compare_distance current a b direction = do {
     da \<leftarrow> compute_distance current a direction;
     db \<leftarrow> compute_distance current b direction;
     Some (compare da db) }"

definition view_in_direction :: "layout \<Rightarrow> rect \<Rightarrow> view_id \<Rightarrow> spatial_direction \<Rightarrow> nat \<Rightarrow> view_id option option" where
  "view_in_direction l area current direction hint = do {
     vs \<leftarrow> compute_view_areas l area;
     (case find (\<lambda>(v, _). v = current) vs of
        None \<Rightarrow> Some None
      | Some (_, current_rect) \<Rightarrow> do {
          ahead \<leftarrow> candidates current current_rect direction vs;
          best \<leftarrow> max_by (\<lambda>(_, a) (_, b). compare_candidates current_rect a b direction hint) ahead;
          (case best of
             Some (v, _) \<Rightarrow> Some (Some v)
           | None \<Rightarrow> do {
               let wrap = opposite direction;
               behind \<leftarrow> candidates current current_rect wrap vs;
               far \<leftarrow> max_by (\<lambda>(_, a) (_, b). compare_distance current_rect a b wrap) behind;
               Some (map_option fst far) }) }) }"

section \<open>Specification predicates\<close>

text \<open>An area whose right and bottom edges are representable, and rectangles inside another.\<close>

definition fits16 :: "rect \<Rightarrow> bool" where
  "fits16 r \<longleftrightarrow> rect_x r + rect_width r \<le> u16_max \<and> rect_y r + rect_height r \<le> u16_max"

definition inside :: "rect \<Rightarrow> rect \<Rightarrow> bool" where
  "inside r a \<longleftrightarrow>
     rect_x a \<le> rect_x r \<and> rect_x r + rect_width r \<le> rect_x a + rect_width a \<and>
     rect_y a \<le> rect_y r \<and> rect_y r + rect_height r \<le> rect_y a + rect_height a"

text \<open>How many of a list of rectangles contain a cell.\<close>

definition cover :: "rect list \<Rightarrow> nat \<times> nat \<Rightarrow> nat" where
  "cover rs q = length (filter (\<lambda>r. rect_contains r q) rs)"

fun sub_at :: "layout \<Rightarrow> rect \<Rightarrow> bool list \<Rightarrow> (layout \<times> rect) option" where
  "sub_at l a [] = Some (l, a)"
| "sub_at (Single v) a (b # path) = None"
| "sub_at (Split d p f s) a (b # path) = do {
     (fa, sa, _) \<leftarrow> compute_split_areas a d p;
     if b then sub_at s sa path else sub_at f fa path }"

fun extent_along :: "split_direction \<Rightarrow> rect \<Rightarrow> nat" where
  "extent_along Horizontal r = rect_width r"
| "extent_along Vertical r = rect_height r"

fun origin_along :: "split_direction \<Rightarrow> rect \<Rightarrow> nat" where
  "origin_along Horizontal r = rect_x r"
| "origin_along Vertical r = rect_y r"

fun min_extent :: "split_direction \<Rightarrow> layout \<Rightarrow> nat option" where
  "min_extent Horizontal l = min_width l"
| "min_extent Vertical l = min_height l"

fun mouse_along :: "split_direction \<Rightarrow> nat \<Rightarrow> nat \<Rightarrow> nat" where
  "mouse_along Horizontal x y = x"
| "mouse_along Vertical x y = y"

fun lies :: "spatial_direction \<Rightarrow> rect \<Rightarrow> rect \<Rightarrow> bool" where
  "lies Left c r \<longleftrightarrow> rect_x r + rect_width r \<le> rect_x c"
| "lies Right c r \<longleftrightarrow> rect_x c + rect_width c \<le> rect_x r"
| "lies Up c r \<longleftrightarrow> rect_y r + rect_height r \<le> rect_y c"
| "lies Down c r \<longleftrightarrow> rect_y c + rect_height c \<le> rect_y r"

definition no_better :: "rect \<Rightarrow> spatial_direction \<Rightarrow> nat \<Rightarrow> rect \<Rightarrow> rect \<Rightarrow> bool" where
  "no_better c d hint a b \<longleftrightarrow>
     (let ov = (\<lambda>r. the (compute_overlap c r d)); ds = (\<lambda>r. the (compute_distance c r d)); hd = (\<lambda>r. the (hint_dist d hint r))
      in ov a < ov b \<or> ov a = ov b \<and> (ds b < ds a \<or> ds b = ds a \<and> hd b \<le> hd a))"

section \<open>Lemmas\<close>

subsection \<open>Rectangles\<close>

lemma checked_add16_Some [simp]: "a + b \<le> u16_max \<Longrightarrow> checked_add16 a b = Some (a + b)"
  by (simp add: checked_add16_def)

lemma clamp16_Some [simp]: "lo \<le> hi \<Longrightarrow> clamp16 x lo hi = Some (max lo (min x hi))"
  by (simp add: clamp16_def)

lemma inside_refl [simp]: "inside r r"
  by (simp add: inside_def)

lemma inside_trans: "inside r s \<Longrightarrow> inside s t \<Longrightarrow> inside r t"
  by (auto simp: inside_def)

lemma inside_fits: "inside r a \<Longrightarrow> fits16 a \<Longrightarrow> fits16 r"
  by (auto simp: inside_def fits16_def)

lemma rect_new_fits: "x \<le> u16_max \<Longrightarrow> y \<le> u16_max \<Longrightarrow> fits16 (rect_new x y w h)"
  by (auto simp: rect_new_def fits16_def saturating_add16_def)

lemma fits_edges [simp]:
  "fits16 r \<Longrightarrow> rect_right r = rect_x r + rect_width r"
  "fits16 r \<Longrightarrow> rect_bottom r = rect_y r + rect_height r"
  by (auto simp: fits16_def rect_right_def rect_bottom_def saturating_add16_def)

lemma intersection_contains:
  assumes "fits16 a" "fits16 b"
  shows "rect_contains (rect_intersection a b) q \<longleftrightarrow> rect_contains a q \<and> rect_contains b q"
  using assms
  by (cases q) (auto simp: rect_contains_def rect_intersection_def Let_def rect_right_def rect_bottom_def rect_new_def
      saturating_add16_def fits16_def)

lemma union_contains:
  assumes "fits16 a" "fits16 b" "rect_contains a q \<or> rect_contains b q"
  shows "rect_contains (rect_union a b) q"
  using assms
  by (cases q) (auto simp: rect_contains_def rect_union_def Let_def rect_right_def rect_bottom_def rect_new_def
      saturating_add16_def fits16_def)

lemma intersects_iff:
  assumes "fits16 a" "fits16 b"
  shows "rect_intersects a b \<and> \<not> rect_is_empty a \<and> \<not> rect_is_empty b \<longleftrightarrow> (\<exists>q. rect_contains a q \<and> rect_contains b q)"
proof
  assume "rect_intersects a b \<and> \<not> rect_is_empty a \<and> \<not> rect_is_empty b"
  then have "rect_contains a (max (rect_x a) (rect_x b), max (rect_y a) (rect_y b))"
    "rect_contains b (max (rect_x a) (rect_x b), max (rect_y a) (rect_y b))"
    using assms by (auto simp: rect_contains_def rect_intersects_def rect_is_empty_def)
  then show "\<exists>q. rect_contains a q \<and> rect_contains b q"
    by blast
qed (use assms in \<open>auto simp: rect_contains_def rect_intersects_def rect_is_empty_def\<close>)

lemma clamp_rect_inside:
  assumes "fits16 other"
  shows "\<exists>r'. clamp_rect r other = Some r' \<and> inside r' other \<and> (inside r other \<longrightarrow> r' = r)"
proof -
  have e: "rect_right other = rect_x other + rect_width other" "rect_bottom other = rect_y other + rect_height other"
    "rect_x other + rect_width other \<le> u16_max" "rect_y other + rect_height other \<le> u16_max"
    using assms by (auto simp: fits16_def)
  show ?thesis
    by (cases r) (use e in \<open>auto simp: clamp_rect_def Let_def rect_new_def saturating_add16_def inside_def\<close>)
qed

subsection \<open>Splitting an area\<close>

lemma split_offset_bounds:
  assumes "0 < avail" "0 < soft"
  shows "\<exists>p. split_offset soft avail pos = Some p \<and> 0 < p \<and> p \<le> avail \<and> (1 < avail \<longrightarrow> p < avail) \<and>
    (soft + soft \<le> avail \<longrightarrow> soft \<le> p \<and> soft \<le> avail - p \<and> (soft \<le> pos \<and> pos \<le> avail - soft \<longrightarrow> p = pos))"
  using assms by (auto simp: split_offset_def Let_def min_def max_def)

lemma compute_split_areas_ok:
  assumes "fits16 a"
  obtains f s sep where "compute_split_areas a d p = Some (f, s, sep)"
    "inside f a" "inside s a" "inside sep a"
    "\<And>q. of_bool (rect_contains f q) + of_bool (rect_contains s q) + of_bool (rect_contains sep q) \<le> (of_bool (rect_contains a q) :: nat)"
    "\<And>q. \<not> rect_is_empty sep \<Longrightarrow>
       of_bool (rect_contains f q) + of_bool (rect_contains s q) + of_bool (rect_contains sep q) = (of_bool (rect_contains a q) :: nat)"
proof (cases d)
  case Horizontal
  show thesis
  proof (cases "rect_width a \<le> 1")
    case True
    show thesis
      by (rule that [of "a\<lparr>rect_width := 0\<rparr>" "a\<lparr>rect_width := 0\<rparr>" "a\<lparr>rect_width := 0\<rparr>"])
        (use True in \<open>simp_all add: Horizontal Let_def inside_def rect_is_empty_def rect_contains_def rect_right_def
          rect_bottom_def saturating_add16_def\<close>)
  next
    case False
    obtain k where k: "split_offset MIN_WIDTH (rect_width a - 1) p = Some k" "0 < k" "k \<le> rect_width a - 1"
      using split_offset_bounds [of "rect_width a - 1" MIN_WIDTH p] False by (auto simp: MIN_WIDTH_def)
    have e: "rect_x a + rect_width a \<le> u16_max" "rect_y a + rect_height a \<le> u16_max"
      using assms by (auto simp: fits16_def)
    show thesis
      by (rule that [of "a\<lparr>rect_width := k\<rparr>" "a\<lparr>rect_x := rect_x a + k + 1, rect_width := rect_width a - 1 - k\<rparr>"
            "a\<lparr>rect_x := rect_x a + k, rect_width := 1\<rparr>"])
        (use False k e in \<open>auto simp: Horizontal Let_def inside_def rect_is_empty_def rect_contains_def rect_right_def
          rect_bottom_def saturating_add16_def of_bool_def\<close>)
  qed
next
  case Vertical
  show thesis
  proof (cases "rect_height a \<le> 1")
    case True
    show thesis
      by (rule that [of "a\<lparr>rect_height := 0\<rparr>" "a\<lparr>rect_height := 0\<rparr>" "a\<lparr>rect_height := 0\<rparr>"])
        (use True in \<open>simp_all add: Vertical Let_def inside_def rect_is_empty_def rect_contains_def rect_right_def
          rect_bottom_def saturating_add16_def\<close>)
  next
    case False
    obtain k where k: "split_offset MIN_HEIGHT (rect_height a - 1) p = Some k" "0 < k" "k \<le> rect_height a - 1"
      using split_offset_bounds [of "rect_height a - 1" MIN_HEIGHT p] False by (auto simp: MIN_HEIGHT_def)
    have e: "rect_x a + rect_width a \<le> u16_max" "rect_y a + rect_height a \<le> u16_max"
      using assms by (auto simp: fits16_def)
    show thesis
      by (rule that [of "a\<lparr>rect_height := k\<rparr>" "a\<lparr>rect_y := rect_y a + k + 1, rect_height := rect_height a - 1 - k\<rparr>"
            "a\<lparr>rect_y := rect_y a + k, rect_height := 1\<rparr>"])
        (use False k e in \<open>auto simp: Vertical Let_def inside_def rect_is_empty_def rect_contains_def rect_right_def
          rect_bottom_def saturating_add16_def of_bool_def\<close>)
  qed
qed

subsection \<open>Views and separators partition the area\<close>

lemma cover_simps [simp]:
  "cover [] q = 0"
  "cover (r # rs) q = of_bool (rect_contains r q) + cover rs q"
  "cover (rs @ rs') q = cover rs q + cover rs' q"
  by (simp_all add: cover_def)

lemma length_views [simp]: "length (views l) = ly_count l"
  by (induction l) auto

lemma ly_count_pos [simp]: "0 < ly_count l"
  by (induction l) auto

lemma layout_areas:
  assumes "fits16 a"
  shows "\<exists>vs seps. compute_view_areas l a = Some vs \<and> separator_positions l a = Some seps \<and>
    map fst vs = views l \<and> length seps + 1 = ly_count l \<and>
    (\<forall>r \<in> set (map snd vs @ map (snd \<circ> snd) seps). inside r a) \<and>
    (\<forall>q. cover (map snd vs @ map (snd \<circ> snd) seps) q \<le> of_bool (rect_contains a q)) \<and>
    ((\<forall>sep \<in> set seps. \<not> rect_is_empty (snd (snd sep))) \<longrightarrow>
      (\<forall>q. cover (map snd vs @ map (snd \<circ> snd) seps) q = of_bool (rect_contains a q)))"
  using assms
proof (induction l arbitrary: a)
  case (Split d p l1 l2)
  obtain f s sep where sp: "compute_split_areas a d p = Some (f, s, sep)" "inside f a" "inside s a" "inside sep a"
    and le: "\<And>q. of_bool (rect_contains f q) + of_bool (rect_contains s q) + of_bool (rect_contains sep q) \<le> (of_bool (rect_contains a q) :: nat)"
    and eq: "\<And>q. \<not> rect_is_empty sep \<Longrightarrow>
       of_bool (rect_contains f q) + of_bool (rect_contains s q) + of_bool (rect_contains sep q) = (of_bool (rect_contains a q) :: nat)"
    using compute_split_areas_ok [OF Split.prems] by metis
  obtain vs1 ss1 where 1: "compute_view_areas l1 f = Some vs1" "separator_positions l1 f = Some ss1"
    "map fst vs1 = views l1" "length ss1 + 1 = ly_count l1" "\<forall>r \<in> set (map snd vs1 @ map (snd \<circ> snd) ss1). inside r f"
    "\<forall>q. cover (map snd vs1 @ map (snd \<circ> snd) ss1) q \<le> of_bool (rect_contains f q)"
    "(\<forall>sep \<in> set ss1. \<not> rect_is_empty (snd (snd sep))) \<longrightarrow> (\<forall>q. cover (map snd vs1 @ map (snd \<circ> snd) ss1) q = of_bool (rect_contains f q))"
    using Split.IH(1) [OF inside_fits [OF sp(2) Split.prems]] by blast
  obtain vs2 ss2 where 2: "compute_view_areas l2 s = Some vs2" "separator_positions l2 s = Some ss2"
    "map fst vs2 = views l2" "length ss2 + 1 = ly_count l2" "\<forall>r \<in> set (map snd vs2 @ map (snd \<circ> snd) ss2). inside r s"
    "\<forall>q. cover (map snd vs2 @ map (snd \<circ> snd) ss2) q \<le> of_bool (rect_contains s q)"
    "(\<forall>sep \<in> set ss2. \<not> rect_is_empty (snd (snd sep))) \<longrightarrow> (\<forall>q. cover (map snd vs2 @ map (snd \<circ> snd) ss2) q = of_bool (rect_contains s q))"
    using Split.IH(2) [OF inside_fits [OF sp(3) Split.prems]] by blast
  let ?vs = "vs1 @ vs2" and ?ss = "(d, 0, sep) # ss1 @ ss2"
  have sum: "cover (map snd ?vs @ map (snd \<circ> snd) ?ss) q =
      cover (map snd vs1 @ map (snd \<circ> snd) ss1) q + cover (map snd vs2 @ map (snd \<circ> snd) ss2) q + of_bool (rect_contains sep q)" for q
    by simp
  have cle: "\<forall>q. cover (map snd ?vs @ map (snd \<circ> snd) ?ss) q \<le> of_bool (rect_contains a q)"
    unfolding sum by (meson 1(6) 2(6) le add_mono le_refl order_trans)
  have ceq: "\<forall>q. cover (map snd ?vs @ map (snd \<circ> snd) ?ss) q = of_bool (rect_contains a q)"
    if ne: "\<forall>sep \<in> set ?ss. \<not> rect_is_empty (snd (snd sep))"
    unfolding sum using 1(7) 2(7) eq ne by simp
  have "\<forall>r \<in> set (map snd vs1 @ map (snd \<circ> snd) ss1). inside r a" "\<forall>r \<in> set (map snd vs2 @ map (snd \<circ> snd) ss2). inside r a"
    using 1(5) inside_trans [OF _ sp(2)] 2(5) inside_trans [OF _ sp(3)] by blast+
  then have ins: "\<forall>r \<in> set (map snd ?vs @ map (snd \<circ> snd) ?ss). inside r a"
    using sp(4) by auto
  have run: "compute_view_areas (Split d p l1 l2) a = Some ?vs" "separator_positions (Split d p l1 l2) a = Some ?ss"
    "map fst ?vs = views (Split d p l1 l2)" "length ?ss + 1 = ly_count (Split d p l1 l2)"
    using sp(1) 1(1-4) 2(1-4) by simp_all
  show ?case
    by (rule exI [of _ ?vs], rule exI [of _ ?ss], intro conjI impI run ins cle) (rule ceq)
qed simp

subsection \<open>Hit tests\<close>

lemma hit_test_contains: "fits16 r \<Longrightarrow> hit_test r x y = Some (rect_contains r (x, y))"
  by (auto simp: hit_test_def rect_contains_def fits16_def rect_right_def rect_bottom_def saturating_add16_def)

lemma find_checked_find:
  "(\<And>x. x \<in> set xs \<Longrightarrow> P x = Some (Q x)) \<Longrightarrow> find_checked P xs = Some (find Q xs)"
  by (induction xs) auto

lemma cover_le_1_unique:
  assumes "cover rs q \<le> 1" "i < length rs" "j < length rs" "rect_contains (rs ! i) q" "rect_contains (rs ! j) q"
  shows "i = j"
proof (rule ccontr)
  assume "i \<noteq> j"
  then have "card {i, j} = 2"
    by simp
  moreover have "{i, j} \<subseteq> {k. k < length rs \<and> rect_contains (rs ! k) q}"
    using assms by auto
  ultimately have "2 \<le> card {k. k < length rs \<and> rect_contains (rs ! k) q}"
    using card_mono [of "{k. k < length rs \<and> rect_contains (rs ! k) q}" "{i, j}"] by simp
  then show False
    using assms(1) by (simp add: cover_def length_filter_conv_card)
qed

lemma view_at_position_find:
  assumes "fits16 a" "compute_view_areas l a = Some vs"
  shows "view_at_position l a x y = Some (find (\<lambda>(_, r). rect_contains r (x, y)) vs)"
proof -
  have "\<forall>r \<in> snd ` set vs. inside r a"
    using layout_areas [OF assms(1), of l] assms(2) by auto
  then have "\<And>z. z \<in> set vs \<Longrightarrow> (case z of (_, r) \<Rightarrow> hit_test r x y) = Some (case z of (_, r) \<Rightarrow> rect_contains r (x, y))"
    using inside_fits [OF _ assms(1)] hit_test_contains by fastforce
  then show ?thesis
    by (simp add: view_at_position_def assms(2) find_checked_find)
qed

subsection \<open>Separators and their paths\<close>

lemma find_append: "find P (xs @ ys) = (case find P xs of Some x \<Rightarrow> Some x | None \<Rightarrow> find P ys)"
  by (induction xs) auto

lemma find_separator_total:
  assumes "fits16 a" "separator_positions l a = Some seps"
  shows "\<exists>res. find_separator_with_path l a x y path = Some res \<and>
    map_option (\<lambda>(d, r, _). (d, r)) res = map_option (\<lambda>(d, _, r). (d, r)) (find (\<lambda>(_, _, r). rect_contains r (x, y)) seps)"
  using assms
proof (induction l arbitrary: a path seps)
  case (Split d p l1 l2)
  obtain f s sep where sp: "compute_split_areas a d p = Some (f, s, sep)" "inside f a" "inside s a" "inside sep a"
    using compute_split_areas_ok [OF Split.prems(1)] by metis
  have fits: "fits16 f" "fits16 s" "fits16 sep"
    using sp(2-4) inside_fits [OF _ Split.prems(1)] by blast+
  obtain ss1 ss2 where ss: "separator_positions l1 f = Some ss1" "separator_positions l2 s = Some ss2"
    "seps = (d, 0, sep) # ss1 @ ss2"
    using Split.prems(2) sp(1) by (auto simp: Option.bind_eq_Some_conv)
  obtain res1 where r1: "find_separator_with_path l1 f x y (path @ [False]) = Some res1"
    "map_option (\<lambda>(d, r, _). (d, r)) res1 = map_option (\<lambda>(d, _, r). (d, r)) (find (\<lambda>(_, _, r). rect_contains r (x, y)) ss1)"
    using Split.IH(1) [OF fits(1) ss(1)] by blast
  obtain res2 where r2: "find_separator_with_path l2 s x y (path @ [True]) = Some res2"
    "map_option (\<lambda>(d, r, _). (d, r)) res2 = map_option (\<lambda>(d, _, r). (d, r)) (find (\<lambda>(_, _, r). rect_contains r (x, y)) ss2)"
    using Split.IH(2) [OF fits(2) ss(2)] by blast
  show ?case
    using sp(1) fits r1 r2 ss(3)
    by (cases res1) (auto simp: hit_test_contains find_append split: option.splits)
qed auto

lemma find_separator_sound:
  assumes "find_separator_with_path l a x y path = Some (Some (d, r, path'))" "fits16 a"
  shows "\<exists>ext. path' = path @ ext \<and> do_get_separator_at_path l a ext = Some (Some (d, r)) \<and> rect_contains r (x, y)"
  using assms
proof (induction l arbitrary: a path)
  case (Split d' p l1 l2)
  obtain f s sep where sp: "compute_split_areas a d' p = Some (f, s, sep)" "inside f a" "inside s a" "inside sep a"
    using compute_split_areas_ok [OF Split.prems(2)] by metis
  have fits: "fits16 f" "fits16 s" "fits16 sep"
    using sp(2-4) inside_fits [OF _ Split.prems(2)] by blast+
  consider "rect_contains sep (x, y)" "d' = d" "sep = r" "path' = path"
    | "find_separator_with_path l1 f x y (path @ [False]) = Some (Some (d, r, path'))"
    | "find_separator_with_path l2 s x y (path @ [True]) = Some (Some (d, r, path'))"
    using Split.prems(1) sp(1) hit_test_contains [OF fits(3)]
    by (auto simp: Option.bind_eq_Some_conv split: if_splits option.splits)
  then show ?case
  proof cases
    case 1
    then show ?thesis
      using sp(1) by simp
  next
    case 2
    then show ?thesis
      using Split.IH(1) [OF 2 fits(1)] sp(1) by fastforce
  next
    case 3
    then show ?thesis
      using Split.IH(2) [OF 3 fits(2)] sp(1) by fastforce
  qed
qed simp

lemma get_separator_sub_at:
  assumes "fits16 a" "do_get_separator_at_path l a path = Some (Some (d, r))"
  shows "\<exists>p f s b fa sa. sub_at l a path = Some (Split d p f s, b) \<and> compute_split_areas b d p = Some (fa, sa, r)"
  using assms
proof (induction l arbitrary: a path)
  case (Split d' p l1 l2)
  obtain f s sep where sp: "compute_split_areas a d' p = Some (f, s, sep)" "inside f a" "inside s a"
    using compute_split_areas_ok [OF Split.prems(1)] by metis
  have fits: "fits16 f" "fits16 s"
    using sp(2,3) inside_fits [OF _ Split.prems(1)] by blast+
  show ?case
    using Split.IH(1) [OF fits(1)] Split.IH(2) [OF fits(2)] Split.prems(2) sp(1)
    by (cases path) (auto split: if_splits)
qed simp

lemma sub_at_fits:
  "sub_at l a path = Some (l', b) \<Longrightarrow> fits16 a \<Longrightarrow> fits16 b \<and> inside b a \<and> ly_count l' \<le> ly_count l"
proof (induction l a path rule: sub_at.induct)
  case (3 d p f s a c path)
  obtain fa sa sep where sp: "compute_split_areas a d p = Some (fa, sa, sep)" "inside fa a" "inside sa a"
    using compute_split_areas_ok [OF 3(4)] by metis
  have fits: "fits16 fa" "fits16 sa"
    using sp(2,3) inside_fits [OF _ 3(4)] by blast+
  have "\<exists>l1 a1. sub_at l1 a1 path = Some (l', b) \<and> fits16 b \<and> inside b a1 \<and> inside a1 a \<and> ly_count l' \<le> ly_count l1 \<and>
      ly_count l1 \<le> ly_count f + ly_count s"
  proof (cases c)
    case True
    with 3(3) sp(1) have "sub_at s sa path = Some (l', b)"
      by simp
    with 3(1) [OF sp(1) refl refl True] fits(2) sp(3) show ?thesis
      by (intro exI [of _ s] exI [of _ sa]) simp
  next
    case False
    with 3(3) sp(1) have "sub_at f fa path = Some (l', b)"
      by simp
    with 3(2) [OF sp(1) refl refl False] fits(1) sp(2) show ?thesis
      by (intro exI [of _ f] exI [of _ fa]) simp
  qed
  then show ?case
    using inside_trans by (metis ly_count.simps(2) order_trans)
qed auto

subsection \<open>Moving a separator\<close>

lemma min_extent_bounds:
  "11 * ly_count l \<le> u16_max \<Longrightarrow>
    \<exists>m. min_width l = Some m \<and> MIN_WIDTH \<le> m \<and> m + 1 \<le> 11 * ly_count l"
  "11 * ly_count l \<le> u16_max \<Longrightarrow>
    \<exists>m. min_height l = Some m \<and> MIN_HEIGHT \<le> m \<and> m + 1 \<le> 11 * ly_count l"
proof (induction l)
  case (Split d p f s)
  case 1 show ?case
    using Split.IH(1,3) 1 by (cases d) (auto simp: checked_add16_def)
  case 2 show ?case
    using Split.IH(2,4) 2 by (cases d) (auto simp: checked_add16_def)
qed (auto simp: MIN_WIDTH_def MIN_HEIGHT_def)

lemma min_extent_ok:
  assumes "11 * ly_count l \<le> u16_max"
  shows "\<exists>m. min_extent d l = Some m \<and> (case d of Horizontal \<Rightarrow> MIN_WIDTH | Vertical \<Rightarrow> MIN_HEIGHT) \<le> m \<and> m + 1 \<le> 11 * ly_count l"
  using min_extent_bounds [OF assms] by (cases d) auto

lemma split_at_clamped:
  assumes "fits16 b" "min_extent d f = Some m1" "min_extent d s = Some m2"
    and "(case d of Horizontal \<Rightarrow> MIN_WIDTH | Vertical \<Rightarrow> MIN_HEIGHT) \<le> min m1 m2"
    and "m1 \<le> p" "p + 1 + m2 \<le> extent_along d b"
  shows "\<exists>fa sa r. compute_split_areas b d p = Some (fa, sa, r) \<and> extent_along d fa = p \<and>
    extent_along d sa = extent_along d b - 1 - p \<and> origin_along d r = origin_along d b + p"
  using assms
  by (cases d) (auto simp: Let_def split_offset_def MIN_WIDTH_def MIN_HEIGHT_def fits16_def)

lemma resize_root:
  assumes "min_extent d f = Some m1" "min_extent d s = Some m2" "m2 + 1 \<le> u16_max"
  shows "do_resize_at_path (Split d p f s) a [] x y =
    (let hi = extent_along d a - (m2 + 1)
     in Some (True, Split d (max (min m1 hi) (min (mouse_along d x y - origin_along d a) hi)) f s))"
  using assms by (cases d) (auto simp: Let_def)

lemma sub_at_frame:
  assumes "compute_split_areas a d p = Some (fa, sa, sep)"
    and "\<forall>q. \<not> prefix path q \<and> \<not> prefix q path \<longrightarrow> sub_at k (if c then sa else fa) q = sub_at (if c then l2 else l1) (if c then sa else fa) q"
  shows "\<forall>q. \<not> prefix (c # path) q \<and> \<not> prefix q (c # path) \<longrightarrow>
    sub_at (if c then Split d p l1 k else Split d p k l2) a q = sub_at (Split d p l1 l2) a q"
proof (intro allI impI)
  fix q
  assume "\<not> prefix (c # path) q \<and> \<not> prefix q (c # path)"
  then show "sub_at (if c then Split d p l1 k else Split d p k l2) a q = sub_at (Split d p l1 l2) a q"
    using assms by (cases q) (auto split: if_splits)
qed

lemma resize_at_path_ok:
  assumes "fits16 a" "11 * ly_count l \<le> u16_max" "sub_at l a path = Some (Split d p f s, b)"
    and "min_extent d f = Some m1" "min_extent d s = Some m2"
  shows "\<exists>l'. do_resize_at_path l a path x y = Some (True, l') \<and> views l' = views l \<and>
    sub_at l' a path = Some (Split d (max (min m1 (extent_along d b - (m2 + 1)))
      (min (mouse_along d x y - origin_along d b) (extent_along d b - (m2 + 1)))) f s, b) \<and>
    (\<forall>q. \<not> prefix path q \<and> \<not> prefix q path \<longrightarrow> sub_at l' a q = sub_at l a q)"
  using assms(1-3)
proof (induction l arbitrary: a path)
  case (Single v)
  then show ?case by (cases path) auto
next
  case (Split d0 p0 l1 l2)
  show ?case
  proof (cases path)
    case Nil
    have eq: "d0 = d" "p0 = p" "l1 = f" "l2 = s" "a = b"
      using Split.prems(3) Nil by auto
    have "m2 + 1 \<le> u16_max"
      using min_extent_ok [of l2 d0] Split.prems(2) assms(5) eq by auto
    then show ?thesis
      using resize_root [OF assms(4,5)] Nil by (simp add: eq Let_def)
  next
    case (Cons c path')
    obtain fa sa sep where sp: "compute_split_areas a d0 p0 = Some (fa, sa, sep)" "inside fa a" "inside sa a"
      using compute_split_areas_ok [OF Split.prems(1)] by metis
    have fits: "fits16 fa" "fits16 sa"
      using sp(2,3) inside_fits [OF _ Split.prems(1)] by blast+
    have small: "11 * ly_count l1 \<le> u16_max" "11 * ly_count l2 \<le> u16_max"
      using Split.prems(2) by auto
    show ?thesis
    proof (cases c)
      case True
      have sub: "sub_at l2 sa path' = Some (Split d p f s, b)"
        using Split.prems(3) sp(1) Cons True by simp
      then obtain l2' where r: "do_resize_at_path l2 sa path' x y = Some (True, l2')" "views l2' = views l2"
        "sub_at l2' sa path' = Some (Split d (max (min m1 (extent_along d b - (m2 + 1)))
          (min (mouse_along d x y - origin_along d b) (extent_along d b - (m2 + 1)))) f s, b)"
        "\<forall>q. \<not> prefix path' q \<and> \<not> prefix q path' \<longrightarrow> sub_at l2' sa q = sub_at l2 sa q"
        using Split.IH(2) [OF fits(2) small(2) sub] by blast
      show ?thesis
        using sub_at_frame [OF sp(1), of path' l2' True l2 l1] r sp(1) Cons True
        by (intro exI [of _ "Split d0 p0 l1 l2'"]) (simp del: prefix_Cons)
    next
      case False
      have sub: "sub_at l1 fa path' = Some (Split d p f s, b)"
        using Split.prems(3) sp(1) Cons False by simp
      then obtain l1' where r: "do_resize_at_path l1 fa path' x y = Some (True, l1')" "views l1' = views l1"
        "sub_at l1' fa path' = Some (Split d (max (min m1 (extent_along d b - (m2 + 1)))
          (min (mouse_along d x y - origin_along d b) (extent_along d b - (m2 + 1)))) f s, b)"
        "\<forall>q. \<not> prefix path' q \<and> \<not> prefix q path' \<longrightarrow> sub_at l1' fa q = sub_at l1 fa q"
        using Split.IH(1) [OF fits(1) small(1) sub] by blast
      show ?thesis
        using sub_at_frame [OF sp(1), of path' l1' False l2 l1] r sp(1) Cons False
        by (intro exI [of _ "Split d0 p0 l1' l2"]) (simp del: prefix_Cons)
    qed
  qed
qed

lemma resize_at_bad_path:
  assumes "fits16 a" "\<And>d p f s b. sub_at l a path \<noteq> Some (Split d p f s, b)"
  shows "do_resize_at_path l a path x y = Some (False, l)"
  using assms
proof (induction l arbitrary: a path)
  case (Split d0 p0 l1 l2)
  obtain c path' where Cons: "path = c # path'"
    using Split.prems(2) [of d0 p0 l1 l2 a] by (cases path) auto
  obtain fa sa sep where sp: "compute_split_areas a d0 p0 = Some (fa, sa, sep)" "inside fa a" "inside sa a"
    using compute_split_areas_ok [OF Split.prems(1)] by metis
  have fits: "fits16 fa" "fits16 sa"
    using sp(2,3) inside_fits [OF _ Split.prems(1)] by blast+
  show ?case
    using Split.IH(1) [OF fits(1), of path'] Split.IH(2) [OF fits(2), of path'] Split.prems(2) sp(1)
    by (cases c) (simp_all add: Cons)
qed simp

subsection \<open>Editing the tree\<close>

lemma contains_view_iff [simp]: "contains_view v l \<longleftrightarrow> v \<in> set (views l)"
  by (induction l) auto

lemma views_nonempty [simp]: "views l \<noteq> []"
  by (induction l) auto

lemma first_view_hd: "first_view l = hd (views l)"
  by (induction l) simp_all

lemma last_view_last: "last_view l = last (views l)"
  by (induction l) simp_all

lemma remove_view_views:
  "case remove_view v l of
     None \<Rightarrow> filter (\<lambda>w. w \<noteq> v) (views l) = []
   | Some l' \<Rightarrow> views l' = filter (\<lambda>w. w \<noteq> v) (views l)"
  by (induction l) (auto split: option.splits)

lemma replace_view_absent: "v \<notin> set (views l) \<Longrightarrow> replace_view v new l = (False, l)"
  by (induction l) auto

lemma replace_view_views:
  assumes "v \<in> set (views l)"
  shows "\<exists>l' xs ys. replace_view v new l = (True, l') \<and> views l = xs @ v # ys \<and> v \<notin> set xs \<and> views l' = xs @ views new @ ys"
  using assms
proof (induction l)
  case (Single w)
  then show ?case
    by (intro exI [of _ new] exI [of _ "[]"]) simp
next
  case (Split d p l1 l2)
  show ?case
  proof (cases "v \<in> set (views l1)")
    case True
    then show ?thesis
      using Split.IH(1) by fastforce
  next
    case False
    then obtain l' xs ys where "replace_view v new l2 = (True, l')" "views l2 = xs @ v # ys" "v \<notin> set xs"
      "views l' = xs @ views new @ ys"
      using Split.IH(2) Split.prems by auto
    then show ?thesis
      using False replace_view_absent [OF False] by (intro exI [of _ "Split d p l1 l'"] exI [of _ "views l1 @ xs"] exI [of _ ys]) simp
  qed
qed

subsection \<open>Cycling through the views\<close>

lemma index_of_nth: "distinct xs \<Longrightarrow> i < length xs \<Longrightarrow> index_of (xs ! i) xs = Some i"
  by (induction xs arbitrary: i) (auto simp: nth_Cons split: nat.splits)

lemma next_prev_nth:
  assumes "distinct (views l)" "i < ly_count l"
  shows "next_view l (views l ! i) = views l ! (Suc i mod ly_count l)"
    "prev_view l (views l ! i) = views l ! (if i = 0 then ly_count l - 1 else i - 1)"
  using assms index_of_nth [OF assms(1), of i] by (auto simp: next_view_def prev_view_def Let_def)

lemma next_prev_inverse:
  assumes "distinct (views l)" "v \<in> set (views l)"
  shows "prev_view l (next_view l v) = v" "next_view l (prev_view l v) = v"
proof -
  obtain i where i: "i < ly_count l" "v = views l ! i"
    using assms(2) by (metis in_set_conv_nth length_views)
  show "prev_view l (next_view l v) = v"
    using i next_prev_nth(1) [OF assms(1) i(1)] next_prev_nth(2) [OF assms(1), of "Suc i mod ly_count l"]
    by (cases "Suc i = ly_count l") (auto dest: sym)
  show "next_view l (prev_view l v) = v"
    using i next_prev_nth(2) [OF assms(1) i(1)] next_prev_nth(1) [OF assms(1), of "if i = 0 then ly_count l - 1 else i - 1"]
    by (cases i) auto
qed

subsection \<open>Moving the focus in a direction\<close>

lemma lies_compute: "fits16 c \<Longrightarrow> fits16 r \<Longrightarrow> is_in_direction c r d = Some (lies d c r)"
  by (cases d) (auto simp: fits16_def)

lemma navigation_total:
  assumes "fits16 c" "fits16 r"
  shows "compute_overlap c r d \<noteq> None" "compute_distance c r d \<noteq> None" "hint_dist d hint r \<noteq> None"
proof -
  have e: "rect_x c + rect_width c \<le> u16_max" "rect_y c + rect_height c \<le> u16_max"
    "rect_x r + rect_width r \<le> u16_max" "rect_y r + rect_height r \<le> u16_max"
    "rect_x r + rect_width r div 2 \<le> u16_max" "rect_y r + rect_height r div 2 \<le> u16_max"
    using assms by (auto simp: fits16_def)
  show "compute_overlap c r d \<noteq> None" "compute_distance c r d \<noteq> None" "hint_dist d hint r \<noteq> None"
    using e by (cases d; simp add: compute_overlap_def hint_dist_def perpendicular_center_def Let_def)+
qed

lemma filter_checked_filter:
  "(\<And>x. x \<in> set xs \<Longrightarrow> P x = Some (Q x)) \<Longrightarrow> filter_checked P xs = Some (filter Q xs)"
  by (induction xs) auto

lemma max_from_best:
  assumes "\<And>x y. x \<in> S \<Longrightarrow> y \<in> S \<Longrightarrow> \<exists>c. cmp x y = Some c \<and> (if c = Greater then le y x else le x y)"
    and "reflp le" "transp le" "m \<in> S" "set xs \<subseteq> S"
  shows "\<exists>b. max_from cmp m xs = Some b \<and> b \<in> insert m (set xs) \<and> (\<forall>x \<in> insert m (set xs). le x b)"
  using assms(4,5)
proof (induction xs arbitrary: m)
  case Nil
  then show ?case
    using assms(2) by (auto dest: reflpD)
next
  case (Cons x xs)
  obtain c where c: "cmp m x = Some c" "if c = Greater then le x m else le m x"
    using assms(1) [of m x] Cons.prems by auto
  let ?k = "if c = Greater then m else x"
  have k: "?k \<in> S" "le m ?k" "le x ?k"
    using Cons.prems c(2) assms(2) by (auto dest: reflpD)
  obtain b where b: "max_from cmp ?k xs = Some b" "b \<in> insert ?k (set xs)" "\<forall>x \<in> insert ?k (set xs). le x b"
    using Cons.IH [OF k(1)] Cons.prems by auto
  then have "le m b" "le x b"
    using k(2,3) assms(3) by (blast dest: transpD)+
  then show ?case
    using b c(1) by (intro exI [of _ b]) (auto split: if_splits)
qed

lemma max_by_best:
  assumes "\<And>x y. x \<in> set xs \<Longrightarrow> y \<in> set xs \<Longrightarrow> \<exists>c. cmp x y = Some c \<and> (if c = Greater then le y x else le x y)"
    and "reflp le" "transp le"
  shows "\<exists>res. max_by cmp xs = Some res \<and>
    (case res of None \<Rightarrow> xs = [] | Some b \<Rightarrow> b \<in> set xs \<and> (\<forall>x \<in> set xs. le x b))"
proof (cases xs)
  case (Cons m ys)
  then obtain b where "max_from cmp m ys = Some b" "b \<in> set xs" "\<forall>x \<in> set xs. le x b"
    using max_from_best [of "set xs" cmp le m ys] assms by auto
  then show ?thesis
    using Cons by (intro exI [of _ "Some b"]) simp
qed simp

lemma no_better_preorder: "reflp (no_better c d hint)" "transp (no_better c d hint)"
  by (auto simp: no_better_def Let_def intro!: reflpI transpI)

lemma compare_candidates_total:
  assumes "fits16 c" "fits16 a" "fits16 b"
  shows "\<exists>k. compare_candidates c a b d hint = Some k \<and> (if k = Greater then no_better c d hint b a else no_better c d hint a b)"
proof -
  obtain oa ob da db ha hb where "compute_overlap c a d = Some oa" "compute_overlap c b d = Some ob"
    "compute_distance c a d = Some da" "compute_distance c b d = Some db" "hint_dist d hint a = Some ha" "hint_dist d hint b = Some hb"
    using navigation_total [OF assms(1,2)] navigation_total [OF assms(1,3)] by blast
  then show ?thesis
    by (auto simp: compare_candidates_def compare_def no_better_def Let_def)
qed

lemma compare_distance_total:
  assumes "fits16 c" "fits16 a" "fits16 b"
  shows "\<exists>k. compare_distance c a b d = Some k \<and>
    (if k = Greater then the (compute_distance c b d) \<le> the (compute_distance c a d)
     else the (compute_distance c a d) \<le> the (compute_distance c b d))"
proof -
  obtain da db where "compute_distance c a d = Some da" "compute_distance c b d = Some db"
    using navigation_total(2) [OF assms(1,2)] navigation_total(2) [OF assms(1,3)] by blast
  then show ?thesis
    by (auto simp: compare_distance_def compare_def)
qed

lemma candidates_filter:
  assumes "fits16 c" "\<forall>r \<in> snd ` set vs. fits16 r"
  shows "candidates current c d vs = Some (filter (\<lambda>(v, r). v \<noteq> current \<and> lies d c r) vs)"
  unfolding candidates_def by (rule filter_checked_filter) (use assms in \<open>auto simp: lies_compute\<close>)

lemma view_in_direction_correct:
  fixes d :: spatial_direction
  assumes "fits16 a" "compute_view_areas l a = Some vs" "find (\<lambda>(v, _). v = current) vs = Some (current, c)"
  defines "ahead \<equiv> filter (\<lambda>(v, r). v \<noteq> current \<and> lies d c r) vs"
  defines "behind \<equiv> filter (\<lambda>(v, r). v \<noteq> current \<and> lies (opposite d) c r) vs"
  shows "\<exists>res. view_in_direction l a current d hint = Some res \<and>
    (case res of
       None \<Rightarrow> ahead = [] \<and> behind = []
     | Some w \<Rightarrow>
         (\<exists>r. (w, r) \<in> set ahead \<and> (\<forall>r' \<in> snd ` set ahead. no_better c d hint r' r)) \<or>
         ahead = [] \<and> (\<exists>r. (w, r) \<in> set behind \<and>
           (\<forall>r' \<in> snd ` set behind. the (compute_distance c r' (opposite d)) \<le> the (compute_distance c r (opposite d)))))"
proof -
  let ?dist = "\<lambda>r. the (compute_distance c r (opposite d))"
  have fits: "\<forall>r \<in> snd ` set vs. fits16 r"
    using layout_areas [OF assms(1), of l] assms(1,2) inside_fits by fastforce
  have "(current, c) \<in> set vs"
    using assms(3) by (metis find_Some_iff nth_mem)
  then have c: "fits16 c"
    using fits by force
  have sub: "\<And>x. x \<in> set ahead \<Longrightarrow> fits16 (snd x)" "\<And>x. x \<in> set behind \<Longrightarrow> fits16 (snd x)"
    using fits unfolding ahead_def behind_def by auto
  have cmp1: "\<exists>k. (case x of (_, a) \<Rightarrow> \<lambda>(_, b). compare_candidates c a b d hint) y = Some k \<and>
      (if k = Greater then no_better c d hint (snd y) (snd x) else no_better c d hint (snd x) (snd y))"
    if "x \<in> set ahead" "y \<in> set ahead" for x y
    using compare_candidates_total [OF c sub(1) sub(1), OF that] by (simp add: split_beta)
  have cmp2: "\<exists>k. (case x of (_, a) \<Rightarrow> \<lambda>(_, b). compare_distance c a b (opposite d)) y = Some k \<and>
      (if k = Greater then ?dist (snd y) \<le> ?dist (snd x) else ?dist (snd x) \<le> ?dist (snd y))"
    if "x \<in> set behind" "y \<in> set behind" for x y
    using compare_distance_total [OF c sub(2) sub(2), OF that] by (simp add: split_beta)
  have pre: "reflp (\<lambda>x y. no_better c d hint (snd x) (snd y))" "transp (\<lambda>x y. no_better c d hint (snd x) (snd y))"
    "reflp (\<lambda>x y. ?dist (snd x) \<le> ?dist (snd y))" "transp (\<lambda>x y. ?dist (snd x) \<le> ?dist (snd y))"
    using no_better_preorder [of c d hint] by (auto simp: reflp_def transp_def)
  obtain best where best: "max_by (\<lambda>(_, a) (_, b). compare_candidates c a b d hint) ahead = Some best"
    "case best of None \<Rightarrow> ahead = [] | Some b \<Rightarrow> b \<in> set ahead \<and> (\<forall>x \<in> set ahead. no_better c d hint (snd x) (snd b))"
    using max_by_best [OF cmp1 pre(1,2)] by blast
  obtain far where far: "max_by (\<lambda>(_, a) (_, b). compare_distance c a b (opposite d)) behind = Some far"
    "case far of None \<Rightarrow> behind = [] | Some b \<Rightarrow> b \<in> set behind \<and>
      (\<forall>x \<in> set behind. the (compute_distance c (snd x) (opposite d)) \<le> the (compute_distance c (snd b) (opposite d)))"
    using max_by_best [OF cmp2 pre(3,4)] by blast
  have cand: "candidates current c d vs = Some ahead" "candidates current c (opposite d) vs = Some behind"
    unfolding ahead_def behind_def by (rule candidates_filter [OF c fits])+
  show ?thesis
    using best far by (cases best; cases far) (fastforce simp: view_in_direction_def assms(2,3) cand Let_def)+
qed

subsection \<open>Hits and moves\<close>

lemma view_at_position_iff:
  assumes "fits16 a" "compute_view_areas l a = Some vs"
  shows "view_at_position l a x y = Some (Some (v, r)) \<longleftrightarrow> (v, r) \<in> set vs \<and> rect_contains r (x, y)"
proof -
  obtain ws seps where "compute_view_areas l a = Some ws" "separator_positions l a = Some seps"
    and le': "\<forall>q. cover (map snd ws @ map (snd \<circ> snd) seps) q \<le> of_bool (rect_contains a q)"
    using layout_areas [OF assms(1), of l] by blast
  then have "ws = vs"
    using assms(2) by simp
  have le: "cover (map snd vs) (x, y) \<le> 1"
    using le' [rule_format, of "(x, y)"] unfolding \<open>ws = vs\<close> by (simp add: of_bool_def split: if_splits)
  have unique: "i = j" if "i < length vs" "j < length vs" "rect_contains (snd (vs ! i)) (x, y)" "rect_contains (snd (vs ! j)) (x, y)" for i j
    using cover_le_1_unique [OF le, of i j] that by simp
  have "find (\<lambda>(_, r). rect_contains r (x, y)) vs = Some (v, r) \<longleftrightarrow> (v, r) \<in> set vs \<and> rect_contains r (x, y)"
  proof
    assume "(v, r) \<in> set vs \<and> rect_contains r (x, y)"
    then obtain i where i: "i < length vs" "vs ! i = (v, r)" "rect_contains (snd (vs ! i)) (x, y)"
      by (metis in_set_conv_nth snd_conv)
    then have "\<not> rect_contains (snd (vs ! j)) (x, y)" if "j < i" for j
      using unique [of j i] that by auto
    then show "find (\<lambda>(_, r). rect_contains r (x, y)) vs = Some (v, r)"
      unfolding find_Some_iff using i by (intro exI [of _ i]) (auto simp: split_beta)
  qed (auto simp: find_Some_iff split_beta dest: sym)
  then show ?thesis
    by (simp add: view_at_position_find [OF assms])
qed

lemma get_separator_at_sub:
  "sub_at l a path = Some (Split d p f s, b) \<Longrightarrow> compute_split_areas b d p = Some (fa, sa, r) \<Longrightarrow>
    do_get_separator_at_path l a path = Some (Some (d, r))"
proof (induction l arbitrary: a path)
  case (Single v)
  then show ?case by (cases path) auto
next
  case (Split d0 p0 l1 l2)
  then show ?case
    by (cases path; cases "hd path") (auto simp: Option.bind_eq_Some_conv)
qed

lemma resize_result:
  assumes "fits16 b" "min_extent d f = Some m1" "min_extent d s = Some m2"
    and "(case d of Horizontal \<Rightarrow> MIN_WIDTH | Vertical \<Rightarrow> MIN_HEIGHT) \<le> min m1 m2"
    and "p = max (min m1 (extent_along d b - (m2 + 1))) (min (mouse - origin_along d b) (extent_along d b - (m2 + 1)))"
    and "m1 + 1 + m2 \<le> extent_along d b"
  shows "\<exists>fa sa r. compute_split_areas b d p = Some (fa, sa, r) \<and> m1 \<le> extent_along d fa \<and> m2 \<le> extent_along d sa \<and>
    (origin_along d b + m1 \<le> mouse \<and> mouse + 1 + m2 \<le> origin_along d b + extent_along d b \<longrightarrow> origin_along d r = mouse)"
proof -
  have p: "m1 \<le> p" "p + 1 + m2 \<le> extent_along d b"
    using assms(5,6) by auto
  obtain fa sa r where "compute_split_areas b d p = Some (fa, sa, r)" "extent_along d fa = p"
    "extent_along d sa = extent_along d b - 1 - p" "origin_along d r = origin_along d b + p"
    using split_at_clamped [OF assms(1-4) p] by blast
  moreover have "origin_along d b + p = mouse"
    if "origin_along d b + m1 \<le> mouse \<and> mouse + 1 + m2 \<le> origin_along d b + extent_along d b"
    using that assms(5) by linarith
  ultimately show ?thesis
    using p by (intro exI [of _ fa] exI [of _ sa] exI [of _ r]) simp
qed

lemma separator_move:
  assumes "fits16 a" "11 * ly_count l \<le> u16_max" "sub_at l a path = Some (Split d p f s, b)"
    and "min_extent d f = Some m1" "min_extent d s = Some m2"
    and "(case d of Horizontal \<Rightarrow> MIN_WIDTH | Vertical \<Rightarrow> MIN_HEIGHT) \<le> min m1 m2"
  shows "\<exists>l' p'. do_resize_at_path l a path mx my = Some (True, l') \<and> views l' = views l \<and>
        sub_at l' a path = Some (Split d p' f s, b) \<and>
        (\<forall>q. \<not> prefix path q \<and> \<not> prefix q path \<longrightarrow> sub_at l' a q = sub_at l a q) \<and>
        (m1 + 1 + m2 \<le> extent_along d b \<longrightarrow>
          (\<exists>fa sa r'. compute_split_areas b d p' = Some (fa, sa, r') \<and>
            do_get_separator_at_path l' a path = Some (Some (d, r')) \<and>
            m1 \<le> extent_along d fa \<and> m2 \<le> extent_along d sa \<and>
            (origin_along d b + m1 \<le> mouse_along d mx my \<and>
             mouse_along d mx my + 1 + m2 \<le> origin_along d b + extent_along d b \<longrightarrow>
             origin_along d r' = mouse_along d mx my)))"
proof -
  have b: "fits16 b"
    using sub_at_fits [OF assms(3,1)] by simp
  obtain l' p' where l': "do_resize_at_path l a path mx my = Some (True, l')" "views l' = views l"
    "sub_at l' a path = Some (Split d p' f s, b)"
    "\<forall>q. \<not> prefix path q \<and> \<not> prefix q path \<longrightarrow> sub_at l' a q = sub_at l a q"
    and p': "p' = max (min m1 (extent_along d b - (m2 + 1)))
      (min (mouse_along d mx my - origin_along d b) (extent_along d b - (m2 + 1)))"
    using resize_at_path_ok [OF assms(1-5)] by blast
  have "\<exists>fa sa r'. compute_split_areas b d p' = Some (fa, sa, r') \<and>
      do_get_separator_at_path l' a path = Some (Some (d, r')) \<and>
      m1 \<le> extent_along d fa \<and> m2 \<le> extent_along d sa \<and>
      (origin_along d b + m1 \<le> mouse_along d mx my \<and>
       mouse_along d mx my + 1 + m2 \<le> origin_along d b + extent_along d b \<longrightarrow>
       origin_along d r' = mouse_along d mx my)" if "m1 + 1 + m2 \<le> extent_along d b"
    using resize_result [OF b assms(4-6) p' that] get_separator_at_sub [OF l'(3)] by blast
  then show ?thesis
    using l' by blast
qed

section \<open>Properties\<close>

text \<open>
  C23. Partition. In an area whose edges are representable, computing the rectangles of a layout never
  overflows; it gives one rectangle per view, in the order of the views, and one per separator, all inside the
  area; no cell of the screen lies in two of them; and when no split is squeezed so much that its separator
  vanishes, every cell of the area lies in exactly one. The view found at a screen position is exactly the
  one whose rectangle contains it.
\<close>

theorem layout_partition:
  assumes "fits16 a"
  shows "\<exists>vs seps. compute_view_areas l a = Some vs \<and> separator_positions l a = Some seps \<and>
    map fst vs = views l \<and> length seps + 1 = ly_count l \<and>
    (\<forall>r \<in> set (map snd vs @ map (snd \<circ> snd) seps). inside r a) \<and>
    (\<forall>q. cover (map snd vs @ map (snd \<circ> snd) seps) q \<le> of_bool (rect_contains a q)) \<and>
    ((\<forall>sep \<in> set seps. \<not> rect_is_empty (snd (snd sep))) \<longrightarrow>
      (\<forall>q. cover (map snd vs @ map (snd \<circ> snd) seps) q = of_bool (rect_contains a q))) \<and>
    (\<forall>x y v r. view_at_position l a x y = Some (Some (v, r)) \<longleftrightarrow> (v, r) \<in> set vs \<and> rect_contains r (x, y))"
proof -
  obtain vs seps where *: "compute_view_areas l a = Some vs" "separator_positions l a = Some seps"
    "map fst vs = views l" "length seps + 1 = ly_count l"
    "\<forall>r \<in> set (map snd vs @ map (snd \<circ> snd) seps). inside r a"
    "\<forall>q. cover (map snd vs @ map (snd \<circ> snd) seps) q \<le> of_bool (rect_contains a q)"
    "(\<forall>sep \<in> set seps. \<not> rect_is_empty (snd (snd sep))) \<longrightarrow>
      (\<forall>q. cover (map snd vs @ map (snd \<circ> snd) seps) q = of_bool (rect_contains a q))"
    using layout_areas [OF assms, of l] by blast
  show ?thesis
    by (rule exI [of _ vs], rule exI [of _ seps], intro conjI allI *) (rule view_at_position_iff [OF assms *(1)])
qed

theorem layout_partition_witness:
  "fits16 (rect_new 0 1 80 23) \<and>
   (\<exists>vs seps. compute_view_areas (Split Horizontal 40 (Single 1) (Split Vertical 11 (Single 2) (Single 3))) (rect_new 0 1 80 23) = Some vs \<and>
     separator_positions (Split Horizontal 40 (Single 1) (Split Vertical 11 (Single 2) (Single 3))) (rect_new 0 1 80 23) = Some seps \<and>
     (\<forall>q. cover (map snd vs @ map (snd \<circ> snd) seps) q \<le> of_bool (rect_contains (rect_new 0 1 80 23) q)))"
proof -
  have "fits16 (rect_new 0 1 80 23)"
    by (rule rect_new_fits) (simp_all add: u16_max_def)
  then show ?thesis
    using layout_partition [of "rect_new 0 1 80 23" "Split Horizontal 40 (Single 1) (Split Vertical 11 (Single 2) (Single 3))"]
    by blast
qed

text \<open>
  Dragging a separator. A separator found under the mouse contains that position, and its path leads
  back to the same split and rectangle. Moving the mouse anywhere and resizing along that path succeeds, keeps
  the views and every other part of the tree, and, when the split has room for the minimum sizes of both
  sides, gives both sides at least those sizes and puts the separator under the mouse wherever they allow it.
\<close>

theorem separator_drag_correct:
  assumes "fits16 a" "11 * ly_count l \<le> u16_max"
    and "separator_with_path_at_position l a x y = Some (Some (d, r, path))"
  shows "rect_contains r (x, y) \<and> do_get_separator_at_path l a path = Some (Some (d, r)) \<and>
    (\<exists>p f s b m1 m2. sub_at l a path = Some (Split d p f s, b) \<and> min_extent d f = Some m1 \<and> min_extent d s = Some m2 \<and>
      (\<forall>mx my. \<exists>l' p'. do_resize_at_path l a path mx my = Some (True, l') \<and> views l' = views l \<and>
        sub_at l' a path = Some (Split d p' f s, b) \<and>
        (\<forall>q. \<not> prefix path q \<and> \<not> prefix q path \<longrightarrow> sub_at l' a q = sub_at l a q) \<and>
        (m1 + 1 + m2 \<le> extent_along d b \<longrightarrow>
          (\<exists>fa sa r'. compute_split_areas b d p' = Some (fa, sa, r') \<and>
            do_get_separator_at_path l' a path = Some (Some (d, r')) \<and>
            m1 \<le> extent_along d fa \<and> m2 \<le> extent_along d sa \<and>
            (origin_along d b + m1 \<le> mouse_along d mx my \<and>
             mouse_along d mx my + 1 + m2 \<le> origin_along d b + extent_along d b \<longrightarrow>
             origin_along d r' = mouse_along d mx my)))))"
proof -
  have hit: "do_get_separator_at_path l a path = Some (Some (d, r))" "rect_contains r (x, y)"
    using find_separator_sound [of l a x y "[]" d r path] assms(1,3) by (auto simp: separator_with_path_at_position_def)
  obtain p f s b where sub: "sub_at l a path = Some (Split d p f s, b)"
    using get_separator_sub_at [OF assms(1) hit(1)] by blast
  have b: "fits16 b" "11 * ly_count f \<le> u16_max" "11 * ly_count s \<le> u16_max"
    using sub_at_fits [OF sub assms(1)] assms(2) by auto
  obtain m1 m2 where m: "min_extent d f = Some m1" "min_extent d s = Some m2"
    "(case d of Horizontal \<Rightarrow> MIN_WIDTH | Vertical \<Rightarrow> MIN_HEIGHT) \<le> min m1 m2"
    using min_extent_ok [OF b(2), of d] min_extent_ok [OF b(3), of d] by auto
  have move: "\<exists>l' p'. do_resize_at_path l a path mx my = Some (True, l') \<and> views l' = views l \<and>
        sub_at l' a path = Some (Split d p' f s, b) \<and>
        (\<forall>q. \<not> prefix path q \<and> \<not> prefix q path \<longrightarrow> sub_at l' a q = sub_at l a q) \<and>
        (m1 + 1 + m2 \<le> extent_along d b \<longrightarrow>
          (\<exists>fa sa r'. compute_split_areas b d p' = Some (fa, sa, r') \<and>
            do_get_separator_at_path l' a path = Some (Some (d, r')) \<and>
            m1 \<le> extent_along d fa \<and> m2 \<le> extent_along d sa \<and>
            (origin_along d b + m1 \<le> mouse_along d mx my \<and>
             mouse_along d mx my + 1 + m2 \<le> origin_along d b + extent_along d b \<longrightarrow>
             origin_along d r' = mouse_along d mx my)))" for mx my
    by (rule separator_move [OF assms(1,2) sub m])
  show ?thesis
    by (intro conjI hit exI [of _ p] exI [of _ f] exI [of _ s] exI [of _ b] exI [of _ m1] exI [of _ m2] sub m(1,2) allI move)
qed

theorem separator_drag_correct_witness:
  "separator_with_path_at_position (Split Horizontal 40 (Single 1) (Split Vertical 11 (Single 2) (Single 3))) (rect_new 0 0 80 24) 50 11 =
     Some (Some (Vertical, rect_new 41 11 39 1, [True])) \<and>
   rect_contains (rect_new 41 11 39 1) (50, 11)"
proof -
  let ?l = "Split Horizontal 40 (Single 1) (Split Vertical 11 (Single 2) (Single 3))"
  have fits: "fits16 (rect_new 0 0 80 24)"
    by (rule rect_new_fits) (simp_all add: u16_max_def)
  have small: "11 * ly_count ?l \<le> u16_max"
    by (simp add: u16_max_def)
  have hit: "separator_with_path_at_position ?l (rect_new 0 0 80 24) 50 11 = Some (Some (Vertical, rect_new 41 11 39 1, [True]))"
    by (simp add: separator_with_path_at_position_def rect_new_def saturating_add16_def u16_max_def Let_def split_offset_def
        MIN_WIDTH_def MIN_HEIGHT_def clamp16_def checked_add16_def hit_test_def)
  show ?thesis
    using separator_drag_correct [OF fits small hit] hit by blast
qed

end
