(* ===== verification/Layout_Manager.thy ===== *)
theory Layout_Manager
  imports Layout
begin

text \<open>
  The layout manager, \<open>crates/editor/src/layout\<close> (\<open>types.rs\<close>, \<open>manager/state.rs\<close>, \<open>layers.rs\<close>, \<open>views.rs\<close>,
  \<open>splits.rs\<close>, \<open>separators.rs\<close>, \<open>drag.rs\<close>): overlay layers above a base layout that the caller owns, addressed by
  generational ids, and the separator drag that must not outlive the tree it was started on. Hover animations and
  mouse velocity depend on the clock and only drive drawing; they are left out.

  A slot's generation is a wrapping \<open>u16\<close>, the structure revision a wrapping \<open>u64\<close>. Operations that mutate the
  base layout return it with the manager. The lemmas show that ids of replaced or cleared layers are rejected,
  that splits and removals act on the views of one layer and nothing else, that the focus suggested after
  closing a view is a remaining view, and that a drag which is not stale still holds the split it grabbed.
\<close>

section \<open>State\<close>

record layer_id =
  lid_idx :: nat
  lid_generation :: nat

definition BASE :: layer_id where
  "BASE = \<lparr> lid_idx = 0, lid_generation = 0 \<rparr>"

definition is_base :: "layer_id \<Rightarrow> bool" where
  "is_base i \<longleftrightarrow> lid_idx i = 0"

record layer_slot =
  ls_generation :: nat
  ls_layout :: "layout option"

definition slot_empty :: layer_slot where
  "slot_empty = \<lparr> ls_generation = 0, ls_layout = None \<rparr>"

datatype layer_error = StaleLayer | EmptyLayer | InvalidIndex

record separator_id =
  sid_path :: "bool list"
  sid_layer :: layer_id

record separator_hit =
  sh_id :: separator_id
  sh_direction :: split_direction
  sh_rect :: rect

record drag_state =
  dg_id :: separator_id
  dg_revision :: nat

record layout_manager =
  lm_layers :: "layer_slot list"
  lm_revision :: nat
  hovered_separator :: "(split_direction \<times> rect) option"
  dragging_separator :: "drag_state option"

definition lm_default :: layout_manager where
  "lm_default = \<lparr> lm_layers = [slot_empty], lm_revision = 0, hovered_separator = None, dragging_separator = None \<rparr>"

definition bump_structure_revision :: "layout_manager \<Rightarrow> layout_manager" where
  "bump_structure_revision m = m\<lparr> lm_revision := (lm_revision m + 1) mod 2 ^ 64 \<rparr>"

section \<open>Layers\<close>

text \<open>\<open>LayerId::new(i as u16, generation)\<close>, and the overlay slots with their indices, bottom up.\<close>

definition id_of_slot :: "nat \<Rightarrow> layer_slot \<Rightarrow> layer_id" where
  "id_of_slot i slot = \<lparr> lid_idx = i mod 2 ^ 16, lid_generation = ls_generation slot \<rparr>"

definition overlays :: "layout_manager \<Rightarrow> (nat \<times> layer_slot) list" where
  "overlays m = enumerate 1 (drop 1 (lm_layers m))"

definition validate_layer :: "layout_manager \<Rightarrow> layer_id \<Rightarrow> layer_error + nat" where
  "validate_layer m i =
     (if is_base i then Inr 0
      else if length (lm_layers m) \<le> lid_idx i then Inl InvalidIndex
      else let slot = lm_layers m ! lid_idx i in
        if ls_layout slot = None then Inl EmptyLayer
        else if ls_generation slot \<noteq> lid_generation i then Inl StaleLayer
        else Inr (lid_idx i))"

definition is_valid_layer :: "layout_manager \<Rightarrow> layer_id \<Rightarrow> bool" where
  "is_valid_layer m i = (case validate_layer m i of Inr _ \<Rightarrow> True | Inl _ \<Rightarrow> False)"

definition layer :: "layout_manager \<Rightarrow> layout \<Rightarrow> layer_id \<Rightarrow> layer_error + layout" where
  "layer m base i =
     (if is_base i then Inr base
      else case validate_layer m i of
        Inl e \<Rightarrow> Inl e
      | Inr idx \<Rightarrow> Inr (the (ls_layout (lm_layers m ! idx))))"

text \<open>\<open>layer_mut\<close>: writing a new layout through the reference.\<close>

definition put_layer :: "layout_manager \<Rightarrow> layout \<Rightarrow> layer_id \<Rightarrow> layout \<Rightarrow> layout_manager \<times> layout" where
  "put_layer m base i l =
     (if is_base i then (m, l)
      else (m\<lparr> lm_layers := (lm_layers m)[lid_idx i := (lm_layers m ! lid_idx i)\<lparr> ls_layout := Some l \<rparr>] \<rparr>, base))"

definition with_layer_mut ::
  "layout_manager \<Rightarrow> layout \<Rightarrow> layer_id \<Rightarrow> (layout \<Rightarrow> 'r \<times> layout) \<Rightarrow> layer_error + ('r \<times> layout_manager \<times> layout)" where
  "with_layer_mut m base i f =
     (case layer m base i of
        Inl e \<Rightarrow> Inl e
      | Inr l \<Rightarrow>
          let (r, l') = f l; (m', base') = put_layer m base i l'
          in Inr (r, bump_structure_revision m', base'))"

definition set_layer :: "layout_manager \<Rightarrow> nat \<Rightarrow> layout option \<Rightarrow> (layout_manager \<times> layer_id) option" where
  "set_layer m index l =
     (if index = 0 then None
      else let slots = lm_layers m @ replicate (Suc index - length (lm_layers m)) slot_empty;
               slot = \<lparr> ls_generation = (ls_generation (slots ! index) + 1) mod 2 ^ 16, ls_layout = l \<rparr>
           in Some (bump_structure_revision (m\<lparr> lm_layers := slots[index := slot] \<rparr>), id_of_slot index slot))"

definition top_layer :: "layout_manager \<Rightarrow> layer_id" where
  "top_layer m =
     (case find (\<lambda>(_, slot). ls_layout slot \<noteq> None) (rev (overlays m)) of
        Some (i, slot) \<Rightarrow> id_of_slot i slot
      | None \<Rightarrow> BASE)"

definition slot_has_view :: "view_id \<Rightarrow> layer_slot \<Rightarrow> bool" where
  "slot_has_view v slot = (case ls_layout slot of Some l \<Rightarrow> contains_view v l | None \<Rightarrow> False)"

definition layer_of_view :: "layout_manager \<Rightarrow> layout \<Rightarrow> view_id \<Rightarrow> layer_id option" where
  "layer_of_view m base v =
     (if contains_view v base then Some BASE
      else map_option (\<lambda>(i, slot). id_of_slot i slot) (find (\<lambda>(_, slot). slot_has_view v slot) (overlays m)))"

definition overlay_layout :: "layout_manager \<Rightarrow> layer_id \<Rightarrow> layout option" where
  "overlay_layout m i =
     (if is_base i then None
      else case validate_layer m i of Inl _ \<Rightarrow> None | Inr idx \<Rightarrow> ls_layout (lm_layers m ! idx))"

section \<open>Views\<close>

text \<open>Searching the layers top down, then the base layout.\<close>

fun search_down :: "(layer_id \<Rightarrow> layout \<Rightarrow> 'a option option) \<Rightarrow> (nat \<times> layer_slot) list \<Rightarrow> 'a option option" where
  "search_down f [] = Some None"
| "search_down f ((i, slot) # rest) =
     (case ls_layout slot of
        None \<Rightarrow> search_down f rest
      | Some l \<Rightarrow> do {
          res \<leftarrow> f (id_of_slot i slot) l;
          (case res of Some x \<Rightarrow> Some (Some x) | None \<Rightarrow> search_down f rest) })"

definition search_layers :: "layout_manager \<Rightarrow> layout \<Rightarrow> (layer_id \<Rightarrow> layout \<Rightarrow> 'a option option) \<Rightarrow> 'a option option" where
  "search_layers m base f = do {
     res \<leftarrow> search_down f (rev (overlays m));
     (case res of Some x \<Rightarrow> Some (Some x) | None \<Rightarrow> f BASE base) }"

definition lm_first_view :: "layout_manager \<Rightarrow> layout \<Rightarrow> view_id" where
  "lm_first_view m base =
     (case find (\<lambda>(_, slot). ls_layout slot \<noteq> None) (rev (overlays m)) of
        Some (_, slot) \<Rightarrow> first_view (the (ls_layout slot))
      | None \<Rightarrow> first_view base)"

definition overlay_layouts :: "layout_manager \<Rightarrow> layout list" where
  "overlay_layouts m = List.map_filter ls_layout (drop 1 (lm_layers m))"

definition lm_count :: "layout_manager \<Rightarrow> layout \<Rightarrow> nat" where
  "lm_count m base = ly_count base + sum_list (map ly_count (overlay_layouts m))"

definition lm_views :: "layout_manager \<Rightarrow> layout \<Rightarrow> view_id list" where
  "lm_views m base = views base @ concat (map views (overlay_layouts m))"

definition lm_contains_view :: "layout_manager \<Rightarrow> layout \<Rightarrow> view_id \<Rightarrow> bool" where
  "lm_contains_view m base v \<longleftrightarrow> contains_view v base \<or> list_ex (contains_view v) (overlay_layouts m)"

definition layout_for_view :: "layout_manager \<Rightarrow> layout \<Rightarrow> view_id \<Rightarrow> layout" where
  "layout_for_view m base current =
     (case Option.bind (layer_of_view m base current) (overlay_layout m) of Some l \<Rightarrow> l | None \<Rightarrow> base)"

definition lm_next_view :: "layout_manager \<Rightarrow> layout \<Rightarrow> view_id \<Rightarrow> view_id" where
  "lm_next_view m base current = next_view (layout_for_view m base current) current"

definition lm_prev_view :: "layout_manager \<Rightarrow> layout \<Rightarrow> view_id \<Rightarrow> view_id" where
  "lm_prev_view m base current = prev_view (layout_for_view m base current) current"

definition lm_view_at_position :: "layout_manager \<Rightarrow> layout \<Rightarrow> rect \<Rightarrow> nat \<Rightarrow> nat \<Rightarrow> (view_id \<times> rect) option option" where
  "lm_view_at_position m base area x y = search_layers m base (\<lambda>_ l. view_at_position l area x y)"

definition lm_view_in_direction ::
  "layout_manager \<Rightarrow> layout \<Rightarrow> rect \<Rightarrow> view_id \<Rightarrow> spatial_direction \<Rightarrow> nat \<Rightarrow> view_id option option" where
  "lm_view_in_direction m base area current direction hint =
     view_in_direction (layout_for_view m base current) area current direction hint"

section \<open>Splits\<close>

datatype split_error = ViewNotFound | AreaTooSmall

definition view_area :: "layout_manager \<Rightarrow> layout \<Rightarrow> view_id \<Rightarrow> rect \<Rightarrow> rect option option" where
  "view_area m base v doc_area =
     (case layer_of_view m base v of
        None \<Rightarrow> Some None
      | Some i \<Rightarrow>
          (case layer m base i of
             Inl _ \<Rightarrow> Some None
           | Inr l \<Rightarrow> do {
               vs \<leftarrow> compute_view_areas l doc_area;
               Some (map_option snd (find (\<lambda>(w, _). w = v) vs)) }))"

definition can_split ::
  "(rect \<Rightarrow> nat) \<Rightarrow> layout_manager \<Rightarrow> layout \<Rightarrow> view_id \<Rightarrow> rect \<Rightarrow> (split_error + layer_id \<times> rect) option" where
  "can_split extent m base current doc_area =
     (case layer_of_view m base current of
        None \<Rightarrow> Some (Inl ViewNotFound)
      | Some i \<Rightarrow> do {
          area \<leftarrow> view_area m base current doc_area;
          Some (case area of
             None \<Rightarrow> Inl ViewNotFound
           | Some a \<Rightarrow> if extent a < 3 then Inl AreaTooSmall else Inr (i, a)) })"

definition can_split_horizontal :: "layout_manager \<Rightarrow> layout \<Rightarrow> view_id \<Rightarrow> rect \<Rightarrow> (split_error + layer_id \<times> rect) option" where
  "can_split_horizontal = can_split rect_height"

definition can_split_vertical :: "layout_manager \<Rightarrow> layout \<Rightarrow> view_id \<Rightarrow> rect \<Rightarrow> (split_error + layer_id \<times> rect) option" where
  "can_split_vertical = can_split rect_width"

definition split_with ::
  "(layout \<Rightarrow> layout \<Rightarrow> rect \<Rightarrow> layout) \<Rightarrow> layout_manager \<Rightarrow> layout \<Rightarrow> view_id \<Rightarrow> view_id \<Rightarrow> rect \<Rightarrow>
   (layout_manager \<times> layout) option" where
  "split_with arrange m base current new doc_area = do {
     i \<leftarrow> layer_of_view m base current;
     area \<leftarrow> view_area m base current doc_area;
     a \<leftarrow> area;
     let new_layout = arrange (Single current) (Single new) a;
     (m', base') \<leftarrow> (case layer m base i of
         Inl _ \<Rightarrow> None
       | Inr l \<Rightarrow> Some (put_layer m base i (snd (replace_view current new_layout l))));
     Some (bump_structure_revision m', base') }"

definition split_horizontal :: "layout_manager \<Rightarrow> layout \<Rightarrow> view_id \<Rightarrow> view_id \<Rightarrow> rect \<Rightarrow> (layout_manager \<times> layout) option" where
  "split_horizontal = split_with stacked"

definition split_vertical :: "layout_manager \<Rightarrow> layout \<Rightarrow> view_id \<Rightarrow> view_id \<Rightarrow> rect \<Rightarrow> (layout_manager \<times> layout) option" where
  "split_vertical = split_with side_by_side"

definition overlap_area :: "rect \<Rightarrow> rect \<Rightarrow> nat" where
  "overlap_area a b =
     (let x0 = max (rect_x a) (rect_x b); y0 = max (rect_y a) (rect_y b);
          x1 = min (rect_right a) (rect_right b); y1 = min (rect_bottom a) (rect_bottom b)
      in (x1 - x0) * (y1 - y0))"

text \<open>\<open>i32\<close> arithmetic: squares and their sum panic when they leave the range.\<close>

definition center_dist_sq :: "rect \<Rightarrow> rect \<Rightarrow> nat option" where
  "center_dist_sq a b =
     (let ax = int (rect_x a) + int (rect_width a div 2); ay = int (rect_y a) + int (rect_height a div 2);
          bx = int (rect_x b) + int (rect_width b div 2); b_y = int (rect_y b) + int (rect_height b div 2);
          dx = ax - bx; dy = ay - b_y
      in if dx * dx < 2 ^ 31 \<and> dy * dy < 2 ^ 31 \<and> dx * dx + dy * dy < 2 ^ 31 then Some (nat (dx * dx + dy * dy)) else None)"

fun map_checked :: "('a \<Rightarrow> 'b option) \<Rightarrow> 'a list \<Rightarrow> 'b list option" where
  "map_checked f [] = Some []"
| "map_checked f (x # xs) = do { y \<leftarrow> f x; ys \<leftarrow> map_checked f xs; Some (y # ys) }"

definition compare_focus :: "view_id \<times> nat \<times> nat \<Rightarrow> view_id \<times> nat \<times> nat \<Rightarrow> ordering" where
  "compare_focus a b =
     (let c = compare (fst (snd a)) (fst (snd b)) in if c = Equal then compare (snd (snd b)) (snd (snd a)) else c)"

definition suggested_focus_after_close ::
  "(view_id \<times> rect) list \<Rightarrow> (view_id \<times> rect) list \<Rightarrow> view_id \<Rightarrow> view_id option option" where
  "suggested_focus_after_close before after closed =
     (case find (\<lambda>(v, _). v = closed) before of
        None \<Rightarrow> Some None
      | Some (_, closed_rect) \<Rightarrow> do {
          scored \<leftarrow> map_checked (\<lambda>(v, r). do { d \<leftarrow> center_dist_sq closed_rect r; Some (v, overlap_area closed_rect r, d) }) after;
          best \<leftarrow> max_by (\<lambda>a b. Some (compare_focus a b)) scored;
          Some (map_option fst best) })"

definition lm_remove_view ::
  "layout_manager \<Rightarrow> layout \<Rightarrow> view_id \<Rightarrow> rect \<Rightarrow> (view_id option \<times> layout_manager \<times> layout) option" where
  "lm_remove_view m base v doc_area =
     (case layer_of_view m base v of
        None \<Rightarrow> Some (None, m, base)
      | Some i \<Rightarrow>
          if is_base i \<and> ly_count base \<le> 1 then Some (None, m, base)
          else if is_base i then do {
            before \<leftarrow> compute_view_areas base doc_area;
            (case remove_view v base of
               None \<Rightarrow> Some (None, m, base)
             | Some base' \<Rightarrow> do {
                 after \<leftarrow> compute_view_areas base' doc_area;
                 focus \<leftarrow> suggested_focus_after_close before after v;
                 Some (Some (case focus of Some w \<Rightarrow> w | None \<Rightarrow> first_view base'), bump_structure_revision m, base') }) }
          else
            (case validate_layer m i of
               Inl _ \<Rightarrow> Some (None, m, base)
             | Inr idx \<Rightarrow> do {
                 let slot = lm_layers m ! idx;
                 l \<leftarrow> ls_layout slot;
                 before \<leftarrow> compute_view_areas l doc_area;
                 (case remove_view v l of
                    None \<Rightarrow>
                      let m' = bump_structure_revision (m\<lparr> lm_layers := (lm_layers m)[idx :=
                            \<lparr> ls_generation = (ls_generation slot + 1) mod 2 ^ 16, ls_layout = None \<rparr>] \<rparr>)
                      in Some (Some (lm_first_view m' base), m', base)
                  | Some l' \<Rightarrow> do {
                      let m' = bump_structure_revision (m\<lparr> lm_layers := (lm_layers m)[idx := slot\<lparr> ls_layout := Some l' \<rparr>] \<rparr>);
                      after \<leftarrow> compute_view_areas l' doc_area;
                      focus \<leftarrow> suggested_focus_after_close before after v;
                      Some (Some (case focus of Some w \<Rightarrow> w | None \<Rightarrow> first_view l'), m', base) }) }))"

section \<open>Separators and dragging\<close>

definition lm_separator_at_position ::
  "layout_manager \<Rightarrow> layout \<Rightarrow> rect \<Rightarrow> nat \<Rightarrow> nat \<Rightarrow> (split_direction \<times> rect) option option" where
  "lm_separator_at_position m base area x y = search_layers m base (\<lambda>_ l. separator_at_position l area x y)"

definition separator_hit_at_position :: "layout_manager \<Rightarrow> layout \<Rightarrow> rect \<Rightarrow> nat \<Rightarrow> nat \<Rightarrow> separator_hit option option" where
  "separator_hit_at_position m base area x y =
     search_layers m base (\<lambda>i l. do {
       res \<leftarrow> separator_with_path_at_position l area x y;
       Some (map_option (\<lambda>(d, r, path).
         \<lparr> sh_id = \<lparr> sid_path = path, sid_layer = i \<rparr>, sh_direction = d, sh_rect = r \<rparr>) res) })"

definition separator_rect :: "layout_manager \<Rightarrow> layout \<Rightarrow> rect \<Rightarrow> separator_id \<Rightarrow> rect option option" where
  "separator_rect m base area k =
     (case layer m base (sid_layer k) of
        Inl _ \<Rightarrow> Some None
      | Inr l \<Rightarrow> do { res \<leftarrow> do_get_separator_at_path l area (sid_path k); Some (map_option snd res) })"

definition resize_separator ::
  "layout_manager \<Rightarrow> layout \<Rightarrow> rect \<Rightarrow> separator_id \<Rightarrow> nat \<Rightarrow> nat \<Rightarrow> (layout_manager \<times> layout) option" where
  "resize_separator m base area k mouse_x mouse_y =
     (case layer m base (sid_layer k) of
        Inl _ \<Rightarrow> Some (m, base)
      | Inr l \<Rightarrow> do {
          (_, l') \<leftarrow> do_resize_at_path l area (sid_path k) mouse_x mouse_y;
          Some (put_layer m base (sid_layer k) l') })"

definition start_drag :: "layout_manager \<Rightarrow> separator_hit \<Rightarrow> layout_manager" where
  "start_drag m h = m\<lparr> dragging_separator := Some \<lparr> dg_id = sh_id h, dg_revision = lm_revision m \<rparr>,
     hovered_separator := Some (sh_direction h, sh_rect h) \<rparr>"

definition is_drag_stale :: "layout_manager \<Rightarrow> bool" where
  "is_drag_stale m =
     (case dragging_separator m of
        None \<Rightarrow> False
      | Some g \<Rightarrow> dg_revision g \<noteq> lm_revision m \<or> \<not> is_valid_layer m (sid_layer (dg_id g)))"

definition end_drag :: "layout_manager \<Rightarrow> layout_manager" where
  "end_drag m = m\<lparr> dragging_separator := None, hovered_separator := None \<rparr>"

definition cancel_if_stale :: "layout_manager \<Rightarrow> bool \<times> layout_manager" where
  "cancel_if_stale m = (if is_drag_stale m then (True, end_drag m) else (False, m))"

section \<open>Specification predicates\<close>

definition lm_ok :: "layout_manager \<Rightarrow> bool" where
  "lm_ok m \<longleftrightarrow> 0 < length (lm_layers m) \<and> length (lm_layers m) \<le> 2 ^ 16 \<and> ls_layout (lm_layers m ! 0) = None \<and>
     lm_revision m < 2 ^ 64 \<and> (\<forall>slot \<in> set (lm_layers m). ls_generation slot < 2 ^ 16)"

fun shape :: "layout \<Rightarrow> layout" where
  "shape (Single v) = Single v"
| "shape (Split d p f s) = Split d 0 (shape f) (shape s)"

fun shape_at :: "layout \<Rightarrow> bool list \<Rightarrow> layout option" where
  "shape_at l [] = Some (shape l)"
| "shape_at (Single v) (b # path) = None"
| "shape_at (Split d p f s) (b # path) = shape_at (if b then s else f) path"

definition slot_views :: "layer_slot \<Rightarrow> view_id list" where
  "slot_views slot = (case ls_layout slot of None \<Rightarrow> [] | Some l \<Rightarrow> views l)"

text \<open>Areas for which the distances between centers stay within \<open>i32\<close>.\<close>

definition screen_area :: "rect \<Rightarrow> bool" where
  "screen_area a \<longleftrightarrow> rect_x a + rect_width a < 2 ^ 15 \<and> rect_y a + rect_height a < 2 ^ 15"

text \<open>
  What can happen between grabbing a separator and the next mouse event, with the number of structural changes:
  hovering, resizing any separator and cancelling are none; setting a layer, mutating a layer through
  \<open>with_layer_mut\<close>, splitting and removing a view are one.
\<close>

inductive lm_step :: "nat \<Rightarrow> layout_manager \<times> layout \<Rightarrow> layout_manager \<times> layout \<Rightarrow> bool" where
  hover: "lm_step 0 (m, base) (m\<lparr> hovered_separator := h \<rparr>, base)"
| resize: "resize_separator m base area k x y = Some s \<Longrightarrow> lm_step 0 (m, base) s"
| cancel: "lm_step 0 (m, base) (snd (cancel_if_stale m), base)"
| set_layer: "set_layer m index l = Some (m', i) \<Longrightarrow> lm_step 1 (m, base) (m', base)"
| mutate: "with_layer_mut m base i f = Inr ((), m', base') \<Longrightarrow> lm_step 1 (m, base) (m', base')"
| split_horizontal: "split_horizontal m base v w area = Some s \<Longrightarrow> lm_step 1 (m, base) s"
| split_vertical: "split_vertical m base v w area = Some s \<Longrightarrow> lm_step 1 (m, base) s"
| remove: "lm_remove_view m base v area = Some (Some w, s) \<Longrightarrow> lm_step 1 (m, base) s"

inductive lm_steps :: "nat \<Rightarrow> layout_manager \<times> layout \<Rightarrow> layout_manager \<times> layout \<Rightarrow> bool" where
  refl: "lm_steps 0 s s"
| step: "lm_steps n s t \<Longrightarrow> lm_step k t u \<Longrightarrow> lm_steps (n + k) s u"

text \<open>Two states that differ in separator positions only.\<close>

definition same_shape :: "layout_manager \<times> layout \<Rightarrow> layout_manager \<times> layout \<Rightarrow> bool" where
  "same_shape s t \<longleftrightarrow> shape (snd s) = shape (snd t) \<and>
     map (\<lambda>slot. (ls_generation slot, map_option shape (ls_layout slot))) (lm_layers (fst s)) =
     map (\<lambda>slot. (ls_generation slot, map_option shape (ls_layout slot))) (lm_layers (fst t))"

text \<open>
  What a preflight check and the split it admits promise: the check tells why a view cannot be split; a split it
  admits puts the new view right after the split one and nowhere else, replaces the rectangle of the split view
  by two that are not empty along the split axis, leaves all other rectangles of the layer alone, and counts as
  one structural change.
\<close>

definition splits_well ::
  "(rect \<Rightarrow> nat) \<Rightarrow> (layout_manager \<Rightarrow> layout \<Rightarrow> view_id \<Rightarrow> rect \<Rightarrow> (split_error + layer_id \<times> rect) option) \<Rightarrow>
   (layout_manager \<Rightarrow> layout \<Rightarrow> view_id \<Rightarrow> view_id \<Rightarrow> rect \<Rightarrow> (layout_manager \<times> layout) option) \<Rightarrow>
   layout_manager \<Rightarrow> layout \<Rightarrow> view_id \<Rightarrow> rect \<Rightarrow> bool" where
  "splits_well ext check split m base v A \<longleftrightarrow>
     (\<exists>res. check m base v A = Some res \<and>
       (case res of
          Inl ViewNotFound \<Rightarrow> v \<notin> set (lm_views m base)
        | Inl AreaTooSmall \<Rightarrow> v \<in> set (lm_views m base) \<and> (\<exists>a. view_area m base v A = Some (Some a) \<and> ext a < 3)
        | Inr (i, a) \<Rightarrow> 3 \<le> ext a \<and>
            (\<forall>w. \<exists>m' base' l l' f s xs ys P Q. split m base v w A = Some (m', base') \<and> lm_ok m' \<and>
              lm_revision m' = (lm_revision m + 1) mod 2 ^ 64 \<and>
              lm_views m base = P @ v # Q \<and> lm_views m' base' = P @ v # w # Q \<and>
              layer m base i = Inr l \<and> compute_view_areas l A = Some (xs @ (v, a) # ys) \<and>
              layer m' base' i = Inr l' \<and> compute_view_areas l' A = Some (xs @ [(v, f), (w, s)] @ ys) \<and>
              0 < ext f \<and> 0 < ext s)))"

section \<open>Lemmas\<close>

subsection \<open>Layer ids\<close>

lemma validate_layer_Inr:
  "validate_layer m i = Inr k \<longleftrightarrow>
    (if lid_idx i = 0 then k = 0
     else k = lid_idx i \<and> k < length (lm_layers m) \<and> ls_layout (lm_layers m ! k) \<noteq> None \<and>
       ls_generation (lm_layers m ! k) = lid_generation i)"
  by (auto simp: validate_layer_def is_base_def Let_def)

lemma layer_Inr:
  "layer m base i = Inr l \<longleftrightarrow>
    (if lid_idx i = 0 then l = base
     else lid_idx i < length (lm_layers m) \<and> ls_layout (lm_layers m ! lid_idx i) = Some l \<and>
       ls_generation (lm_layers m ! lid_idx i) = lid_generation i)"
  by (auto simp: layer_def is_base_def validate_layer_def Let_def)

lemma set_layer_eq:
  assumes "0 < index"
  shows "\<exists>m' i slots. set_layer m index l = Some (m', i) \<and>
    slots = lm_layers m @ replicate (Suc index - length (lm_layers m)) slot_empty \<and>
    m' = bump_structure_revision (m\<lparr>lm_layers := slots[index :=
      \<lparr> ls_generation = (ls_generation (slots ! index) + 1) mod 2 ^ 16, ls_layout = l \<rparr>]\<rparr>) \<and>
    index < length slots \<and> i = \<lparr> lid_idx = index mod 2 ^ 16, lid_generation = (ls_generation (slots ! index) + 1) mod 2 ^ 16 \<rparr>"
  using assms by (auto simp: set_layer_def Let_def id_of_slot_def)

lemma set_layer_ok:
  assumes "lm_ok m" "0 < index" "index < 2 ^ 16" "set_layer m index l = Some (m', i)"
  shows "lm_ok m'"
    "validate_layer m' i = (if l = None then Inl EmptyLayer else Inr index)"
    "\<And>j. lid_idx j = index \<Longrightarrow> is_valid_layer m j \<Longrightarrow> validate_layer m' j = Inl (if l = None then EmptyLayer else StaleLayer)"
    "\<And>j k. lid_idx j \<noteq> index \<Longrightarrow> validate_layer m j = Inr k \<Longrightarrow> validate_layer m' j = Inr k"
    "\<And>j base. lid_idx j \<noteq> index \<Longrightarrow> is_valid_layer m j \<Longrightarrow> layer m' base j = layer m base j"
proof -
  define slots where "slots = lm_layers m @ replicate (Suc index - length (lm_layers m)) slot_empty"
  define g where "g = (ls_generation (slots ! index) + 1) mod 2 ^ 16"
  have m': "m' = bump_structure_revision (m\<lparr>lm_layers := slots[index := \<lparr> ls_generation = g, ls_layout = l \<rparr>]\<rparr>)"
    and i: "i = \<lparr> lid_idx = index, lid_generation = g \<rparr>" and len: "index < length slots"
    using set_layer_eq [OF assms(2), of m l] assms(3,4) unfolding slots_def g_def by auto
  have old: "slots ! k = lm_layers m ! k" if "k < length (lm_layers m)" for k
    using that by (simp add: slots_def nth_append)
  have len': "length (lm_layers m) \<le> length slots" "length slots \<le> 2 ^ 16"
    using assms(1,3) by (auto simp: slots_def lm_ok_def)
  have gens: "\<forall>slot \<in> set slots. ls_generation slot < 2 ^ 16"
    using assms(1) by (auto simp: slots_def lm_ok_def slot_empty_def)
  have g: "g \<noteq> ls_generation (slots ! index)" "g < 2 ^ 16"
    using gens nth_mem [OF len] by (auto simp: g_def mod_Suc)
  show "lm_ok m'"
    using assms(1,2) len len' gens g(2) old [of 0] set_update_subset_insert [of slots index "\<lparr> ls_generation = g, ls_layout = l \<rparr>"]
    by (auto simp: lm_ok_def m' bump_structure_revision_def)
  show "validate_layer m' i = (if l = None then Inl EmptyLayer else Inr index)"
    using len assms(2) by (simp add: validate_layer_def is_base_def m' i bump_structure_revision_def)
  show "validate_layer m' j = Inl (if l = None then EmptyLayer else StaleLayer)" if "lid_idx j = index" "is_valid_layer m j" for j
    using that len assms(2) g(1) old [of index]
    by (auto simp: validate_layer_def is_base_def m' bump_structure_revision_def is_valid_layer_def Let_def split: if_splits)
  show "validate_layer m' j = Inr k" if "lid_idx j \<noteq> index" "validate_layer m j = Inr k" for j k
    using that len' old by (auto simp: validate_layer_Inr m' bump_structure_revision_def split: if_splits)
  show "layer m' base j = layer m base j" if "lid_idx j \<noteq> index" "is_valid_layer m j" for j base
    using that len' old by (auto simp: layer_def validate_layer_def is_base_def m' bump_structure_revision_def is_valid_layer_def Let_def split: if_splits)
qed

subsection \<open>The views of all layers\<close>

lemma lm_views_slots: "lm_views m base = views base @ concat (map slot_views (drop 1 (lm_layers m)))"
proof -
  have "concat (map views (List.map_filter ls_layout xs)) = concat (map slot_views xs)" for xs
    by (induction xs) (auto simp: List.map_filter_simps slot_views_def split: option.splits)
  then show ?thesis
    by (simp add: lm_views_def overlay_layouts_def)
qed

lemma lm_views_update:
  assumes "0 < k" "k < length (lm_layers m)"
  shows "\<exists>A B. lm_views m base = A @ slot_views (lm_layers m ! k) @ B \<and>
    (\<forall>m' slot. lm_layers m' = (lm_layers m)[k := slot] \<longrightarrow> lm_views m' base = A @ slot_views slot @ B)"
proof -
  let ?xs = "drop 1 (lm_layers m)"
  have k: "k - 1 < length ?xs" "?xs ! (k - 1) = lm_layers m ! k"
    using assms by (auto simp: nth_drop)
  have upd: "drop 1 ((lm_layers m)[k := slot]) = take (k - 1) ?xs @ slot # drop k ?xs" for slot
    using assms k(1) upd_conv_take_nth_drop [OF k(1), of slot] by (simp add: drop_update_swap)
  have old: "?xs = take (k - 1) ?xs @ lm_layers m ! k # drop k ?xs"
    using id_take_nth_drop [OF k(1)] k(2) assms(1) by simp
  show ?thesis
    using upd
    by (intro exI [of _ "views base @ concat (map slot_views (take (k - 1) ?xs))"] exI [of _ "concat (map slot_views (drop k ?xs))"])
      (subst lm_views_slots, subst old, auto simp: lm_views_slots)
qed

lemma lm_contains_view_iff: "lm_contains_view m base v \<longleftrightarrow> v \<in> set (lm_views m base)"
  by (auto simp: lm_contains_view_def lm_views_def list_ex_iff)

lemma lm_count_length: "lm_count m base = length (lm_views m base)"
  by (simp add: lm_count_def lm_views_def length_concat comp_def)

lemma find_enumerate_Some:
  assumes "find (\<lambda>(_, x). P x) (enumerate n xs) = Some (i, x)"
  shows "n \<le> i \<and> i < n + length xs \<and> x = xs ! (i - n) \<and> P x"
  using assms
proof (induction xs arbitrary: n)
  case (Cons y ys)
  then show ?case
    by (cases "P y") (auto simp: nth_Cons' dest!: Cons.IH)
qed simp

lemma find_enumerate_None: "find (\<lambda>(_, x). P x) (enumerate n xs) = None \<longleftrightarrow> (\<forall>x \<in> set xs. \<not> P x)"
  by (induction xs arbitrary: n) auto

lemma slot_has_view_iff: "slot_has_view v slot \<longleftrightarrow> v \<in> set (slot_views slot)"
  by (auto simp: slot_has_view_def slot_views_def split: option.splits)

lemma layer_of_view_None: "layer_of_view m base v = None \<longleftrightarrow> v \<notin> set (lm_views m base)"
  by (auto simp: layer_of_view_def overlays_def lm_views_slots find_enumerate_None slot_has_view_iff)

lemma layer_of_view_Some:
  assumes "lm_ok m" "layer_of_view m base v = Some i"
  shows "\<exists>l. layer m base i = Inr l \<and> v \<in> set (views l) \<and> (is_base i \<longrightarrow> v \<in> set (views base)) \<and>
    (\<not> is_base i \<longrightarrow> v \<notin> set (views base) \<and> lid_idx i < length (lm_layers m))"
proof (cases "contains_view v base")
  case True
  then show ?thesis
    using assms(2) by (auto simp: layer_of_view_def layer_def BASE_def is_base_def)
next
  case False
  then obtain k slot where f: "find (\<lambda>(_, slot). slot_has_view v slot) (overlays m) = Some (k, slot)" "i = id_of_slot k slot"
    using assms(2) by (auto simp: layer_of_view_def)
  then have k: "1 \<le> k" "k < length (lm_layers m)" "slot = lm_layers m ! k" "slot_has_view v slot"
    using find_enumerate_Some [of "slot_has_view v" 1 "drop 1 (lm_layers m)" k slot] assms(1)
    by (auto simp: overlays_def lm_ok_def)
  have "k mod 2 ^ 16 = k"
    using k(2) assms(1) by (simp add: lm_ok_def)
  then have i: "lid_idx i = k" "lid_generation i = ls_generation slot"
    using f(2) by (simp_all add: id_of_slot_def)
  obtain l where "ls_layout slot = Some l" "v \<in> set (views l)"
    using k(4) by (auto simp: slot_has_view_def split: option.splits)
  then show ?thesis
    using i k False by (intro exI [of _ l]) (auto simp: layer_Inr is_base_def)
qed

lemma put_layer_views:
  assumes "layer m base i = Inr l"
  shows "\<exists>A B. lm_views m base = A @ views l @ B \<and>
    (\<forall>l' m' base'. put_layer m base i l' = (m', base') \<longrightarrow> lm_views m' base' = A @ views l' @ B)"
proof (cases "is_base i")
  case True
  then show ?thesis
    using assms by (intro exI [of _ "[]"] exI [of _ "concat (map slot_views (drop 1 (lm_layers m)))"])
      (auto simp: lm_views_slots put_layer_def layer_def)
next
  case False
  then have k: "0 < lid_idx i" "lid_idx i < length (lm_layers m)" "ls_layout (lm_layers m ! lid_idx i) = Some l"
    using assms by (auto simp: layer_Inr is_base_def)
  obtain A B where "lm_views m base = A @ slot_views (lm_layers m ! lid_idx i) @ B"
    "\<forall>m' slot. lm_layers m' = (lm_layers m)[lid_idx i := slot] \<longrightarrow> lm_views m' base = A @ slot_views slot @ B"
    using lm_views_update [OF k(1,2)] by blast
  then show ?thesis
    using k(3) False by (intro exI [of _ A] exI [of _ B]) (auto simp: put_layer_def slot_views_def)
qed

lemma lm_ok_update:
  assumes "lm_ok m" "0 < k" "k < length (lm_layers m)" "ls_generation slot < 2 ^ 16"
  shows "lm_ok (m\<lparr>lm_layers := (lm_layers m)[k := slot]\<rparr>)"
  using assms set_update_subset_insert [of "lm_layers m" k slot] by (auto simp: lm_ok_def)

lemma lm_ok_generation: "lm_ok m \<Longrightarrow> k < length (lm_layers m) \<Longrightarrow> ls_generation (lm_layers m ! k) < 2 ^ 16"
  by (simp add: lm_ok_def)

lemma put_layer_ok:
  assumes "lm_ok m" "layer m base i = Inr l" "put_layer m base i l' = (m', base')"
  shows "lm_ok m'"
  using assms lm_ok_update [OF assms(1), of "lid_idx i"] lm_ok_generation [OF assms(1), of "lid_idx i"]
  by (auto simp: put_layer_def layer_Inr is_base_def split: if_splits)

lemma bump_views [simp]: "lm_views (bump_structure_revision m) base = lm_views m base"
  by (simp add: bump_structure_revision_def lm_views_def overlay_layouts_def)

lemma bump_ok [intro]: "lm_ok m \<Longrightarrow> lm_ok (bump_structure_revision m)"
  by (simp add: bump_structure_revision_def lm_ok_def)

subsection \<open>Splitting a view\<close>

lemma replace_view_areas:
  assumes "fits16 A" "compute_view_areas l A = Some vs" "find (\<lambda>(w, _). w = v) vs = Some (v, a)"
  shows "\<exists>xs ys ns. vs = xs @ (v, a) # ys \<and> compute_view_areas new a = Some ns \<and>
    compute_view_areas (snd (replace_view v new l)) A = Some (xs @ ns @ ys)"
  using assms
proof (induction l arbitrary: A vs)
  case (Single w)
  then have "w = v" "a = A" "vs = [(v, a)]"
    by (auto split: if_splits)
  moreover obtain ns where "compute_view_areas new A = Some ns"
    using layout_areas [OF Single.prems(1), of new] by blast
  ultimately show ?case
    by (intro exI [of _ "[]"] exI [of _ ns]) simp
next
  case (Split d p l1 l2)
  obtain f s sep where sp: "compute_split_areas A d p = Some (f, s, sep)" "inside f A" "inside s A"
    using compute_split_areas_ok [OF Split.prems(1)] by metis
  have fits: "fits16 f" "fits16 s"
    using sp(2,3) inside_fits [OF _ Split.prems(1)] by blast+
  obtain vs1 vs2 where vs: "compute_view_areas l1 f = Some vs1" "compute_view_areas l2 s = Some vs2" "vs = vs1 @ vs2"
    using Split.prems(2) sp(1) by (auto simp: Option.bind_eq_Some_conv)
  have names: "map fst vs1 = views l1" "map fst vs2 = views l2"
    using layout_areas [OF fits(1), of l1] layout_areas [OF fits(2), of l2] vs(1,2) by auto
  show ?case
  proof (cases "v \<in> set (views l1)")
    case True
    then have "find (\<lambda>(w, _). w = v) vs1 \<noteq> None"
      unfolding names(1) [symmetric] by (auto simp: find_None_iff)
    then have fnd: "find (\<lambda>(w, _). w = v) vs1 = Some (v, a)"
      using Split.prems(3) vs(3) by (auto simp: find_append split: option.splits)
    obtain xs ys ns where "vs1 = xs @ (v, a) # ys" "compute_view_areas new a = Some ns"
      "compute_view_areas (snd (replace_view v new l1)) f = Some (xs @ ns @ ys)"
      using Split.IH(1) [OF fits(1) vs(1) fnd] by blast
    then show ?thesis
      using sp(1) vs replace_view_views [OF True, of new]
      by (intro exI [of _ xs] exI [of _ "ys @ vs2"] exI [of _ ns]) (auto simp: split_beta)
  next
    case False
    then have "find (\<lambda>(w, _). w = v) vs1 = None"
      unfolding names(1) [symmetric] by (force simp: find_None_iff)
    then have fnd: "find (\<lambda>(w, _). w = v) vs2 = Some (v, a)"
      using Split.prems(3) vs(3) by (auto simp: find_append split: option.splits)
    obtain xs ys ns where "vs2 = xs @ (v, a) # ys" "compute_view_areas new a = Some ns"
      "compute_view_areas (snd (replace_view v new l2)) s = Some (xs @ ns @ ys)"
      using Split.IH(2) [OF fits(2) vs(2) fnd] by blast
    then show ?thesis
      using sp(1) vs replace_view_absent [OF False, of new]
      by (intro exI [of _ "vs1 @ xs"] exI [of _ ys] exI [of _ ns]) (auto simp: split_beta)
  qed
qed

lemma find_area:
  assumes "fits16 A" "v \<in> set (views l)"
  shows "\<exists>vs a. compute_view_areas l A = Some vs \<and> find (\<lambda>(w, _). w = v) vs = Some (v, a) \<and> (v, a) \<in> set vs \<and> inside a A"
proof -
  obtain vs where vs: "compute_view_areas l A = Some vs" "map fst vs = views l" "\<forall>r \<in> snd ` set vs. inside r A"
    using layout_areas [OF assms(1), of l] by (elim exE conjE) auto
  have "find (\<lambda>(w, _). w = v) vs \<noteq> None"
    using assms(2) vs(2) [symmetric] by (auto simp: find_None_iff)
  then obtain z where z: "find (\<lambda>(w, _). w = v) vs = Some z"
    by blast
  moreover have "fst z = v"
    using z by (auto simp: find_Some_iff)
  ultimately obtain a where a: "find (\<lambda>(w, _). w = v) vs = Some (v, a)"
    by (cases z) auto
  then have "(v, a) \<in> set vs"
    by (metis find_Some_iff nth_mem)
  then show ?thesis
    using vs a by force
qed

lemma view_area_found:
  assumes "lm_ok m" "fits16 A" "layer_of_view m base v = Some i"
  shows "\<exists>l vs a. layer m base i = Inr l \<and> v \<in> set (views l) \<and> compute_view_areas l A = Some vs \<and>
    find (\<lambda>(w, _). w = v) vs = Some (v, a) \<and> (v, a) \<in> set vs \<and> view_area m base v A = Some (Some a)"
proof -
  obtain l where l: "layer m base i = Inr l" "v \<in> set (views l)"
    using layer_of_view_Some [OF assms(1,3)] by blast
  obtain vs a where "compute_view_areas l A = Some vs" "find (\<lambda>(w, _). w = v) vs = Some (v, a)" "(v, a) \<in> set vs"
    using find_area [OF assms(2) l(2)] by blast
  then show ?thesis
    using l assms(3) by (auto simp: view_area_def)
qed

lemma can_split_cases:
  assumes "lm_ok m" "fits16 A"
  shows "\<exists>res. can_split ext m base v A = Some res \<and>
    (case res of
       Inl ViewNotFound \<Rightarrow> v \<notin> set (lm_views m base)
     | Inl AreaTooSmall \<Rightarrow> v \<in> set (lm_views m base) \<and> (\<exists>a. view_area m base v A = Some (Some a) \<and> ext a < 3)
     | Inr (i, a) \<Rightarrow> layer_of_view m base v = Some i \<and> view_area m base v A = Some (Some a) \<and> 3 \<le> ext a)"
proof (cases "layer_of_view m base v")
  case None
  then have "v \<notin> set (lm_views m base)"
    by (simp add: layer_of_view_None)
  then show ?thesis
    using None by (simp add: can_split_def)
next
  case (Some i)
  obtain a where a: "view_area m base v A = Some (Some a)"
    using view_area_found [OF assms Some] by blast
  have v: "v \<in> set (lm_views m base)"
    using Some layer_of_view_None [of m base v] by auto
  show ?thesis
    using Some a v by (cases "ext a < 3") (auto simp: can_split_def)
qed

lemma split_with_ok:
  assumes "lm_ok m" "fits16 A" "layer_of_view m base v = Some i" "view_area m base v A = Some (Some a)"
  shows "\<exists>m' base' l l' ns xs ys P Q.
    split_with arrange m base v w A = Some (m', base') \<and> lm_ok m' \<and>
    lm_revision m' = (lm_revision m + 1) mod 2 ^ 64 \<and>
    lm_views m base = P @ v # Q \<and> lm_views m' base' = P @ views (arrange (Single v) (Single w) a) @ Q \<and>
    layer m base i = Inr l \<and> compute_view_areas l A = Some (xs @ (v, a) # ys) \<and>
    layer m' base' i = Inr l' \<and> compute_view_areas l' A = Some (xs @ ns @ ys) \<and>
    compute_view_areas (arrange (Single v) (Single w) a) a = Some ns"
proof -
  let ?new = "arrange (Single v) (Single w) a"
  obtain l vs where l: "layer m base i = Inr l" "v \<in> set (views l)" "compute_view_areas l A = Some vs"
    "find (\<lambda>(w, _). w = v) vs = Some (v, a)"
    using view_area_found [OF assms(1-3)] assms(4) by auto
  obtain xs ys ns where areas: "vs = xs @ (v, a) # ys" "compute_view_areas ?new a = Some ns"
    "compute_view_areas (snd (replace_view v ?new l)) A = Some (xs @ ns @ ys)"
    using replace_view_areas [OF assms(2) l(3,4)] by blast
  obtain l' p q where rep: "replace_view v ?new l = (True, l')" "views l = p @ v # q" "views l' = p @ views ?new @ q"
    using replace_view_views [OF l(2)] by blast
  obtain P Q where PQ: "lm_views m base = P @ views l @ Q"
    "\<forall>l' m' base'. put_layer m base i l' = (m', base') \<longrightarrow> lm_views m' base' = P @ views l' @ Q"
    using put_layer_views [OF l(1)] by blast
  obtain m1 base' where put: "put_layer m base i l' = (m1, base')"
    by fastforce
  have ok: "lm_ok m1"
    by (rule put_layer_ok [OF assms(1) l(1) put])
  have rev: "lm_revision m1 = lm_revision m"
    using put by (auto simp: put_layer_def split: if_splits)
  have at: "layer (bump_structure_revision m1) base' i = Inr l'"
    using put l(1) by (auto simp: put_layer_def layer_Inr is_base_def bump_structure_revision_def split: if_splits)
  have run: "split_with arrange m base v w A = Some (bump_structure_revision m1, base')"
    using l(1) rep(1) put by (simp add: split_with_def assms(3,4))
  show ?thesis
  proof (intro exI conjI)
    show "split_with arrange m base v w A = Some (bump_structure_revision m1, base')"
      by (rule run)
    show "lm_ok (bump_structure_revision m1)"
      by (rule bump_ok [OF ok])
    show "lm_revision (bump_structure_revision m1) = (lm_revision m + 1) mod 2 ^ 64"
      by (simp add: bump_structure_revision_def rev)
    show "lm_views m base = (P @ p) @ v # (q @ Q)"
      using PQ(1) rep(2) by simp
    show "lm_views (bump_structure_revision m1) base' = (P @ p) @ views ?new @ (q @ Q)"
      using PQ(2) [rule_format, OF put] rep(3) by simp
    show "compute_view_areas l A = Some (xs @ (v, a) # ys)"
      using l(3) areas(1) by simp
    show "compute_view_areas l' A = Some (xs @ ns @ ys)"
      using areas(3) rep(1) by simp
  qed (rule l(1) at areas(2))+
qed

lemma halves_nonempty:
  assumes "fits16 a" "3 \<le> rect_height a"
  shows "\<exists>f s. compute_view_areas (stacked (Single v) (Single w) a) a = Some [(v, f), (w, s)] \<and>
    rect_width f = rect_width a \<and> rect_width s = rect_width a \<and> 0 < rect_height f \<and> 0 < rect_height s"
proof -
  obtain k where "split_offset MIN_HEIGHT (rect_height a - 1) (rect_height a div 2) = Some k" "0 < k" "k < rect_height a - 1"
    using split_offset_bounds [of "rect_height a - 1" MIN_HEIGHT "rect_height a div 2"] assms(2) by (auto simp: MIN_HEIGHT_def)
  then show ?thesis
    using assms by (auto simp: stacked_def Let_def fits16_def)
qed

lemma sides_nonempty:
  assumes "fits16 a" "3 \<le> rect_width a"
  shows "\<exists>f s. compute_view_areas (side_by_side (Single v) (Single w) a) a = Some [(v, f), (w, s)] \<and>
    rect_height f = rect_height a \<and> rect_height s = rect_height a \<and> 0 < rect_width f \<and> 0 < rect_width s"
proof -
  obtain k where "split_offset MIN_WIDTH (rect_width a - 1) (rect_width a div 2) = Some k" "0 < k" "k < rect_width a - 1"
    using split_offset_bounds [of "rect_width a - 1" MIN_WIDTH "rect_width a div 2"] assms(2) by (auto simp: MIN_WIDTH_def)
  then show ?thesis
    using assms by (auto simp: side_by_side_def Let_def fits16_def)
qed

subsection \<open>Closing a view\<close>

lemma screen_area_fits [simp]: "screen_area a \<Longrightarrow> fits16 a"
  by (simp add: screen_area_def fits16_def u16_max_def)

lemma center_dist_total:
  assumes "screen_area A" "inside a A" "inside b A"
  shows "center_dist_sq a b \<noteq> None"
proof -
  define dx where "dx = int (rect_x a) + int (rect_width a div 2) - (int (rect_x b) + int (rect_width b div 2))"
  define dy where "dy = int (rect_y a) + int (rect_height a div 2) - (int (rect_y b) + int (rect_height b div 2))"
  have "rect_x a + rect_width a div 2 < 2 ^ 15" "rect_x b + rect_width b div 2 < 2 ^ 15"
    "rect_y a + rect_height a div 2 < 2 ^ 15" "rect_y b + rect_height b div 2 < 2 ^ 15"
    using assms by (auto simp: screen_area_def inside_def)
  then have "\<bar>dx\<bar> < 2 ^ 15" "\<bar>dy\<bar> < 2 ^ 15"
    unfolding dx_def dy_def by simp_all
  then have "\<bar>dx\<bar> * \<bar>dx\<bar> \<le> (2 ^ 15 - 1) * (2 ^ 15 - 1)" "\<bar>dy\<bar> * \<bar>dy\<bar> \<le> (2 ^ 15 - 1) * (2 ^ 15 - 1)"
    by (intro mult_mono; simp)+
  then have "dx * dx < 2 ^ 30" "dy * dy < 2 ^ 30"
    by (simp_all add: abs_mult_self)
  then show ?thesis
    unfolding center_dist_sq_def Let_def dx_def [symmetric] dy_def [symmetric] by simp
qed

text \<open>On areas wider than that the squared distance leaves \<open>i32\<close>: an overflow panic when a view is closed.\<close>

lemma center_dist_overflows:
  "fits16 (rect_new 0 0 10 10) \<and> fits16 (rect_new 46350 0 10 10) \<and> center_dist_sq (rect_new 0 0 10 10) (rect_new 46350 0 10 10) = None"
  by (simp add: fits16_def center_dist_sq_def rect_new_def saturating_add16_def u16_max_def)

lemma map_checked_total:
  "(\<And>x. x \<in> set xs \<Longrightarrow> f x \<noteq> None) \<Longrightarrow> \<exists>ys. map_checked f xs = Some ys \<and> map Some ys = map f xs"
  by (induction xs) fastforce+

lemma suggested_focus_total:
  assumes "screen_area A" "\<forall>r \<in> snd ` set before. inside r A" "\<forall>r \<in> snd ` set after. inside r A"
  shows "\<exists>w. suggested_focus_after_close before after v = Some w \<and> (\<forall>x. w = Some x \<longrightarrow> x \<in> fst ` set after)"
proof (cases "find (\<lambda>(w, _). w = v) before")
  case None
  then show ?thesis
    by (simp add: suggested_focus_after_close_def)
next
  case (Some z)
  obtain u c where z: "z = (u, c)"
    by (cases z)
  have c: "inside c A"
    using Some z assms(2) by (force simp: find_Some_iff dest: nth_mem)
  let ?f = "\<lambda>(w, r). do { d \<leftarrow> center_dist_sq c r; Some (w, overlap_area c r, d) }"
  have "?f x \<noteq> None" if "x \<in> set after" for x
    using center_dist_total [OF assms(1) c, of "snd x"] assms(3) that by (cases x) force
  then obtain ys where ys: "map_checked ?f after = Some ys" "map Some ys = map ?f after"
    using map_checked_total [of after ?f] by blast
  have fst_ys: "map fst ys = map fst after"
  proof (rule nth_equalityI)
    show "length (map fst ys) = length (map fst after)"
      using arg_cong [OF ys(2), of length] by simp
    fix k
    assume "k < length (map fst ys)"
    then have "Some (ys ! k) = ?f (after ! k)" "k < length ys" "k < length after"
      using arg_cong [OF ys(2), of "\<lambda>l. l ! k"] arg_cong [OF ys(2), of length] by auto
    then show "map fst ys ! k = map fst after ! k"
      by (auto simp: split_beta Option.bind_eq_Some_conv dest!: sym [of "Some _"]) (metis fst_conv)
  qed
  obtain best where "max_by (\<lambda>a b. Some (compare_focus a b)) ys = Some best"
    "case best of None \<Rightarrow> ys = [] | Some b \<Rightarrow> b \<in> set ys \<and> (\<forall>x \<in> set ys. True)"
    using max_by_best [of ys "\<lambda>a b. Some (compare_focus a b)" "\<lambda>_ _. True"] by (auto simp: reflp_def transp_def)
  then show ?thesis
    using Some z ys(1) arg_cong [OF fst_ys, of set] by (cases best) (auto simp: suggested_focus_after_close_def)
qed

lemma first_view_mem [simp]: "first_view l \<in> set (views l)"
  by (simp add: first_view_hd)

lemma lm_first_view_mem: "lm_first_view m base \<in> set (lm_views m base)"
proof (cases "find (\<lambda>(_, slot). ls_layout slot \<noteq> None) (rev (overlays m))")
  case (Some z)
  then have "z \<in> set (overlays m)" "ls_layout (snd z) \<noteq> None"
    by (auto simp: find_Some_iff split_beta) (metis length_rev nth_mem set_rev)
  then have "snd z \<in> set (map snd (overlays m))"
    by simp
  then have "snd z \<in> set (drop 1 (lm_layers m))"
    unfolding overlays_def map_snd_enumerate .
  then show ?thesis
    using Some \<open>ls_layout (snd z) \<noteq> None\<close>
    by (auto simp: lm_first_view_def lm_views_slots slot_views_def split_beta intro!: bexI [of _ "snd z"])
qed (simp add: lm_first_view_def lm_views_def)

lemma areas_inside:
  assumes "fits16 A"
  shows "\<exists>vs. compute_view_areas l A = Some vs \<and> map fst vs = views l \<and> (\<forall>r \<in> snd ` set vs. inside r A)"
  using layout_areas [OF assms, of l] by (elim exE conjE) auto

lemma remove_base_ok:
  assumes "lm_ok m" "screen_area A" "distinct (lm_views m base)" "layer_of_view m base v = Some i" "is_base i" "1 < ly_count base"
  shows "\<exists>w base'. lm_remove_view m base v A = Some (Some w, bump_structure_revision m, base') \<and>
    lm_views m base' = filter (\<lambda>u. u \<noteq> v) (lm_views m base) \<and> w \<in> set (views base')"
proof -
  have v: "v \<in> set (views base)"
    using layer_of_view_Some [OF assms(1,4)] assms(5) by blast
  have dist: "distinct (views base)" "v \<notin> set (concat (map slot_views (drop 1 (lm_layers m))))"
    using assms(3) v by (auto simp: lm_views_slots)
  have "filter (\<lambda>u. u \<noteq> v) (views base) \<noteq> []"
  proof
    assume "filter (\<lambda>u. u \<noteq> v) (views base) = []"
    then have "set (views base) \<subseteq> {v}"
      by (auto simp: filter_empty_conv)
    then have "card (set (views base)) \<le> 1"
      by (metis card.empty card_insert_disjoint card_mono empty_iff finite.emptyI finite_insert One_nat_def)
    then show False
      using assms(6) distinct_card [OF dist(1)] by simp
  qed
  then obtain base' where b: "remove_view v base = Some base'" "views base' = filter (\<lambda>u. u \<noteq> v) (views base)"
    using remove_view_views [of v base] by (auto split: option.splits)
  obtain vs ws where areas: "compute_view_areas base A = Some vs" "\<forall>r \<in> snd ` set vs. inside r A"
    "compute_view_areas base' A = Some ws" "map fst ws = views base'" "\<forall>r \<in> snd ` set ws. inside r A"
    using areas_inside [of A base] areas_inside [of A base'] assms(2) by auto
  obtain w where w: "suggested_focus_after_close vs ws v = Some w" "\<forall>x. w = Some x \<longrightarrow> x \<in> fst ` set ws"
    using suggested_focus_total [OF assms(2) areas(2,5)] by blast
  have "fst ` set ws = set (views base')"
    using arg_cong [OF areas(4), of set] by simp
  then have mem: "(case w of Some x \<Rightarrow> x | None \<Rightarrow> first_view base') \<in> set (views base')"
    using w(2) by (cases w) auto
  have "filter (\<lambda>u. u \<noteq> v) (concat (map slot_views (drop 1 (lm_layers m)))) = concat (map slot_views (drop 1 (lm_layers m)))"
    using dist(2) by (auto simp: filter_id_conv)
  then show ?thesis
    using assms(4-6) b areas(1,3) w(1) mem by (auto simp: lm_remove_view_def lm_views_slots)
qed

lemma remove_overlay_ok:
  assumes "lm_ok m" "screen_area A" "distinct (lm_views m base)" "layer_of_view m base v = Some i" "\<not> is_base i"
  shows "\<exists>w m'. lm_remove_view m base v A = Some (Some w, m', base) \<and> lm_ok m' \<and> lm_revision m' = (lm_revision m + 1) mod 2 ^ 64 \<and>
    lm_views m' base = filter (\<lambda>u. u \<noteq> v) (lm_views m base) \<and> w \<in> set (lm_views m' base)"
proof -
  let ?k = "lid_idx i" and ?slot = "lm_layers m ! lid_idx i"
  obtain l where l: "layer m base i = Inr l" "v \<in> set (views l)"
    using layer_of_view_Some [OF assms(1,4)] by blast
  then have k: "0 < ?k" "?k < length (lm_layers m)" "ls_layout ?slot = Some l" "ls_generation ?slot = lid_generation i"
    using assms(5) by (auto simp: layer_Inr is_base_def)
  have valid: "validate_layer m i = Inr ?k"
    using k by (simp add: validate_layer_Inr)
  obtain P Q where PQ: "lm_views m base = P @ slot_views ?slot @ Q"
    "\<forall>m' slot. lm_layers m' = (lm_layers m)[?k := slot] \<longrightarrow> lm_views m' base = P @ slot_views slot @ Q"
    using lm_views_update [OF k(1,2), of base] by blast
  have "v \<notin> set P" "v \<notin> set Q"
    using assms(3) l(2) k(3) PQ(1) by (auto simp: slot_views_def)
  then have "filter (\<lambda>u. u \<noteq> v) P = P" "filter (\<lambda>u. u \<noteq> v) Q = Q"
    by (auto intro!: filter_True)
  then have filt: "filter (\<lambda>u. u \<noteq> v) (lm_views m base) = P @ filter (\<lambda>u. u \<noteq> v) (views l) @ Q"
    unfolding PQ(1) by (simp add: slot_views_def k(3))
  obtain vs where vs: "compute_view_areas l A = Some vs" "\<forall>r \<in> snd ` set vs. inside r A"
    using areas_inside [of A l] assms(2) by auto
  show ?thesis
  proof (cases "remove_view v l")
    case None
    define m' where "m' = bump_structure_revision (m\<lparr> lm_layers := (lm_layers m)[?k :=
      \<lparr> ls_generation = (ls_generation ?slot + 1) mod 2 ^ 16, ls_layout = None \<rparr>] \<rparr>)"
    have "lm_views m' base = P @ Q"
      using PQ(2) [rule_format, of m'] by (simp add: m'_def bump_structure_revision_def slot_views_def)
    moreover have "filter (\<lambda>u. u \<noteq> v) (views l) = []"
      using remove_view_views [of v l] None by simp
    moreover have "lm_ok m'"
      unfolding m'_def by (rule bump_ok, rule lm_ok_update [OF assms(1) k(1,2)]) simp
    moreover have "lm_remove_view m base v A = Some (Some (lm_first_view m' base), m', base)"
      using assms(4,5) valid k(3) vs(1) None by (simp add: lm_remove_view_def m'_def Let_def)
    ultimately show ?thesis
      using filt lm_first_view_mem [of m' base] by (auto simp: m'_def bump_structure_revision_def)
  next
    case (Some l')
    define m' where "m' = bump_structure_revision (m\<lparr> lm_layers := (lm_layers m)[?k := ?slot\<lparr> ls_layout := Some l' \<rparr>] \<rparr>)"
    have views': "lm_views m' base = P @ views l' @ Q"
      using PQ(2) [rule_format, of m'] by (simp add: m'_def bump_structure_revision_def slot_views_def)
    have l': "views l' = filter (\<lambda>u. u \<noteq> v) (views l)"
      using remove_view_views [of v l] Some by simp
    obtain ws where ws: "compute_view_areas l' A = Some ws" "map fst ws = views l'" "\<forall>r \<in> snd ` set ws. inside r A"
      using areas_inside [of A l'] assms(2) by auto
    obtain w where w: "suggested_focus_after_close vs ws v = Some w" "\<forall>x. w = Some x \<longrightarrow> x \<in> fst ` set ws"
      using suggested_focus_total [OF assms(2) vs(2) ws(3)] by blast
    have "fst ` set ws = set (views l')"
      using arg_cong [OF ws(2), of set] by simp
    then have mem: "(case w of Some x \<Rightarrow> x | None \<Rightarrow> first_view l') \<in> set (views l')"
      using w(2) by (cases w) auto
    have "lm_ok m'"
      unfolding m'_def by (rule bump_ok, rule lm_ok_update [OF assms(1) k(1,2)]) (use lm_ok_generation [OF assms(1) k(2)] in simp)
    moreover have "lm_remove_view m base v A = Some (Some (case w of Some x \<Rightarrow> x | None \<Rightarrow> first_view l'), m', base)"
      using assms(4,5) valid k(3) vs(1) Some ws(1) w(1) by (simp add: lm_remove_view_def m'_def)
    ultimately show ?thesis
      using filt views' l' mem by (auto simp: m'_def bump_structure_revision_def)
  qed
qed

subsection \<open>Dragging\<close>

lemma shape_at_shape: "shape_at (shape l) path = shape_at l path"
proof (induction l path rule: shape_at.induct)
  case (1 l)
  show ?case by (induction l) auto
qed auto

lemma shape_at_cong: "shape l = shape l' \<Longrightarrow> shape_at l path = shape_at l' path"
  by (metis shape_at_shape)

lemma resize_shape: "do_resize_at_path l a path x y = Some (ok, l') \<Longrightarrow> shape l' = shape l"
proof (induction l a path x y arbitrary: ok l' rule: do_resize_at_path.induct)
  case (4 d p f s area b path x y)
  then show ?case
    by (cases b) (auto simp: Option.bind_eq_Some_conv)
qed (auto simp: Option.bind_eq_Some_conv Let_def)

lemma get_separator_shape:
  assumes "fits16 a"
  shows "(\<exists>r. do_get_separator_at_path l a path = Some (Some (d, r))) \<longleftrightarrow> (\<exists>f s. shape_at l path = Some (Split d 0 f s))"
  using assms
proof (induction l arbitrary: a path)
  case (Single v)
  show ?case by (cases path) auto
next
  case (Split d' p l1 l2)
  obtain f s sep where sp: "compute_split_areas a d' p = Some (f, s, sep)" "inside f a" "inside s a"
    using compute_split_areas_ok [OF Split.prems] by metis
  have fits: "fits16 f" "fits16 s"
    using sp(2,3) inside_fits [OF _ Split.prems] by blast+
  show ?case
    using Split.IH(1) [OF fits(1)] Split.IH(2) [OF fits(2)] sp(1) by (cases path; cases "hd path") auto
qed

lemma search_down_Some:
  assumes "search_down f xs = Some (Some z)"
  shows "\<exists>i slot l. (i, slot) \<in> set xs \<and> ls_layout slot = Some l \<and> f (id_of_slot i slot) l = Some (Some z)"
  using assms
proof (induction f xs rule: search_down.induct)
  case (2 f i slot rest)
  show ?case
  proof (cases "ls_layout slot")
    case None
    then show ?thesis
      using 2 by fastforce
  next
    case (Some l)
    then obtain res where res: "f (id_of_slot i slot) l = Some res"
      using 2(3) by (auto simp: Option.bind_eq_Some_conv)
    show ?thesis
      using 2(2) [OF Some, of res] 2(3) Some res by (cases res) fastforce+
  qed
qed simp

lemma id_of_slot_layer:
  assumes "lm_ok m" "(k, slot) \<in> set (overlays m)" "ls_layout slot = Some l"
  shows "layer m base (id_of_slot k slot) = Inr l"
proof -
  have k: "1 \<le> k" "k < length (lm_layers m)" "slot = lm_layers m ! k"
    using assms(1,2) by (auto simp: overlays_def in_set_enumerate_eq lm_ok_def)
  then have "k mod 2 ^ 16 = k"
    using assms(1) by (simp add: lm_ok_def)
  then show ?thesis
    using k assms(3) by (simp add: layer_Inr id_of_slot_def)
qed

lemma search_layers_Some:
  assumes "lm_ok m" "search_layers m base f = Some (Some z)"
  shows "\<exists>i l. layer m base i = Inr l \<and> f i l = Some (Some z)"
proof -
  consider "search_down f (rev (overlays m)) = Some (Some z)" | "f BASE base = Some (Some z)"
    using assms(2) by (auto simp: search_layers_def Option.bind_eq_Some_conv split: option.splits)
  then show ?thesis
  proof cases
    case 1
    then show ?thesis
      using search_down_Some [OF 1] id_of_slot_layer [OF assms(1)] by (metis set_rev)
  next
    case 2
    then show ?thesis
      by (auto simp: layer_def is_base_def BASE_def)
  qed
qed

lemma separator_hit_layer:
  assumes "lm_ok m" "fits16 area" "separator_hit_at_position m base area x y = Some (Some h)"
  shows "\<exists>l f s. layer m base (sid_layer (sh_id h)) = Inr l \<and>
    shape_at l (sid_path (sh_id h)) = Some (Split (sh_direction h) 0 f s) \<and> rect_contains (sh_rect h) (x, y)"
proof -
  obtain i l where l: "layer m base i = Inr l"
    "Option.bind (separator_with_path_at_position l area x y) (\<lambda>res. Some (map_option (\<lambda>(d, r, path).
       \<lparr> sh_id = \<lparr> sid_path = path, sid_layer = i \<rparr>, sh_direction = d, sh_rect = r \<rparr>) res)) = Some (Some h)"
    using search_layers_Some [OF assms(1) assms(3) [unfolded separator_hit_at_position_def]] by blast
  then obtain d r path where s: "separator_with_path_at_position l area x y = Some (Some (d, r, path))"
    "h = \<lparr> sh_id = \<lparr> sid_path = path, sid_layer = i \<rparr>, sh_direction = d, sh_rect = r \<rparr>"
    by (auto simp: Option.bind_eq_Some_conv)
  then have "do_get_separator_at_path l area path = Some (Some (d, r))" "rect_contains r (x, y)"
    using find_separator_sound [of l area x y "[]" d r path] assms(2) by (auto simp: separator_with_path_at_position_def)
  then show ?thesis
    using get_separator_shape [OF assms(2), of l path d] l(1) s(2) by auto
qed

lemma same_shape_layer:
  assumes "same_shape (m, base) (m', base')" "layer m base i = Inr l"
  shows "\<exists>l'. layer m' base' i = Inr l' \<and> shape l' = shape l"
proof (cases "is_base i")
  case True
  then show ?thesis
    using assms by (auto simp: same_shape_def layer_def)
next
  case False
  let ?f = "\<lambda>slot. (ls_generation slot, map_option shape (ls_layout slot))"
  have len: "length (lm_layers m) = length (lm_layers m')"
    using assms(1) by (auto simp: same_shape_def dest: map_eq_imp_length_eq)
  have i: "lid_idx i < length (lm_layers m)" "ls_layout (lm_layers m ! lid_idx i) = Some l"
    "ls_generation (lm_layers m ! lid_idx i) = lid_generation i"
    using assms(2) False by (auto simp: layer_Inr is_base_def)
  have "?f (lm_layers m ! lid_idx i) = ?f (lm_layers m' ! lid_idx i)"
    using assms(1) i(1) len unfolding same_shape_def by (auto simp: list_eq_iff_nth_eq)
  then show ?thesis
    using i len False by (cases "ls_layout (lm_layers m' ! lid_idx i)") (auto simp: layer_Inr is_base_def)
qed

lemma same_shape_put:
  assumes "layer m base i = Inr l" "shape l' = shape l"
  shows "same_shape (m, base) (put_layer m base i l')"
  using assms
  by (auto simp: same_shape_def put_layer_def layer_Inr is_base_def list_eq_iff_nth_eq nth_list_update)

lemma is_valid_layer_iff: "is_valid_layer m i \<longleftrightarrow> (\<exists>l. layer m base i = Inr l)"
  by (auto simp: is_valid_layer_def layer_def is_base_def validate_layer_def Let_def)

lemma same_shape_refl [simp]: "same_shape s s"
  by (simp add: same_shape_def)

lemma same_shape_trans: "same_shape s t \<Longrightarrow> same_shape t u \<Longrightarrow> same_shape s u"
  by (simp add: same_shape_def)

lemma same_shape_valid: "same_shape (m, base) (m', base') \<Longrightarrow> is_valid_layer m i \<Longrightarrow> is_valid_layer m' i"
  by (metis is_valid_layer_iff same_shape_layer)

lemma put_layer_frame:
  "put_layer m base i l = (m', base') \<Longrightarrow> lm_revision m' = lm_revision m \<and> dragging_separator m' = dragging_separator m"
  by (auto simp: put_layer_def split: if_splits)

lemma bump_frame [simp]:
  "lm_revision (bump_structure_revision m) = (lm_revision m + 1) mod 2 ^ 64"
  "dragging_separator (bump_structure_revision m) = dragging_separator m"
  by (simp_all add: bump_structure_revision_def)

lemma split_with_frame:
  assumes "split_with arrange m base v w area = Some (m', base')"
  shows "lm_revision m' = (lm_revision m + 1) mod 2 ^ 64 \<and> dragging_separator m' = dragging_separator m"
proof -
  obtain i l l' m1 where "layer m base i = Inr l" "put_layer m base i l' = (m1, base')" "m' = bump_structure_revision m1"
    using assms by (auto simp: split_with_def Option.bind_eq_Some_conv Let_def split: sum.splits) (metis sum.exhaust)
  then show ?thesis
    using put_layer_frame by fastforce
qed

lemma with_layer_mut_frame:
  assumes "with_layer_mut m base i f = Inr (r, m', base')"
  shows "lm_revision m' = (lm_revision m + 1) mod 2 ^ 64 \<and> dragging_separator m' = dragging_separator m"
proof -
  obtain l' m1 where "put_layer m base i l' = (m1, base')" "m' = bump_structure_revision m1"
    using assms by (auto simp: with_layer_mut_def Let_def split: sum.splits prod.splits)
  then show ?thesis
    using put_layer_frame by fastforce
qed

lemma lm_remove_view_frame:
  assumes "lm_remove_view m base v area = Some (Some w, m', base')"
  shows "lm_revision m' = (lm_revision m + 1) mod 2 ^ 64 \<and> dragging_separator m' = dragging_separator m"
proof -
  have "\<exists>layers. m' = bump_structure_revision (m\<lparr> lm_layers := layers \<rparr>)"
  proof (cases "layer_of_view m base v")
    case None
    then show ?thesis
      using assms by (simp add: lm_remove_view_def)
  next
    case (Some i)
    show ?thesis
    proof (cases "is_base i")
      case True
      then show ?thesis
        using assms Some
        by (intro exI [of _ "lm_layers m"]) (auto simp: lm_remove_view_def Option.bind_eq_Some_conv split: if_splits option.splits)
    next
      case False
      then show ?thesis
        using assms Some
        by (auto simp: lm_remove_view_def Option.bind_eq_Some_conv Let_def split: if_splits option.splits sum.splits)
    qed
  qed
  then show ?thesis
    by auto
qed

lemma resize_separator_shape:
  assumes "resize_separator m base area k x y = Some (m', base')"
  shows "same_shape (m, base) (m', base') \<and> lm_revision m' = lm_revision m \<and> dragging_separator m' = dragging_separator m"
proof (cases "layer m base (sid_layer k)")
  case (Inl e)
  then show ?thesis
    using assms by (simp add: resize_separator_def)
next
  case (Inr l)
  then obtain ok l' where r: "do_resize_at_path l area (sid_path k) x y = Some (ok, l')"
    "put_layer m base (sid_layer k) l' = (m', base')"
    using assms by (auto simp: resize_separator_def Option.bind_eq_Some_conv)
  then show ?thesis
    using same_shape_put [OF Inr resize_shape [OF r(1)]] put_layer_frame [OF r(2)] by simp
qed

lemma lm_step_effect:
  assumes "lm_step k s t"
  shows "lm_revision (fst t) = (if k = 0 then lm_revision (fst s) else (lm_revision (fst s) + 1) mod 2 ^ 64) \<and>
    dragging_separator (fst t) \<in> {dragging_separator (fst s), None} \<and>
    (k = 0 \<longrightarrow> same_shape s t \<and> (\<not> is_drag_stale (fst s) \<longrightarrow> dragging_separator (fst t) = dragging_separator (fst s))) \<and> k \<le> 1"
  using assms
proof cases
  case (hover m base h)
  then show ?thesis by (simp add: same_shape_def)
next
  case (resize m base area k' x y)
  then show ?thesis
    using resize_separator_shape [of m base area k' x y "fst t" "snd t"] by simp
next
  case (cancel m base)
  then show ?thesis by (simp add: same_shape_def cancel_if_stale_def end_drag_def)
next
  case (set_layer m index l m' i base)
  then show ?thesis by (auto simp: set_layer_def Let_def bump_structure_revision_def split: if_splits)
next
  case (mutate m base i f m' base')
  then show ?thesis using with_layer_mut_frame by fastforce
next
  case (split_horizontal m base v w area)
  then show ?thesis using split_with_frame [of stacked m base v w area "fst t" "snd t"] by (simp add: split_horizontal_def)
next
  case (split_vertical m base v w area)
  then show ?thesis using split_with_frame [of side_by_side m base v w area "fst t" "snd t"] by (simp add: split_vertical_def)
next
  case (remove m base v area w)
  then show ?thesis using lm_remove_view_frame [of m base v area w "fst t" "snd t"] by simp
qed

lemma lm_steps_effect:
  assumes "lm_steps n s t" "lm_revision (fst s) < 2 ^ 64" "dragging_separator (fst s) = Some g" "\<not> is_drag_stale (fst s)"
  shows "lm_revision (fst t) = (lm_revision (fst s) + n) mod 2 ^ 64 \<and>
    dragging_separator (fst t) \<in> {Some g, None} \<and>
    (n = 0 \<longrightarrow> same_shape s t \<and> dragging_separator (fst t) = Some g \<and> \<not> is_drag_stale (fst t))"
  using assms
proof (induction rule: lm_steps.induct)
  case (refl s)
  then show ?case by simp
next
  case (step n s t k u)
  note IH = step.IH [OF step.prems] and eff = lm_step_effect [OF step.hyps(2)]
  have lt: "lm_revision (fst t) < 2 ^ 64"
    using IH by simp
  have rev: "lm_revision (fst u) = (lm_revision (fst s) + (n + k)) mod 2 ^ 64"
  proof (cases "k = 0")
    case True
    then show ?thesis
      using IH eff by simp
  next
    case False
    then have "k = 1"
      using eff by simp
    then show ?thesis
      using IH eff mod_add_left_eq [of "lm_revision (fst s) + n" "2 ^ 64" 1] by (simp only: add.assoc if_False one_neq_zero)
  qed
  have drag: "dragging_separator (fst u) \<in> {Some g, None}"
    using IH eff by auto
  have zero: "same_shape s u \<and> dragging_separator (fst u) = Some g \<and> \<not> is_drag_stale (fst u)" if "n + k = 0"
  proof -
    have "same_shape s t" "same_shape t u" "dragging_separator (fst t) = Some g" "dragging_separator (fst u) = Some g"
      "\<not> is_drag_stale (fst t)" "lm_revision (fst u) = lm_revision (fst t)"
      using that IH eff by auto
    then show ?thesis
      using same_shape_trans same_shape_valid [of "fst t" "snd t" "fst u" "snd u"]
      by (auto simp: is_drag_stale_def)
  qed
  show ?case
    using rev drag zero by blast
qed

lemma splits_wellI:
  assumes "lm_ok m" "fits16 A"
    and "\<And>a w. fits16 a \<Longrightarrow> 3 \<le> ext a \<Longrightarrow>
      views (arrange (Single v) (Single w) a) = [v, w] \<and>
      (\<exists>f s. compute_view_areas (arrange (Single v) (Single w) a) a = Some [(v, f), (w, s)] \<and> 0 < ext f \<and> 0 < ext s)"
  shows "splits_well ext (can_split ext) (split_with arrange) m base v A"
proof -
  obtain res where res: "can_split ext m base v A = Some res"
    "case res of
       Inl ViewNotFound \<Rightarrow> v \<notin> set (lm_views m base)
     | Inl AreaTooSmall \<Rightarrow> v \<in> set (lm_views m base) \<and> (\<exists>a. view_area m base v A = Some (Some a) \<and> ext a < 3)
     | Inr (i, a) \<Rightarrow> layer_of_view m base v = Some i \<and> view_area m base v A = Some (Some a) \<and> 3 \<le> ext a"
    using can_split_cases [OF assms(1,2)] by blast
  have split: "\<exists>m' base' l l' f s xs ys P Q. split_with arrange m base v w A = Some (m', base') \<and> lm_ok m' \<and>
      lm_revision m' = (lm_revision m + 1) mod 2 ^ 64 \<and>
      lm_views m base = P @ v # Q \<and> lm_views m' base' = P @ v # w # Q \<and>
      layer m base i = Inr l \<and> compute_view_areas l A = Some (xs @ (v, a) # ys) \<and>
      layer m' base' i = Inr l' \<and> compute_view_areas l' A = Some (xs @ [(v, f), (w, s)] @ ys) \<and> 0 < ext f \<and> 0 < ext s"
    if i: "layer_of_view m base v = Some i" "view_area m base v A = Some (Some a)" "3 \<le> ext a" for i a w
  proof -
    obtain m' base' l l' ns xs ys P Q where sp: "split_with arrange m base v w A = Some (m', base')" "lm_ok m'"
      "lm_revision m' = (lm_revision m + 1) mod 2 ^ 64"
      "lm_views m base = P @ v # Q" "lm_views m' base' = P @ views (arrange (Single v) (Single w) a) @ Q"
      "layer m base i = Inr l" "compute_view_areas l A = Some (xs @ (v, a) # ys)"
      "layer m' base' i = Inr l'" "compute_view_areas l' A = Some (xs @ ns @ ys)"
      "compute_view_areas (arrange (Single v) (Single w) a) a = Some ns"
      using split_with_ok [OF assms(1,2) i(1,2)] by blast
    have "inside a A"
      using areas_inside [OF assms(2), of l] sp(7) by auto
    then have "fits16 a"
      using assms(2) inside_fits by blast
    then obtain f s where "views (arrange (Single v) (Single w) a) = [v, w]" "ns = [(v, f), (w, s)]" "0 < ext f" "0 < ext s"
      using assms(3) [of a w] i(3) sp(10) by auto
    then show ?thesis
      using sp(1-9) by (intro exI [of _ m'] exI [of _ base'] exI [of _ l] exI [of _ l'] exI [of _ f] exI [of _ s]
          exI [of _ xs] exI [of _ ys] exI [of _ P] exI [of _ Q]) simp
  qed
  show ?thesis
    unfolding splits_well_def
    using res split by (intro exI [of _ res]) (auto split: sum.splits split_error.splits)
qed

lemma remove_view_ok:
  assumes "lm_ok m" "screen_area A" "distinct (lm_views m base)"
  shows "\<exists>res m' base'. lm_remove_view m base v A = Some (res, m', base') \<and>
    (if v \<notin> set (lm_views m base) \<or> views base = [v] then res = None \<and> m' = m \<and> base' = base
     else lm_ok m' \<and> lm_revision m' = (lm_revision m + 1) mod 2 ^ 64 \<and>
       lm_views m' base' = filter (\<lambda>u. u \<noteq> v) (lm_views m base) \<and> (\<exists>w. res = Some w \<and> w \<in> set (lm_views m' base')))"
proof (cases "layer_of_view m base v")
  case None
  then show ?thesis
    using layer_of_view_None [of m base v] by (simp add: lm_remove_view_def)
next
  case (Some i)
  have v: "v \<in> set (lm_views m base)"
    using Some layer_of_view_None [of m base v] by auto
  show ?thesis
  proof (cases "is_base i")
    case True
    have vb: "v \<in> set (views base)"
      using layer_of_view_Some [OF assms(1) Some] True by blast
    show ?thesis
    proof (cases "1 < ly_count base")
      case big: True
      obtain w base' where r: "lm_remove_view m base v A = Some (Some w, bump_structure_revision m, base')"
        "lm_views m base' = filter (\<lambda>u. u \<noteq> v) (lm_views m base)" "w \<in> set (views base')"
        using remove_base_ok [OF assms Some True big] by blast
      have "views base \<noteq> [v]"
        using big length_views [of base] by fastforce
      moreover have "w \<in> set (lm_views m base')"
        using r(3) by (simp add: lm_views_def)
      ultimately have "views base \<noteq> [v]" "w \<in> set (lm_views m base')"
        by simp_all
      then show ?thesis
        using r v assms(1) by (intro exI [of _ "Some w"] exI [of _ "bump_structure_revision m"] exI [of _ base']) auto
    next
      case False
      then have "length (views base) = 1"
        using ly_count_pos [of base] length_views [of base] by linarith
      then have "views base = [v]"
        using vb by (auto simp: length_Suc_conv simp del: length_views)
      then show ?thesis
        using False Some True by (simp add: lm_remove_view_def)
    qed
  next
    case False
    have "views base \<noteq> [v]"
      using layer_of_view_Some [OF assms(1) Some] False by auto
    then show ?thesis
      using remove_overlay_ok [OF assms Some False] v by auto
  qed
qed

section \<open>Properties\<close>

text \<open>
  Splitting and closing. On a screen area, for layers whose views are distinct: the two preflight checks and
  the splits they admit behave as \<open>splits_well\<close> says; closing a view that is not there, or the last view of the
  base layout, is refused and changes nothing; closing any other view removes exactly that view, counts as
  one structural change and suggests a view that is still there. None of it panics.
\<close>

theorem split_close_correct:
  assumes "lm_ok m" "screen_area A" "distinct (lm_views m base)"
  shows "splits_well rect_height can_split_horizontal split_horizontal m base v A \<and>
    splits_well rect_width can_split_vertical split_vertical m base v A \<and>
    (\<exists>res m' base'. lm_remove_view m base v A = Some (res, m', base') \<and>
      (if v \<notin> set (lm_views m base) \<or> views base = [v] then res = None \<and> m' = m \<and> base' = base
       else lm_ok m' \<and> lm_revision m' = (lm_revision m + 1) mod 2 ^ 64 \<and>
         lm_views m' base' = filter (\<lambda>u. u \<noteq> v) (lm_views m base) \<and> (\<exists>w. res = Some w \<and> w \<in> set (lm_views m' base'))))"
proof (intro conjI)
  show "splits_well rect_height can_split_horizontal split_horizontal m base v A"
    unfolding can_split_horizontal_def split_horizontal_def
    by (rule splits_wellI [OF assms(1) screen_area_fits [OF assms(2)]], intro conjI)
      (simp add: stacked_def, use halves_nonempty in blast)
  show "splits_well rect_width can_split_vertical split_vertical m base v A"
    unfolding can_split_vertical_def split_vertical_def
    by (rule splits_wellI [OF assms(1) screen_area_fits [OF assms(2)]], intro conjI)
      (simp add: side_by_side_def, use sides_nonempty in blast)
qed (rule remove_view_ok [OF assms])

theorem split_close_correct_witness:
  "lm_ok lm_default \<and> screen_area (rect_new 0 0 80 24) \<and> distinct (lm_views lm_default (Single 7)) \<and>
   splits_well rect_height can_split_horizontal split_horizontal lm_default (Single 7) 7 (rect_new 0 0 80 24)"
proof -
  have "lm_ok lm_default" "screen_area (rect_new 0 0 80 24)" "distinct (lm_views lm_default (Single 7))"
    by (simp_all add: lm_ok_def lm_default_def slot_empty_def screen_area_def rect_new_def saturating_add16_def u16_max_def
        lm_views_slots)
  then show ?thesis
    using split_close_correct [of lm_default "rect_new 0 0 80 24" "Single 7" 7] by simp
qed

text \<open>
  Stale layers. Setting a layer gives an id that is valid exactly if a layout was stored; every id of that
  slot that was valid before is rejected from then on, with the reason, and resizing through it changes
  nothing; ids of other slots keep resolving to the same layouts. The base slot cannot be set.
\<close>

theorem stale_layers_rejected:
  assumes "lm_ok m" "0 < index" "index < 2 ^ 16" "set_layer m index l = Some (m', i)"
  shows "lm_ok m' \<and> validate_layer m' i = (if l = None then Inl EmptyLayer else Inr index) \<and>
    (\<forall>j. lid_idx j = index \<and> is_valid_layer m j \<longrightarrow>
      validate_layer m' j = Inl (if l = None then EmptyLayer else StaleLayer) \<and>
      (\<forall>base area path x y. resize_separator m' base area \<lparr> sid_path = path, sid_layer = j \<rparr> x y = Some (m', base))) \<and>
    (\<forall>j base. lid_idx j \<noteq> index \<and> is_valid_layer m j \<longrightarrow> is_valid_layer m' j \<and> layer m' base j = layer m base j) \<and>
    set_layer m 0 l = None"
proof (intro conjI allI impI; (elim conjE)?)
  note ok = set_layer_ok [OF assms]
  show "lm_ok m'" "validate_layer m' i = (if l = None then Inl EmptyLayer else Inr index)"
    by (rule ok(1), rule ok(2))
  show "set_layer m 0 l = None"
    by (simp add: set_layer_def)
  fix j base
  assume j: "is_valid_layer m j"
  {
    assume "lid_idx j = index"
    with j show "validate_layer m' j = Inl (if l = None then EmptyLayer else StaleLayer)"
      by (intro ok(3))
    then show "resize_separator m' base area \<lparr> sid_path = path, sid_layer = j \<rparr> x y = Some (m', base)" for area path x y
      using \<open>lid_idx j = index\<close> assms(2) by (simp add: resize_separator_def layer_def is_base_def)
  }
  assume "lid_idx j \<noteq> index"
  with j show "is_valid_layer m' j" "layer m' base j = layer m base j"
    using ok(4) [of j] ok(5) [of j base] by (auto simp: is_valid_layer_def split: sum.splits)
qed

theorem stale_layers_rejected_witness:
  "\<exists>m1 i1 m2 i2. set_layer lm_default 1 (Some (Single 5)) = Some (m1, i1) \<and> is_valid_layer m1 i1 \<and>
     set_layer m1 1 (Some (Single 6)) = Some (m2, i2) \<and> validate_layer m2 i1 = Inl StaleLayer \<and> validate_layer m2 i2 = Inr 1"
proof -
  obtain m1 i1 where 1: "set_layer lm_default 1 (Some (Single 5)) = Some (m1, i1)"
    by (simp add: set_layer_def Let_def)
  obtain m2 i2 where 2: "set_layer m1 1 (Some (Single 6)) = Some (m2, i2)"
    by (simp add: set_layer_def Let_def)
  have ok: "lm_ok lm_default"
    by (simp add: lm_ok_def lm_default_def slot_empty_def)
  have one: "(0 :: nat) < 1" "(1 :: nat) < 2 ^ 16"
    by simp_all
  have "lm_ok m1" "validate_layer m1 i1 = Inr 1"
    using stale_layers_rejected [OF ok one 1] by simp_all
  then have "lid_idx i1 = 1"
    by (auto simp: validate_layer_Inr split: if_splits)
  moreover have "is_valid_layer m1 i1"
    by (simp add: is_valid_layer_def \<open>validate_layer m1 i1 = Inr 1\<close>)
  ultimately have "is_valid_layer m1 i1" "lid_idx i1 = 1"
    by simp_all
  then show ?thesis
    using stale_layers_rejected [OF \<open>lm_ok m1\<close> one 2] 1 2 by auto
qed

text \<open>
  A drag holds its split. After a separator under the mouse was grabbed, and as long as fewer than
  \<open>2 ^ 64\<close> structural changes happen, the drag is reported stale, or was cancelled, exactly if there was a
  structural change. A drag that is not stale resolves to a layout in which its path leads to a split of the
  same direction with the same subtrees (up to separator positions) as the one grabbed, and to a separator
  rectangle in every area.
\<close>

theorem drag_holds_its_split:
  assumes "lm_ok m" "fits16 area" "separator_hit_at_position m base area x y = Some (Some h)"
    and "lm_steps n (start_drag m h, base) (m', base')" "n < 2 ^ 64"
  shows "(dragging_separator m' \<noteq> None \<and> \<not> is_drag_stale m' \<longleftrightarrow> n = 0) \<and>
    (\<exists>l f s. layer m base (sid_layer (sh_id h)) = Inr l \<and> shape_at l (sid_path (sh_id h)) = Some (Split (sh_direction h) 0 f s) \<and>
      (n = 0 \<longrightarrow>
        (\<exists>l'. layer m' base' (sid_layer (sh_id h)) = Inr l' \<and>
          shape_at l' (sid_path (sh_id h)) = Some (Split (sh_direction h) 0 f s)) \<and>
        (\<forall>area'. fits16 area' \<longrightarrow> (\<exists>r. separator_rect m' base' area' (sh_id h) = Some (Some r)))))"
proof -
  obtain l f s where l: "layer m base (sid_layer (sh_id h)) = Inr l"
    "shape_at l (sid_path (sh_id h)) = Some (Split (sh_direction h) 0 f s)"
    using separator_hit_layer [OF assms(1-3)] by blast
  let ?g = "\<lparr> dg_id = sh_id h, dg_revision = lm_revision m \<rparr>"
  have layers: "layer (start_drag m h) base i = layer m base i" for i
    by (simp add: layer_def validate_layer_def start_drag_def Let_def)
  have rev: "lm_revision m < 2 ^ 64"
    using assms(1) by (simp add: lm_ok_def)
  have drag: "dragging_separator (start_drag m h) = Some ?g" "lm_revision (start_drag m h) = lm_revision m"
    by (simp_all add: start_drag_def)
  have fresh: "\<not> is_drag_stale (start_drag m h)"
    using l(1) layers is_valid_layer_iff [of "start_drag m h" "sid_layer (sh_id h)" base]
    by (simp add: is_drag_stale_def drag)
  have eff: "lm_revision m' = (lm_revision m + n) mod 2 ^ 64" "dragging_separator m' \<in> {Some ?g, None}"
    "n = 0 \<longrightarrow> same_shape (start_drag m h, base) (m', base') \<and> dragging_separator m' = Some ?g \<and> \<not> is_drag_stale m'"
    using lm_steps_effect [OF assms(4), of ?g] rev drag fresh by simp_all
  have "(lm_revision m + n) mod 2 ^ 64 \<noteq> lm_revision m" if "n \<noteq> 0"
    using that rev assms(5) by (cases "lm_revision m + n < 2 ^ 64") (auto simp: le_mod_geq)
  then have iff: "dragging_separator m' \<noteq> None \<and> \<not> is_drag_stale m' \<longleftrightarrow> n = 0"
    using eff by (cases "n = 0") (auto simp: is_drag_stale_def)
  have "(\<exists>l'. layer m' base' (sid_layer (sh_id h)) = Inr l' \<and>
        shape_at l' (sid_path (sh_id h)) = Some (Split (sh_direction h) 0 f s)) \<and>
      (\<forall>area'. fits16 area' \<longrightarrow> (\<exists>r. separator_rect m' base' area' (sh_id h) = Some (Some r)))" if "n = 0"
  proof -
    have "same_shape (start_drag m h, base) (m', base')"
      using eff(3) that by simp
    then obtain l' where l': "layer m' base' (sid_layer (sh_id h)) = Inr l'" "shape l' = shape l"
      using same_shape_layer [of "start_drag m h" base m' base' "sid_layer (sh_id h)" l] layers l(1) by auto
    then have sh: "shape_at l' (sid_path (sh_id h)) = Some (Split (sh_direction h) 0 f s)"
      using shape_at_cong l(2) by metis
    have "\<exists>r. separator_rect m' base' area' (sh_id h) = Some (Some r)" if "fits16 area'" for area'
      using get_separator_shape [OF that, of l' "sid_path (sh_id h)" "sh_direction h"] sh l'(1) by (auto simp: separator_rect_def)
    then show ?thesis
      using l'(1) sh by blast
  qed
  then show ?thesis
    using iff l by blast
qed

theorem drag_holds_its_split_witness:
  "\<exists>h m' base'. separator_hit_at_position lm_default (Split Horizontal 40 (Single 1) (Single 2)) (rect_new 0 0 80 24) 40 5 = Some (Some h) \<and>
     resize_separator (start_drag lm_default h) (Split Horizontal 40 (Single 1) (Single 2)) (rect_new 0 0 80 24) (sh_id h) 55 5 = Some (m', base') \<and>
     base' = Split Horizontal 55 (Single 1) (Single 2) \<and> dragging_separator m' \<noteq> None \<and> \<not> is_drag_stale m'"
proof -
  let ?base = "Split Horizontal 40 (Single 1) (Single 2)" and ?area = "rect_new 0 0 80 24"
  let ?h = "\<lparr> sh_id = \<lparr> sid_path = [], sid_layer = BASE \<rparr>, sh_direction = Horizontal, sh_rect = rect_new 40 0 1 24 \<rparr>"
  have ok: "lm_ok lm_default" and fits: "fits16 ?area"
    by (simp_all add: lm_ok_def lm_default_def slot_empty_def fits16_def rect_new_def saturating_add16_def u16_max_def)
  have hit: "separator_hit_at_position lm_default ?base ?area 40 5 = Some (Some ?h)"
    by (simp add: separator_hit_at_position_def search_layers_def overlays_def lm_default_def separator_with_path_at_position_def
        rect_new_def saturating_add16_def u16_max_def Let_def split_offset_def MIN_WIDTH_def clamp16_def checked_add16_def hit_test_def)
  have move: "resize_separator (start_drag lm_default ?h) ?base ?area (sh_id ?h) 55 5 =
      Some (start_drag lm_default ?h, Split Horizontal 55 (Single 1) (Single 2))"
    by (simp add: resize_separator_def layer_def is_base_def BASE_def put_layer_def
        rect_new_def saturating_add16_def u16_max_def Let_def MIN_WIDTH_def clamp16_def checked_add16_def)
  have steps: "lm_steps (0 + 0) (start_drag lm_default ?h, ?base) (start_drag lm_default ?h, Split Horizontal 55 (Single 1) (Single 2))"
    by (rule lm_steps.step [OF lm_steps.refl lm_step.resize [OF move]])
  show ?thesis
    using drag_holds_its_split [OF ok fits hit steps] hit move by auto
qed

end
