(* ===== verification/Runtime.thy ===== *)
theory Runtime
  imports Prelude "HOL-Library.Multiset"
begin

text \<open>
  The runtime of the editor, \<open>crates/editor/src/runtime\<close>: the event kernel (\<open>kernel.rs\<close>, \<open>protocol.rs\<close>), the
  deferred work queue (\<open>work_queue.rs\<close>) and its drain (\<open>work_drain.rs\<close>), the maintenance pump (\<open>pump\<close>) and the
  coordinator loop (\<open>core.rs\<close>).

  What the runtime calls in the rest of the editor goes through the ports of \<open>facade.rs\<close>; they are a record of
  functions on the whole runtime state, of which the model assumes nothing but the contract \<open>ports_ok\<close> where a
  lemma names it: ports touch the work queue through its own operations, only append to the event queue, and
  leave the active cause and the hook depth as they found them. Asynchronous calls are awaited where they stand,
  so a call is a state transformer. The clock is read through a port; a one-shot reply sender is an
  identifier, and handing it over or answering it appends to a log. Metrics and tracing are left out.
\<close>

section \<open>The work queue\<close>

datatype work_source = ActionEffect | OverlaySource | CommandOps | NuHookDispatch | NuScheduledMacro

datatype execution_policy = LogOnlyCommandPath | EnforcingNuPipeline

datatype invocation_policy = PolicyLogOnly | PolicyEnforcing

fun invocation_policy_of :: "execution_policy \<Rightarrow> invocation_policy" where
  "invocation_policy_of LogOnlyCommandPath = PolicyLogOnly"
| "invocation_policy_of EnforcingNuPipeline = PolicyEnforcing"

datatype work_scope = GlobalScope | NuStopScope nat

record 'i queued_invocation =
  qi_invocation :: 'i
  qi_source :: work_source
  qi_execution :: execution_policy

datatype ('i, 'w) work_kind =
  WorkInvocation "'i queued_invocation" | WorkOverlayCommit | WorkWorkspaceEdit 'w

datatype kind_tag = TagInvocation | TagOverlayCommit | TagWorkspaceEdit

fun kind_tag_of :: "('i, 'w) work_kind \<Rightarrow> kind_tag" where
  "kind_tag_of (WorkInvocation _) = TagInvocation"
| "kind_tag_of WorkOverlayCommit = TagOverlayCommit"
| "kind_tag_of (WorkWorkspaceEdit _) = TagWorkspaceEdit"

record kind_counts =
  kc_invocation :: nat
  kc_overlay_commit :: nat
  kc_workspace_edit :: nat

definition counts_default :: kind_counts where
  "counts_default = \<lparr> kc_invocation = 0, kc_overlay_commit = 0, kc_workspace_edit = 0 \<rparr>"

definition saturating_add64 :: "nat \<Rightarrow> nat \<Rightarrow> nat" where
  "saturating_add64 a b = min (a + b) u64_max"

fun add_kind :: "kind_tag \<Rightarrow> kind_counts \<Rightarrow> kind_counts" where
  "add_kind TagInvocation c = c\<lparr> kc_invocation := saturating_add64 (kc_invocation c) 1 \<rparr>"
| "add_kind TagOverlayCommit c = c\<lparr> kc_overlay_commit := saturating_add64 (kc_overlay_commit c) 1 \<rparr>"
| "add_kind TagWorkspaceEdit c = c\<lparr> kc_workspace_edit := saturating_add64 (kc_workspace_edit c) 1 \<rparr>"

definition add_from :: "kind_counts \<Rightarrow> kind_counts \<Rightarrow> kind_counts" where
  "add_from other c =
     \<lparr> kc_invocation = saturating_add64 (kc_invocation c) (kc_invocation other),
       kc_overlay_commit = saturating_add64 (kc_overlay_commit c) (kc_overlay_commit other),
       kc_workspace_edit = saturating_add64 (kc_workspace_edit c) (kc_workspace_edit other) \<rparr>"

record ('i, 'w) work_item =
  wi_kind :: "('i, 'w) work_kind"
  wi_kind_tag :: kind_tag
  wi_scope :: work_scope
  wi_seq :: nat
  wi_cause_id :: "nat option"
  wi_enqueued_at :: nat

type_synonym reply = "nat \<times> nat"

record apply_edit_result =
  ae_applied :: bool
  ae_failure_reason :: "utext option"
  ae_failed_change :: "nat option"

text \<open>
  Besides the fields of the source, two logs: the reply senders handed to the queue and the answers given to
  them, each in order.
\<close>

record ('i, 'w) work_queue =
  wq_seq_next :: nat
  wq_queue :: "('i, 'w) work_item list"
  apply_edit_replies :: "nat \<rightharpoonup> reply"
  wq_registered :: "nat list"
  wq_answers :: "(nat \<times> apply_edit_result) list"

definition wq_default :: "('i, 'w) work_queue" where
  "wq_default = \<lparr> wq_seq_next = 0, wq_queue = [], apply_edit_replies = Map.empty, wq_registered = [], wq_answers = [] \<rparr>"

definition enqueue_with_cause ::
  "nat \<Rightarrow> ('i, 'w) work_kind \<Rightarrow> work_scope \<Rightarrow> nat option \<Rightarrow> ('i, 'w) work_queue \<Rightarrow> nat \<times> ('i, 'w) work_queue" where
  "enqueue_with_cause now kind scope cause q =
     (let seq = wq_seq_next q;
          item = \<lparr> wi_kind = kind, wi_kind_tag = kind_tag_of kind, wi_scope = scope, wi_seq = seq,
                   wi_cause_id = cause, wi_enqueued_at = now \<rparr>
      in (seq, q\<lparr> wq_seq_next := (seq + 1) mod 2 ^ 64, wq_queue := wq_queue q @ [item] \<rparr>))"

definition enqueue_invocation_with_cause ::
  "nat \<Rightarrow> 'i \<Rightarrow> work_source \<Rightarrow> execution_policy \<Rightarrow> work_scope \<Rightarrow> nat option \<Rightarrow> ('i, 'w) work_queue \<Rightarrow> nat \<times> ('i, 'w) work_queue" where
  "enqueue_invocation_with_cause now invocation source execution scope cause q =
     enqueue_with_cause now (WorkInvocation \<lparr> qi_invocation = invocation, qi_source = source, qi_execution = execution \<rparr>) scope cause q"

definition enqueue_overlay_commit_with_cause :: "nat \<Rightarrow> nat option \<Rightarrow> ('i, 'w) work_queue \<Rightarrow> nat \<times> ('i, 'w) work_queue" where
  "enqueue_overlay_commit_with_cause now cause q = enqueue_with_cause now WorkOverlayCommit GlobalScope cause q"

definition enqueue_workspace_edit_with_cause ::
  "nat \<Rightarrow> 'w \<Rightarrow> reply option \<Rightarrow> nat option \<Rightarrow> ('i, 'w) work_queue \<Rightarrow> nat \<times> ('i, 'w) work_queue" where
  "enqueue_workspace_edit_with_cause now edit reply cause q =
     (let (seq, q) = enqueue_with_cause now (WorkWorkspaceEdit edit) GlobalScope cause q
      in (seq, case reply of
                 Some entry \<Rightarrow> q\<lparr> apply_edit_replies := (apply_edit_replies q)(seq \<mapsto> entry),
                                 wq_registered := wq_registered q @ [fst entry] \<rparr>
               | None \<Rightarrow> q))"

definition wq_pop_front :: "('i, 'w) work_queue \<Rightarrow> ('i, 'w) work_item option \<times> ('i, 'w) work_queue" where
  "wq_pop_front q =
     (case wq_queue q of [] \<Rightarrow> (None, q) | item # rest \<Rightarrow> (Some item, q\<lparr> wq_queue := rest \<rparr>))"

definition take_apply_edit_reply :: "nat \<Rightarrow> ('i, 'w) work_queue \<Rightarrow> reply option \<times> ('i, 'w) work_queue" where
  "take_apply_edit_reply seq q =
     (apply_edit_replies q seq, q\<lparr> apply_edit_replies := (apply_edit_replies q)(seq := None) \<rparr>)"

definition answer :: "nat \<Rightarrow> apply_edit_result \<Rightarrow> ('i, 'w) work_queue \<Rightarrow> ('i, 'w) work_queue" where
  "answer tx result q = q\<lparr> wq_answers := wq_answers q @ [(tx, result)] \<rparr>"

definition rejected :: "string \<Rightarrow> apply_edit_result" where
  "rejected reason = \<lparr> ae_applied = False, ae_failure_reason = Some (map of_char reason), ae_failed_change = None \<rparr>"

definition reject_apply_edit_reply :: "string \<Rightarrow> nat \<Rightarrow> ('i, 'w) work_queue \<Rightarrow> ('i, 'w) work_queue" where
  "reject_apply_edit_reply reason seq q =
     (case apply_edit_replies q seq of
        None \<Rightarrow> q
      | Some (tx, _) \<Rightarrow>
          answer tx (rejected reason) (q\<lparr> apply_edit_replies := (apply_edit_replies q)(seq := None) \<rparr>))"

definition is_workspace_edit :: "('i, 'w) work_item \<Rightarrow> bool" where
  "is_workspace_edit item = (case wi_kind item of WorkWorkspaceEdit _ \<Rightarrow> True | _ \<Rightarrow> False)"

definition remove_scope :: "work_scope \<Rightarrow> ('i, 'w) work_queue \<Rightarrow> nat \<times> ('i, 'w) work_queue" where
  "remove_scope scope q =
     (let before = length (wq_queue q);
          seqs = map wi_seq (filter (\<lambda>item. wi_scope item = scope \<and> is_workspace_edit item) (wq_queue q));
          q = fold (reject_apply_edit_reply ''work scope cancelled'') seqs q;
          q = q\<lparr> wq_queue := filter (\<lambda>item. wi_scope item \<noteq> scope) (wq_queue q) \<rparr>
      in (before - length (wq_queue q), q))"

section \<open>The event kernel\<close>

datatype event_source = Frontend | Replay | Internal

record 'ev event_envelope =
  env_seq :: nat
  env_cause_id :: nat
  env_submitted_at :: nat
  env_source :: event_source
  env_event :: 'ev

datatype cursor_style = Block | Beam | Underline | Hidden

record directive =
  dv_poll_timeout :: "nat option"
  dv_needs_redraw :: bool
  dv_cursor_style :: cursor_style
  dv_should_quit :: bool
  dv_cause_seq :: "nat option"
  dv_cause_id :: "nat option"
  dv_drained_runtime_work :: nat
  dv_pending_events :: nat

record 'ev kernel =
  kn_seq_next :: nat
  kn_cause_next :: nat
  frontend_events :: "'ev event_envelope list"
  kn_directives :: "directive list"

definition enqueue_frontend :: "nat \<Rightarrow> 'ev \<Rightarrow> event_source \<Rightarrow> 'ev kernel \<Rightarrow> (nat \<times> nat) \<times> 'ev kernel" where
  "enqueue_frontend now ev source k =
     ((kn_seq_next k, kn_cause_next k),
      k\<lparr> kn_seq_next := (kn_seq_next k + 1) mod 2 ^ 64, kn_cause_next := (kn_cause_next k + 1) mod 2 ^ 64,
         frontend_events := frontend_events k @
           [\<lparr> env_seq = kn_seq_next k, env_cause_id = kn_cause_next k, env_submitted_at = now, env_source = source, env_event = ev \<rparr>] \<rparr>)"

definition pop_frontend :: "'ev kernel \<Rightarrow> 'ev event_envelope option \<times> 'ev kernel" where
  "pop_frontend k =
     (case frontend_events k of [] \<Rightarrow> (None, k) | env # rest \<Rightarrow> (Some env, k\<lparr> frontend_events := rest \<rparr>))"

definition peek_frontend :: "'ev kernel \<Rightarrow> 'ev event_envelope option" where
  "peek_frontend k = (case frontend_events k of [] \<Rightarrow> None | env # _ \<Rightarrow> Some env)"

definition push_directive :: "directive \<Rightarrow> 'ev kernel \<Rightarrow> 'ev kernel" where
  "push_directive d k = k\<lparr> kn_directives := kn_directives k @ [d] \<rparr>"

definition pop_directive :: "'ev kernel \<Rightarrow> directive option \<times> 'ev kernel" where
  "pop_directive k = (case kn_directives k of [] \<Rightarrow> (None, k) | d # ds \<Rightarrow> (Some d, k\<lparr> kn_directives := ds \<rparr>))"

section \<open>State and ports\<close>

record ('i, 'w, 'ev, 'x) runtime =
  rt_kernel :: "'ev kernel"
  rt_work :: "('i, 'w) work_queue"
  rt_active_cause :: "nat option"
  rt_hook_depth :: nat
  rt_needs_redraw :: bool
  rt_rest :: 'x

datatype invocation_status = StatusOk | Quit | ForceQuit | NotFound | ReadonlyDenied | CommandError

record edit_failure =
  ef_message :: utext
  ef_failed_change :: "nat option"

record ('i, 'w, 'ev, 'x) ports =
  pt_now :: "('i, 'w, 'ev, 'x) runtime \<Rightarrow> nat"
  pt_reply_closed :: "nat \<Rightarrow> ('i, 'w, 'ev, 'x) runtime \<Rightarrow> bool"
  pt_run_invocation :: "'i \<Rightarrow> invocation_policy \<Rightarrow> ('i, 'w, 'ev, 'x) runtime \<Rightarrow> invocation_status \<times> ('i, 'w, 'ev, 'x) runtime"
  pt_command_name :: "'i \<Rightarrow> utext option"
  pt_notify_unknown_command :: "utext \<Rightarrow> ('i, 'w, 'ev, 'x) runtime \<Rightarrow> ('i, 'w, 'ev, 'x) runtime"
  pt_apply_overlay_commit :: "('i, 'w, 'ev, 'x) runtime \<Rightarrow> ('i, 'w, 'ev, 'x) runtime"
  pt_apply_workspace_edit :: "'w \<Rightarrow> ('i, 'w, 'ev, 'x) runtime \<Rightarrow> edit_failure option \<times> ('i, 'w, 'ev, 'x) runtime"
  pt_notify_error :: "utext \<Rightarrow> ('i, 'w, 'ev, 'x) runtime \<Rightarrow> ('i, 'w, 'ev, 'x) runtime"
  pt_ui_tick_and_tick :: "('i, 'w, 'ev, 'x) runtime \<Rightarrow> ('i, 'w, 'ev, 'x) runtime"
  pt_drain_filesystem_events :: "('i, 'w, 'ev, 'x) runtime \<Rightarrow> nat \<times> ('i, 'w, 'ev, 'x) runtime"
  pt_refresh_file_picker :: "('i, 'w, 'ev, 'x) runtime \<Rightarrow> ('i, 'w, 'ev, 'x) runtime"
  pt_drain_messages :: "('i, 'w, 'ev, 'x) runtime \<Rightarrow> (nat \<times> bool) \<times> ('i, 'w, 'ev, 'x) runtime"
  pt_kick_nu_hook_eval :: "('i, 'w, 'ev, 'x) runtime \<Rightarrow> ('i, 'w, 'ev, 'x) runtime"
  pt_drain_scheduler :: "('i, 'w, 'ev, 'x) runtime \<Rightarrow> nat \<times> ('i, 'w, 'ev, 'x) runtime"
  pt_take_quit_request :: "('i, 'w, 'ev, 'x) runtime \<Rightarrow> bool \<times> ('i, 'w, 'ev, 'x) runtime"
  pt_apply_event :: "'ev \<Rightarrow> ('i, 'w, 'ev, 'x) runtime \<Rightarrow> ('i, 'w, 'ev, 'x) runtime"
  pt_insert_mode :: "('i, 'w, 'ev, 'x) runtime \<Rightarrow> bool"
  pt_any_panel_open :: "('i, 'w, 'ev, 'x) runtime \<Rightarrow> bool"
  pt_cursor_style :: "('i, 'w, 'ev, 'x) runtime \<Rightarrow> cursor_style"

section \<open>Draining the work queue\<close>

record work_drain_report =
  dr_drained_count :: nat
  dr_drained_by_kind :: kind_counts
  dr_drained_invocations :: nat
  dr_applied_overlay_commits :: nat
  dr_drained_workspace_edits :: nat
  dr_should_quit :: bool

definition drain_report_default :: work_drain_report where
  "drain_report_default =
     \<lparr> dr_drained_count = 0, dr_drained_by_kind = counts_default, dr_drained_invocations = 0,
       dr_applied_overlay_commits = 0, dr_drained_workspace_edits = 0, dr_should_quit = False \<rparr>"

definition is_nu_pipeline :: "work_source \<Rightarrow> bool" where
  "is_nu_pipeline source \<longleftrightarrow> source = NuHookDispatch \<or> source = NuScheduledMacro"

text \<open>
  One iteration after the item was taken: the work itself, whether the loop ends, and whether the iteration
  reaches the statements that restore the previous cause.
\<close>

definition run_queued_invocation ::
  "('i, 'w, 'ev, 'x) ports \<Rightarrow> 'i queued_invocation \<Rightarrow> ('i, 'w, 'ev, 'x) runtime \<Rightarrow> bool \<times> ('i, 'w, 'ev, 'x) runtime" where
  "run_queued_invocation P queued s =
     (let nu = is_nu_pipeline (qi_source queued);
          s = (if nu then s\<lparr> rt_hook_depth := min (rt_hook_depth s + 1) 255 \<rparr> else s);
          (status, s) = pt_run_invocation P (qi_invocation queued) (invocation_policy_of (qi_execution queued)) s;
          s = (if nu then s\<lparr> rt_hook_depth := rt_hook_depth s - 1 \<rparr> else s)
      in if nu then (status = Quit \<or> status = ForceQuit, s)
         else case status of
             NotFound \<Rightarrow>
               (False, case pt_command_name P (qi_invocation queued) of
                  Some name \<Rightarrow> pt_notify_unknown_command P name s | None \<Rightarrow> s)
           | Quit \<Rightarrow> (True, s)
           | ForceQuit \<Rightarrow> (True, s)
           | _ \<Rightarrow> (False, s))"

definition run_workspace_edit ::
  "('i, 'w, 'ev, 'x) ports \<Rightarrow> nat \<Rightarrow> 'w \<Rightarrow> ('i, 'w, 'ev, 'x) runtime \<Rightarrow> bool \<times> ('i, 'w, 'ev, 'x) runtime" where
  "run_workspace_edit P seq edit s =
     (let (reply, q) = take_apply_edit_reply seq (rt_work s);
          s = s\<lparr> rt_work := q \<rparr>;
          stale = (case reply of None \<Rightarrow> False | Some (tx, deadline) \<Rightarrow> pt_reply_closed P tx s \<or> deadline < pt_now P s)
      in if stale then
           (True, case reply of
              Some (tx, _) \<Rightarrow> s\<lparr> rt_work := answer tx (rejected ''deadline expired'') (rt_work s) \<rparr>
            | None \<Rightarrow> s)
         else
           let (result, s) = pt_apply_workspace_edit P edit s;
               s = (case result of None \<Rightarrow> s | Some err \<Rightarrow> pt_notify_error P (ef_message err) s);
               outcome = (case result of
                   None \<Rightarrow> \<lparr> ae_applied = True, ae_failure_reason = None, ae_failed_change = None \<rparr>
                 | Some err \<Rightarrow> \<lparr> ae_applied = False, ae_failure_reason = Some (ef_message err), ae_failed_change = ef_failed_change err \<rparr>);
               s = s\<lparr> rt_needs_redraw := True \<rparr>
           in (False, case reply of
                Some (tx, _) \<Rightarrow> s\<lparr> rt_work := answer tx outcome (rt_work s) \<rparr>
              | None \<Rightarrow> s))"

fun drain_runtime_work ::
  "('i, 'w, 'ev, 'x) ports \<Rightarrow> nat \<Rightarrow> work_drain_report \<Rightarrow> ('i, 'w, 'ev, 'x) runtime \<Rightarrow>
   work_drain_report \<times> ('i, 'w, 'ev, 'x) runtime" where
  "drain_runtime_work P 0 report s = (report, s)"
| "drain_runtime_work P (Suc n) report s =
     (case wq_pop_front (rt_work s) of
        (None, _) \<Rightarrow> (report, s)
      | (Some item, q) \<Rightarrow>
          let s = s\<lparr> rt_work := q \<rparr>;
              report = report\<lparr> dr_drained_count := dr_drained_count report + 1,
                dr_drained_by_kind := add_kind (wi_kind_tag item) (dr_drained_by_kind report) \<rparr>;
              previous_cause = rt_active_cause s;
              s = s\<lparr> rt_active_cause := wi_cause_id item \<rparr>
          in (case wi_kind item of
                WorkInvocation queued \<Rightarrow>
                  let report = report\<lparr> dr_drained_invocations := dr_drained_invocations report + 1 \<rparr>;
                      (quit, s) = run_queued_invocation P queued s;
                      s = s\<lparr> rt_active_cause := previous_cause \<rparr>
                  in if quit then (report\<lparr> dr_should_quit := True \<rparr>, s) else drain_runtime_work P n report s
              | WorkOverlayCommit \<Rightarrow>
                  let s = pt_apply_overlay_commit P s;
                      report = report\<lparr> dr_applied_overlay_commits := dr_applied_overlay_commits report + 1 \<rparr>
                  in drain_runtime_work P n report (s\<lparr> rt_active_cause := previous_cause \<rparr>)
              | WorkWorkspaceEdit edit \<Rightarrow>
                  let (skipped, s) = run_workspace_edit P (wi_seq item) edit s;
                      report = report\<lparr> dr_drained_workspace_edits := dr_drained_workspace_edits report + 1 \<rparr>
                  in drain_runtime_work P n report (if skipped then s else s\<lparr> rt_active_cause := previous_cause \<rparr>)))"

definition drain_runtime_work_report ::
  "('i, 'w, 'ev, 'x) ports \<Rightarrow> nat \<Rightarrow> ('i, 'w, 'ev, 'x) runtime \<Rightarrow> work_drain_report \<times> ('i, 'w, 'ev, 'x) runtime" where
  "drain_runtime_work_report P limit s = drain_runtime_work P limit drain_report_default s"

section \<open>The maintenance pump\<close>

definition MAX_PUMP_ROUNDS :: nat where
  "MAX_PUMP_ROUNDS = 3"

definition MAX_RUNTIME_WORK_ITEMS_PER_ROUND :: nat where
  "MAX_RUNTIME_WORK_ITEMS_PER_ROUND = 32"

datatype pump_phase = UiTickAndTick | FilesystemEvents | DrainMessages | KickNuHookEval | DrainScheduler | DrainRuntimeWork

datatype drain_exit_reason = Idle | RoundCap | ExitQuit | BudgetCap

record queue_depth_snapshot =
  qs_round_idx :: nat
  qs_phase :: pump_phase
  qs_event_queue_depth :: nat
  qs_work_queue_depth :: nat

record round_work =
  rw_filesystem_events :: nat
  rw_drained_messages :: nat
  rw_scheduler_completions :: nat
  rw_drained_runtime_work :: nat

definition made_progress :: "round_work \<Rightarrow> bool" where
  "made_progress w \<longleftrightarrow> 0 < rw_filesystem_events w \<or> 0 < rw_drained_messages w \<or>
     0 < rw_scheduler_completions w \<or> 0 < rw_drained_runtime_work w"

record round_report =
  rr_phases :: "pump_phase list"
  rr_phase_queue_depths :: "queue_depth_snapshot list"
  rr_work :: round_work
  rr_drained_work_by_kind :: kind_counts

record pump_report =
  pr_rounds_executed :: nat
  pr_reached_round_cap :: bool
  pr_should_quit :: bool
  pr_exit_reason :: drain_exit_reason
  pr_rounds :: "round_report list"
  pr_phase_queue_depths :: "queue_depth_snapshot list"
  pr_drained_work_by_kind :: kind_counts

definition pump_report_default :: pump_report where
  "pump_report_default =
     \<lparr> pr_rounds_executed = 0, pr_reached_round_cap = False, pr_should_quit = False, pr_exit_reason = Idle,
       pr_rounds = [], pr_phase_queue_depths = [], pr_drained_work_by_kind = counts_default \<rparr>"

definition phase_snapshot :: "nat \<Rightarrow> pump_phase \<Rightarrow> ('i, 'w, 'ev, 'x) runtime \<Rightarrow> queue_depth_snapshot" where
  "phase_snapshot idx phase s =
     \<lparr> qs_round_idx = idx, qs_phase = phase, qs_event_queue_depth = length (frontend_events (rt_kernel s)),
       qs_work_queue_depth = length (wq_queue (rt_work s)) \<rparr>"

definition phase_filesystem_events :: "('i, 'w, 'ev, 'x) ports \<Rightarrow> ('i, 'w, 'ev, 'x) runtime \<Rightarrow> nat \<times> ('i, 'w, 'ev, 'x) runtime" where
  "phase_filesystem_events P s =
     (let (n, s) = pt_drain_filesystem_events P s
      in (n, if 0 < n then (pt_refresh_file_picker P s)\<lparr> rt_needs_redraw := True \<rparr> else s))"

definition phase_drain_messages :: "('i, 'w, 'ev, 'x) ports \<Rightarrow> ('i, 'w, 'ev, 'x) runtime \<Rightarrow> nat \<times> ('i, 'w, 'ev, 'x) runtime" where
  "phase_drain_messages P s =
     (let ((n, dirty), s) = pt_drain_messages P s
      in (n, if dirty then s\<lparr> rt_needs_redraw := True \<rparr> else s))"

text \<open>One round: the six phases in order, with a snapshot of the queue depths after each.\<close>

definition pump_round ::
  "('i, 'w, 'ev, 'x) ports \<Rightarrow> nat \<Rightarrow> ('i, 'w, 'ev, 'x) runtime \<Rightarrow> round_report \<times> bool \<times> ('i, 'w, 'ev, 'x) runtime" where
  "pump_round P idx s =
     (let s1 = pt_ui_tick_and_tick P s;
          (fs, s2) = phase_filesystem_events P s1;
          (msgs, s3) = phase_drain_messages P s2;
          s4 = pt_kick_nu_hook_eval P s3;
          (completed, s5) = pt_drain_scheduler P s4;
          (work, s6) = drain_runtime_work_report P MAX_RUNTIME_WORK_ITEMS_PER_ROUND s5;
          (requested, s7) = (if dr_should_quit work then (False, s6) else pt_take_quit_request P s6)
      in (\<lparr> rr_phases = [UiTickAndTick, FilesystemEvents, DrainMessages, KickNuHookEval, DrainScheduler, DrainRuntimeWork],
           rr_phase_queue_depths =
             [phase_snapshot idx UiTickAndTick s1, phase_snapshot idx FilesystemEvents s2, phase_snapshot idx DrainMessages s3,
              phase_snapshot idx KickNuHookEval s4, phase_snapshot idx DrainScheduler s5, phase_snapshot idx DrainRuntimeWork s6],
           rr_work = \<lparr> rw_filesystem_events = fs, rw_drained_messages = msgs, rw_scheduler_completions = completed,
                       rw_drained_runtime_work = dr_drained_count work \<rparr>,
           rr_drained_work_by_kind = dr_drained_by_kind work \<rparr>,
          dr_should_quit work \<or> requested, s7))"

text \<open>The loop over the rounds that are left, starting with round \<open>idx\<close>.\<close>

fun pump_rounds ::
  "('i, 'w, 'ev, 'x) ports \<Rightarrow> nat \<Rightarrow> nat \<Rightarrow> pump_report \<Rightarrow> ('i, 'w, 'ev, 'x) runtime \<Rightarrow> pump_report \<times> ('i, 'w, 'ev, 'x) runtime" where
  "pump_rounds P 0 idx report s = (report, s)"
| "pump_rounds P (Suc n) idx report s =
     (let (round, quit, s) = pump_round P idx s;
          report = report\<lparr> pr_rounds_executed := pr_rounds_executed report + 1,
            pr_phase_queue_depths := pr_phase_queue_depths report @ rr_phase_queue_depths round,
            pr_drained_work_by_kind := add_from (rr_drained_work_by_kind round) (pr_drained_work_by_kind report),
            pr_rounds := pr_rounds report @ [round] \<rparr>
      in if quit then (report\<lparr> pr_should_quit := True, pr_exit_reason := ExitQuit \<rparr>, s)
         else
           let progress = made_progress (rr_work round);
               last_round = (idx + 1 = MAX_PUMP_ROUNDS);
               report = (if progress \<and> last_round then report\<lparr> pr_reached_round_cap := True, pr_exit_reason := RoundCap \<rparr> else report)
           in if \<not> progress \<or> last_round then
                (if \<not> last_round \<and> \<not> progress then report\<lparr> pr_exit_reason := Idle \<rparr> else report, s)
              else pump_rounds P n (idx + 1) report s)"

record loop_directive =
  ld_poll_timeout :: "nat option"
  ld_needs_redraw :: bool
  ld_cursor_style :: cursor_style
  ld_should_quit :: bool

definition finalize_loop_directive :: "('i, 'w, 'ev, 'x) ports \<Rightarrow> bool \<Rightarrow> ('i, 'w, 'ev, 'x) runtime \<Rightarrow> loop_directive" where
  "finalize_loop_directive P should_quit s =
     (if should_quit then
        \<lparr> ld_poll_timeout = None, ld_needs_redraw = True, ld_cursor_style = pt_cursor_style P s, ld_should_quit = True \<rparr>
      else
        \<lparr> ld_poll_timeout = Some (if pt_insert_mode P s \<or> pt_any_panel_open P s \<or> rt_needs_redraw s then 16 else 50),
          ld_needs_redraw = rt_needs_redraw s, ld_cursor_style = pt_cursor_style P s, ld_should_quit = False \<rparr>)"

definition run_pump_cycle_with_report ::
  "('i, 'w, 'ev, 'x) ports \<Rightarrow> ('i, 'w, 'ev, 'x) runtime \<Rightarrow> (loop_directive \<times> pump_report) \<times> ('i, 'w, 'ev, 'x) runtime" where
  "run_pump_cycle_with_report P s =
     (let (report, s) = pump_rounds P MAX_PUMP_ROUNDS 0 pump_report_default s
      in ((finalize_loop_directive P (pr_should_quit report) s, report), s))"

section \<open>The coordinator\<close>

record drain_policy =
  dp_max_frontend_events :: nat
  dp_max_events_per_source :: nat
  dp_max_directives :: nat
  dp_run_idle_maintenance :: bool


definition policy_for_pump :: drain_policy where
  "policy_for_pump = \<lparr> dp_max_frontend_events = 0, dp_max_events_per_source = 0, dp_max_directives = 1, dp_run_idle_maintenance = True \<rparr>"

definition policy_default :: drain_policy where
  "policy_default = \<lparr> dp_max_frontend_events = 64, dp_max_events_per_source = 64, dp_max_directives = 64, dp_run_idle_maintenance = True \<rparr>"

record drain_stats =
  ds_rounds_executed :: nat
  ds_final_event_queue_depth :: nat
  ds_final_work_queue_depth :: nat
  ds_phase_queue_depths :: "queue_depth_snapshot list"
  ds_drained_work_by_kind :: kind_counts
  ds_round_exit_reasons :: "drain_exit_reason list"

record drain_report =
  rp_handled_frontend_events :: nat
  rp_directives_emitted :: nat
  rp_reached_budget_cap :: bool
  rp_last_directive :: "directive option"
  rp_runtime_stats :: drain_stats

definition report_default :: drain_report where
  "report_default =
     \<lparr> rp_handled_frontend_events = 0, rp_directives_emitted = 0, rp_reached_budget_cap = False, rp_last_directive = None,
       rp_runtime_stats = \<lparr> ds_rounds_executed = 0, ds_final_event_queue_depth = 0, ds_final_work_queue_depth = 0,
         ds_phase_queue_depths = [], ds_drained_work_by_kind = counts_default, ds_round_exit_reasons = [] \<rparr> \<rparr>"

definition submit_event_from_source ::
  "('i, 'w, 'ev, 'x) ports \<Rightarrow> 'ev \<Rightarrow> event_source \<Rightarrow> ('i, 'w, 'ev, 'x) runtime \<Rightarrow> nat \<times> ('i, 'w, 'ev, 'x) runtime" where
  "submit_event_from_source P ev source s =
     (let ((seq, _), k) = enqueue_frontend (pt_now P s) ev source (rt_kernel s) in (seq, s\<lparr> rt_kernel := k \<rparr>))"

definition to_v2_directive ::
  "loop_directive \<Rightarrow> nat option \<Rightarrow> nat option \<Rightarrow> nat \<Rightarrow> ('i, 'w, 'ev, 'x) runtime \<Rightarrow> directive" where
  "to_v2_directive d cause_seq cause_id drained s =
     \<lparr> dv_poll_timeout = ld_poll_timeout d, dv_needs_redraw = ld_needs_redraw d, dv_cursor_style = ld_cursor_style d,
       dv_should_quit = ld_should_quit d, dv_cause_seq = cause_seq, dv_cause_id = cause_id, dv_drained_runtime_work = drained,
       dv_pending_events = length (frontend_events (rt_kernel s)) \<rparr>"

text \<open>The local variables of the loop in \<open>drain_until_idle_inner\<close>.\<close>

record drain_locals =
  dl_report :: drain_report
  dl_source_drained :: "event_source \<Rightarrow> nat"
  dl_backpressure_blocked :: bool
  dl_remaining_frontend :: nat
  dl_idle_maintenance_ran :: bool

text \<open>The first part of an iteration: take and apply the front event unless the budgets forbid it.\<close>

definition take_event ::
  "('i, 'w, 'ev, 'x) ports \<Rightarrow> drain_policy \<Rightarrow> drain_locals \<Rightarrow> ('i, 'w, 'ev, 'x) runtime \<Rightarrow>
   'ev event_envelope option \<times> drain_locals \<times> ('i, 'w, 'ev, 'x) runtime" where
  "take_event P policy v s =
     (if dl_remaining_frontend v = 0 then (None, v, s)
      else case peek_frontend (rt_kernel s) of
          None \<Rightarrow> (None, v, s)
        | Some front \<Rightarrow>
            let source = env_source front in
            if dl_source_drained v source < dp_max_events_per_source policy then
              (case pop_frontend (rt_kernel s) of
                 (None, k) \<Rightarrow> (None, v, s\<lparr> rt_kernel := k \<rparr>)
               | (Some env, k) \<Rightarrow>
                   let v = v\<lparr> dl_remaining_frontend := dl_remaining_frontend v - 1,
                         dl_source_drained := (dl_source_drained v)(source := saturating_add64 (dl_source_drained v source) 1),
                         dl_report := (dl_report v)\<lparr> rp_handled_frontend_events :=
                           saturating_add64 (rp_handled_frontend_events (dl_report v)) 1 \<rparr> \<rparr>;
                       s = s\<lparr> rt_kernel := k, rt_active_cause := Some (env_cause_id env) \<rparr>
                   in (Some env, v, pt_apply_event P (env_event env) s))
            else (None, v\<lparr> dl_backpressure_blocked := True \<rparr>, s))"

definition note_cycle :: "pump_report \<Rightarrow> directive \<Rightarrow> drain_report \<Rightarrow> drain_report" where
  "note_cycle cycle d report =
     report\<lparr> rp_runtime_stats := (rp_runtime_stats report)\<lparr>
         ds_rounds_executed := saturating_add64 (ds_rounds_executed (rp_runtime_stats report)) (pr_rounds_executed cycle),
         ds_phase_queue_depths := ds_phase_queue_depths (rp_runtime_stats report) @ pr_phase_queue_depths cycle,
         ds_drained_work_by_kind := add_from (pr_drained_work_by_kind cycle) (ds_drained_work_by_kind (rp_runtime_stats report)),
         ds_round_exit_reasons := ds_round_exit_reasons (rp_runtime_stats report) @ [pr_exit_reason cycle] \<rparr>,
       rp_directives_emitted := saturating_add64 (rp_directives_emitted report) 1,
       rp_last_directive := Some d \<rparr>"

fun drain_loop ::
  "('i, 'w, 'ev, 'x) ports \<Rightarrow> drain_policy \<Rightarrow> bool \<Rightarrow> nat \<Rightarrow> drain_locals \<Rightarrow> ('i, 'w, 'ev, 'x) runtime \<Rightarrow>
   drain_locals \<times> ('i, 'w, 'ev, 'x) runtime" where
  "drain_loop P policy publish 0 v s = (v, s)"
| "drain_loop P policy publish (Suc n) v s =
     (let (taken, v, s) = take_event P policy v s;
          s = (if taken = None then s\<lparr> rt_active_cause := None \<rparr> else s)
      in if taken = None \<and> (\<not> dp_run_idle_maintenance policy \<or> dl_idle_maintenance_ran v) then (v, s)
         else
           let v = (if taken = None then v\<lparr> dl_idle_maintenance_ran := True \<rparr> else v);
               ((d, cycle), s) = run_pump_cycle_with_report P s;
               s = s\<lparr> rt_active_cause := None \<rparr>;
               drained = sum_list (map (\<lambda>round. rw_drained_runtime_work (rr_work round)) (pr_rounds cycle));
               d2 = to_v2_directive d (map_option env_seq taken) (map_option env_cause_id taken) drained s;
               s = (if publish then s\<lparr> rt_kernel := push_directive d2 (rt_kernel s) \<rparr> else s);
               v = v\<lparr> dl_report := note_cycle cycle d2 (dl_report v) \<rparr>
           in if ld_should_quit d then (v, s) else drain_loop P policy publish n v s)"

definition finish_drain :: "drain_policy \<Rightarrow> drain_locals \<Rightarrow> ('i, 'w, 'ev, 'x) runtime \<Rightarrow> drain_report" where
  "finish_drain policy v s =
     (let pending = length (frontend_events (rt_kernel s));
          report = dl_report v;
          report = (if 0 < pending \<and> (dp_max_directives policy \<le> rp_directives_emitted report \<or>
                        dl_remaining_frontend v = 0 \<or> dl_backpressure_blocked v)
            then report\<lparr> rp_reached_budget_cap := True, rp_runtime_stats := (rp_runtime_stats report)\<lparr>
              ds_round_exit_reasons := ds_round_exit_reasons (rp_runtime_stats report) @ [BudgetCap] \<rparr> \<rparr>
            else report)
      in report\<lparr> rp_runtime_stats := (rp_runtime_stats report)\<lparr> ds_final_event_queue_depth := pending,
           ds_final_work_queue_depth := length (wq_queue (rt_work s)) \<rparr> \<rparr>)"

definition drain_until_idle_inner ::
  "('i, 'w, 'ev, 'x) ports \<Rightarrow> drain_policy \<Rightarrow> bool \<Rightarrow> ('i, 'w, 'ev, 'x) runtime \<Rightarrow> drain_report \<times> ('i, 'w, 'ev, 'x) runtime" where
  "drain_until_idle_inner P policy publish s =
     (if dp_max_directives policy = 0 then
        (report_default\<lparr> rp_reached_budget_cap := True, rp_runtime_stats := (rp_runtime_stats report_default)\<lparr>
           ds_final_event_queue_depth := length (frontend_events (rt_kernel s)),
           ds_final_work_queue_depth := length (wq_queue (rt_work s)), ds_round_exit_reasons := [BudgetCap] \<rparr> \<rparr>, s)
      else
        let (v, s) = drain_loop P policy publish (dp_max_directives policy)
              \<lparr> dl_report = report_default, dl_source_drained = (\<lambda>_. 0), dl_backpressure_blocked = False,
                dl_remaining_frontend = dp_max_frontend_events policy, dl_idle_maintenance_ran = False \<rparr> s
        in (finish_drain policy v s, s))"

definition drain_until_idle ::
  "('i, 'w, 'ev, 'x) ports \<Rightarrow> drain_policy \<Rightarrow> ('i, 'w, 'ev, 'x) runtime \<Rightarrow> drain_report \<times> ('i, 'w, 'ev, 'x) runtime" where
  "drain_until_idle P policy s = drain_until_idle_inner P policy True s"

definition poll_directive :: "('i, 'w, 'ev, 'x) runtime \<Rightarrow> directive option \<times> ('i, 'w, 'ev, 'x) runtime" where
  "poll_directive s = (let (d, k) = pop_directive (rt_kernel s) in (d, s\<lparr> rt_kernel := k \<rparr>))"

section \<open>Specification predicates\<close>

text \<open>
  The queue is in order of submission and every reply sender it holds belongs to a queued workspace edit.
\<close>

definition wq_ok :: "('i, 'w) work_queue \<Rightarrow> bool" where
  "wq_ok q \<longleftrightarrow> sorted_wrt (<) (map wi_seq (wq_queue q)) \<and> (\<forall>item \<in> set (wq_queue q). wi_seq item < wq_seq_next q) \<and>
     wq_seq_next q < 2 ^ 64 \<and> dom (apply_edit_replies q) \<subseteq> wi_seq ` set (filter is_workspace_edit (wq_queue q))"

text \<open>The reply senders that wait for the work in a list of items.\<close>

definition pending_txs :: "('i, 'w) work_queue \<Rightarrow> nat list" where
  "pending_txs q = List.map_filter (\<lambda>item. map_option fst (apply_edit_replies q (wi_seq item))) (wq_queue q)"

text \<open>
  Every sender ever handed over has been answered once or is still waiting, apart from those in flight.
\<close>

definition replies_balanced :: "nat multiset \<Rightarrow> ('i, 'w) work_queue \<Rightarrow> bool" where
  "replies_balanced flight q \<longleftrightarrow>
     mset (wq_registered q) = mset (map fst (wq_answers q)) + mset (pending_txs q) + flight"

text \<open>What the rest of the editor does to the queue.\<close>

inductive wq_step :: "('i, 'w) work_queue \<Rightarrow> ('i, 'w) work_queue \<Rightarrow> bool" where
  step_enqueue: "wq_seq_next q + 1 < 2 ^ 64 \<Longrightarrow> wq_step q (snd (enqueue_with_cause now kind scope cause q))"
| step_enqueue_edit: "wq_seq_next q + 1 < 2 ^ 64 \<Longrightarrow> wq_step q (snd (enqueue_workspace_edit_with_cause now edit reply cause q))"
| step_remove_scope: "wq_step q (snd (remove_scope scope q))"

definition port_step :: "('i, 'w, 'ev, 'x) runtime \<Rightarrow> ('i, 'w, 'ev, 'x) runtime \<Rightarrow> bool" where
  "port_step s s' \<longleftrightarrow> wq_step\<^sup>*\<^sup>* (rt_work s) (rt_work s') \<and>
     (\<exists>new. frontend_events (rt_kernel s') = frontend_events (rt_kernel s) @ new) \<and>
     kn_directives (rt_kernel s') = kn_directives (rt_kernel s) \<and>
     rt_active_cause s' = rt_active_cause s \<and> rt_hook_depth s' = rt_hook_depth s"

definition ports_ok :: "('i, 'w, 'ev, 'x) ports \<Rightarrow> bool" where
  "ports_ok P \<longleftrightarrow> (\<forall>s.
     (\<forall>i policy. port_step s (snd (pt_run_invocation P i policy s))) \<and>
     (\<forall>name. port_step s (pt_notify_unknown_command P name s)) \<and>
     port_step s (pt_apply_overlay_commit P s) \<and>
     (\<forall>edit. port_step s (snd (pt_apply_workspace_edit P edit s))) \<and>
     (\<forall>msg. port_step s (pt_notify_error P msg s)) \<and>
     port_step s (pt_ui_tick_and_tick P s) \<and>
     port_step s (snd (pt_drain_filesystem_events P s)) \<and>
     port_step s (pt_refresh_file_picker P s) \<and>
     port_step s (snd (pt_drain_messages P s)) \<and>
     port_step s (pt_kick_nu_hook_eval P s) \<and>
     port_step s (snd (pt_drain_scheduler P s)) \<and>
     port_step s (snd (pt_take_quit_request P s)) \<and> rt_work (snd (pt_take_quit_request P s)) = rt_work s \<and>
     (\<forall>ev. port_step s (pt_apply_event P ev s)))"

definition rt_ok :: "nat multiset \<Rightarrow> ('i, 'w, 'ev, 'x) runtime \<Rightarrow> bool" where
  "rt_ok flight s \<longleftrightarrow> wq_ok (rt_work s) \<and> replies_balanced flight (rt_work s)"

text \<open>What every step of the runtime keeps: events are only appended, the queue stays sound, replies stay balanced.\<close>

definition rt_keeps :: "('i, 'w, 'ev, 'x) runtime \<Rightarrow> ('i, 'w, 'ev, 'x) runtime \<Rightarrow> bool" where
  "rt_keeps s s' \<longleftrightarrow> (\<exists>new. frontend_events (rt_kernel s') = frontend_events (rt_kernel s) @ new) \<and>
     kn_directives (rt_kernel s') = kn_directives (rt_kernel s) \<and> rt_hook_depth s' = rt_hook_depth s \<and>
     (\<forall>flight. rt_ok flight s \<longrightarrow> rt_ok flight s')"

text \<open>An edit that is applied runs two ports; one that is skipped runs none.\<close>

definition after_edit :: "('i, 'w, 'ev, 'x) ports \<Rightarrow> 'w \<Rightarrow> ('i, 'w, 'ev, 'x) runtime \<Rightarrow> ('i, 'w, 'ev, 'x) runtime" where
  "after_edit P edit s =
     (let (result, s) = pt_apply_workspace_edit P edit s
      in (case result of None \<Rightarrow> s | Some err \<Rightarrow> pt_notify_error P (ef_message err) s)\<lparr> rt_needs_redraw := True \<rparr>)"

text \<open>One item of the drain as a step: whether it asks to quit, and the state after it.\<close>

definition drain_item ::
  "('i, 'w, 'ev, 'x) ports \<Rightarrow> ('i, 'w) work_item \<Rightarrow> ('i, 'w, 'ev, 'x) runtime \<Rightarrow> bool \<times> ('i, 'w, 'ev, 'x) runtime" where
  "drain_item P item s =
     (let cause = rt_active_cause s;
          s = s\<lparr> rt_work := (rt_work s)\<lparr> wq_queue := tl (wq_queue (rt_work s)) \<rparr>, rt_active_cause := wi_cause_id item \<rparr>
      in case wi_kind item of
           WorkInvocation queued \<Rightarrow> let (quit, s) = run_queued_invocation P queued s in (quit, s\<lparr> rt_active_cause := cause \<rparr>)
         | WorkOverlayCommit \<Rightarrow> (False, (pt_apply_overlay_commit P s)\<lparr> rt_active_cause := cause \<rparr>)
         | WorkWorkspaceEdit edit \<Rightarrow>
             let (skipped, s) = run_workspace_edit P (wi_seq item) edit s
             in (False, if skipped then s else s\<lparr> rt_active_cause := cause \<rparr>))"

fun drain_note :: "('i, 'w) work_item \<Rightarrow> work_drain_report \<Rightarrow> work_drain_report" where
  "drain_note item report =
     (let report = report\<lparr> dr_drained_count := dr_drained_count report + 1,
            dr_drained_by_kind := add_kind (wi_kind_tag item) (dr_drained_by_kind report) \<rparr>
      in case wi_kind item of
           WorkInvocation _ \<Rightarrow> report\<lparr> dr_drained_invocations := dr_drained_invocations report + 1 \<rparr>
         | WorkOverlayCommit \<Rightarrow> report\<lparr> dr_applied_overlay_commits := dr_applied_overlay_commits report + 1 \<rparr>
         | WorkWorkspaceEdit _ \<Rightarrow> report\<lparr> dr_drained_workspace_edits := dr_drained_workspace_edits report + 1 \<rparr>)"

text \<open>
  From one point of the coordinator loop to a later one: \<open>k\<close> events taken from the front of what was queued and
  what came in meanwhile, \<open>m\<close> directives emitted, and the queue sound and its replies balanced as before.
\<close>

definition drain_advance ::
  "bool \<Rightarrow> nat \<Rightarrow> nat \<Rightarrow> drain_locals \<Rightarrow> ('i, 'w, 'ev, 'x) runtime \<Rightarrow> drain_locals \<Rightarrow> ('i, 'w, 'ev, 'x) runtime \<Rightarrow> bool" where
  "drain_advance publish k m v s v' s' \<longleftrightarrow>
     (\<exists>new. k \<le> length (frontend_events (rt_kernel s) @ new) \<and>
        frontend_events (rt_kernel s') = drop k (frontend_events (rt_kernel s) @ new)) \<and>
     rp_handled_frontend_events (dl_report v') = rp_handled_frontend_events (dl_report v) + k \<and>
     dl_remaining_frontend v = dl_remaining_frontend v' + k \<and>
     rp_directives_emitted (dl_report v') = rp_directives_emitted (dl_report v) + m \<and>
     (\<exists>ds. kn_directives (rt_kernel s') = kn_directives (rt_kernel s) @ ds \<and> length ds = (if publish then m else 0)) \<and>
     rt_hook_depth s' = rt_hook_depth s \<and> (\<forall>flight. rt_ok flight s \<longrightarrow> rt_ok flight s')"

definition asked_to_quit :: "drain_report \<Rightarrow> bool" where
  "asked_to_quit report \<longleftrightarrow> (case rp_last_directive report of None \<Rightarrow> False | Some d \<Rightarrow> dv_should_quit d)"

text \<open>The rest of an iteration: one pump cycle and the directive it gives.\<close>

definition drain_cycle ::
  "('i, 'w, 'ev, 'x) ports \<Rightarrow> bool \<Rightarrow> 'ev event_envelope option \<Rightarrow> drain_locals \<Rightarrow> ('i, 'w, 'ev, 'x) runtime \<Rightarrow>
   bool \<times> drain_locals \<times> ('i, 'w, 'ev, 'x) runtime" where
  "drain_cycle P publish taken v s =
     (let ((d, cycle), s) = run_pump_cycle_with_report P s;
          s = s\<lparr> rt_active_cause := None \<rparr>;
          drained = sum_list (map (\<lambda>round. rw_drained_runtime_work (rr_work round)) (pr_rounds cycle));
          d2 = to_v2_directive d (map_option env_seq taken) (map_option env_cause_id taken) drained s;
          s = (if publish then s\<lparr> rt_kernel := push_directive d2 (rt_kernel s) \<rparr> else s)
      in (ld_should_quit d, v\<lparr> dl_report := note_cycle cycle d2 (dl_report v) \<rparr>, s))"


text \<open>The budgets of a policy are machine words.\<close>

definition policy_ok :: "drain_policy \<Rightarrow> bool" where
  "policy_ok policy \<longleftrightarrow> dp_max_frontend_events policy \<le> u64_max \<and> dp_max_directives policy \<le> u64_max"


definition drain_outcome :: "drain_policy \<Rightarrow> ('i, 'w, 'ev, 'x) runtime \<Rightarrow> drain_report \<Rightarrow> ('i, 'w, 'ev, 'x) runtime \<Rightarrow> bool" where
  "drain_outcome policy s report s' \<longleftrightarrow>
     (\<exists>new. rp_handled_frontend_events report \<le> length (frontend_events (rt_kernel s) @ new) \<and>
        frontend_events (rt_kernel s') = drop (rp_handled_frontend_events report) (frontend_events (rt_kernel s) @ new)) \<and>
     rp_handled_frontend_events report \<le> dp_max_frontend_events policy \<and>
     rp_directives_emitted report \<le> dp_max_directives policy \<and>
     length (kn_directives (rt_kernel s')) = length (kn_directives (rt_kernel s)) + rp_directives_emitted report \<and>
     (\<not> rp_reached_budget_cap report \<and> \<not> asked_to_quit report \<longrightarrow> frontend_events (rt_kernel s') = []) \<and>
     ds_final_event_queue_depth (rp_runtime_stats report) = length (frontend_events (rt_kernel s')) \<and>
     rt_hook_depth s' = rt_hook_depth s \<and> (\<forall>flight. rt_ok flight s \<longrightarrow> rt_ok flight s')"

text \<open>
  Ports over a small editor: invocation \<open>0\<close> quits, invocation \<open>1\<close> is not found, any other queues an overlay
  commit; workspace edit \<open>0\<close> fails; event \<open>n\<close> queues invocation \<open>n\<close>; clocks stand still.
\<close>

definition sample_ports :: "(nat, nat, nat, unit) ports" where
  "sample_ports =
     \<lparr> pt_now = (\<lambda>_. 5), pt_reply_closed = (\<lambda>_ _. False),
       pt_run_invocation = (\<lambda>i _ s. if i = 0 then (Quit, s) else if i = 1 then (NotFound, s)
         else (StatusOk, if wq_seq_next (rt_work s) < 1000
           then s\<lparr> rt_work := snd (enqueue_with_cause 5 WorkOverlayCommit GlobalScope (rt_active_cause s) (rt_work s)) \<rparr> else s)),
       pt_command_name = (\<lambda>_. None), pt_notify_unknown_command = (\<lambda>_ s. s), pt_apply_overlay_commit = (\<lambda>s. s),
       pt_apply_workspace_edit = (\<lambda>edit s. (if edit = 0 then Some \<lparr> ef_message = [], ef_failed_change = Some 0 \<rparr> else None, s)),
       pt_notify_error = (\<lambda>_ s. s), pt_ui_tick_and_tick = (\<lambda>s. s), pt_drain_filesystem_events = (\<lambda>s. (0, s)),
       pt_refresh_file_picker = (\<lambda>s. s), pt_drain_messages = (\<lambda>s. ((0, False), s)), pt_kick_nu_hook_eval = (\<lambda>s. s),
       pt_drain_scheduler = (\<lambda>s. (0, s)), pt_take_quit_request = (\<lambda>s. (False, s)),
       pt_apply_event = (\<lambda>ev s. if wq_seq_next (rt_work s) < 1000
         then s\<lparr> rt_work := snd (enqueue_with_cause 5
           (WorkInvocation \<lparr> qi_invocation = ev, qi_source = ActionEffect, qi_execution = LogOnlyCommandPath \<rparr>)
           GlobalScope (rt_active_cause s) (rt_work s)) \<rparr> else s),
       pt_insert_mode = (\<lambda>_. False), pt_any_panel_open = (\<lambda>_. False), pt_cursor_style = (\<lambda>_. Block) \<rparr>"

definition sample_queue :: "(nat, nat) work_queue" where
  "sample_queue = snd (enqueue_workspace_edit_with_cause 3 0 (Some (7, 9)) None
     (snd (enqueue_overlay_commit_with_cause 1 (Some 4) wq_default)))"

definition sample_runtime :: "(nat, nat) work_queue \<Rightarrow> nat event_envelope list \<Rightarrow> (nat, nat, nat, unit) runtime" where
  "sample_runtime q events =
     \<lparr> rt_kernel = \<lparr> kn_seq_next = length events, kn_cause_next = length events + 1, frontend_events = events, kn_directives = [] \<rparr>,
       rt_work = q, rt_active_cause = None, rt_hook_depth = 0, rt_needs_redraw = False, rt_rest = () \<rparr>"

section \<open>Lemmas\<close>

subsection \<open>The work queue\<close>

lemma wq_ok_default: "wq_ok wq_default" "replies_balanced {#} wq_default"
  by (simp_all add: wq_ok_def wq_default_def replies_balanced_def pending_txs_def map_filter_def)

lemma map_filter_append: "List.map_filter f (xs @ ys) = List.map_filter f xs @ List.map_filter f ys"
  by (simp add: map_filter_def)

lemma map_filter_cong_set:
  "(\<And>x. x \<in> set xs \<Longrightarrow> f x = g x) \<Longrightarrow> List.map_filter f xs = List.map_filter g xs"
  by (induction xs) (simp_all add: List.map_filter_simps split: option.split)

lemma replies_none_fresh: "wq_ok q \<Longrightarrow> wq_seq_next q \<le> seq \<Longrightarrow> apply_edit_replies q seq = None"
  unfolding wq_ok_def by (metis (no_types, lifting) domIff filter_is_subset image_iff in_mono linorder_not_less subsetD)

lemma enqueue_ok:
  assumes ok: "wq_ok q" and room: "wq_seq_next q + 1 < 2 ^ 64"
  shows "wq_ok (snd (enqueue_with_cause now kind scope cause q))"
proof -
  have "wi_seq item < Suc (wq_seq_next q)" if "item \<in> set (wq_queue q)" for item
    using ok that by (auto simp: wq_ok_def less_Suc_eq)
  then show ?thesis
    using ok room by (auto simp: wq_ok_def enqueue_with_cause_def Let_def sorted_wrt_append)
qed

lemma pending_txs_enqueue:
  assumes ok: "wq_ok q"
  shows "pending_txs (snd (enqueue_with_cause now kind scope cause q)) = pending_txs q"
  by (simp add: pending_txs_def enqueue_with_cause_def Let_def map_filter_append List.map_filter_simps
      replies_none_fresh [OF ok order_refl])

lemma enqueue_balanced:
  "wq_ok q \<Longrightarrow> replies_balanced X (snd (enqueue_with_cause now kind scope cause q)) = replies_balanced X q"
  by (simp add: replies_balanced_def pending_txs_enqueue) (simp add: enqueue_with_cause_def Let_def)

lemma add_reply_ok:
  assumes ok: "wq_ok q" and item: "item \<in> set (wq_queue q)" "is_workspace_edit item"
  shows "wq_ok (q\<lparr> apply_edit_replies := (apply_edit_replies q)(wi_seq item \<mapsto> r), wq_registered := txs \<rparr>)"
proof -
  have "wi_seq item \<in> wi_seq ` {x \<in> set (wq_queue q). is_workspace_edit x}"
    using item by blast
  then show ?thesis
    using ok by (simp add: wq_ok_def)
qed

lemma enqueue_edit_ok:
  assumes ok: "wq_ok q" and room: "wq_seq_next q + 1 < 2 ^ 64"
  shows "wq_ok (snd (enqueue_workspace_edit_with_cause now edit reply cause q))"
proof -
  let ?kind = "WorkWorkspaceEdit edit"
  let ?q = "snd (enqueue_with_cause now ?kind GlobalScope cause q)"
  let ?item = "\<lparr> wi_kind = ?kind, wi_kind_tag = TagWorkspaceEdit, wi_scope = GlobalScope, wi_seq = wq_seq_next q,
    wi_cause_id = cause, wi_enqueued_at = now \<rparr>"
  have item: "?item \<in> set (wq_queue ?q)" "is_workspace_edit ?item"
    by (simp_all add: enqueue_with_cause_def Let_def is_workspace_edit_def)
  have "fst (enqueue_with_cause now ?kind GlobalScope cause q) = wi_seq ?item"
    by (simp add: enqueue_with_cause_def Let_def)
  then show ?thesis
    using add_reply_ok [OF enqueue_ok [OF ok room] item] enqueue_ok [OF ok room]
    by (simp add: enqueue_workspace_edit_with_cause_def split_def Let_def split: option.split)
qed

lemma enqueue_edit_balanced:
  assumes ok: "wq_ok q" and bal: "replies_balanced X q"
  shows "replies_balanced X (snd (enqueue_workspace_edit_with_cause now edit reply cause q))"
proof (cases reply)
  case None
  then show ?thesis
    using enqueue_balanced [OF ok, of X now "WorkWorkspaceEdit edit" GlobalScope cause] bal
    by (simp add: enqueue_workspace_edit_with_cause_def split_def)
next
  case (Some r)
  have "wi_seq item \<noteq> wq_seq_next q" if "item \<in> set (wq_queue q)" for item
    using ok that by (auto simp: wq_ok_def)
  then have "List.map_filter (\<lambda>item. map_option fst (((apply_edit_replies q)(wq_seq_next q \<mapsto> r)) (wi_seq item))) (wq_queue q) =
    pending_txs q"
    unfolding pending_txs_def by (intro map_filter_cong_set) simp
  then show ?thesis
    using bal Some
    by (simp add: replies_balanced_def enqueue_workspace_edit_with_cause_def enqueue_with_cause_def Let_def
        pending_txs_def [where q = "_\<lparr>wq_registered := _\<rparr>"] map_filter_append List.map_filter_simps)
qed


lemma fold_reject_fields:
  "wq_queue (fold (reject_apply_edit_reply reason) seqs q) = wq_queue q"
  "wq_seq_next (fold (reject_apply_edit_reply reason) seqs q) = wq_seq_next q"
  "wq_registered (fold (reject_apply_edit_reply reason) seqs q) = wq_registered q"
  "apply_edit_replies (fold (reject_apply_edit_reply reason) seqs q) = (apply_edit_replies q) |` (- set seqs)"
  by (induction seqs arbitrary: q)
    (auto simp: reject_apply_edit_reply_def answer_def restrict_map_def fun_eq_iff split: option.split)

lemma fold_reject_answers:
  "distinct seqs \<Longrightarrow> map fst (wq_answers (fold (reject_apply_edit_reply reason) seqs q)) =
     map fst (wq_answers q) @ List.map_filter (\<lambda>seq. map_option fst (apply_edit_replies q seq)) seqs"
proof (induction seqs arbitrary: q)
  case Nil
  then show ?case by (simp add: List.map_filter_simps)
next
  case (Cons seq seqs)
  have "List.map_filter (\<lambda>i. map_option fst (apply_edit_replies (reject_apply_edit_reply reason seq q) i)) seqs =
      List.map_filter (\<lambda>i. map_option fst (apply_edit_replies q i)) seqs"
    using Cons.prems
    by (intro map_filter_cong_set) (auto simp: reject_apply_edit_reply_def answer_def split: option.split)
  then show ?case
    using Cons by (auto simp: List.map_filter_simps reject_apply_edit_reply_def answer_def split: option.split)
qed

lemma wq_ok_seq_inj: "wq_ok q \<Longrightarrow> inj_on wi_seq (set (wq_queue q))"
  by (simp add: wq_ok_def strict_sorted_iff distinct_map)

lemma wq_ok_reply_edit:
  assumes ok: "wq_ok q" and item: "item \<in> set (wq_queue q)" and reply: "apply_edit_replies q (wi_seq item) \<noteq> None"
  shows "is_workspace_edit item"
proof -
  from reply have "wi_seq item \<in> dom (apply_edit_replies q)"
    by blast
  then obtain other where "other \<in> set (wq_queue q)" "is_workspace_edit other" "wi_seq other = wi_seq item"
    using ok by (auto simp: wq_ok_def)
  with wq_ok_seq_inj [OF ok] item show ?thesis
    by (metis inj_onD)
qed

lemma remove_scope_fields:
  fixes q :: "('i, 'w) work_queue" and scope :: work_scope
  defines "seqs \<equiv> map wi_seq (filter (\<lambda>item. wi_scope item = scope \<and> is_workspace_edit item) (wq_queue q))"
  shows "wq_queue (snd (remove_scope scope q)) = filter (\<lambda>item. wi_scope item \<noteq> scope) (wq_queue q)"
    and "wq_seq_next (snd (remove_scope scope q)) = wq_seq_next q"
    and "wq_registered (snd (remove_scope scope q)) = wq_registered q"
    and "apply_edit_replies (snd (remove_scope scope q)) = (apply_edit_replies q) |` (- set seqs)"
    and "wq_answers (snd (remove_scope scope q)) = wq_answers (fold (reject_apply_edit_reply ''work scope cancelled'') seqs q)"
  by (simp_all add: remove_scope_def Let_def fold_reject_fields seqs_def)

lemma remove_scope_ok:
  assumes ok: "wq_ok q"
  shows "wq_ok (snd (remove_scope scope q))"
proof -
  have "dom (apply_edit_replies (snd (remove_scope scope q)))
      \<subseteq> wi_seq ` set (filter is_workspace_edit (filter (\<lambda>item. wi_scope item \<noteq> scope) (wq_queue q)))"
  proof
    fix seq
    assume "seq \<in> dom (apply_edit_replies (snd (remove_scope scope q)))"
    then have seq: "seq \<in> dom (apply_edit_replies q)"
        "\<not> (\<exists>item \<in> set (wq_queue q). wi_scope item = scope \<and> is_workspace_edit item \<and> wi_seq item = seq)"
      by (auto simp: remove_scope_fields)
    then obtain item where "item \<in> set (wq_queue q)" "is_workspace_edit item" "wi_seq item = seq"
      using ok by (auto simp: wq_ok_def)
    with seq show "seq \<in> wi_seq ` set (filter is_workspace_edit (filter (\<lambda>item. wi_scope item \<noteq> scope) (wq_queue q)))"
      by auto
  qed
  then show ?thesis
    using ok by (auto simp: wq_ok_def remove_scope_fields sorted_wrt_map intro: sorted_wrt_filter)
qed

lemma mset_map_filter_split:
  "mset (List.map_filter f xs) = mset (List.map_filter f (filter p xs)) + mset (List.map_filter f (filter (\<lambda>x. \<not> p x) xs))"
  by (induction xs) (simp_all add: List.map_filter_simps split: option.split)

lemma map_filter_drop_none:
  "(\<And>x. x \<in> set xs \<Longrightarrow> p x \<Longrightarrow> \<not> r x \<Longrightarrow> f x = None) \<Longrightarrow>
   List.map_filter f (filter p xs) = List.map_filter f (filter (\<lambda>x. p x \<and> r x) xs)"
  by (induction xs) (auto simp: List.map_filter_simps split: option.split)

lemma map_filter_of_map: "List.map_filter f (map g xs) = List.map_filter (\<lambda>x. f (g x)) xs"
  by (induction xs) (simp_all add: List.map_filter_simps split: option.split)

lemma remove_scope_balanced:
  assumes ok: "wq_ok q" and bal: "replies_balanced X q"
  shows "replies_balanced X (snd (remove_scope scope q))"
proof -
  let ?here = "\<lambda>item. wi_scope item = scope"
  let ?f = "\<lambda>item. map_option fst (apply_edit_replies q (wi_seq item))"
  let ?gone = "filter (\<lambda>item. ?here item \<and> is_workspace_edit item) (wq_queue q)"
  have kept: "pending_txs (snd (remove_scope scope q)) = List.map_filter ?f (filter (\<lambda>item. \<not> ?here item) (wq_queue q))"
    unfolding pending_txs_def remove_scope_fields
    using wq_ok_seq_inj [OF ok] by (intro map_filter_cong_set) (auto simp: restrict_map_def dest: inj_onD)
  have "List.map_filter ?f (filter ?here (wq_queue q)) = List.map_filter ?f ?gone"
    using wq_ok_reply_edit [OF ok] by (intro map_filter_drop_none) (metis option.map_disc_iff)
  moreover have "distinct (map wi_seq ?gone)"
    using wq_ok_seq_inj [OF ok] ok by (auto simp: wq_ok_def strict_sorted_iff distinct_map intro: inj_on_subset)
  then have "map fst (wq_answers (snd (remove_scope scope q))) = map fst (wq_answers q) @ List.map_filter ?f ?gone"
    by (simp add: remove_scope_fields fold_reject_answers map_filter_of_map)
  ultimately show ?thesis
    using bal mset_map_filter_split [of ?f "wq_queue q" ?here]
    by (simp add: replies_balanced_def kept remove_scope_fields pending_txs_def [of q] del: mset_map)
qed

lemma wq_step_sound:
  assumes "wq_step q q'" "wq_ok q" "replies_balanced X q"
  shows "wq_ok q' \<and> replies_balanced X q'"
  using assms by cases (simp_all add: enqueue_ok enqueue_balanced enqueue_edit_ok enqueue_edit_balanced
      remove_scope_ok remove_scope_balanced)

lemma wq_steps_sound:
  assumes "wq_step\<^sup>*\<^sup>* q q'" "wq_ok q" "replies_balanced X q"
  shows "wq_ok q' \<and> replies_balanced X q'"
  using assms by (induction rule: rtranclp_induct) (auto dest: wq_step_sound)

lemma pop_sound:
  assumes ok: "wq_ok q" and bal: "replies_balanced X q" and front: "wq_queue q = item # rest"
  defines "reply \<equiv> apply_edit_replies q (wi_seq item)"
  defines "q' \<equiv> q\<lparr> wq_queue := rest, apply_edit_replies := (apply_edit_replies q)(wi_seq item := None) \<rparr>"
  shows "wq_ok q'" and "replies_balanced (X + (case reply of None \<Rightarrow> {#} | Some r \<Rightarrow> {# fst r #})) q'"
    and "\<not> is_workspace_edit item \<Longrightarrow> reply = None"
proof -
  have fresh: "wi_seq other \<noteq> wi_seq item" if "other \<in> set rest" for other
    using ok front that by (auto simp: wq_ok_def)
  then have "pending_txs q' = List.map_filter (\<lambda>item. map_option fst (apply_edit_replies q (wi_seq item))) rest"
    unfolding pending_txs_def q'_def by (auto intro!: map_filter_cong_set)
  with bal front show "replies_balanced (X + (case reply of None \<Rightarrow> {#} | Some r \<Rightarrow> {# fst r #})) q'"
    by (auto simp: replies_balanced_def pending_txs_def [of q] reply_def List.map_filter_simps q'_def split: option.splits)
  have "dom ((apply_edit_replies q)(wi_seq item := None)) \<subseteq> wi_seq ` set (filter is_workspace_edit rest)"
    using ok front by (auto simp: wq_ok_def split: if_splits)
  then show "wq_ok q'"
    using ok front by (simp add: wq_ok_def q'_def)
  show "\<not> is_workspace_edit item \<Longrightarrow> reply = None"
    using wq_ok_reply_edit [OF ok, of item] front unfolding reply_def by (metis list.set_intros(1))
qed

subsection \<open>What the runtime keeps\<close>

lemma rt_keeps_refl [simp]: "rt_keeps s s"
  by (simp add: rt_keeps_def)

lemma rt_keeps_trans [trans]: "rt_keeps s s' \<Longrightarrow> rt_keeps s' s'' \<Longrightarrow> rt_keeps s s''"
  unfolding rt_keeps_def by (metis append.assoc)

lemma rt_keeps_update [simp]:
  "rt_keeps s (s'\<lparr> rt_active_cause := c \<rparr>) = rt_keeps s s'"
  "rt_keeps s (s'\<lparr> rt_needs_redraw := b \<rparr>) = rt_keeps s s'"
  "rt_keeps (s\<lparr> rt_active_cause := c \<rparr>) s' = rt_keeps s s'"
  "rt_keeps (s\<lparr> rt_needs_redraw := b \<rparr>) s' = rt_keeps s s'"
  by (simp_all add: rt_keeps_def rt_ok_def)

lemma port_step_keeps: "port_step s s' \<Longrightarrow> rt_keeps s s'"
  unfolding port_step_def rt_keeps_def rt_ok_def using wq_steps_sound by blast

lemma ports_keep:
  assumes "ports_ok P"
  shows "rt_keeps s (snd (pt_run_invocation P i policy s))" "rt_keeps s (pt_notify_unknown_command P name s)"
    "rt_keeps s (pt_apply_overlay_commit P s)" "rt_keeps s (snd (pt_apply_workspace_edit P edit s))"
    "rt_keeps s (pt_notify_error P msg s)" "rt_keeps s (pt_ui_tick_and_tick P s)"
    "rt_keeps s (snd (pt_drain_filesystem_events P s))" "rt_keeps s (pt_refresh_file_picker P s)"
    "rt_keeps s (snd (pt_drain_messages P s))" "rt_keeps s (pt_kick_nu_hook_eval P s)"
    "rt_keeps s (snd (pt_drain_scheduler P s))" "rt_keeps s (snd (pt_take_quit_request P s))"
    "rt_keeps s (pt_apply_event P ev s)"
  using assms unfolding ports_ok_def by (blast intro: port_step_keeps)+

lemma run_queued_invocation_keeps:
  assumes P: "ports_ok P" and depth: "rt_hook_depth s < 255"
  shows "rt_keeps s (snd (run_queued_invocation P queued s))"
proof -
  let ?nu = "is_nu_pipeline (qi_source queued)"
  let ?s1 = "if ?nu then s\<lparr> rt_hook_depth := min (rt_hook_depth s + 1) 255 \<rparr> else s"
  let ?s2 = "snd (pt_run_invocation P (qi_invocation queued) (invocation_policy_of (qi_execution queued)) ?s1)"
  let ?s3 = "if ?nu then ?s2\<lparr> rt_hook_depth := rt_hook_depth ?s2 - 1 \<rparr> else ?s2"
  have "rt_keeps ?s1 ?s2"
    by (rule ports_keep [OF P])
  with depth have "rt_keeps s ?s3"
    by (auto simp: rt_keeps_def rt_ok_def)
  then show ?thesis
    using rt_keeps_trans [OF _ ports_keep(2) [OF P]]
    by (auto simp: run_queued_invocation_def Let_def split_def split: invocation_status.split option.split)
qed

lemma pop_keeps:
  assumes front: "wq_queue (rt_work s) = item # rest" and plain: "\<not> is_workspace_edit item"
  shows "rt_keeps s (s\<lparr> rt_work := (rt_work s)\<lparr> wq_queue := rest \<rparr> \<rparr>)"
proof -
  have "rt_ok X (s\<lparr> rt_work := (rt_work s)\<lparr> wq_queue := rest \<rparr> \<rparr>)" if "rt_ok X s" for X
  proof -
    have none: "apply_edit_replies (rt_work s) (wi_seq item) = None"
      using that plain pop_sound(3) [OF _ _ front, of X] by (auto simp: rt_ok_def)
    then show ?thesis
      using that pop_sound(1,2) [OF _ _ front, of X] by (simp add: rt_ok_def fun_upd_idem)
  qed
  then show ?thesis
    by (simp add: rt_keeps_def)
qed

lemma answer_ok:
  "rt_ok (X + {# tx #}) s \<Longrightarrow> rt_ok X (s\<lparr> rt_work := answer tx result (rt_work s) \<rparr>)"
  by (simp add: rt_ok_def wq_ok_def replies_balanced_def answer_def pending_txs_def)

text \<open>The state in which an edit is applied: the item and its reply sender taken out of the queue.\<close>

lemma edit_taken:
  assumes front: "wq_queue (rt_work s) = item # rest" and ok: "rt_ok X s"
  shows "rt_ok (X + (case apply_edit_replies (rt_work s) (wi_seq item) of None \<Rightarrow> {#} | Some r \<Rightarrow> {# fst r #}))
    (s\<lparr> rt_work := (rt_work s)\<lparr> wq_queue := rest, apply_edit_replies := (apply_edit_replies (rt_work s))(wi_seq item := None) \<rparr> \<rparr>)"
  using pop_sound(1,2) [OF _ _ front, of X] ok by (simp add: rt_ok_def)

lemma rt_ok_update [simp]:
  "rt_ok X (s\<lparr> rt_active_cause := c \<rparr>) = rt_ok X s" "rt_ok X (s\<lparr> rt_needs_redraw := b \<rparr>) = rt_ok X s"
  by (simp_all add: rt_ok_def)

lemma after_edit_keeps: "ports_ok P \<Longrightarrow> rt_keeps s (after_edit P edit s)"
  using ports_keep(4) [of P s edit] rt_keeps_trans [OF ports_keep(4) [of P s edit] ports_keep(5) [of P]]
  by (auto simp: after_edit_def Let_def split_def split: option.split)

lemma run_workspace_edit_cases:
  fixes s :: "('i, 'w, 'ev, 'x) runtime" and seq :: nat
  defines "reply \<equiv> apply_edit_replies (rt_work s) seq"
  defines "s1 \<equiv> s\<lparr> rt_work := (rt_work s)\<lparr> apply_edit_replies := (apply_edit_replies (rt_work s))(seq := None) \<rparr> \<rparr>"
  obtains (plain) "reply = None" "run_workspace_edit P seq edit s = (False, after_edit P edit s1)"
  | (stale) tx deadline where "reply = Some (tx, deadline)"
      "run_workspace_edit P seq edit s =
        (True, s1\<lparr> rt_work := answer tx (rejected ''deadline expired'') (rt_work s1) \<rparr>)"
  | (applied) tx deadline outcome where "reply = Some (tx, deadline)"
      "run_workspace_edit P seq edit s =
        (False, (after_edit P edit s1)\<lparr> rt_work := answer tx outcome (rt_work (after_edit P edit s1)) \<rparr>)"
proof (cases "reply")
  case None
  then show thesis
    by (intro plain) (auto simp: run_workspace_edit_def take_apply_edit_reply_def reply_def s1_def Let_def split_def
        after_edit_def)
next
  case (Some r)
  obtain tx deadline where r: "r = (tx, deadline)"
    by fastforce
  show thesis
  proof (cases "pt_reply_closed P tx s1 \<or> deadline < pt_now P s1")
    case True
    with Some r show thesis
      by (intro stale) (auto simp: run_workspace_edit_def take_apply_edit_reply_def reply_def s1_def Let_def split_def)
  next
    case False
    with Some r show thesis
      by (intro applied) (auto simp: run_workspace_edit_def take_apply_edit_reply_def reply_def s1_def Let_def split_def
          after_edit_def)
  qed
qed

lemma run_workspace_edit_keeps:
  assumes P: "ports_ok P" and front: "wq_queue (rt_work s) = item # rest"
  defines "s0 \<equiv> s\<lparr> rt_work := (rt_work s)\<lparr> wq_queue := rest \<rparr> \<rparr>"
  shows "rt_keeps s (snd (run_workspace_edit P (wi_seq item) edit (s0\<lparr> rt_active_cause := c \<rparr>)))"
proof -
  let ?s0 = "s0\<lparr> rt_active_cause := c \<rparr>"
  let ?s1 = "?s0\<lparr> rt_work := (rt_work ?s0)\<lparr> apply_edit_replies := (apply_edit_replies (rt_work ?s0))(wi_seq item := None) \<rparr> \<rparr>"
  have taken: "rt_ok (X + (case apply_edit_replies (rt_work s) (wi_seq item) of None \<Rightarrow> {#} | Some r \<Rightarrow> {# fst r #})) ?s1"
    if "rt_ok X s" for X
    using edit_taken [OF front that] by (simp add: s0_def rt_ok_def)
  have applied: "rt_keeps ?s1 (after_edit P edit ?s1)"
    by (rule after_edit_keeps [OF P])
  have same: "frontend_events (rt_kernel ?s1) = frontend_events (rt_kernel s)" "kn_directives (rt_kernel ?s1) = kn_directives (rt_kernel s)"
      "rt_hook_depth ?s1 = rt_hook_depth s" "apply_edit_replies (rt_work ?s0) = apply_edit_replies (rt_work s)"
    by (simp_all add: s0_def)
  show ?thesis
  proof (cases rule: run_workspace_edit_cases [where s = ?s0 and seq = "wi_seq item" and P = P and edit = edit])
    case plain
    then show ?thesis
      using taken applied same by (auto simp: rt_keeps_def)
  next
    case (stale tx deadline)
    then show ?thesis
      using taken answer_ok [where s = ?s1] same by (auto simp: rt_keeps_def)
  next
    case (applied tx deadline outcome)
    then show ?thesis
      using taken \<open>rt_keeps ?s1 _\<close> answer_ok [where s = "after_edit P edit ?s1"] same by (auto simp: rt_keeps_def)
  qed
qed


subsection \<open>The drain\<close>

lemma drain_runtime_work_Suc:
  "drain_runtime_work P (Suc n) report s =
     (case wq_queue (rt_work s) of
        [] \<Rightarrow> (report, s)
      | item # _ \<Rightarrow>
          let (quit, s') = drain_item P item s; report' = drain_note item report
          in if quit then (report'\<lparr> dr_should_quit := True \<rparr>, s') else drain_runtime_work P n report' s')"
  by (auto simp: drain_item_def wq_pop_front_def Let_def split_def split: list.split work_kind.split)

lemma drain_item_keeps:
  assumes P: "ports_ok P" and depth: "rt_hook_depth s < 255" and front: "wq_queue (rt_work s) = item # rest"
  shows "rt_keeps s (snd (drain_item P item s))"
proof -
  let ?s0 = "s\<lparr> rt_work := (rt_work s)\<lparr> wq_queue := rest \<rparr>, rt_active_cause := wi_cause_id item \<rparr>"
  have pop: "rt_keeps s ?s0" if "\<not> is_workspace_edit item"
    using pop_keeps [OF front that] by simp
  show ?thesis
  proof (cases "wi_kind item")
    case (WorkInvocation queued)
    then have "rt_keeps s (snd (run_queued_invocation P queued ?s0))"
      using rt_keeps_trans [OF pop run_queued_invocation_keeps [OF P]] depth by (simp add: is_workspace_edit_def)
    with WorkInvocation front show ?thesis
      by (simp add: drain_item_def Let_def split_def)
  next
    case WorkOverlayCommit
    then have "rt_keeps s (pt_apply_overlay_commit P ?s0)"
      using rt_keeps_trans [OF pop ports_keep(3) [OF P]] by (simp add: is_workspace_edit_def)
    with WorkOverlayCommit front show ?thesis
      by (simp add: drain_item_def Let_def)
  next
    case (WorkWorkspaceEdit edit)
    have "rt_keeps s (snd (run_workspace_edit P (wi_seq item) edit ?s0))"
      using run_workspace_edit_keeps [OF P front] .
    with WorkWorkspaceEdit front show ?thesis
      by (simp add: drain_item_def Let_def split_def)
  qed
qed

lemma drain_item_depth:
  "ports_ok P \<Longrightarrow> rt_hook_depth s < 255 \<Longrightarrow> wq_queue (rt_work s) = item # rest \<Longrightarrow>
   rt_hook_depth (snd (drain_item P item s)) = rt_hook_depth s"
  using drain_item_keeps [of P s item rest] by (simp add: rt_keeps_def)

lemma drain_note_fields:
  "dr_drained_count (drain_note item r) = Suc (dr_drained_count r)"
  "dr_should_quit (drain_note item r) = dr_should_quit r"
  "dr_drained_invocations (drain_note item r) + dr_applied_overlay_commits (drain_note item r) + dr_drained_workspace_edits (drain_note item r) =
     Suc (dr_drained_invocations r + dr_applied_overlay_commits r + dr_drained_workspace_edits r)"
  by (simp_all add: Let_def split: work_kind.split)

declare drain_note.simps [simp del] drain_runtime_work.simps(2) [simp del]

lemma drain_runtime_work_sound:
  assumes P: "ports_ok P" and depth: "rt_hook_depth s < 255"
    and run: "drain_runtime_work P n r s = (r', s')" and quit: "\<not> dr_should_quit r"
  shows "rt_keeps s s' \<and> dr_drained_count r \<le> dr_drained_count r' \<and> dr_drained_count r' \<le> dr_drained_count r + n \<and>
    (dr_drained_count r' < dr_drained_count r + n \<and> \<not> dr_should_quit r' \<longrightarrow> wq_queue (rt_work s') = []) \<and>
    dr_drained_invocations r' + dr_applied_overlay_commits r' + dr_drained_workspace_edits r' + dr_drained_count r =
      dr_drained_invocations r + dr_applied_overlay_commits r + dr_drained_workspace_edits r + dr_drained_count r'"
  using depth run quit
proof (induction n arbitrary: r s)
  case 0
  then show ?case by simp
next
  case (Suc n)
  show ?case
  proof (cases "wq_queue (rt_work s)")
    case Nil
    with Suc.prems show ?thesis by (simp add: drain_runtime_work_Suc)
  next
    case (Cons item rest)
    note step = drain_item_keeps [OF P Suc.prems(1) Cons]
    obtain q s1 where item: "drain_item P item s = (q, s1)"
      by fastforce
    show ?thesis
    proof (cases q)
      case True
      with Suc.prems(2) Cons item have "r' = (drain_note item r)\<lparr> dr_should_quit := True \<rparr>" "s' = s1"
        by (simp_all add: drain_runtime_work_Suc)
      with step item drain_note_fields [of item r] show ?thesis by simp
    next
      case False
      with Suc.prems(2) Cons item have run': "drain_runtime_work P n (drain_note item r) s1 = (r', s')"
        by (simp add: drain_runtime_work_Suc)
      have "rt_hook_depth s1 < 255"
        using drain_item_depth [OF P Suc.prems(1) Cons] Suc.prems(1) item by simp
      from Suc.IH [OF this run'] Suc.prems(3) show ?thesis
        using rt_keeps_trans [of s s1 s'] step item drain_note_fields [of item r] by simp
    qed
  qed
qed

subsection \<open>The pump\<close>

lemma take_quit_request_work: "ports_ok P \<Longrightarrow> rt_work (snd (pt_take_quit_request P s)) = rt_work s"
  by (simp add: ports_ok_def)

lemma phase_keeps:
  assumes P: "ports_ok P"
  shows "rt_keeps s (snd (phase_filesystem_events P s))" "rt_keeps s (snd (phase_drain_messages P s))"
  using ports_keep(7,9) [OF P, of s] rt_keeps_trans [OF ports_keep(7) [OF P, of s] ports_keep(8) [OF P]]
  by (simp_all add: phase_filesystem_events_def phase_drain_messages_def Let_def split_def)

lemma drain_report_sound:
  assumes P: "ports_ok P" and depth: "rt_hook_depth s < 255" and run: "drain_runtime_work_report P n s = (r, s')"
  shows "rt_keeps s s'" "dr_drained_count r \<le> n"
    "dr_drained_count r < n \<Longrightarrow> \<not> dr_should_quit r \<Longrightarrow> wq_queue (rt_work s') = []"
    "dr_drained_count r = dr_drained_invocations r + dr_applied_overlay_commits r + dr_drained_workspace_edits r"
  using drain_runtime_work_sound [OF P depth, of n drain_report_default r s'] run
  by (simp_all add: drain_runtime_work_report_def drain_report_default_def)

lemma rt_keeps_depth: "rt_keeps s s' \<Longrightarrow> rt_hook_depth s' = rt_hook_depth s"
  by (simp add: rt_keeps_def)

lemma pump_round_sound:
  assumes P: "ports_ok P" and depth: "rt_hook_depth s < 255" and run: "pump_round P idx s = (round, quit, s')"
  shows "rt_keeps s s' \<and> rw_drained_runtime_work (rr_work round) \<le> MAX_RUNTIME_WORK_ITEMS_PER_ROUND \<and>
    (\<not> quit \<and> rw_drained_runtime_work (rr_work round) < MAX_RUNTIME_WORK_ITEMS_PER_ROUND \<longrightarrow> wq_queue (rt_work s') = [])"
proof -
  let ?s2 = "snd (phase_filesystem_events P (pt_ui_tick_and_tick P s))"
  let ?s5 = "snd (pt_drain_scheduler P (pt_kick_nu_hook_eval P (snd (phase_drain_messages P ?s2))))"
  obtain r s6 where work: "drain_runtime_work_report P MAX_RUNTIME_WORK_ITEMS_PER_ROUND ?s5 = (r, s6)"
    by fastforce
  have phases: "rt_keeps s ?s5"
    using rt_keeps_trans [OF rt_keeps_trans [OF rt_keeps_trans [OF rt_keeps_trans [OF ports_keep(6) [OF P]
        phase_keeps(1) [OF P]] phase_keeps(2) [OF P]] ports_keep(10) [OF P]] ports_keep(11) [OF P]] .
  note sound = drain_report_sound [OF P _ work]
  have depth5: "rt_hook_depth ?s5 < 255"
    using rt_keeps_depth [OF phases] depth by simp
  have s': "s' = (if dr_should_quit r then s6 else snd (pt_take_quit_request P s6))"
      "rw_drained_runtime_work (rr_work round) = dr_drained_count r" "\<not> quit \<longrightarrow> \<not> dr_should_quit r"
    using run work by (auto simp: pump_round_def Let_def split_def split: if_splits)
  have "rt_keeps s s'"
    using rt_keeps_trans [OF phases sound(1) [OF depth5]] ports_keep(12) [OF P, of s6] s'(1)
    by (auto intro: rt_keeps_trans)
  then show ?thesis
    using sound(2,3) [OF depth5] s' take_quit_request_work [OF P, of s6] by auto
qed

lemma pump_rounds_sound:
  assumes P: "ports_ok P" and depth: "rt_hook_depth s < 255" and n: "0 < n" "idx + n = MAX_PUMP_ROUNDS"
    and start: "\<not> pr_should_quit r" "\<not> pr_reached_round_cap r" "pr_exit_reason r = Idle"
    and run: "pump_rounds P n idx r s = (r', s')"
  shows "rt_keeps s s' \<and> pr_rounds_executed r < pr_rounds_executed r' \<and> pr_rounds_executed r' \<le> pr_rounds_executed r + n \<and>
    (\<exists>rounds. pr_rounds r' = pr_rounds r @ rounds \<and> length rounds + pr_rounds_executed r = pr_rounds_executed r' \<and>
      (\<forall>round \<in> set rounds. rw_drained_runtime_work (rr_work round) \<le> MAX_RUNTIME_WORK_ITEMS_PER_ROUND)) \<and>
    pr_exit_reason r' \<in> {Idle, RoundCap, ExitQuit} \<and> (pr_should_quit r' \<longleftrightarrow> pr_exit_reason r' = ExitQuit) \<and>
    (pr_reached_round_cap r' \<longleftrightarrow> pr_exit_reason r' = RoundCap) \<and>
    (pr_exit_reason r' = RoundCap \<longrightarrow> pr_rounds_executed r' = pr_rounds_executed r + n) \<and>
    (pr_exit_reason r' = Idle \<longrightarrow> wq_queue (rt_work s') = [])"
  using depth n start run
proof (induction n arbitrary: idx r s)
  case 0
  then show ?case by simp
next
  case (Suc n)
  obtain round quit s1 where round: "pump_round P idx s = (round, quit, s1)"
    using prod_cases3 by blast
  note sound = pump_round_sound [OF P Suc.prems(1) round]
  define r1 where "r1 = r\<lparr> pr_rounds_executed := Suc (pr_rounds_executed r),
      pr_phase_queue_depths := pr_phase_queue_depths r @ rr_phase_queue_depths round,
      pr_drained_work_by_kind := add_from (rr_drained_work_by_kind round) (pr_drained_work_by_kind r),
      pr_rounds := pr_rounds r @ [round] \<rparr>"
  have r1: "pr_rounds_executed r1 = Suc (pr_rounds_executed r)" "pr_rounds r1 = pr_rounds r @ [round]"
      "\<not> pr_should_quit r1" "\<not> pr_reached_round_cap r1" "pr_exit_reason r1 = Idle"
    using Suc.prems by (simp_all add: r1_def)
  have last: "Suc idx = MAX_PUMP_ROUNDS \<longleftrightarrow> n = 0"
    using Suc.prems(3) by auto
  have same: "r1\<lparr> pr_exit_reason := Idle \<rparr> = r1"
    using r1(5) by (cases r1) simp
  have unfolded: "(r', s') =
     (if quit then (r1\<lparr> pr_should_quit := True, pr_exit_reason := ExitQuit \<rparr>, s1)
      else if \<not> made_progress (rr_work round) then (r1\<lparr> pr_exit_reason := Idle \<rparr>, s1)
      else if n = 0 then (r1\<lparr> pr_reached_round_cap := True, pr_exit_reason := RoundCap \<rparr>, s1)
      else pump_rounds P n (Suc idx) r1 s1)"
    using Suc.prems(7) unfolding pump_rounds.simps round prod.case Let_def r1_def [symmetric] Suc_eq_plus1 [symmetric] last
    by (auto simp: same)
  have idle: "rw_drained_runtime_work (rr_work round) = 0" if "\<not> made_progress (rr_work round)"
    using that by (simp add: made_progress_def)
  show ?case
  proof (cases "quit \<or> \<not> made_progress (rr_work round) \<or> n = 0")
    case True
    with unfolded sound idle r1 show ?thesis
      by (auto simp: MAX_RUNTIME_WORK_ITEMS_PER_ROUND_def split: if_splits)
  next
    case False
    then have "rt_hook_depth s1 < 255" "0 < n" "Suc idx + n = MAX_PUMP_ROUNDS" "pump_rounds P n (Suc idx) r1 s1 = (r', s')"
      using Suc.prems(1,3) rt_keeps_depth [of s s1] sound unfolded by simp_all
    from Suc.IH [OF this(1-3) r1(3-5) this(4)] sound r1(1,2) show ?thesis
      using rt_keeps_trans [of s s1 s'] by auto
  qed
qed

subsection \<open>The coordinator\<close>

lemma saturating_add64_exact: "a + b \<le> u64_max \<Longrightarrow> saturating_add64 a b = a + b"
  by (simp add: saturating_add64_def)

lemma take_event_none:
  assumes "take_event P policy v s = (None, v', s')"
  shows "s' = s \<and> dl_report v' = dl_report v \<and> dl_remaining_frontend v' = dl_remaining_frontend v \<and>
    dl_idle_maintenance_ran v' = dl_idle_maintenance_ran v \<and>
    (frontend_events (rt_kernel s) = [] \<or> dl_remaining_frontend v = 0 \<or> dl_backpressure_blocked v')"
  using assms by (auto simp: take_event_def peek_frontend_def pop_frontend_def Let_def split: if_splits list.splits)

lemma take_event_some:
  assumes P: "ports_ok P" and room: "rp_handled_frontend_events (dl_report v) + dl_remaining_frontend v \<le> u64_max"
    and run: "take_event P policy v s = (Some env, v', s')"
  shows "drain_advance publish 1 0 v s v' s'"
proof -
  obtain rest where events: "frontend_events (rt_kernel s) = env # rest"
    using run by (auto simp: take_event_def peek_frontend_def pop_frontend_def Let_def split: if_splits list.splits)
  let ?s1 = "s\<lparr> rt_kernel := (rt_kernel s)\<lparr> frontend_events := rest \<rparr>, rt_active_cause := Some (env_cause_id env) \<rparr>"
  have rem: "dl_remaining_frontend v > 0" and s': "s' = pt_apply_event P (env_event env) ?s1"
    and v': "dl_remaining_frontend v' = dl_remaining_frontend v - 1"
      "rp_handled_frontend_events (dl_report v') = saturating_add64 (rp_handled_frontend_events (dl_report v)) 1"
      "rp_directives_emitted (dl_report v') = rp_directives_emitted (dl_report v)"
    using run events by (auto simp: take_event_def peek_frontend_def pop_frontend_def Let_def split: if_splits)
  have "rt_keeps ?s1 s'"
    unfolding s' by (rule ports_keep [OF P])
  then show ?thesis
    using events rem room v' by (auto simp: drain_advance_def rt_keeps_def saturating_add64_exact rt_ok_def)
qed


lemma pump_cycle_sound:
  assumes P: "ports_ok P" and depth: "rt_hook_depth s < 255"
    and run: "run_pump_cycle_with_report P s = ((d, cycle), s')"
  shows "rt_keeps s s' \<and> 0 < pr_rounds_executed cycle \<and> pr_rounds_executed cycle \<le> MAX_PUMP_ROUNDS \<and>
    length (pr_rounds cycle) = pr_rounds_executed cycle \<and>
    (\<forall>round \<in> set (pr_rounds cycle). rw_drained_runtime_work (rr_work round) \<le> MAX_RUNTIME_WORK_ITEMS_PER_ROUND) \<and>
    pr_exit_reason cycle \<in> {Idle, RoundCap, ExitQuit} \<and> (ld_should_quit d \<longleftrightarrow> pr_exit_reason cycle = ExitQuit) \<and>
    (pr_reached_round_cap cycle \<longleftrightarrow> pr_exit_reason cycle = RoundCap) \<and>
    (pr_exit_reason cycle = RoundCap \<longrightarrow> pr_rounds_executed cycle = MAX_PUMP_ROUNDS) \<and>
    (pr_exit_reason cycle = Idle \<longrightarrow> wq_queue (rt_work s') = [])"
proof -
  have rounds: "pump_rounds P MAX_PUMP_ROUNDS 0 pump_report_default s = (cycle, s')"
      and d: "d = finalize_loop_directive P (pr_should_quit cycle) s'"
    using run by (auto simp: run_pump_cycle_with_report_def split_def Let_def prod_eq_iff)
  have "ld_should_quit d \<longleftrightarrow> pr_should_quit cycle"
    by (simp add: d finalize_loop_directive_def)
  then show ?thesis
    using pump_rounds_sound [OF P depth _ _ _ _ _ rounds]
    by (auto simp: pump_report_default_def MAX_PUMP_ROUNDS_def)
qed

lemma drain_advance_trans:
  assumes "drain_advance publish k m v s v1 s1" "drain_advance publish k' m' v1 s1 v' s'"
  shows "drain_advance publish (k + k') (m + m') v s v' s'"
proof -
  obtain new1 new2 where
    1: "k \<le> length (frontend_events (rt_kernel s) @ new1)" "frontend_events (rt_kernel s1) = drop k (frontend_events (rt_kernel s) @ new1)"
    and 2: "k' \<le> length (frontend_events (rt_kernel s1) @ new2)" "frontend_events (rt_kernel s') = drop k' (frontend_events (rt_kernel s1) @ new2)"
    using assms unfolding drain_advance_def by blast
  have "drop k' (drop k xs @ new2) = drop (k + k') (xs @ new2)" if "k \<le> length xs" for xs
    using that by (simp add: add.commute)
  from this [OF 1(1)]
  have "drop k' (drop k (frontend_events (rt_kernel s) @ new1) @ new2) = drop (k + k') (frontend_events (rt_kernel s) @ new1 @ new2)"
    by (simp only: append_assoc)
  with 1 2 have "\<exists>new. k + k' \<le> length (frontend_events (rt_kernel s) @ new) \<and>
      frontend_events (rt_kernel s') = drop (k + k') (frontend_events (rt_kernel s) @ new)"
    by (intro exI [of _ "new1 @ new2"]) auto
  moreover obtain ds1 ds2 where "kn_directives (rt_kernel s1) = kn_directives (rt_kernel s) @ ds1" "length ds1 = (if publish then m else 0)"
      "kn_directives (rt_kernel s') = kn_directives (rt_kernel s1) @ ds2" "length ds2 = (if publish then m' else 0)"
    using assms unfolding drain_advance_def by blast
  then have "\<exists>ds. kn_directives (rt_kernel s') = kn_directives (rt_kernel s) @ ds \<and> length ds = (if publish then m + m' else 0)"
    by (intro exI [of _ "ds1 @ ds2"]) simp
  ultimately show ?thesis
    using assms unfolding drain_advance_def by simp
qed


lemma drain_loop_Suc:
  "drain_loop P policy publish (Suc n) v s =
     (let (taken, v1, s1) = take_event P policy v s
      in case taken of
           None \<Rightarrow>
             if \<not> dp_run_idle_maintenance policy \<or> dl_idle_maintenance_ran v1 then (v1, s1\<lparr> rt_active_cause := None \<rparr>)
             else let (quit, v2, s2) = drain_cycle P publish None (v1\<lparr> dl_idle_maintenance_ran := True \<rparr>) (s1\<lparr> rt_active_cause := None \<rparr>)
                  in if quit then (v2, s2) else drain_loop P policy publish n v2 s2
         | Some env \<Rightarrow>
             let (quit, v2, s2) = drain_cycle P publish (Some env) v1 s1
             in if quit then (v2, s2) else drain_loop P policy publish n v2 s2)"
proof -
  obtain taken v1 s1 where taken: "take_event P policy v s = (taken, v1, s1)"
    using prod_cases3 by blast
  show ?thesis
  proof (cases taken)
    case None
    then show ?thesis
      using taken by (cases "\<not> dp_run_idle_maintenance policy \<or> dl_idle_maintenance_ran v1")
        (simp_all add: drain_cycle_def Let_def split_def)
  next
    case (Some env)
    then show ?thesis
      using taken by (simp add: drain_cycle_def Let_def split_def)
  qed
qed

lemma drain_cycle_sound:
  assumes P: "ports_ok P" and depth: "rt_hook_depth s < 255"
    and room: "rp_directives_emitted (dl_report v) < u64_max" and run: "drain_cycle P publish taken v s = (quit, v', s')"
  shows "drain_advance publish 0 1 v s v' s' \<and> asked_to_quit (dl_report v') = quit \<and>
    dl_backpressure_blocked v' = dl_backpressure_blocked v"
proof -
  obtain d cycle s1 where pump: "run_pump_cycle_with_report P s = ((d, cycle), s1)"
    by (metis prod.exhaust)
  define d2 where "d2 = to_v2_directive d (map_option env_seq taken) (map_option env_cause_id taken)
    (sum_list (map (\<lambda>round. rw_drained_runtime_work (rr_work round)) (pr_rounds cycle))) (s1\<lparr> rt_active_cause := None \<rparr>)"
  have out: "quit = ld_should_quit d" "v' = v\<lparr> dl_report := note_cycle cycle d2 (dl_report v) \<rparr>"
      "s' = (if publish then s1\<lparr> rt_active_cause := None, rt_kernel := push_directive d2 (rt_kernel s1) \<rparr>
        else s1\<lparr> rt_active_cause := None \<rparr>)"
    using run by (auto simp: drain_cycle_def pump Let_def d2_def)
  have report: "rp_directives_emitted (dl_report v') = rp_directives_emitted (dl_report v) + 1"
      "rp_handled_frontend_events (dl_report v') = rp_handled_frontend_events (dl_report v)"
      "rp_last_directive (dl_report v') = Some d2" "dv_should_quit d2 = ld_should_quit d"
      "dl_remaining_frontend v' = dl_remaining_frontend v" "dl_backpressure_blocked v' = dl_backpressure_blocked v"
    using room by (simp_all add: out note_cycle_def saturating_add64_exact d2_def to_v2_directive_def)
  have state: "frontend_events (rt_kernel s') = frontend_events (rt_kernel s1)" "rt_hook_depth s' = rt_hook_depth s1"
      "rt_work s' = rt_work s1" "kn_directives (rt_kernel s') = kn_directives (rt_kernel s1) @ (if publish then [d2] else [])"
    by (simp_all add: out push_directive_def)
  have "rt_keeps s s1"
    using pump_cycle_sound [OF P depth pump] by blast
  then show ?thesis
    by (auto simp: drain_advance_def rt_keeps_def asked_to_quit_def rt_ok_def report state out(1))
qed

lemma drain_advance_update [simp]:
  "drain_advance publish k m (v\<lparr> dl_idle_maintenance_ran := b \<rparr>) s v' s' = drain_advance publish k m v s v' s'"
  "drain_advance publish k m v (s\<lparr> rt_active_cause := c \<rparr>) v' s' = drain_advance publish k m v s v' s'"
  "drain_advance publish k m v s v' (s'\<lparr> rt_active_cause := c \<rparr>) = drain_advance publish k m v s v' s'"
  by (simp_all add: drain_advance_def)


declare drain_loop.simps(2) [simp del]

lemma drain_loop_sound:
  assumes P: "ports_ok P" and depth: "rt_hook_depth s < 255"
    and room: "rp_handled_frontend_events (dl_report v) + dl_remaining_frontend v \<le> u64_max"
      "rp_directives_emitted (dl_report v) + n \<le> u64_max"
    and run: "drain_loop P policy publish n v s = (v', s')"
  shows "\<exists>k m. drain_advance publish k m v s v' s' \<and> m \<le> n \<and>
    (frontend_events (rt_kernel s') = [] \<or> dl_remaining_frontend v' = 0 \<or> dl_backpressure_blocked v' \<or> m = n \<or>
      asked_to_quit (dl_report v'))"
  using depth room run
proof (induction n arbitrary: v s)
  case 0
  then show ?case by (intro exI [of _ 0]) (simp add: drain_advance_def)
next
  case (Suc n)
  obtain taken v1 s1 where taken: "take_event P policy v s = (taken, v1, s1)"
    using prod_cases3 by blast
  define v2 where "v2 = (if taken = None then v1\<lparr> dl_idle_maintenance_ran := True \<rparr> else v1)"
  define s2 where "s2 = (if taken = None then s1\<lparr> rt_active_cause := None \<rparr> else s1)"
  have first: "\<exists>k. drain_advance publish k 0 v s v2 s2"
  proof (cases taken)
    case None
    with taken take_event_none have "drain_advance publish 0 0 v s v2 s2"
      by (fastforce simp: v2_def s2_def drain_advance_def)
    then show ?thesis by blast
  next
    case (Some env)
    then show ?thesis
      using take_event_some [OF P Suc.prems(2), of policy s env v1 s1 publish] taken by (auto simp: v2_def s2_def)
  qed
  then obtain k where k: "drain_advance publish k 0 v s v2 s2" by blast
  show ?case
  proof (cases "taken = None \<and> (\<not> dp_run_idle_maintenance policy \<or> dl_idle_maintenance_ran v1)")
    case True
    then have "v' = v1" "s' = s2" "taken = None"
      using Suc.prems(4) taken by (simp_all add: drain_loop_Suc s2_def split: if_splits)
    then show ?thesis
      using k take_event_none [of P policy v s v1 s1] taken
      by (intro exI [of _ k] exI [of _ 0]) (auto simp: v2_def s2_def drain_advance_def)
  next
    case False
    obtain quit v3 s3 where cycle: "drain_cycle P publish taken v2 s2 = (quit, v3, s3)"
      using prod_cases3 by blast
    have rest: "(v', s') = (if quit then (v3, s3) else drain_loop P policy publish n v3 s3)"
      using Suc.prems(4) taken False cycle
      by (auto simp: drain_loop_Suc v2_def s2_def split: option.splits)
    have "rt_hook_depth s2 < 255" "rp_directives_emitted (dl_report v2) < u64_max"
      using k Suc.prems(1,3) by (simp_all add: drain_advance_def)
    note pump = drain_cycle_sound [OF P this cycle]
    have step: "drain_advance publish k 1 v s v3 s3"
      using drain_advance_trans [OF k, of 0 1 v3 s3] pump by simp
    show ?thesis
    proof (cases quit)
      case True
      with rest pump step show ?thesis
        by (intro exI [of _ k] exI [of _ 1]) simp
    next
      case False
      have "rt_hook_depth s3 < 255" "rp_handled_frontend_events (dl_report v3) + dl_remaining_frontend v3 \<le> u64_max"
        "rp_directives_emitted (dl_report v3) + n \<le> u64_max" "drain_loop P policy publish n v3 s3 = (v', s')"
        using step Suc.prems(1-3) rest False by (simp_all add: drain_advance_def)
      from Suc.IH [OF this] obtain k' m' where "drain_advance publish k' m' v3 s3 v' s'" "m' \<le> n"
        "frontend_events (rt_kernel s') = [] \<or> dl_remaining_frontend v' = 0 \<or> dl_backpressure_blocked v' \<or> m' = n \<or>
          asked_to_quit (dl_report v')"
        by blast
      then show ?thesis
        using drain_advance_trans [OF step, of k' m' v' s'] by (intro exI [of _ "k + k'"] exI [of _ "1 + m'"]) auto
    qed
  qed
qed

lemma port_step_enqueue:
  "wq_seq_next (rt_work s) + 1 < 2 ^ 64 \<Longrightarrow>
   port_step s (s\<lparr> rt_work := snd (enqueue_with_cause now kind scope cause (rt_work s)) \<rparr>)"
  using step_enqueue [of "rt_work s" now kind scope cause] by (simp add: port_step_def r_into_rtranclp)

lemma port_step_refl [simp]: "port_step s s"
  by (simp add: port_step_def)

lemma sample_ports_ok: "ports_ok sample_ports"
  unfolding ports_ok_def sample_ports_def by (simp add: port_step_enqueue)

lemma sample_queue_ok: "wq_ok sample_queue" "replies_balanced {#} sample_queue"
  by (simp_all add: sample_queue_def enqueue_workspace_edit_with_cause_def enqueue_overlay_commit_with_cause_def
      enqueue_with_cause_def wq_default_def wq_ok_def replies_balanced_def pending_txs_def List.map_filter_simps
      is_workspace_edit_def Let_def)

lemma drain_until_idle_outcome:
  assumes P: "ports_ok P" and depth: "rt_hook_depth s < 255" and policy: "policy_ok policy"
    and run: "drain_until_idle P policy s = (r, s')"
  shows "drain_outcome policy s r s'"
proof (cases "dp_max_directives policy = 0")
  case True
  with run show ?thesis
    by (auto simp: drain_until_idle_def drain_until_idle_inner_def drain_outcome_def report_default_def)
next
  case False
  define v0 where "v0 = \<lparr> dl_report = report_default, dl_source_drained = (\<lambda>_. 0), dl_backpressure_blocked = False,
    dl_remaining_frontend = dp_max_frontend_events policy, dl_idle_maintenance_ran = False \<rparr>"
  obtain v where loop: "drain_loop P policy True (dp_max_directives policy) v0 s = (v, s')" and r: "r = finish_drain policy v s'"
    using run False by (auto simp: drain_until_idle_def drain_until_idle_inner_def v0_def split_def prod_eq_iff Let_def)
  have start: "rp_handled_frontend_events (dl_report v0) = 0" "rp_directives_emitted (dl_report v0) = 0"
      "dl_remaining_frontend v0 = dp_max_frontend_events policy"
    by (simp_all add: v0_def report_default_def)
  from drain_loop_sound [OF P depth _ _ loop] policy start obtain k m where
    adv: "drain_advance True k m v0 s v s'" and m: "m \<le> dp_max_directives policy"
      "frontend_events (rt_kernel s') = [] \<or> dl_remaining_frontend v = 0 \<or> dl_backpressure_blocked v \<or>
        m = dp_max_directives policy \<or> asked_to_quit (dl_report v)"
    by (auto simp: policy_ok_def)
  have counts: "rp_handled_frontend_events r = k" "rp_directives_emitted r = m" "dp_max_frontend_events policy = dl_remaining_frontend v + k"
    using adv start by (simp_all add: r finish_drain_def Let_def drain_advance_def)
  have final: "asked_to_quit r = asked_to_quit (dl_report v)"
      "ds_final_event_queue_depth (rp_runtime_stats r) = length (frontend_events (rt_kernel s'))"
      "frontend_events (rt_kernel s') \<noteq> [] \<Longrightarrow> m = dp_max_directives policy \<or> dl_remaining_frontend v = 0 \<or>
        dl_backpressure_blocked v \<Longrightarrow> rp_reached_budget_cap r"
    using adv start by (auto simp: r finish_drain_def Let_def asked_to_quit_def drain_advance_def)
  have "length (kn_directives (rt_kernel s')) = length (kn_directives (rt_kernel s)) + m"
    using adv by (auto simp: drain_advance_def)
  then show ?thesis
    using adv final m unfolding drain_outcome_def counts drain_advance_def by (metis le_add2)
qed




section \<open>Properties\<close>

text \<open>
  C24. Draining the work queue: at most \<open>limit\<close> items are taken, the queue is empty afterwards unless the limit
  was reached or an item asked to quit, every item is counted under exactly one kind, the queue stays in order of
  submission, the Nu hook depth is restored, events are only appended, and every reply sender ever handed to the
  queue has been answered exactly once or still waits with its edit in the queue.
\<close>

theorem work_drain_sound:
  assumes "ports_ok P" "wq_ok (rt_work s)" "replies_balanced {#} (rt_work s)" "rt_hook_depth s < 255"
    and "drain_runtime_work_report P limit s = (r, s')"
  shows "dr_drained_count r \<le> limit \<and>
    (dr_drained_count r < limit \<and> \<not> dr_should_quit r \<longrightarrow> wq_queue (rt_work s') = []) \<and>
    dr_drained_count r = dr_drained_invocations r + dr_applied_overlay_commits r + dr_drained_workspace_edits r \<and>
    wq_ok (rt_work s') \<and> replies_balanced {#} (rt_work s') \<and> rt_hook_depth s' = rt_hook_depth s \<and>
    (\<exists>new. frontend_events (rt_kernel s') = frontend_events (rt_kernel s) @ new)"
  using drain_report_sound [OF assms(1,4,5)] assms(2,3) by (auto simp: rt_keeps_def rt_ok_def)

theorem work_drain_sound_witness:
  "\<exists>r s'. drain_runtime_work_report sample_ports 2 (sample_runtime sample_queue []) = (r, s') \<and>
    dr_drained_count r = 2 \<and> replies_balanced {#} (rt_work s') \<and> map fst (wq_answers (rt_work s')) = [7]"
proof -
  let ?s = "sample_runtime sample_queue []"
  obtain r s' where run: "drain_runtime_work_report sample_ports 2 ?s = (r, s')"
    by fastforce
  have "wq_ok (rt_work ?s)" "replies_balanced {#} (rt_work ?s)" "rt_hook_depth ?s < 255"
    using sample_queue_ok by (simp_all add: sample_runtime_def)
  note sound = work_drain_sound [OF sample_ports_ok this run]
  have "dr_drained_count r = 2" "map fst (wq_answers (rt_work s')) = [7]"
    using run by (auto simp: drain_runtime_work_report_def numeral_2_eq_2 drain_runtime_work.simps sample_runtime_def
        sample_queue_def wq_pop_front_def enqueue_overlay_commit_with_cause_def enqueue_workspace_edit_with_cause_def
        enqueue_with_cause_def wq_default_def drain_report_default_def run_workspace_edit_def take_apply_edit_reply_def
        sample_ports_def answer_def Let_def)
  with run sound show ?thesis
    by (intro exI [of _ r] exI [of _ s']) simp
qed


text \<open>
  C25. One maintenance cycle ends after at most three rounds of at most 32 work items each. It ends for one of three
  reasons, reported as they are: the editor was asked to quit, the last allowed round still made progress, or a
  round made none; in this last case no deferred work is left. Deferred work submitted by the cycle itself is
  included, and replies stay balanced throughout.
\<close>

theorem pump_cycle_converges:
  assumes "ports_ok P" "rt_hook_depth s < 255" "wq_ok (rt_work s)" "replies_balanced {#} (rt_work s)"
    and "run_pump_cycle_with_report P s = ((d, cycle), s')"
  shows "1 \<le> pr_rounds_executed cycle \<and> pr_rounds_executed cycle \<le> 3 \<and>
    length (pr_rounds cycle) = pr_rounds_executed cycle \<and>
    (\<Sum>round\<leftarrow>pr_rounds cycle. rw_drained_runtime_work (rr_work round)) \<le> 32 * pr_rounds_executed cycle \<and>
    (pr_exit_reason cycle = ExitQuit \<longleftrightarrow> ld_should_quit d) \<and>
    (pr_exit_reason cycle = RoundCap \<longrightarrow> pr_rounds_executed cycle = 3) \<and>
    (pr_exit_reason cycle \<noteq> ExitQuit \<and> pr_exit_reason cycle \<noteq> RoundCap \<longrightarrow> wq_queue (rt_work s') = []) \<and>
    wq_ok (rt_work s') \<and> replies_balanced {#} (rt_work s')"
proof -
  note sound = pump_cycle_sound [OF assms(1,2,5)]
  have "(\<Sum>round\<leftarrow>rounds. rw_drained_runtime_work (rr_work round)) \<le> 32 * length rounds"
    if "\<forall>round \<in> set rounds. rw_drained_runtime_work (rr_work round) \<le> 32" for rounds
    using that by (induction rounds) auto
  then have "(\<Sum>round\<leftarrow>pr_rounds cycle. rw_drained_runtime_work (rr_work round)) \<le> 32 * pr_rounds_executed cycle"
    using sound by (metis MAX_RUNTIME_WORK_ITEMS_PER_ROUND_def)
  then show ?thesis
    using sound assms(3,4) by (auto simp: rt_keeps_def rt_ok_def MAX_PUMP_ROUNDS_def)
qed

theorem pump_cycle_converges_witness:
  "\<exists>d cycle s'. run_pump_cycle_with_report sample_ports (sample_runtime sample_queue []) = ((d, cycle), s') \<and>
    pr_rounds_executed cycle \<le> 3 \<and> replies_balanced {#} (rt_work s')"
proof -
  let ?s = "sample_runtime sample_queue []"
  obtain d cycle s' where run: "run_pump_cycle_with_report sample_ports ?s = ((d, cycle), s')"
    by (metis prod.exhaust)
  have "rt_hook_depth ?s < 255" "wq_ok (rt_work ?s)" "replies_balanced {#} (rt_work ?s)"
    using sample_queue_ok by (simp_all add: sample_runtime_def)
  from pump_cycle_converges [OF sample_ports_ok this run] run show ?thesis
    by (intro exI [of _ d] exI [of _ cycle] exI [of _ s']) simp
qed

text \<open>
  One call of the drain takes events from the front of the queue only, within the budgets of the policy, and
  publishes one directive per cycle. Unless the report says that a budget was reached or the editor quits, no event
  is left, not even one submitted while the call ran. The deferred work queue stays sound and every reply sender
  is answered exactly once or still waits.
\<close>

theorem drain_until_idle_correct:
  assumes "ports_ok P" "rt_hook_depth s < 255" "wq_ok (rt_work s)" "replies_balanced {#} (rt_work s)"
    and "policy_ok policy" "drain_until_idle P policy s = (r, s')"
  shows "(\<exists>new. rp_handled_frontend_events r \<le> length (frontend_events (rt_kernel s) @ new) \<and>
       frontend_events (rt_kernel s') = drop (rp_handled_frontend_events r) (frontend_events (rt_kernel s) @ new)) \<and>
    rp_handled_frontend_events r \<le> dp_max_frontend_events policy \<and> rp_directives_emitted r \<le> dp_max_directives policy \<and>
    length (kn_directives (rt_kernel s')) = length (kn_directives (rt_kernel s)) + rp_directives_emitted r \<and>
    (\<not> rp_reached_budget_cap r \<and> \<not> asked_to_quit r \<longrightarrow> frontend_events (rt_kernel s') = []) \<and>
    wq_ok (rt_work s') \<and> replies_balanced {#} (rt_work s') \<and> rt_hook_depth s' = rt_hook_depth s"
  using drain_until_idle_outcome [OF assms(1,2,5,6)] assms(3,4) unfolding drain_outcome_def rt_ok_def by blast

theorem drain_until_idle_correct_witness:
  "\<exists>r s'. drain_until_idle sample_ports policy_default (sample_runtime sample_queue []) = (r, s') \<and>
    rp_handled_frontend_events r \<le> 64 \<and> replies_balanced {#} (rt_work s')"
proof -
  let ?s = "sample_runtime sample_queue []"
  obtain r s' where run: "drain_until_idle sample_ports policy_default ?s = (r, s')"
    by fastforce
  have "rt_hook_depth ?s < 255" "wq_ok (rt_work ?s)" "replies_balanced {#} (rt_work ?s)" "policy_ok policy_default"
    using sample_queue_ok by (simp_all add: sample_runtime_def policy_ok_def policy_default_def u64_max_def)
  from drain_until_idle_correct [OF sample_ports_ok this run] run show ?thesis
    by (intro exI [of _ r] exI [of _ s']) (simp add: policy_default_def)
qed



text \<open>
  A workspace edit whose deadline has passed is skipped without restoring the active cause: its cause stays in
  force for the rest of the cycle.
\<close>

lemma stale_edit_leaks_cause:
  "rt_active_cause (snd (drain_runtime_work_report sample_ports 1
     (sample_runtime (snd (enqueue_workspace_edit_with_cause 3 1 (Some (7, 4)) (Some 9) wq_default)) []))) = Some 9"
  by (simp add: drain_runtime_work_report_def drain_runtime_work.simps sample_runtime_def
      wq_pop_front_def enqueue_workspace_edit_with_cause_def enqueue_with_cause_def wq_default_def
      drain_report_default_def run_workspace_edit_def take_apply_edit_reply_def sample_ports_def answer_def Let_def)

end
