(* ===== verification/Keymap_Parser.thy ===== *)
theory Keymap_Parser
  imports Prelude "HOL-Library.Word"
begin

unbundle bit_operations_syntax

text \<open>
  Key expressions, \<open>crates/keymap/parser\<close>: the nodes of \<open>node.rs\<close> with their printed form, and the
  recursive-descent parser of \<open>parser/mod.rs\<close>.

  Conversions between the variants of an enumeration and their names are derived by the external crate \<open>strum\<close>.
  They are a record of functions; its contract \<open>strum_ok\<close> says what the derive attributes of the source ask for:
  a variant is read from its names in lower case and written as the longest of them, a variant with data is read
  with default data.
\<close>

section \<open>Nodes\<close>

datatype modifier = ModNone | Alt | Cmd | Ctrl | Shift

fun mod_bits :: "modifier \<Rightarrow> 8 word" where
  "mod_bits ModNone = 0"
| "mod_bits Alt = 1"
| "mod_bits Cmd = 2"
| "mod_bits Ctrl = 4"
| "mod_bits Shift = 8"

definition MODIFIERS :: "modifier list" where
  "MODIFIERS = [Alt, Cmd, Ctrl, Shift]"

datatype char_group = Digit | Lower | Upper | Alpha | Alnum | AnyChar

datatype key =
  KBackTab | KBackspace | KDelete | KDown | KEnd | KEnter | KEsc | KHome | KInsert | KLeft | KPageDown | KPageUp |
  KRight | KSpace | KTab | KUp | KF nat | KChar uchar | KGroup char_group

record node =
  nd_modifiers :: "8 word"
  nd_key :: key

definition node_of_key :: "key \<Rightarrow> node" where
  "node_of_key k = \<lparr> nd_modifiers = mod_bits ModNone, nd_key = k \<rparr>"

fun group_matches :: "char_group \<Rightarrow> uchar \<Rightarrow> bool" where
  "group_matches Digit c = is_ascii_digit c"
| "group_matches Lower c = is_ascii_lowercase c"
| "group_matches Upper c = is_ascii_uppercase c"
| "group_matches Alpha c = is_ascii_alphabetic c"
| "group_matches Alnum c = (is_ascii_alphabetic c \<or> is_ascii_digit c)"
| "group_matches AnyChar c = True"

section \<open>Names of variants\<close>

definition lit :: "string \<Rightarrow> utext" where
  "lit s = map of_char s"

record strum_names =
  mod_from_str :: "utext \<Rightarrow> modifier option"
  key_from_str :: "utext \<Rightarrow> key option"
  group_from_str :: "utext \<Rightarrow> char_group option"
  mod_to_string :: "modifier \<Rightarrow> utext"
  key_as_ref :: "key \<Rightarrow> utext"

text \<open>The names the derive attributes give to the variants.\<close>

fun mod_name :: "modifier \<Rightarrow> string" where
  "mod_name ModNone = ''none''"
| "mod_name Alt = ''alt''"
| "mod_name Cmd = ''cmd''"
| "mod_name Ctrl = ''ctrl''"
| "mod_name Shift = ''shift''"

fun key_names :: "key \<Rightarrow> string list" where
  "key_names KBackTab = [''backtab'']"
| "key_names KBackspace = [''backspace'']"
| "key_names KDelete = [''del'', ''delete'']"
| "key_names KDown = [''down'']"
| "key_names KEnd = [''end'']"
| "key_names KEnter = [''enter'']"
| "key_names KEsc = [''esc'']"
| "key_names KHome = [''home'']"
| "key_names KInsert = [''insert'']"
| "key_names KLeft = [''left'']"
| "key_names KPageDown = [''pagedown'']"
| "key_names KPageUp = [''pageup'']"
| "key_names KRight = [''right'']"
| "key_names KSpace = [''space'']"
| "key_names KTab = [''tab'']"
| "key_names KUp = [''up'']"
| "key_names (KF n) = (if n = 0 then [''f''] else [])"
| "key_names (KChar c) = (if c = 0 then [''char''] else [])"
| "key_names (KGroup _) = []"

fun group_name :: "char_group \<Rightarrow> string" where
  "group_name Digit = ''digit''"
| "group_name Lower = ''lower''"
| "group_name Upper = ''upper''"
| "group_name Alpha = ''alpha''"
| "group_name Alnum = ''alnum''"
| "group_name AnyChar = ''any''"

section \<open>Printing\<close>

text \<open>\<open>Display\<close> of a \<open>u8\<close>.\<close>

definition show_u8 :: "nat \<Rightarrow> utext" where
  "show_u8 n = (if n < 10 then [48 + n]
     else if n < 100 then [48 + n div 10, 48 + n mod 10]
     else [48 + n div 100, 48 + n div 10 mod 10, 48 + n mod 10])"

definition show_group :: "char_group \<Rightarrow> utext" where
  "show_group g = lit ''@'' @ lit (group_name g)"

fun show_key :: "strum_names \<Rightarrow> key \<Rightarrow> utext" where
  "show_key S (KChar c) = [c]"
| "show_key S (KF n) = lit ''f'' @ show_u8 n"
| "show_key S (KGroup g) = show_group g"
| "show_key S k = key_as_ref S k"

definition KEY_SEP :: uchar where
  "KEY_SEP = 45"

definition show_node :: "strum_names \<Rightarrow> node \<Rightarrow> utext" where
  "show_node S n =
     concat (map (\<lambda>m. if nd_modifiers n AND mod_bits m \<noteq> 0 then mod_to_string S m @ [KEY_SEP] else []) MODIFIERS) @
     show_key S (nd_key n)"

section \<open>The parser\<close>

record parse_error =
  pe_message :: utext
  pe_position :: nat

record parser =
  ps_input :: utext
  ps_position :: nat

text \<open>A parsing function: its result, an error or an optional value, and the parser afterwards.\<close>

type_synonym 'a parsing = "parser \<Rightarrow> (parse_error + 'a option) \<times> parser"

definition parser_new :: "utext \<Rightarrow> parser" where
  "parser_new s = \<lparr> ps_input = s, ps_position = 0 \<rparr>"

definition peek :: "parser \<Rightarrow> uchar option" where
  "peek p = (case ps_input p of [] \<Rightarrow> None | c # _ \<Rightarrow> Some c)"

definition peek_at :: "nat \<Rightarrow> parser \<Rightarrow> uchar option" where
  "peek_at n p = (if n < length (ps_input p) then Some (ps_input p ! n) else None)"

definition next_char :: "parser \<Rightarrow> uchar option \<times> parser" where
  "next_char p =
     (case ps_input p of
        [] \<Rightarrow> (None, p)
      | c # rest \<Rightarrow> (Some c, \<lparr> ps_input = rest, ps_position = ps_position p + len_utf8 c \<rparr>))"

definition is_end :: "parser \<Rightarrow> bool" where
  "is_end p \<longleftrightarrow> ps_input p = []"

definition take_char :: "uchar \<Rightarrow> parser \<Rightarrow> (parse_error + unit) \<times> parser" where
  "take_char expected p =
     (case next_char p of
        (Some c, p) \<Rightarrow>
          if c = expected then (Inr (), p)
          else (Inl \<lparr> pe_message = lit ''expected '' @ [39, expected, 39] @ lit '', found '' @ [39, c, 39],
                      pe_position = ps_position p - len_utf8 c \<rparr>, p)
      | (None, p) \<Rightarrow>
          (Inl \<lparr> pe_message = lit ''expected '' @ [39, expected, 39] @ lit '', found end of input'',
                 pe_position = ps_position p \<rparr>, p))"

definition try_parse :: "'a parsing \<Rightarrow> 'a parsing" where
  "try_parse f p =
     (case f p of
        (Inr (Some v), p') \<Rightarrow> (Inr (Some v), p')
      | (_, p') \<Rightarrow> (Inr None, p'\<lparr> ps_input := ps_input p, ps_position := ps_position p \<rparr>))"

fun take_while_loop :: "(uchar \<Rightarrow> bool) \<Rightarrow> utext \<Rightarrow> nat \<Rightarrow> utext \<times> utext \<times> nat" where
  "take_while_loop pred [] pos = ([], [], pos)"
| "take_while_loop pred (c # cs) pos =
     (if pred c then let (taken, rest, pos) = take_while_loop pred cs (pos + len_utf8 c) in (c # taken, rest, pos)
      else ([], c # cs, pos))"

definition take_while :: "(uchar \<Rightarrow> bool) \<Rightarrow> parser \<Rightarrow> utext \<times> parser" where
  "take_while pred p =
     (let (taken, rest, pos) = take_while_loop pred (ps_input p) (ps_position p)
      in (taken, \<lparr> ps_input = rest, ps_position = pos \<rparr>))"

fun alt :: "'a parsing list \<Rightarrow> 'a parsing" where
  "alt [] p = (Inr None, p)"
| "alt (f # fs) p =
     (case f p of
        (Inl e, p) \<Rightarrow> (Inl e, p)
      | (Inr (Some v), p) \<Rightarrow> (Inr (Some v), p)
      | (Inr None, p) \<Rightarrow> alt fs p)"

definition perror :: "utext \<Rightarrow> parser \<Rightarrow> parse_error" where
  "perror message p = \<lparr> pe_message = message, pe_position = ps_position p \<rparr>"

definition try_parse_modifier :: "strum_names \<Rightarrow> modifier parsing" where
  "try_parse_modifier S =
     try_parse (\<lambda>p.
       let (name, p) = take_while is_ascii_alphabetic p in
       case mod_from_str S name of
         None \<Rightarrow> (Inr None, p)
       | Some m \<Rightarrow> (case take_char KEY_SEP p of (Inl e, p) \<Rightarrow> (Inl e, p) | (Inr _, p) \<Rightarrow> (Inr (Some m), p)))"

text \<open>\<open>str::parse::<u8>\<close> on a non-empty string of digits.\<close>

definition parse_u8 :: "utext \<Rightarrow> nat option" where
  "parse_u8 ds = (let n = foldl (\<lambda>acc d. 10 * acc + (d - 48)) 0 ds in if n \<le> 255 then Some n else None)"

definition try_parse_fn_key :: "key parsing" where
  "try_parse_fn_key p =
     (if peek p \<noteq> Some 102 then (Inr None, p)
      else if \<not> (case peek_at 1 p of None \<Rightarrow> False | Some c \<Rightarrow> is_ascii_digit c) then (Inr None, p)
      else case take_char 102 p of
          (Inl e, p) \<Rightarrow> (Inl e, p)
        | (Inr _, p) \<Rightarrow>
            let (num, p) = take_while is_ascii_digit p in
            case parse_u8 num of
              Some n \<Rightarrow>
                if 1 \<le> n \<and> n \<le> 35 then (Inr (Some (KF n)), p)
                else (Inl (perror (lit ''invalid function key number (must be 1-35)'') p), p)
            | None \<Rightarrow> (Inl (perror (lit ''invalid function key number (must be 1-35)'') p), p))"

definition try_parse_named_key :: "strum_names \<Rightarrow> key parsing" where
  "try_parse_named_key S =
     try_parse (\<lambda>p.
       let (name, p) = take_while is_ascii_alphabetic p in
       if str_len name < 2 then (Inr None, p)
       else case key_from_str S name of Some k \<Rightarrow> (Inr (Some k), p) | None \<Rightarrow> (Inr None, p))"

definition try_parse_group :: "strum_names \<Rightarrow> key parsing" where
  "try_parse_group S p =
     (if peek p \<noteq> Some 64 \<or> peek_at 1 p = None then (Inr None, p)
      else case take_char 64 p of
          (Inl e, p) \<Rightarrow> (Inl e, p)
        | (Inr _, p) \<Rightarrow>
            let (name, p) = take_while is_ascii_alphabetic p in
            case group_from_str S name of
              Some g \<Rightarrow> (Inr (Some (KGroup g)), p)
            | None \<Rightarrow> (Inl (perror (lit ''unknown char group: '' @ [39, 64] @ name @ [39]) p), p))"

definition try_parse_char :: "key parsing" where
  "try_parse_char p =
     (case peek p of
        None \<Rightarrow> (Inr None, p)
      | Some c \<Rightarrow> if c < 128 then (Inr (Some (KChar c)), snd (next_char p)) else (Inr None, p))"

definition parse_key :: "strum_names \<Rightarrow> parser \<Rightarrow> (parse_error + key) \<times> parser" where
  "parse_key S p =
     (case alt [try_parse_fn_key, try_parse_named_key S, try_parse_group S, try_parse_char] p of
        (Inl e, p) \<Rightarrow> (Inl e, p)
      | (Inr (Some k), p) \<Rightarrow> (Inr k, p)
      | (Inr None, p) \<Rightarrow> (Inl (perror (lit ''expected a valid key'') p), p))"

text \<open>The loop over at most four modifiers.\<close>

fun parse_modifiers :: "strum_names \<Rightarrow> nat \<Rightarrow> 8 word \<Rightarrow> parser \<Rightarrow> (parse_error + 8 word) \<times> parser" where
  "parse_modifiers S 0 bits p = (Inr bits, p)"
| "parse_modifiers S (Suc n) bits p =
     (case try_parse_modifier S p of
        (Inl e, p) \<Rightarrow> (Inl e, p)
      | (Inr (Some m), p) \<Rightarrow> parse_modifiers S n (bits OR mod_bits m) p
      | (Inr None, p) \<Rightarrow> (Inr bits, p))"

definition parse_node :: "strum_names \<Rightarrow> parser \<Rightarrow> (parse_error + node) \<times> parser" where
  "parse_node S p =
     (case parse_modifiers S 4 0 p of
        (Inl e, p) \<Rightarrow> (Inl e, p)
      | (Inr bits, p) \<Rightarrow>
          (case parse_key S p of
             (Inl e, p) \<Rightarrow> (Inl e, p)
           | (Inr k, p) \<Rightarrow> (Inr \<lparr> nd_modifiers = bits, nd_key = k \<rparr>, p)))"

definition parse :: "strum_names \<Rightarrow> utext \<Rightarrow> parse_error + node" where
  "parse S s =
     (case parse_node S (parser_new s) of
        (Inl e, _) \<Rightarrow> Inl e
      | (Inr n, p) \<Rightarrow>
          (case ps_input p of
             [] \<Rightarrow> Inr n
           | c # _ \<Rightarrow> Inl (perror (lit ''expect end of input, found: '' @ [c]) p)))"

text \<open>\<open>str::split_whitespace\<close>.\<close>

fun split_whitespace_from :: "utext \<Rightarrow> utext \<Rightarrow> utext list" where
  "split_whitespace_from word [] = (if word = [] then [] else [word])"
| "split_whitespace_from word (c # cs) =
     (if is_whitespace c then (if word = [] then [] else [word]) @ split_whitespace_from [] cs
      else split_whitespace_from (word @ [c]) cs)"

definition split_whitespace :: "utext \<Rightarrow> utext list" where
  "split_whitespace s = split_whitespace_from [] s"

fun parse_all :: "strum_names \<Rightarrow> utext list \<Rightarrow> parse_error + node list" where
  "parse_all S [] = Inr []"
| "parse_all S (w # ws) =
     (case parse S w of
        Inl e \<Rightarrow> Inl e
      | Inr n \<Rightarrow> (case parse_all S ws of Inl e \<Rightarrow> Inl e | Inr ns \<Rightarrow> Inr (n # ns)))"

definition parse_seq :: "strum_names \<Rightarrow> utext \<Rightarrow> parse_error + node list" where
  "parse_seq S s = parse_all S (split_whitespace s)"

section \<open>Specification predicates\<close>

definition strum_ok :: "strum_names \<Rightarrow> bool" where
  "strum_ok S \<longleftrightarrow>
     (\<forall>s m. mod_from_str S s = Some m \<longleftrightarrow> s = lit (mod_name m)) \<and>
     (\<forall>s k. key_from_str S s = Some k \<longleftrightarrow> s \<in> lit ` set (key_names k)) \<and>
     (\<forall>s g. group_from_str S s = Some g \<longleftrightarrow> s = lit (group_name g)) \<and>
     (\<forall>m. mod_to_string S m = lit (mod_name m)) \<and>
     (\<forall>k. key_names k \<noteq> [] \<longrightarrow> key_as_ref S k = lit (last (key_names k)))"

text \<open>The grammar of key expressions.\<close>

definition decimal :: "utext \<Rightarrow> nat" where
  "decimal ds = foldl (\<lambda>acc d. 10 * acc + (d - 48)) 0 ds"

inductive key_text :: "utext \<Rightarrow> key \<Rightarrow> bool" where
  fn_key: "ds \<noteq> [] \<Longrightarrow> \<forall>d \<in> set ds. is_ascii_digit d \<Longrightarrow> 1 \<le> decimal ds \<Longrightarrow> decimal ds \<le> 35 \<Longrightarrow> key_text (102 # ds) (KF (decimal ds))"
| named_key: "name \<in> set (key_names k) \<Longrightarrow> 2 \<le> length name \<Longrightarrow> key_text (lit name) k"
| group_key: "key_text (64 # lit (group_name g)) (KGroup g)"
| char_key: "c < 128 \<Longrightarrow> key_text [c] (KChar c)"

fun modifiers_text :: "modifier list \<Rightarrow> utext" where
  "modifiers_text [] = []"
| "modifiers_text (m # ms) = lit (mod_name m) @ KEY_SEP # modifiers_text ms"

fun modifiers_bits :: "modifier list \<Rightarrow> 8 word" where
  "modifiers_bits [] = 0"
| "modifiers_bits (m # ms) = mod_bits m OR modifiers_bits ms"

definition node_text :: "utext \<Rightarrow> node \<Rightarrow> bool" where
  "node_text s n \<longleftrightarrow> (\<exists>ms t. length ms \<le> 4 \<and> s = modifiers_text ms @ t \<and> nd_modifiers n = modifiers_bits ms \<and> key_text t (nd_key n))"

text \<open>The keys a printed node can be read back from.\<close>

fun printable_key :: "key \<Rightarrow> bool" where
  "printable_key (KChar c) = (c < 128)"
| "printable_key (KF n) = (1 \<le> n \<and> n \<le> 35)"
| "printable_key _ = True"

text \<open>An instance of the derived conversions, by search through the variants.\<close>

definition all_modifiers :: "modifier list" where
  "all_modifiers = [ModNone, Alt, Cmd, Ctrl, Shift]"

definition all_groups :: "char_group list" where
  "all_groups = [Digit, Lower, Upper, Alpha, Alnum, AnyChar]"

definition all_named_keys :: "key list" where
  "all_named_keys = [KBackTab, KBackspace, KDelete, KDown, KEnd, KEnter, KEsc, KHome, KInsert, KLeft, KPageDown, KPageUp,
     KRight, KSpace, KTab, KUp, KF 0, KChar 0]"

definition searched_names :: strum_names where
  "searched_names =
     \<lparr> mod_from_str = (\<lambda>s. find (\<lambda>m. s = lit (mod_name m)) all_modifiers),
       key_from_str = (\<lambda>s. find (\<lambda>k. s \<in> set (map lit (key_names k))) all_named_keys),
       group_from_str = (\<lambda>s. find (\<lambda>g. s = lit (group_name g)) all_groups),
       mod_to_string = (\<lambda>m. lit (mod_name m)),
       key_as_ref = (\<lambda>k. if key_names k = [] then [] else lit (last (key_names k))) \<rparr>"



definition shown_modifiers :: "8 word \<Rightarrow> modifier list" where
  "shown_modifiers bits = filter (\<lambda>m. bits AND mod_bits m \<noteq> 0) MODIFIERS"

section \<open>Lemmas\<close>

lemma take_while_loop_eq:
  "take_while_loop pred cs pos = (takeWhile pred cs, dropWhile pred cs, pos + str_len (takeWhile pred cs))"
  by (induction cs arbitrary: pos) (simp_all add: str_len_def)

lemma take_while_eq:
  "take_while pred p = (takeWhile pred (ps_input p),
     \<lparr> ps_input = dropWhile pred (ps_input p), ps_position = ps_position p + str_len (takeWhile pred (ps_input p)) \<rparr>)"
  by (simp add: take_while_def take_while_loop_eq)


lemma str_len_simps [simp]: "str_len [] = 0" "str_len (c # cs) = len_utf8 c + str_len cs"
  by (simp_all add: str_len_def)


lemma str_len_ascii: "\<forall>c \<in> set cs. is_ascii_alphabetic c \<Longrightarrow> str_len cs = length cs"
  by (induction cs) (auto simp: len_utf8_def is_ascii_alphabetic_def is_ascii_lowercase_def is_ascii_uppercase_def)

lemma not_alpha [simp]: "\<not> is_ascii_alphabetic KEY_SEP" "\<not> is_ascii_alphabetic 64" "is_ascii_alphabetic 102"
  by (simp_all add: is_ascii_alphabetic_def is_ascii_lowercase_def is_ascii_uppercase_def KEY_SEP_def)

lemma digit_not_alpha: "is_ascii_digit c \<Longrightarrow> \<not> is_ascii_alphabetic c"
  by (auto simp: is_ascii_alphabetic_def is_ascii_lowercase_def is_ascii_uppercase_def is_ascii_digit_def)

lemma names_alpha:
  "\<forall>c \<in> set (lit (mod_name m)). is_ascii_alphabetic c" "\<forall>c \<in> set (lit (group_name g)). is_ascii_alphabetic c"
  "name \<in> set (key_names k) \<Longrightarrow> \<forall>c \<in> set (lit name). is_ascii_alphabetic c"
proof -
  show "\<forall>c \<in> set (lit (mod_name m)). is_ascii_alphabetic c"
    by (cases m) (simp_all add: lit_def is_ascii_alphabetic_def is_ascii_lowercase_def)
  show "\<forall>c \<in> set (lit (group_name g)). is_ascii_alphabetic c"
    by (cases g) (simp_all add: lit_def is_ascii_alphabetic_def is_ascii_lowercase_def)
  show "\<forall>c \<in> set (lit name). is_ascii_alphabetic c" if "name \<in> set (key_names k)"
    using that by (cases k) (auto simp: lit_def is_ascii_alphabetic_def is_ascii_lowercase_def split: if_splits)
qed

lemma take_name:
  assumes "\<forall>c \<in> set name. is_ascii_alphabetic c" "rest = [] \<or> \<not> is_ascii_alphabetic (hd rest)"
  shows "takeWhile is_ascii_alphabetic (name @ rest) = name" "dropWhile is_ascii_alphabetic (name @ rest) = rest"
  using assms by (cases rest; simp add: takeWhile_append dropWhile_append takeWhile_eq_all_conv dropWhile_eq_Nil_conv)+

subsection \<open>Modifiers\<close>

lemma take_char_eq:
  "ps_input p = c # rest \<Longrightarrow> take_char c p = (Inr (), \<lparr> ps_input = rest, ps_position = ps_position p + len_utf8 c \<rparr>)"
  by (simp add: take_char_def next_char_def)

lemma take_char_Inr:
  "take_char c p = (Inr u, p') \<Longrightarrow> \<exists>rest. ps_input p = c # rest \<and> p' = \<lparr> ps_input = rest, ps_position = ps_position p + len_utf8 c \<rparr>"
  by (auto simp: take_char_def next_char_def split: list.splits if_splits)

lemma try_parse_modifier_present:
  assumes S: "strum_ok S" and p: "ps_input p = lit (mod_name m) @ KEY_SEP # rest"
  shows "try_parse_modifier S p = (Inr (Some m),
    \<lparr> ps_input = rest, ps_position = ps_position p + str_len (lit (mod_name m)) + len_utf8 KEY_SEP \<rparr>)"
proof -
  note name = take_name [OF names_alpha(1), of "KEY_SEP # rest" m]
  have "mod_from_str S (lit (mod_name m)) = Some m"
    using S by (simp add: strum_ok_def)
  then show ?thesis
    using p name by (simp add: try_parse_modifier_def try_parse_def take_while_eq take_char_eq)
qed

lemma try_parse_modifier_cases:
  assumes S: "strum_ok S" and run: "try_parse_modifier S p = (r, p')"
  shows "(\<exists>m. r = Inr (Some m) \<and> ps_input p = lit (mod_name m) @ KEY_SEP # ps_input p') \<or> (r = Inr None \<and> p' = p)"
proof (cases "r = Inr None")
  case True
  with run show ?thesis
    by (auto simp: try_parse_modifier_def try_parse_def split: prod.splits sum.splits option.splits)
next
  case False
  let ?name = "takeWhile is_ascii_alphabetic (ps_input p)" and ?p1 = "snd (take_while is_ascii_alphabetic p)"
  from False run obtain m u where m: "mod_from_str S ?name = Some m" "take_char KEY_SEP ?p1 = (Inr u, p')" "r = Inr (Some m)"
    by (auto simp: try_parse_modifier_def try_parse_def take_while_eq split: sum.splits option.splits prod.splits)
  then have "?name = lit (mod_name m)" "dropWhile is_ascii_alphabetic (ps_input p) = KEY_SEP # ps_input p'"
    using S take_char_Inr [OF m(2)] by (auto simp: strum_ok_def take_while_eq)
  then show ?thesis
    using m(3) takeWhile_dropWhile_id [of is_ascii_alphabetic "ps_input p"] by metis
qed

lemma key_text_no_modifier:
  assumes "key_text t k"
  shows "t \<noteq> lit (mod_name m) @ KEY_SEP # rest"
proof
  assume t: "t = lit (mod_name m) @ KEY_SEP # rest"
  have "\<forall>c \<in> set t. is_ascii_alphabetic c \<or> is_ascii_digit c \<or> c = 64 \<or> t = [c]"
    using assms names_alpha by cases auto
  moreover have "\<not> is_ascii_digit KEY_SEP" "KEY_SEP \<noteq> 64" "KEY_SEP \<in> set t"
    by (simp_all add: t KEY_SEP_def is_ascii_digit_def)
  moreover have "t \<noteq> [KEY_SEP]"
    by (cases m) (simp_all add: t lit_def)
  ultimately show False
    by auto
qed

lemma parse_modifiers_text:
  assumes S: "strum_ok S" and t: "key_text t k"
  shows "ps_input p = modifiers_text ms @ t \<Longrightarrow> length ms \<le> n \<Longrightarrow>
    \<exists>pos. parse_modifiers S n bits p = (Inr (bits OR modifiers_bits ms), \<lparr> ps_input = t, ps_position = pos \<rparr>)"
proof (induction ms arbitrary: n bits p)
  case Nil
  show ?case
  proof (cases n)
    case (Suc n')
    obtain r p' where run: "try_parse_modifier S p = (r, p')"
      by fastforce
    have "r = Inr None \<and> p' = p"
      using try_parse_modifier_cases [OF S run] key_text_no_modifier [OF t] Nil(1) by auto
    then show ?thesis
      using Suc run Nil(1) by (auto intro: exI [of _ "ps_position p"])
  qed (use Nil in \<open>auto intro: exI [of _ "ps_position p"]\<close>)
next
  case (Cons m ms)
  then obtain n' where n: "n = Suc n'" "length ms \<le> n'"
    by (cases n) auto
  define p1 where "p1 = \<lparr> ps_input = modifiers_text ms @ t, ps_position = ps_position p + str_len (lit (mod_name m)) + len_utf8 KEY_SEP \<rparr>"
  have "try_parse_modifier S p = (Inr (Some m), p1)"
    unfolding p1_def by (rule try_parse_modifier_present [OF S]) (use Cons.prems in simp)
  then show ?case
    using Cons.IH [of p1 n' "bits OR mod_bits m"] n by (simp add: p1_def or.assoc)
qed

lemma parse_modifiers_sound:
  assumes S: "strum_ok S"
  shows "parse_modifiers S n bits p = (r, p') \<Longrightarrow>
    \<exists>ms. length ms \<le> n \<and> r = Inr (bits OR modifiers_bits ms) \<and> ps_input p = modifiers_text ms @ ps_input p'"
proof (induction n arbitrary: bits p)
  case 0
  then show ?case by (auto intro: exI [of _ "[]"])
next
  case (Suc n)
  obtain r1 p1 where run: "try_parse_modifier S p = (r1, p1)"
    by fastforce
  from try_parse_modifier_cases [OF S this] show ?case
  proof
    assume "\<exists>m. r1 = Inr (Some m) \<and> ps_input p = lit (mod_name m) @ KEY_SEP # ps_input p1"
    then obtain m where m: "r1 = Inr (Some m)" "ps_input p = lit (mod_name m) @ KEY_SEP # ps_input p1"
      by blast
    then obtain ms where "length ms \<le> n" "r = Inr ((bits OR mod_bits m) OR modifiers_bits ms)" "ps_input p1 = modifiers_text ms @ ps_input p'"
      using Suc.IH [of "bits OR mod_bits m" p1] Suc.prems run by auto
    then show ?thesis
      using m by (intro exI [of _ "m # ms"]) (simp add: or.assoc)
  next
    assume "r1 = Inr None \<and> p1 = p"
    then show ?thesis
      using Suc.prems run by (intro exI [of _ "[]"]) auto
  qed
qed

subsection \<open>Keys\<close>

lemma fn_key_run:
  assumes "ps_input p = 102 # d # ds" "is_ascii_digit d"
  defines "num \<equiv> takeWhile is_ascii_digit (d # ds)"
  defines "p' \<equiv> \<lparr> ps_input = dropWhile is_ascii_digit (d # ds), ps_position = ps_position p + len_utf8 102 + str_len num \<rparr>"
  shows "try_parse_fn_key p =
    (if 1 \<le> decimal num \<and> decimal num \<le> 35 then (Inr (Some (KF (decimal num))), p')
     else (Inl (perror (lit ''invalid function key number (must be 1-35)'') p'), p'))"
  using assms by (auto simp: try_parse_fn_key_def peek_def peek_at_def take_char_eq take_while_eq parse_u8_def Let_def decimal_def)

lemma fn_key_none:
  "\<not> (\<exists>d ds. ps_input p = 102 # d # ds \<and> is_ascii_digit d) \<Longrightarrow> try_parse_fn_key p = (Inr None, p)"
  by (cases "ps_input p" rule: remdups_adj.cases)
    (auto simp: try_parse_fn_key_def peek_def peek_at_def)

lemma named_key_run:
  fixes p :: parser
  defines "name \<equiv> takeWhile is_ascii_alphabetic (ps_input p)"
  shows "try_parse_named_key S p =
    (case if length name < 2 then None else key_from_str S name of
       None \<Rightarrow> (Inr None, p)
     | Some k \<Rightarrow> (Inr (Some k), \<lparr> ps_input = dropWhile is_ascii_alphabetic (ps_input p), ps_position = ps_position p + str_len name \<rparr>))"
proof -
  have "str_len name = length name"
    unfolding name_def by (intro str_len_ascii) (auto dest: set_takeWhileD)
  then show ?thesis
    by (auto simp: try_parse_named_key_def try_parse_def take_while_eq name_def split: option.splits)
qed

lemma group_run:
  assumes "ps_input p = 64 # c # cs"
  defines "name \<equiv> takeWhile is_ascii_alphabetic (c # cs)"
  defines "p' \<equiv> \<lparr> ps_input = dropWhile is_ascii_alphabetic (c # cs), ps_position = ps_position p + len_utf8 64 + str_len name \<rparr>"
  shows "try_parse_group S p =
    (case group_from_str S name of
       Some g \<Rightarrow> (Inr (Some (KGroup g)), p')
     | None \<Rightarrow> (Inl (perror (lit ''unknown char group: '' @ [39, 64] @ name @ [39]) p'), p'))"
  using assms by (auto simp: try_parse_group_def peek_def peek_at_def take_char_eq take_while_eq Let_def split: option.splits)

lemma group_none: "\<not> (\<exists>c cs. ps_input p = 64 # c # cs) \<Longrightarrow> try_parse_group S p = (Inr None, p)"
  by (cases "ps_input p" rule: remdups_adj.cases) (auto simp: try_parse_group_def peek_def peek_at_def)

lemma char_run:
  "try_parse_char p =
     (case ps_input p of
        [] \<Rightarrow> (Inr None, p)
      | c # cs \<Rightarrow> if c < 128 then (Inr (Some (KChar c)), \<lparr> ps_input = cs, ps_position = ps_position p + len_utf8 c \<rparr>) else (Inr None, p))"
  by (simp add: try_parse_char_def peek_def next_char_def split: list.split)

lemmas key_runs = fn_key_none named_key_run group_none char_run

lemma all_run: "\<forall>c \<in> set cs. pred c \<Longrightarrow> takeWhile pred cs = cs \<and> dropWhile pred cs = []"
  by (simp add: takeWhile_eq_all_conv dropWhile_eq_Nil_conv)

lemma lit_Cons: "2 \<le> length name \<Longrightarrow> \<exists>a b rest. lit name = a # b # rest"
  by (cases name rule: remdups_adj.cases) (simp_all add: lit_def)

lemma parse_key_complete:
  assumes S: "strum_ok S" and t: "key_text t k" and p: "ps_input p = t"
  shows "\<exists>pos. parse_key S p = (Inr k, \<lparr> ps_input = [], ps_position = pos \<rparr>)"
  using t
proof cases
  case (fn_key ds)
  then obtain d ds' where ds: "ds = d # ds'" by (cases ds) auto
  with fn_key have "is_ascii_digit d" by simp
  from fn_key_run [of p d ds', OF _ this] show ?thesis
    using fn_key ds p by (simp add: parse_key_def all_run)
next
  case (named_key name)
  obtain a b rest where lit: "lit name = a # b # rest"
    using lit_Cons [OF named_key(3)] by blast
  note alpha = names_alpha(3) [OF named_key(2)]
  have "\<not> is_ascii_digit b"
    using alpha lit digit_not_alpha by auto
  then have fn: "try_parse_fn_key p = (Inr None, p)"
    using p named_key(1) lit by (intro fn_key_none) auto
  have "key_from_str S (lit name) = Some k"
    using S named_key(2) by (simp add: strum_ok_def)
  then have "try_parse_named_key S p = (Inr (Some k), \<lparr> ps_input = [], ps_position = ps_position p + str_len (lit name) \<rparr>)"
    using p named_key(1,3) alpha by (simp add: named_key_run all_run) (simp add: lit_def)
  with fn show ?thesis
    by (simp add: parse_key_def)
next
  case (group_key g)
  then obtain c cs where cs: "lit (group_name g) = c # cs"
    by (cases g) (simp_all add: lit_def)
  have p': "ps_input p = 64 # c # cs"
    using p group_key(1) cs by simp
  have "try_parse_fn_key p = (Inr None, p)" "try_parse_named_key S p = (Inr None, p)"
    using p' by (simp_all add: fn_key_none named_key_run)
  moreover have "group_from_str S (c # cs) = Some g"
    using S cs by (simp add: strum_ok_def)
  then have "try_parse_group S p = (Inr (Some (KGroup g)), \<lparr> ps_input = [], ps_position = ps_position p + len_utf8 64 + str_len (c # cs) \<rparr>)"
    using take_name [OF names_alpha(2), of "[]" g] cs by (simp add: group_run [OF p'])
  ultimately show ?thesis
    by (simp add: parse_key_def group_key(2))
next
  case (char_key c)
  have "length (takeWhile is_ascii_alphabetic [c]) < 2"
    by simp
  then show ?thesis
    using char_key p by (simp add: parse_key_def key_runs)
qed

lemma parse_key_sound:
  assumes S: "strum_ok S" and run: "parse_key S p = (Inr k, p')" and final: "ps_input p' = []"
  shows "key_text (ps_input p) k"
proof (cases "\<exists>d ds. ps_input p = 102 # d # ds \<and> is_ascii_digit d")
  case True
  then obtain d ds where p: "ps_input p = 102 # d # ds" and d: "is_ascii_digit d" by blast
  let ?num = "takeWhile is_ascii_digit (d # ds)"
  have res: "1 \<le> decimal ?num" "decimal ?num \<le> 35" "k = KF (decimal ?num)" "dropWhile is_ascii_digit (d # ds) = []"
    using run final by (auto simp: parse_key_def fn_key_run [OF p d] split: if_splits)
  then have "\<forall>c \<in> set ds. is_ascii_digit c"
    using d by (simp add: dropWhile_eq_Nil_conv)
  then show ?thesis
    using d res(1-3) p key_text.fn_key [of "d # ds"] by (simp add: all_run)
next
  case False
  note fn = fn_key_none [OF False]
  let ?name = "takeWhile is_ascii_alphabetic (ps_input p)"
  show ?thesis
  proof (cases "2 \<le> length ?name \<and> key_from_str S ?name \<noteq> None")
    case True
    then have "key_from_str S ?name = Some k" "dropWhile is_ascii_alphabetic (ps_input p) = []"
      using run final fn by (auto simp: parse_key_def named_key_run split: option.splits)
    then obtain name where name: "name \<in> set (key_names k)" "?name = lit name"
      using S by (auto simp: strum_ok_def)
    moreover have "ps_input p = lit name"
      using \<open>dropWhile _ _ = []\<close> takeWhile_dropWhile_id [of is_ascii_alphabetic "ps_input p"] name(2) by (metis append_Nil2)
    moreover have "2 \<le> length name"
      using True name(2) by (metis length_map lit_def)
    ultimately show ?thesis
      using key_text.named_key by metis
  next
    case False
    then have named: "try_parse_named_key S p = (Inr None, p)"
      by (auto simp: named_key_run)
    show ?thesis
    proof (cases "\<exists>c cs. ps_input p = 64 # c # cs")
      case True
      then obtain c cs where p: "ps_input p = 64 # c # cs" by blast
      let ?group = "takeWhile is_ascii_alphabetic (c # cs)"
      obtain g where "group_from_str S ?group = Some g" "k = KGroup g" "dropWhile is_ascii_alphabetic (c # cs) = []"
        using run final fn named by (auto simp: parse_key_def group_run [OF p] split: option.splits)
      then have "lit (group_name g) = c # cs" "k = KGroup g"
        using S takeWhile_dropWhile_id [of is_ascii_alphabetic "c # cs"] by (auto simp: strum_ok_def)
      then show ?thesis
        using p key_text.group_key [of g] by simp
    next
      case False
      then show ?thesis
        using run final fn named char_key
        by (auto simp: parse_key_def group_none char_run split: list.splits if_splits)
    qed
  qed
qed

lemma find_Some_unique:
  assumes "x \<in> set xs" "P x" "\<And>y. y \<in> set xs \<Longrightarrow> P y \<Longrightarrow> y = x"
  shows "find P xs = Some x"
  using assms
proof (induction xs)
  case (Cons y ys)
  then show ?case
    by (cases "P y") (metis find.simps(2) list.set_intros set_ConsD)+
qed simp

lemma find_Some_holds: "find P xs = Some x \<Longrightarrow> P x"
  by (induction xs) (auto split: if_splits)

lemma lit_inj: "lit a = lit b \<longleftrightarrow> a = b"
  unfolding lit_def using inj_map_eq_map [of of_char a b] by (simp add: inj_on_def)

lemma mod_name_inj: "mod_name a = mod_name b \<longleftrightarrow> a = b"
  by (cases a; cases b) simp_all

lemma group_name_inj: "group_name a = group_name b \<longleftrightarrow> a = b"
  by (cases a; cases b) simp_all

lemma key_names_unique: "name \<in> set (key_names a) \<Longrightarrow> b \<in> set all_named_keys \<Longrightarrow> name \<in> set (key_names b) \<Longrightarrow> a = b"
  by (cases a) (auto simp: all_named_keys_def split: if_splits)

lemma named_key_listed: "name \<in> set (key_names k) \<Longrightarrow> k \<in> set all_named_keys"
  by (cases k) (auto simp: all_named_keys_def split: if_splits)

lemma searched_names_ok: "strum_ok searched_names"
proof -
  have "find (\<lambda>m. s = lit (mod_name m)) all_modifiers = Some m \<longleftrightarrow> s = lit (mod_name m)" for s m
  proof
    assume "s = lit (mod_name m)"
    then show "find (\<lambda>m. s = lit (mod_name m)) all_modifiers = Some m"
      by (intro find_Some_unique) (cases m, simp_all add: all_modifiers_def lit_inj mod_name_inj)
  qed (rule find_Some_holds)
  moreover have "find (\<lambda>g. s = lit (group_name g)) all_groups = Some g \<longleftrightarrow> s = lit (group_name g)" for s g
  proof
    assume "s = lit (group_name g)"
    then show "find (\<lambda>g. s = lit (group_name g)) all_groups = Some g"
      by (intro find_Some_unique) (cases g, simp_all add: all_groups_def lit_inj group_name_inj)
  qed (rule find_Some_holds)
  moreover have "find (\<lambda>k. s \<in> lit ` set (key_names k)) all_named_keys = Some k \<longleftrightarrow> s \<in> lit ` set (key_names k)" for s k
  proof
    assume "s \<in> lit ` set (key_names k)"
    then show "find (\<lambda>k. s \<in> lit ` set (key_names k)) all_named_keys = Some k"
      by (intro find_Some_unique) (auto simp: lit_inj dest: named_key_listed key_names_unique)
  qed (rule find_Some_holds)
  ultimately show ?thesis
    by (simp add: strum_ok_def searched_names_def)
qed

subsection \<open>Positions\<close>














subsection \<open>Printing and reading back\<close>

lemma parse_iff:
  assumes S: "strum_ok S"
  shows "parse S s = Inr n \<longleftrightarrow> node_text s n"
proof
  assume run: "parse S s = Inr n"
  obtain r1 p1 where mods: "parse_modifiers S 4 0 (parser_new s) = (r1, p1)"
    by fastforce
  obtain ms where ms: "length ms \<le> 4" "r1 = Inr (modifiers_bits ms)" "s = modifiers_text ms @ ps_input p1"
    using parse_modifiers_sound [OF S mods] by (auto simp: parser_new_def)
  obtain p2 where "parse_key S p1 = (Inr (nd_key n), p2)" "ps_input p2 = []" "nd_modifiers n = modifiers_bits ms"
    using run mods ms(2) by (auto simp: parse_def parse_node_def split: prod.splits sum.splits list.splits)
  then show "node_text s n"
    using ms parse_key_sound [OF S] by (auto simp: node_text_def)
next
  assume "node_text s n"
  then obtain ms t where parts: "length ms \<le> 4" "s = modifiers_text ms @ t" "nd_modifiers n = modifiers_bits ms" "key_text t (nd_key n)"
    by (auto simp: node_text_def)
  obtain pos where mods: "parse_modifiers S 4 0 (parser_new s) = (Inr (modifiers_bits ms), \<lparr> ps_input = t, ps_position = pos \<rparr>)"
    using parse_modifiers_text [OF S parts(4), of "parser_new s" ms 4 0] parts(1,2) by (auto simp: parser_new_def)
  obtain pos' where "parse_key S \<lparr> ps_input = t, ps_position = pos \<rparr> = (Inr (nd_key n), \<lparr> ps_input = [], ps_position = pos' \<rparr>)"
    using parse_key_complete [OF S parts(4), of "\<lparr> ps_input = t, ps_position = pos \<rparr>"] by auto
  then show "parse S s = Inr n"
    using mods parts(3) by (simp add: parse_def parse_node_def)
qed


lemma low_bits_cases:
  fixes bits :: "8 word"
  assumes "bits < 16"
  shows "bits \<in> {0, 1, 2, 3, 4, 5, 6, 7, 8, 9, 10, 11, 12, 13, 14, 15}"
proof -
  have "unat bits \<in> {0..<16}"
    using assms by (simp add: word_less_nat_alt)
  then have "bits \<in> of_nat ` {0..<16}"
    by (metis imageI of_nat_unat ucast_id)
  then show ?thesis
    by (auto simp: atLeastLessThan_nat_numeral)
qed

lemma shown_modifiers_bits: "bits < 16 \<Longrightarrow> modifiers_bits (shown_modifiers bits) = bits"
  using low_bits_cases [of bits] by (auto simp: shown_modifiers_def MODIFIERS_def)

lemma shown_key_text:
  assumes S: "strum_ok S" and k: "printable_key k"
  shows "key_text (show_key S k) k"
proof (cases "key_names k = [] \<or> (\<exists>c. k = KChar c)")
  case True
  have "n \<in> {1..35}" if "k = KF n" for n
    using k that by simp
  then have "show_u8 n \<noteq> [] \<and> (\<forall>d \<in> set (show_u8 n). is_ascii_digit d) \<and> decimal (show_u8 n) = n" if "k = KF n" for n
    using that by (auto simp: show_u8_def is_ascii_digit_def decimal_def)
  then have "key_text (show_key S k) k" if "k = KF n" for n
    using that k key_text.fn_key [of "show_u8 n"] by (simp add: lit_def)
  then show ?thesis
    using True k key_text.group_key char_key by (cases k) (auto simp: show_group_def lit_def)
next
  case False
  then have "show_key S k = lit (last (key_names k))" "last (key_names k) \<in> set (key_names k)" "2 \<le> length (last (key_names k))"
    using S k by (cases k; simp add: strum_ok_def)+
  then show ?thesis
    using key_text.named_key by simp
qed


lemma shown_node_text:
  assumes S: "strum_ok S" and bits: "nd_modifiers n < 16" and k: "printable_key (nd_key n)"
  shows "node_text (show_node S n) n"
proof -
  have loop: "concat (map (\<lambda>m. if nd_modifiers n AND mod_bits m \<noteq> 0 then mod_to_string S m @ [KEY_SEP] else []) ms) =
      modifiers_text (filter (\<lambda>m. nd_modifiers n AND mod_bits m \<noteq> 0) ms)" for ms
    using S by (induction ms) (auto simp: strum_ok_def)
  have "length (shown_modifiers (nd_modifiers n)) \<le> length MODIFIERS"
    unfolding shown_modifiers_def by (rule length_filter_le)
  then have "length (shown_modifiers (nd_modifiers n)) \<le> 4"
    by (simp add: MODIFIERS_def)
  moreover have "show_node S n = modifiers_text (shown_modifiers (nd_modifiers n)) @ show_key S (nd_key n)"
    by (simp only: show_node_def loop shown_modifiers_def)
  ultimately show ?thesis
    unfolding node_text_def using shown_modifiers_bits [OF bits] shown_key_text [OF S k] by metis
qed

section \<open>Properties\<close>



text \<open>
  Printing a node and parsing the result gives the node back, for every combination of the four modifiers and
  every key: named keys, groups, function keys 1 to 35 and ASCII characters.
\<close>

theorem show_parse_roundtrip:
  assumes "strum_ok S" "nd_modifiers n < 16" "printable_key (nd_key n)"
  shows "parse S (show_node S n) = Inr n"
  using parse_iff [OF assms(1)] shown_node_text [OF assms] by blast

theorem show_parse_roundtrip_witness:
  "parse searched_names (show_node searched_names \<lparr> nd_modifiers = 13, nd_key = KF 12 \<rparr>) =
     Inr \<lparr> nd_modifiers = 13, nd_key = KF 12 \<rparr>"
  using show_parse_roundtrip [OF searched_names_ok, of "\<lparr> nd_modifiers = 13, nd_key = KF 12 \<rparr>"] by simp

text \<open>The word \<open>char\<close> is read as the key of the null character.\<close>

lemma char_reads_as_nul: "parse searched_names (lit ''char'') = Inr \<lparr> nd_modifiers = 0, nd_key = KChar 0 \<rparr>"
proof -
  have "node_text (lit ''char'') \<lparr> nd_modifiers = 0, nd_key = KChar 0 \<rparr>"
    unfolding node_text_def using key_text.named_key [of "''char''" "KChar 0"]
    by (intro exI [of _ "[]"] exI [of _ "lit ''char''"]) simp
  then show ?thesis
    using parse_iff [OF searched_names_ok] by blast
qed

end
