(* ===== verification/Keymap_Matcher.thy ===== *)
theory Keymap_Matcher
  imports Keymap_Parser
begin

text \<open>
  The key sequence matcher, \<open>crates/keymap/core/src/matcher/mod.rs\<close>: a trie over nodes whose edges are exact keys
  or character groups, with the search for a value, the lookup that tells complete from partial matches, and the
  continuations shown for a prefix.

  A trie node keeps its exact children in a hash map. The model keeps them in an association list whose order is
  one order in which the map may be traversed; only the continuations depend on it.
\<close>

section \<open>The trie\<close>

datatype 'a trie =
  Trie (tr_value: "'a option") (tr_exact: "(node \<times> 'a trie) list") (tr_groups: "(node \<times> 'a trie) list")

datatype 'a match_result = Complete 'a | Partial "'a option" | NoMatch

datatype continuation_kind = Leaf | Branch

record 'a continuation_entry =
  ce_key :: node
  ce_value :: "'a option"
  ce_kind :: continuation_kind

definition trie_new :: "'a trie" where
  "trie_new = Trie None [] []"

fun is_group :: "key \<Rightarrow> bool" where
  "is_group (KGroup _) = True"
| "is_group _ = False"

text \<open>The child under a key, created when there is none.\<close>

fun update_child :: "node \<Rightarrow> ('a trie \<Rightarrow> 'a trie) \<Rightarrow> (node \<times> 'a trie) list \<Rightarrow> (node \<times> 'a trie) list" where
  "update_child n f [] = [(n, f trie_new)]"
| "update_child n f ((m, t) # children) = (if m = n then (m, f t) # children else (m, t) # update_child n f children)"

primrec trie_add :: "node list \<Rightarrow> 'a \<Rightarrow> 'a trie \<Rightarrow> 'a trie" where
  "trie_add [] v t = Trie (Some v) (tr_exact t) (tr_groups t)"
| "trie_add (n # ns) v t =
     (if is_group (nd_key n) then Trie (tr_value t) (tr_exact t) (update_child n (trie_add ns v) (tr_groups t))
      else Trie (tr_value t) (update_child n (trie_add ns v) (tr_exact t)) (tr_groups t))"

fun find_map :: "('b \<Rightarrow> 'c option) \<Rightarrow> 'b list \<Rightarrow> 'c option" where
  "find_map f [] = None"
| "find_map f (x # xs) = (case f x of Some y \<Rightarrow> Some y | None \<Rightarrow> find_map f xs)"

definition is_any :: "node \<Rightarrow> bool" where
  "is_any n \<longleftrightarrow> nd_key n = KGroup AnyChar"

definition group_edge :: "node \<Rightarrow> uchar \<Rightarrow> node \<Rightarrow> bool" where
  "group_edge input ch n =
     (case nd_key n of KGroup g \<Rightarrow> nd_modifiers n = nd_modifiers input \<and> group_matches g ch | _ \<Rightarrow> False)"

primrec search :: "node list \<Rightarrow> 'a trie \<Rightarrow> 'a option" where
  "search [] t = tr_value t"
| "search (n # ns) t =
     (case (case map_of (tr_exact t) n of None \<Rightarrow> None | Some child \<Rightarrow> search ns child) of
        Some r \<Rightarrow> Some r
      | None \<Rightarrow>
          (case (case nd_key n of
                   KChar ch \<Rightarrow> find_map (\<lambda>(m, child). if group_edge n ch m then search ns child else None) (tr_groups t)
                 | _ \<Rightarrow> None) of
             Some r \<Rightarrow> Some r
           | None \<Rightarrow> find_map (\<lambda>(m, child). if is_any m then search ns child else None) (tr_groups t)))"

definition has_children :: "'a trie \<Rightarrow> bool" where
  "has_children t \<longleftrightarrow> tr_exact t \<noteq> [] \<or> tr_groups t \<noteq> []"

text \<open>The first child on the list that is on the way and whose result is a match.\<close>

fun first_match :: "('b \<Rightarrow> bool) \<Rightarrow> ('b \<Rightarrow> 'a match_result) \<Rightarrow> 'b list \<Rightarrow> 'a match_result" where
  "first_match ok f [] = NoMatch"
| "first_match ok f (x # xs) =
     (if ok x then (case f x of NoMatch \<Rightarrow> first_match ok f xs | r \<Rightarrow> r) else first_match ok f xs)"

primrec lookup_with_info :: "node list \<Rightarrow> 'a trie \<Rightarrow> 'a match_result" where
  "lookup_with_info [] t =
     (if has_children t then Partial (tr_value t)
      else case tr_value t of Some v \<Rightarrow> Complete v | None \<Rightarrow> NoMatch)"
| "lookup_with_info (n # ns) t =
     (case (case map_of (tr_exact t) n of Some child \<Rightarrow> lookup_with_info ns child | None \<Rightarrow> NoMatch) of
        NoMatch \<Rightarrow>
          (case (case nd_key n of
                   KChar ch \<Rightarrow> first_match (\<lambda>(m, _). group_edge n ch m) (\<lambda>(_, child). lookup_with_info ns child) (tr_groups t)
                 | _ \<Rightarrow> NoMatch) of
             NoMatch \<Rightarrow> first_match (\<lambda>(m, _). is_any m) (\<lambda>(_, child). lookup_with_info ns child) (tr_groups t)
           | r \<Rightarrow> r)
      | r \<Rightarrow> r)"

primrec navigate_to :: "node list \<Rightarrow> 'a trie \<Rightarrow> 'a trie option" where
  "navigate_to [] t = Some t"
| "navigate_to (n # ns) t =
     (case map_of (tr_exact t) n of
        Some child \<Rightarrow> navigate_to ns child
      | None \<Rightarrow>
          (case (case nd_key n of KChar ch \<Rightarrow> find (\<lambda>(m, _). group_edge n ch m) (tr_groups t) | _ \<Rightarrow> None) of
             Some (_, child) \<Rightarrow> navigate_to ns child
           | None \<Rightarrow>
               (case find (\<lambda>(m, _). is_any m) (tr_groups t) of
                  Some (_, child) \<Rightarrow> navigate_to ns child
                | None \<Rightarrow> None)))"

section \<open>The matcher\<close>

record 'a matcher =
  mt_root :: "'a trie"

definition matcher_new :: "'a matcher" where
  "matcher_new = \<lparr> mt_root = trie_new \<rparr>"

definition matcher_add :: "node list \<Rightarrow> 'a \<Rightarrow> 'a matcher \<Rightarrow> 'a matcher" where
  "matcher_add pattern v m = m\<lparr> mt_root := trie_add pattern v (mt_root m) \<rparr>"

definition matcher_from_iter :: "(node list \<times> 'a) list \<Rightarrow> 'a matcher" where
  "matcher_from_iter bindings = foldl (\<lambda>m (pattern, v). matcher_add pattern v m) matcher_new bindings"

definition matcher_get :: "'a matcher \<Rightarrow> node list \<Rightarrow> 'a option" where
  "matcher_get m nodes = search nodes (mt_root m)"

definition matcher_lookup :: "'a matcher \<Rightarrow> node list \<Rightarrow> 'a match_result" where
  "matcher_lookup m nodes = lookup_with_info nodes (mt_root m)"

definition continuations_at :: "'a matcher \<Rightarrow> node list \<Rightarrow> (node \<times> 'a option) list" where
  "continuations_at m prefix =
     (case navigate_to prefix (mt_root m) of
        None \<Rightarrow> []
      | Some t \<Rightarrow> map (\<lambda>(k, child). (k, tr_value child)) (tr_exact t) @ map (\<lambda>(k, child). (k, tr_value child)) (tr_groups t))"

definition continuation_of :: "node \<times> 'a trie \<Rightarrow> 'a continuation_entry" where
  "continuation_of = (\<lambda>(k, child).
     \<lparr> ce_key = k, ce_value = tr_value child, ce_kind = (if has_children child then Branch else Leaf) \<rparr>)"

definition continuations_with_kind :: "'a matcher \<Rightarrow> node list \<Rightarrow> 'a continuation_entry list" where
  "continuations_with_kind m prefix =
     (case navigate_to prefix (mt_root m) of
        None \<Rightarrow> []
      | Some t \<Rightarrow> map continuation_of (tr_exact t) @ map continuation_of (tr_groups t))"

section \<open>Specification predicates\<close>

text \<open>Which input an edge accepts.\<close>

definition edge_matches :: "node \<Rightarrow> node \<Rightarrow> bool" where
  "edge_matches p input \<longleftrightarrow> (p = input \<and> \<not> is_group (nd_key p)) \<or> (\<exists>ch. nd_key input = KChar ch \<and> group_edge input ch p) \<or> is_any p"

definition pattern_matches :: "node list \<Rightarrow> node list \<Rightarrow> bool" where
  "pattern_matches = list_all2 edge_matches"

text \<open>The value bound to a pattern: the last one given.\<close>

definition bound :: "(node list \<times> 'a) list \<Rightarrow> node list \<Rightarrow> 'a option" where
  "bound bindings = map_of (rev bindings)"

definition child_at :: "'a trie \<Rightarrow> node \<Rightarrow> 'a trie option" where
  "child_at t n = (if is_group (nd_key n) then map_of (tr_groups t) n else map_of (tr_exact t) n)"

primrec sub_trie :: "node list \<Rightarrow> 'a trie \<Rightarrow> 'a trie option" where
  "sub_trie [] t = Some t"
| "sub_trie (n # ns) t = (case child_at t n of None \<Rightarrow> None | Some child \<Rightarrow> sub_trie ns child)"

definition inhabited :: "'a trie \<Rightarrow> bool" where
  "inhabited t \<longleftrightarrow> tr_value t \<noteq> None \<or> has_children t"

text \<open>
  Children have distinct keys of the right kind, and none is a dead end.
\<close>

inductive trie_ok :: "'a trie \<Rightarrow> bool" where
  trie_ok_node:
    "distinct (map fst (tr_exact t)) \<Longrightarrow> distinct (map fst (tr_groups t)) \<Longrightarrow>
     \<forall>(n, child) \<in> set (tr_exact t). \<not> is_group (nd_key n) \<and> inhabited child \<and> trie_ok child \<Longrightarrow>
     \<forall>(n, child) \<in> set (tr_groups t). is_group (nd_key n) \<and> inhabited child \<and> trie_ok child \<Longrightarrow> trie_ok t"

text \<open>
  The reference: the children an input may lead to in order of priority, and all the nodes of the trie an input
  sequence may lead to, in lexicographic order of those choices.
\<close>

definition choices :: "'a trie \<Rightarrow> node \<Rightarrow> 'a trie list" where
  "choices t n =
     (case map_of (tr_exact t) n of None \<Rightarrow> [] | Some child \<Rightarrow> [child]) @
     (case nd_key n of KChar ch \<Rightarrow> map snd (filter (\<lambda>(m, _). group_edge n ch m) (tr_groups t)) | _ \<Rightarrow> []) @
     map snd (filter (\<lambda>(m, _). is_any m) (tr_groups t))"

primrec all_matches :: "node list \<Rightarrow> 'a trie \<Rightarrow> 'a trie list" where
  "all_matches [] t = [t]"
| "all_matches (n # ns) t = concat (map (all_matches ns) (choices t n))"

definition classify :: "'a trie \<Rightarrow> 'a match_result" where
  "classify t = lookup_with_info [] t"

definition value_at :: "node list \<Rightarrow> 'a trie \<Rightarrow> 'a option" where
  "value_at p t = (case sub_trie p t of None \<Rightarrow> None | Some t' \<Rightarrow> tr_value t')"

section \<open>Lemmas\<close>

subsection \<open>Search and lookup against the reference\<close>

lemma find_map_append: "find_map f (xs @ ys) = (case find_map f xs of Some y \<Rightarrow> Some y | None \<Rightarrow> find_map f ys)"
  by (induction xs) (auto split: option.split)

lemma find_map_filter:
  "find_map (\<lambda>(m, child). if ok m then f child else None) xs = find_map f (map snd (filter (\<lambda>(m, _). ok m) xs))"
  by (induction xs) (auto split: option.split if_splits)

lemma find_map_concat: "find_map f (concat xss) = find_map (find_map f) xss"
  by (induction xss) (auto simp: find_map_append split: option.split)

lemma find_map_map: "find_map f (map g xs) = find_map (\<lambda>x. f (g x)) xs"
  by (induction xs) (auto split: option.split)



lemma search_choices: "search (n # ns) t = find_map (search ns) (choices t n)"
  by (auto simp: choices_def find_map_append find_map_filter split: option.split key.split)

lemma search_reference: "search ns t = find_map tr_value (all_matches ns t)"
proof (induction ns arbitrary: t)
  case (Cons n ns)
  have "search ns = (\<lambda>t :: 'a trie. find_map tr_value (all_matches ns t))"
    by (rule ext) (rule Cons.IH)
  then show ?case
    by (simp add: search_choices find_map_concat find_map_map del: search.simps)
qed (simp split: option.split)

lemma first_match_append:
  "first_match ok f (xs @ ys) = (case first_match ok f xs of NoMatch \<Rightarrow> first_match ok f ys | r \<Rightarrow> r)"
  by (induction xs) (auto split: match_result.split)

lemma first_match_filter:
  "first_match (\<lambda>(m, _). ok m) (\<lambda>(_, child). f child) xs = first_match (\<lambda>_. True) f (map snd (filter (\<lambda>(m, _). ok m) xs))"
  by (induction xs) (auto split: match_result.split)

lemma first_match_concat:
  "first_match (\<lambda>_. True) f (concat xss) = first_match (\<lambda>_. True) (first_match (\<lambda>_. True) f) xss"
  by (induction xss) (auto simp: first_match_append split: match_result.split)

lemma first_match_map: "first_match (\<lambda>_. True) f (map g xs) = first_match (\<lambda>_. True) (\<lambda>x. f (g x)) xs"
  by (induction xs) (auto split: match_result.split)

lemma lookup_choices: "lookup_with_info (n # ns) t = first_match (\<lambda>_. True) (lookup_with_info ns) (choices t n)"
  by (auto simp: choices_def first_match_append first_match_filter split: option.split key.split match_result.split)

lemma lookup_reference: "lookup_with_info ns t = first_match (\<lambda>_. True) classify (all_matches ns t)"
proof (induction ns arbitrary: t)
  case Nil
  then show ?case by (simp add: classify_def split: match_result.split option.split)
next
  case (Cons n ns)
  have "lookup_with_info ns = (\<lambda>t :: 'a trie. first_match (\<lambda>_. True) classify (all_matches ns t))"
    by (rule ext) (rule Cons.IH)
  then show ?case
    by (simp add: lookup_choices first_match_concat first_match_map del: lookup_with_info.simps)
qed

lemma first_match_cases:
  "(first_match (\<lambda>_. True) f xs = NoMatch \<and> (\<forall>x \<in> set xs. f x = NoMatch)) \<or>
   (\<exists>before x after. xs = before @ x # after \<and> (\<forall>y \<in> set before. f y = NoMatch) \<and> f x \<noteq> NoMatch \<and>
      first_match (\<lambda>_. True) f xs = f x)"
proof (induction xs)
  case (Cons x xs)
  show ?case
  proof (cases "f x = NoMatch")
    case True
    then have "first_match (\<lambda>_. True) f (x # xs) = first_match (\<lambda>_. True) f xs" by simp
    with Cons True show ?thesis
      by (metis (no_types, lifting) append_Cons set_ConsD)
  next
    case False
    then have "first_match (\<lambda>_. True) f (x # xs) = f x" by (cases "f x") simp_all
    with False show ?thesis
      by (intro disjI2 exI [of _ "[]"]) auto
  qed
qed simp


subsection \<open>Where the matches are\<close>

inductive_cases trie_okE: "trie_ok t"

lemma trie_okD:
  assumes "trie_ok t"
  shows "distinct (map fst (tr_exact t))" "distinct (map fst (tr_groups t))"
    "(n, child) \<in> set (tr_exact t) \<Longrightarrow> \<not> is_group (nd_key n) \<and> inhabited child \<and> trie_ok child"
    "(n, child) \<in> set (tr_groups t) \<Longrightarrow> is_group (nd_key n) \<and> inhabited child \<and> trie_ok child"
  using assms by (auto elim: trie_okE)

lemma child_at_Some:
  assumes ok: "trie_ok t"
  shows "child_at t n = Some child \<longleftrightarrow> (n, child) \<in> set (tr_exact t) \<or> (n, child) \<in> set (tr_groups t)"
  using trie_okD [OF ok] by (auto simp: child_at_def)

lemma child_ok:
  assumes "trie_ok t" "child_at t n = Some child"
  shows "trie_ok child \<and> inhabited child"
  using assms child_at_Some trie_okD by blast

lemma choices_iff:
  assumes ok: "trie_ok t"
  shows "child \<in> set (choices t n) \<longleftrightarrow> (\<exists>p. edge_matches p n \<and> child_at t p = Some child)"
proof
  assume "child \<in> set (choices t n)"
  then consider "map_of (tr_exact t) n = Some child"
    | ch m where "nd_key n = KChar ch" "group_edge n ch m" "(m, child) \<in> set (tr_groups t)"
    | m where "is_any m" "(m, child) \<in> set (tr_groups t)"
    by (auto simp: choices_def split: option.splits key.splits) metis+
  then show "\<exists>p. edge_matches p n \<and> child_at t p = Some child"
  proof cases
    case 1
    then show ?thesis
      using trie_okD(3) [OF ok] child_at_Some [OF ok] map_of_SomeD by (metis edge_matches_def)
  next
    case 2
    then show ?thesis
      using child_at_Some [OF ok] by (auto simp: edge_matches_def)
  next
    case 3
    then show ?thesis
      using child_at_Some [OF ok] by (auto simp: edge_matches_def)
  qed
next
  assume "\<exists>p. edge_matches p n \<and> child_at t p = Some child"
  then obtain p where p: "edge_matches p n" "child_at t p = Some child" by blast
  have group: "(p, child) \<in> set (tr_groups t)" if "is_group (nd_key p)"
    using p(2) that by (auto simp: child_at_def dest: map_of_SomeD)
  from p(1) consider "p = n" "\<not> is_group (nd_key p)" | ch where "nd_key n = KChar ch" "group_edge n ch p" | "is_any p"
    by (auto simp: edge_matches_def)
  then show "child \<in> set (choices t n)"
  proof cases
    case 1
    then show ?thesis
      using p(2) by (simp add: choices_def child_at_def)
  next
    case 2
    then have "is_group (nd_key p)"
      by (auto simp: group_edge_def split: key.splits)
    with group 2 show ?thesis
      by (force simp: choices_def)
  next
    case 3
    then have "is_group (nd_key p)"
      by (simp add: is_any_def)
    with group 3 show ?thesis
      by (force simp: choices_def)
  qed
qed

lemma sub_trie_Cons: "sub_trie (n # p) t = Some t' \<longleftrightarrow> (\<exists>child. child_at t n = Some child \<and> sub_trie p child = Some t')"
  by (simp split: option.split)

lemma all_matches_iff:
  "trie_ok t \<Longrightarrow> t' \<in> set (all_matches ns t) \<longleftrightarrow> (\<exists>p. pattern_matches p ns \<and> sub_trie p t = Some t')"
proof (induction ns arbitrary: t)
  case Nil
  then show ?case by (auto simp: pattern_matches_def)
next
  case (Cons n ns)
  have "t' \<in> set (all_matches (n # ns) t) \<longleftrightarrow> (\<exists>child q. child \<in> set (choices t n) \<and> pattern_matches q ns \<and> sub_trie q child = Some t')"
  proof -
    have "t' \<in> set (all_matches ns child) \<longleftrightarrow> (\<exists>q. pattern_matches q ns \<and> sub_trie q child = Some t')"
      if "child \<in> set (choices t n)" for child
      using that Cons.IH choices_iff [OF Cons.prems] child_ok [OF Cons.prems] by blast
    then show ?thesis
      by auto
  qed
  also have "\<dots> \<longleftrightarrow> (\<exists>p q. edge_matches p n \<and> pattern_matches q ns \<and> sub_trie (p # q) t = Some t')"
    using choices_iff [OF Cons.prems] sub_trie_Cons by metis
  also have "\<dots> \<longleftrightarrow> (\<exists>p. pattern_matches p (n # ns) \<and> sub_trie p t = Some t')"
    unfolding pattern_matches_def list_all2_Cons2 by (metis sub_trie.simps(2))
  finally show ?case .
qed

lemma sub_trie_ok: "trie_ok t \<Longrightarrow> sub_trie p t = Some t' \<Longrightarrow> trie_ok t' \<and> (p \<noteq> [] \<longrightarrow> inhabited t')"
proof (induction p arbitrary: t)
  case (Cons n p)
  then obtain child where child: "child_at t n = Some child" "sub_trie p child = Some t'"
    by (auto split: option.splits)
  with Cons.IH [of child] child_ok [OF Cons.prems(1) child(1)] show ?case
    by (cases p) auto
qed simp

lemma sub_trie_append: "sub_trie (p @ q) t = (case sub_trie p t of None \<Rightarrow> None | Some t' \<Rightarrow> sub_trie q t')"
  by (induction p arbitrary: t) (auto split: option.split)

subsection \<open>Adding bindings\<close>

lemma map_of_update_child:
  "map_of (update_child n f children) m =
     (if m = n then Some (f (case map_of children n of None \<Rightarrow> trie_new | Some t \<Rightarrow> t)) else map_of children m)"
  by (induction children) (auto split: option.split)

lemma keys_update_child: "fst ` set (update_child n f children) = insert n (fst ` set children)"
proof (induction children)
  case (Cons c children)
  then show ?case by (cases c) auto
qed simp

lemma distinct_update_child: "distinct (map fst children) \<Longrightarrow> distinct (map fst (update_child n f children))"
proof (induction children)
  case (Cons c children)
  obtain m t where c: "c = (m, t)" by fastforce
  show ?case
  proof (cases "m = n")
    case False
    then show ?thesis
      using Cons c keys_update_child [of n f children] by auto
  qed (use Cons c in auto)
qed simp

lemma set_update_child:
  "(m, t) \<in> set (update_child n f children) \<Longrightarrow>
   (m, t) \<in> set children \<or> (m = n \<and> (t = f trie_new \<or> (\<exists>t'. (n, t') \<in> set children \<and> t = f t')))"
  by (induction children) (auto split: if_splits)

lemma child_at_add:
  "child_at (trie_add (n # p) v t) m =
     (if m = n then Some (trie_add p v (case child_at t n of None \<Rightarrow> trie_new | Some c \<Rightarrow> c)) else child_at t m)"
  by (auto simp: child_at_def map_of_update_child)

lemma value_at_simps:
  "value_at [] t = tr_value t"
  "value_at (n # p) t = (case child_at t n of None \<Rightarrow> None | Some child \<Rightarrow> value_at p child)"
  by (simp_all add: value_at_def split: option.split)

lemma value_at_new: "value_at p trie_new = None"
  by (cases p) (simp_all add: value_at_simps trie_new_def child_at_def)

lemma tr_value_add: "tr_value (trie_add (n # p) v t) = tr_value t"
  by simp

lemma value_at_add: "value_at q (trie_add p v t) = (if q = p then Some v else value_at q t)"
proof (induction p arbitrary: q t)
  case Nil
  then show ?case
    by (cases q) (simp_all add: value_at_simps child_at_def split: option.split)
next
  case (Cons n p)
  show ?case
  proof (cases q)
    case Nil
    then show ?thesis
      by (simp add: value_at_simps)
  next
    case (Cons m q')
    have "value_at q' (case child_at t n of None \<Rightarrow> trie_new | Some c \<Rightarrow> c) = value_at (n # q') t"
      by (simp add: value_at_simps value_at_new split: option.split)
    then show ?thesis
      using Cons by (simp add: value_at_simps child_at_add Cons.IH del: trie_add.simps)
  qed
qed

lemma trie_ok_new: "trie_ok trie_new"
  by (rule trie_ok_node) (simp_all add: trie_new_def)

lemma trie_add_inhabited: "inhabited (trie_add p v t)"
proof (cases p)
  case (Cons n q)
  have "update_child n f xs \<noteq> []" for f :: "'a trie \<Rightarrow> 'a trie" and xs
    using keys_update_child [of n f xs] by auto
  with Cons show ?thesis
    by (simp add: inhabited_def has_children_def)
qed (simp add: inhabited_def)

lemma trie_okI:
  assumes "distinct (map fst (tr_exact t))" "distinct (map fst (tr_groups t))"
    "\<And>n c. (n, c) \<in> set (tr_exact t) \<Longrightarrow> \<not> is_group (nd_key n) \<and> inhabited c \<and> trie_ok c"
    "\<And>n c. (n, c) \<in> set (tr_groups t) \<Longrightarrow> is_group (nd_key n) \<and> inhabited c \<and> trie_ok c"
  shows "trie_ok t"
  using assms by (intro trie_ok_node) auto

lemma trie_ok_add: "trie_ok t \<Longrightarrow> trie_ok (trie_add p v t)"
proof (induction p arbitrary: t)
  case Nil
  then show ?case
    using trie_okD [OF Nil] by (intro trie_ok_node) auto
next
  case (Cons n p)
  note ok = trie_okD [OF Cons.prems]
  have child: "inhabited child \<and> trie_ok child \<and> (m = n \<or> (m, child) \<in> set children)"
    if "(m, child) \<in> set (update_child n (trie_add p v) children)" "\<forall>(m, c) \<in> set children. inhabited c \<and> trie_ok c"
    for m child children
    using set_update_child [OF that(1)]
  proof (elim disjE conjE exE)
    assume "(m, child) \<in> set children"
    with that(2) show ?thesis by blast
  next
    assume "m = n" "child = trie_add p v trie_new"
    then show ?thesis using Cons.IH [OF trie_ok_new] trie_add_inhabited by simp
  next
    fix t' assume "m = n" "(n, t') \<in> set children" "child = trie_add p v t'"
    then show ?thesis using Cons.IH [of t'] that(2) trie_add_inhabited by auto
  qed
  show ?case
  proof (cases "is_group (nd_key n)")
    case True
    then have root: "trie_add (n # p) v t = Trie (tr_value t) (tr_exact t) (update_child n (trie_add p v) (tr_groups t))"
      by simp
    show ?thesis
      unfolding root using ok(1,3,4) True child [of _ _ "tr_groups t"] distinct_update_child [OF ok(2)]
      by (intro trie_okI) (simp_all, blast+)
  next
    case False
    then have root: "trie_add (n # p) v t = Trie (tr_value t) (update_child n (trie_add p v) (tr_exact t)) (tr_groups t)"
      by simp
    show ?thesis
      unfolding root using ok(2,3,4) False child [of _ _ "tr_exact t"] distinct_update_child [OF ok(1)]
      by (intro trie_okI) (simp_all, blast+)
  qed
qed

lemma bound_snoc: "bound (bs @ [(p, v)]) q = (if q = p then Some v else bound bs q)"
  by (simp add: bound_def)

lemma from_iter_snoc: "mt_root (matcher_from_iter (bs @ [(p, v)])) = trie_add p v (mt_root (matcher_from_iter bs))"
  by (simp add: matcher_from_iter_def matcher_add_def)

lemma from_iter_ok: "trie_ok (mt_root (matcher_from_iter bs)) \<and> value_at q (mt_root (matcher_from_iter bs)) = bound bs q"
proof (induction bs rule: rev_induct)
  case Nil
  then show ?case
    by (simp add: matcher_from_iter_def matcher_new_def trie_ok_new value_at_new bound_def)
next
  case (snoc b bs)
  obtain p v where b: "b = (p, v)" by fastforce
  show ?case
    unfolding b from_iter_snoc using snoc by (simp add: trie_ok_add value_at_add bound_snoc)
qed

subsection \<open>Values below a node\<close>

lemma value_below:
  assumes "trie_ok t" "inhabited t"
  shows "\<exists>q. value_at q t \<noteq> None"
  using assms
proof (induction t rule: trie_ok.induct)
  case (trie_ok_node t)
  show ?case
  proof (cases "tr_value t = None")
    case True
    then have "has_children t"
      using trie_ok_node.prems by (simp add: inhabited_def)
    then obtain n child where "(n, child) \<in> set (tr_exact t) \<or> (n, child) \<in> set (tr_groups t)"
      unfolding has_children_def by (metis list.set_intros(1) neq_Nil_conv surj_pair)
    moreover from this obtain q where "value_at q child \<noteq> None"
      using trie_ok_node.IH by blast
    moreover have "trie_ok t"
      using trie_ok_node.hyps trie_ok_node.IH by (intro trie_okI) blast+
    ultimately have "value_at (n # q) t \<noteq> None"
      using child_at_Some [of t n child] by (simp add: value_at_simps)
    then show ?thesis by blast
  qed (use value_at_simps(1) in metis)
qed

lemma children_have_values:
  assumes ok: "trie_ok t"
  shows "has_children t \<longleftrightarrow> (\<exists>q. q \<noteq> [] \<and> value_at q t \<noteq> None)"
proof
  assume "has_children t"
  then obtain n child where "(n, child) \<in> set (tr_exact t) \<or> (n, child) \<in> set (tr_groups t)"
    unfolding has_children_def by (metis list.set_intros(1) neq_Nil_conv surj_pair)
  then have child: "child_at t n = Some child"
    using child_at_Some [OF ok] by blast
  then obtain q where "value_at q child \<noteq> None"
    using child_ok [OF ok] value_below by blast
  with child show "\<exists>q. q \<noteq> [] \<and> value_at q t \<noteq> None"
    by (intro exI [of _ "n # q"]) (simp add: value_at_simps)
next
  assume "\<exists>q. q \<noteq> [] \<and> value_at q t \<noteq> None"
  then obtain n q where "value_at (n # q) t \<noteq> None"
    by (metis neq_Nil_conv)
  then show "has_children t"
    by (auto simp: value_at_simps child_at_def has_children_def split: option.splits if_splits)
qed

lemma value_at_append: "value_at (p @ q) t = (case sub_trie p t of None \<Rightarrow> None | Some t' \<Rightarrow> value_at q t')"
  by (simp add: value_at_def sub_trie_append split: option.split)

lemma exact_first:
  "sub_trie ns t = Some t' \<Longrightarrow> \<forall>n \<in> set ns. \<not> is_group (nd_key n) \<Longrightarrow> \<exists>rest. all_matches ns t = t' # rest"
proof (induction ns arbitrary: t)
  case (Cons n ns)
  then obtain child where child: "child_at t n = Some child" "sub_trie ns child = Some t'"
    by (auto split: option.splits)
  moreover have "\<exists>others. choices t n = child # others"
    using child(1) Cons.prems(2) by (simp add: choices_def child_at_def)
  ultimately show ?case
    using Cons.IH [of child] Cons.prems(2) by auto
qed simp

lemma classify_NoMatch: "trie_ok t \<Longrightarrow> classify t = NoMatch \<longleftrightarrow> (\<forall>q. value_at q t = None)"
  using value_below [of t] children_have_values [of t] value_at_simps(1) [of t]
  by (cases "tr_value t") (simp_all add: classify_def inhabited_def, metis+)

lemma classify_value: "classify t = NoMatch \<Longrightarrow> tr_value t = None"
  by (auto simp: classify_def split: if_splits option.splits)

lemma find_map_skip: "\<forall>y \<in> set before. f y = None \<Longrightarrow> f x = Some v \<Longrightarrow> find_map f (before @ x # after) = Some v"
  by (induction before) auto

text \<open>A lookup that succeeds, seen from the node it found.\<close>

lemma lookup_found:
  assumes ok: "trie_ok t" and res: "lookup_with_info ns t \<noteq> NoMatch"
  obtains t' p where "pattern_matches p ns" "sub_trie p t = Some t'" "trie_ok t'" "lookup_with_info ns t = classify t'"
    "\<And>v. tr_value t' = Some v \<Longrightarrow> search ns t = Some v"
proof -
  from first_match_cases [of classify "all_matches ns t"] res obtain before t' after where
    split: "all_matches ns t = before @ t' # after" "\<forall>y \<in> set before. classify y = NoMatch" "lookup_with_info ns t = classify t'"
    by (auto simp: lookup_reference)
  have "t' \<in> set (all_matches ns t)"
    using split(1) by simp
  then obtain p where p: "pattern_matches p ns" "sub_trie p t = Some t'"
    using all_matches_iff [OF ok] by blast
  have "search ns t = Some v" if "tr_value t' = Some v" for v
    unfolding search_reference split(1) using that split(2) classify_value by (intro find_map_skip) auto
  with that p sub_trie_ok [OF ok p(2)] split(3) show thesis
    by blast
qed

lemma value_at_below: "sub_trie p t = Some t' \<Longrightarrow> value_at (p @ q) t = value_at q t'"
  by (simp add: value_at_append)

lemma lookup_NoMatch_iff:
  assumes ok: "trie_ok t"
  shows "lookup_with_info ns t = NoMatch \<longleftrightarrow> \<not> (\<exists>p q. pattern_matches p ns \<and> value_at (p @ q) t \<noteq> None)"
proof -
  have "lookup_with_info ns t = NoMatch \<longleftrightarrow> (\<forall>t' \<in> set (all_matches ns t). classify t' = NoMatch)"
    using first_match_cases [of classify "all_matches ns t"] by (auto simp: lookup_reference)
  moreover have "classify t' = NoMatch \<longleftrightarrow> (\<forall>q. value_at q t' = None)" if "t' \<in> set (all_matches ns t)" for t'
    using that all_matches_iff [OF ok] sub_trie_ok [OF ok] classify_NoMatch by blast
  moreover have "value_at (p @ q) t \<noteq> None \<Longrightarrow> \<exists>t'. sub_trie p t = Some t' \<and> value_at q t' \<noteq> None" for p q
    by (auto simp: value_at_append split: option.splits)
  ultimately show ?thesis
    using all_matches_iff [OF ok] value_at_below by metis
qed

lemma lookup_Complete:
  assumes ok: "trie_ok t" and res: "lookup_with_info ns t = Complete v"
  shows "search ns t = Some v \<and>
    (\<exists>p. pattern_matches p ns \<and> value_at p t = Some v \<and> (\<forall>q. q \<noteq> [] \<longrightarrow> value_at (p @ q) t = None))"
proof (rule lookup_found [OF ok])
  show "lookup_with_info ns t \<noteq> NoMatch"
    using res by simp
  fix t' p
  assume found: "pattern_matches p ns" "sub_trie p t = Some t'" "trie_ok t'" "lookup_with_info ns t = classify t'"
    "\<And>v. tr_value t' = Some v \<Longrightarrow> search ns t = Some v"
  then have "tr_value t' = Some v" "\<not> has_children t'"
    using res by (auto simp: classify_def split: if_splits option.splits)
  then show ?thesis
    using found value_at_below [OF found(2)] children_have_values [OF found(3)]
    by (intro conjI exI [of _ p]) (auto simp: value_at_def)
qed

lemma lookup_Partial:
  assumes ok: "trie_ok t" and res: "lookup_with_info ns t = Partial w"
  shows "(w \<noteq> None \<longrightarrow> search ns t = w) \<and>
    (\<exists>p q. pattern_matches p ns \<and> value_at p t = w \<and> q \<noteq> [] \<and> value_at (p @ q) t \<noteq> None)"
proof (rule lookup_found [OF ok])
  show "lookup_with_info ns t \<noteq> NoMatch"
    using res by simp
  fix t' p
  assume found: "pattern_matches p ns" "sub_trie p t = Some t'" "trie_ok t'" "lookup_with_info ns t = classify t'"
    "\<And>v. tr_value t' = Some v \<Longrightarrow> search ns t = Some v"
  then have node: "tr_value t' = w" "has_children t'"
    using res by (auto simp: classify_def split: if_splits option.splits)
  then obtain q where "q \<noteq> []" "value_at q t' \<noteq> None"
    using children_have_values [OF found(3)] by blast
  then show ?thesis
    using found value_at_below [OF found(2), of q] node(1)
    by (intro conjI exI [of _ p] exI [of _ q]) (auto simp: value_at_def)
qed

section \<open>Properties\<close>



text \<open>
  The lookup tells the three cases apart: no match exactly when no binding starts with keys that match the
  sequence; a complete match names a binding that nothing extends; a partial match is a prefix of a longer binding
  and carries the value bound to the prefix itself, if any. Whenever the lookup carries a value, it is the one the
  search returns.
\<close>

theorem matcher_lookup_correct:
  fixes bindings :: "(node list \<times> 'a) list"
  defines "m \<equiv> matcher_from_iter bindings"
  shows "(matcher_lookup m ns = NoMatch \<longleftrightarrow> \<not> (\<exists>p q. pattern_matches p ns \<and> bound bindings (p @ q) \<noteq> None)) \<and>
    (\<forall>v. matcher_lookup m ns = Complete v \<longrightarrow> matcher_get m ns = Some v \<and>
      (\<exists>p. pattern_matches p ns \<and> bound bindings p = Some v \<and> (\<forall>q. q \<noteq> [] \<longrightarrow> bound bindings (p @ q) = None))) \<and>
    (\<forall>w. matcher_lookup m ns = Partial w \<longrightarrow> (w \<noteq> None \<longrightarrow> matcher_get m ns = w) \<and>
      (\<exists>p q. pattern_matches p ns \<and> bound bindings p = w \<and> q \<noteq> [] \<and> bound bindings (p @ q) \<noteq> None))"
proof -
  have ok: "trie_ok (mt_root m)" and bound: "bound bindings q = value_at q (mt_root m)" for q
    using from_iter_ok [of bindings] by (auto simp: m_def)
  show ?thesis
    unfolding matcher_lookup_def matcher_get_def bound
    using lookup_NoMatch_iff [OF ok] lookup_Complete [OF ok] lookup_Partial [OF ok] by blast
qed

theorem matcher_lookup_correct_witness:
  "matcher_lookup (matcher_from_iter [([node_of_key (KChar 103), node_of_key (KChar 103)], 1 :: nat)]) [node_of_key (KChar 104)] = NoMatch"
  using matcher_lookup_correct [of "[([node_of_key (KChar 103), node_of_key (KChar 103)], 1 :: nat)]" "[node_of_key (KChar 104)]"]
  by (auto simp: bound_def pattern_matches_def edge_matches_def node_of_key_def is_any_def group_edge_def list_all2_Cons2
      split: if_splits)

text \<open>A group of any character is taken whatever its modifiers are.\<close>

lemma any_ignores_modifiers:
  "matcher_get (matcher_from_iter [([\<lparr> nd_modifiers = 4, nd_key = KGroup AnyChar \<rparr>], v)]) [node_of_key (KChar 97)] = Some v"
  by (simp add: matcher_get_def matcher_from_iter_def matcher_add_def matcher_new_def trie_new_def node_of_key_def
      group_edge_def is_any_def)

text \<open>Among groups the first one bound wins, not the most specific one.\<close>

lemma broad_group_wins:
  "matcher_get (matcher_from_iter [([node_of_key (KGroup AnyChar)], v), ([node_of_key (KGroup Digit)], w)]) [node_of_key (KChar 51)] = Some v"
  by (simp add: matcher_get_def matcher_from_iter_def matcher_add_def matcher_new_def trie_new_def node_of_key_def
      group_edge_def is_any_def is_ascii_digit_def)

text \<open>The continuations of a prefix can be empty although the lookup knows longer bindings.\<close>

lemma continuations_miss_groups:
  fixes v w :: 'a
  defines "a \<equiv> node_of_key (KChar 97)" and "b \<equiv> node_of_key (KChar 98)" and "c \<equiv> node_of_key (KChar 99)"
  defines "m \<equiv> matcher_from_iter [([a, b], v), ([node_of_key (KGroup AnyChar), c, b], w)]"
  shows "matcher_lookup m [a, c] = Partial None" "continuations_at m [a, c] = []"
  by (simp_all add: m_def a_def b_def c_def matcher_lookup_def continuations_at_def matcher_from_iter_def matcher_add_def
      matcher_new_def trie_new_def node_of_key_def group_edge_def is_any_def has_children_def)

lemma lookup_exact:
  assumes "sub_trie ns t = Some t'" "\<forall>n \<in> set ns. \<not> is_group (nd_key n)" "classify t' \<noteq> NoMatch"
  shows "lookup_with_info ns t = classify t'"
  using exact_first [OF assms(1,2)] assms(3) by (auto simp: lookup_reference split: match_result.split)

lemma lookup_exact_binding:
  assumes bound: "bound bindings (p @ q) = Some v" and exact: "\<forall>n \<in> set p. \<not> is_group (nd_key n)"
  shows "q \<noteq> [] \<Longrightarrow> \<exists>w. matcher_lookup (matcher_from_iter bindings) p = Partial w"
    and "q = [] \<Longrightarrow> \<forall>q. q \<noteq> [] \<longrightarrow> bound bindings (p @ q) = None \<Longrightarrow> matcher_lookup (matcher_from_iter bindings) p = Complete v"
proof -
  let ?t = "mt_root (matcher_from_iter bindings)"
  have ok: "trie_ok ?t" and val: "value_at s ?t = bound bindings s" for s
    using from_iter_ok [of bindings s] by auto
  obtain t' where t': "sub_trie p ?t = Some t'" "value_at q t' = Some v"
    using bound val [of "p @ q"] by (auto simp: value_at_append split: option.splits)
  have ok': "trie_ok t'"
    using sub_trie_ok [OF ok t'(1)] by blast
  show "\<exists>w. matcher_lookup (matcher_from_iter bindings) p = Partial w" if "q \<noteq> []"
  proof -
    have "has_children t'"
      using children_have_values [OF ok'] t'(2) that by auto
    then have "classify t' = Partial (tr_value t')"
      by (simp add: classify_def)
    then show ?thesis
      using lookup_exact [OF t'(1) exact] by (simp add: matcher_lookup_def)
  qed
  show "matcher_lookup (matcher_from_iter bindings) p = Complete v"
    if "q = []" "\<forall>q. q \<noteq> [] \<longrightarrow> bound bindings (p @ q) = None"
  proof -
    have "\<not> has_children t'"
      using children_have_values [OF ok'] value_at_below [OF t'(1)] val that(2) by metis
    then have "classify t' = Complete v"
      using t'(2) that(1) by (simp add: classify_def value_at_simps(1))
    then show ?thesis
      using lookup_exact [OF t'(1) exact] by (simp add: matcher_lookup_def)
  qed
qed

end
