(* ===== verification/Input_Handler.thy ===== *)
theory Input_Handler
  imports Keymap_Matcher
begin

unbundle bit_operations_syntax

text \<open>
  The modal input handler, \<open>crates/input/src/input\<close>: the state of \<open>handler.rs\<close>, key handling in normal mode
  (\<open>handler.rs\<close>), insert mode (\<open>insert.rs\<close>) and while an action waits for a character (\<open>pending.rs\<close>), over the
  keys of \<open>crates/primitives/src/key\<close>, their translation to matcher nodes (\<open>keymap_adapter.rs\<close>) and the keymap
  snapshot of \<open>crates/registry/src/db/keymap_registry/snapshot.rs\<close>.

  The mode label, the last search and the mouse events carry no key state and are modelled where the handler
  reads or returns them.
\<close>

section \<open>Keys\<close>

datatype key_code =
  BackTab | Backspace | Delete | Down | End | Enter | Esc | Home | InsertKey | Left | PageDown | PageUp | Right | Space | Tab | Up |
  F nat | CharKey uchar

record modifiers =
  md_ctrl :: bool
  md_alt :: bool
  md_shift :: bool
  md_cmd :: bool

definition md_none :: modifiers where
  "md_none = \<lparr> md_ctrl = False, md_alt = False, md_shift = False, md_cmd = False \<rparr>"

definition md_is_empty :: "modifiers \<Rightarrow> bool" where
  "md_is_empty m \<longleftrightarrow> \<not> md_ctrl m \<and> \<not> md_alt m \<and> \<not> md_shift m \<and> \<not> md_cmd m"

record key_press =
  kp_code :: key_code
  kp_modifiers :: modifiers

definition drop_shift :: "key_press \<Rightarrow> key_press" where
  "drop_shift k = k\<lparr> kp_modifiers := (kp_modifiers k)\<lparr> md_shift := False \<rparr> \<rparr>"

definition to_digit10 :: "uchar \<Rightarrow> nat option" where
  "to_digit10 c = (if is_ascii_digit c then Some (c - 48) else None)"

definition as_digit :: "key_press \<Rightarrow> nat option" where
  "as_digit k =
     (if md_is_empty (kp_modifiers k) then (case kp_code k of CharKey c \<Rightarrow> to_digit10 c | _ \<Rightarrow> None) else None)"

definition is_escape :: "key_press \<Rightarrow> bool" where
  "is_escape k \<longleftrightarrow> kp_code k = Esc \<and> md_is_empty (kp_modifiers k)"

definition to_ascii_uppercase :: "uchar \<Rightarrow> uchar" where
  "to_ascii_uppercase c = (if is_ascii_lowercase c then c - 32 else c)"

definition to_ascii_lowercase :: "uchar \<Rightarrow> uchar" where
  "to_ascii_lowercase c = (if is_ascii_uppercase c then c + 32 else c)"

definition normalize_key :: "key_press \<Rightarrow> key_press" where
  "normalize_key k =
     (if md_shift (kp_modifiers k) then
        case kp_code k of
          CharKey c \<Rightarrow>
            if is_ascii_lowercase c then (drop_shift k)\<lparr> kp_code := CharKey (to_ascii_uppercase c) \<rparr>
            else if is_ascii_uppercase c then drop_shift k
            else k
        | _ \<Rightarrow> k
      else k)"

fun key_to_parser :: "key_code \<Rightarrow> key" where
  "key_to_parser BackTab = KBackTab"
| "key_to_parser Backspace = KBackspace"
| "key_to_parser (CharKey c) = (if c = 32 then KSpace else KChar c)"
| "key_to_parser Delete = KDelete"
| "key_to_parser Down = KDown"
| "key_to_parser End = KEnd"
| "key_to_parser Enter = KEnter"
| "key_to_parser Esc = KEsc"
| "key_to_parser (F n) = KF n"
| "key_to_parser Home = KHome"
| "key_to_parser InsertKey = KInsert"
| "key_to_parser Left = KLeft"
| "key_to_parser PageDown = KPageDown"
| "key_to_parser PageUp = KPageUp"
| "key_to_parser Right = KRight"
| "key_to_parser Space = KSpace"
| "key_to_parser Tab = KTab"
| "key_to_parser Up = KUp"

definition modifiers_to_parser :: "modifiers \<Rightarrow> 8 word" where
  "modifiers_to_parser m =
     (let r = 0;
          r = (if md_ctrl m then r OR mod_bits Ctrl else r);
          r = (if md_alt m then r OR mod_bits Alt else r);
          r = (if md_shift m then r OR mod_bits Shift else r);
          r = (if md_cmd m then r OR mod_bits Cmd else r)
      in r)"

definition key_to_node :: "key_press \<Rightarrow> node" where
  "key_to_node k = \<lparr> nd_modifiers = modifiers_to_parser (kp_modifiers k), nd_key = key_to_parser (kp_code k) \<rparr>"

section \<open>Bindings and the keymap snapshot\<close>

datatype command_route = Auto | Registry | Editor

record command_invocation =
  ci_name :: utext
  ci_args :: "utext list"
  ci_route :: command_route

datatype invocation =
  Action utext nat bool "uchar option"
| ActionWithChar utext nat bool "uchar option" uchar
| Command command_invocation
| Nu utext "utext list"

datatype binding_target = ActionTarget nat nat bool "uchar option" | InvocationTarget invocation

record compiled_binding =
  cb_target :: binding_target
  cb_name :: utext
  cb_description :: utext
  cb_short_desc :: utext
  cb_keys :: "node list"

datatype binding_mode = NormalBinding | InsertBinding | MatchBinding | SpaceBinding

datatype lookup_outcome = Match compiled_binding | PendingKeys "compiled_binding option" | NoBinding

record keymap_snapshot =
  ks_matchers :: "binding_mode \<rightharpoonup> compiled_binding matcher"

definition ks_lookup :: "keymap_snapshot \<Rightarrow> binding_mode \<Rightarrow> node list \<Rightarrow> lookup_outcome" where
  "ks_lookup r mode keys =
     (case ks_matchers r mode of
        None \<Rightarrow> NoBinding
      | Some m \<Rightarrow>
          (case matcher_lookup m keys of
             Complete entry \<Rightarrow> Match entry
           | Partial v \<Rightarrow> PendingKeys v
           | NoMatch \<Rightarrow> NoBinding))"

record keymap_behavior =
  vim_shift_letter_casefold :: bool
  normal_digit_prefix_count :: bool

definition behavior_default :: keymap_behavior where
  "behavior_default = \<lparr> vim_shift_letter_casefold = True, normal_digit_prefix_count = True \<rparr>"

section \<open>The handler\<close>

datatype object_selection = Inner | Around | ToStart | ToEnd

datatype pending_kind = FindChar bool | FindCharReverse bool | ReplaceChar | Object object_selection

datatype mode = Normal | Insert | PendingAction pending_kind

datatype mouse_button = LeftButton | RightButton | MiddleButton

datatype scroll_direction = ScrollUp | ScrollDown | ScrollLeft | ScrollRight

datatype mouse_event =
  Press mouse_button nat nat modifiers
| Release nat nat
| Drag mouse_button nat nat modifiers
| Scroll scroll_direction nat nat modifiers
| Move nat nat

datatype key_result =
  Dispatch invocation
| Pending nat
| ModeChange mode
| Consumed
| Unhandled
| InsertChar uchar
| QuitRequest
| MouseClick nat nat bool
| MouseDrag nat nat
| MouseScroll scroll_direction nat

record input_handler =
  ih_mode :: mode
  ih_count :: nat
  ih_register :: "uchar option"
  ih_extend :: bool
  ih_last_search :: "(utext \<times> bool) option"
  ih_key_sequence :: "node list"

definition ih_new :: input_handler where
  "ih_new = \<lparr> ih_mode = Normal, ih_count = 0, ih_register = None, ih_extend = False, ih_last_search = None, ih_key_sequence = [] \<rparr>"

definition u32_max :: nat where
  "u32_max = 2 ^ 32 - 1"

definition MAX_ACTION_COUNT :: nat where
  "MAX_ACTION_COUNT = 10000"

definition effective_count :: "input_handler \<Rightarrow> nat" where
  "effective_count h = max (ih_count h) 1"

definition reset_params :: "input_handler \<Rightarrow> input_handler" where
  "reset_params h = h\<lparr> ih_count := 0, ih_register := None, ih_extend := False, ih_key_sequence := [] \<rparr>"

definition set_mode :: "mode \<Rightarrow> input_handler \<Rightarrow> input_handler" where
  "set_mode m h = (if m = Normal then reset_params h else h)\<lparr> ih_mode := m \<rparr>"

definition consume_binding :: "compiled_binding \<Rightarrow> input_handler \<Rightarrow> key_result \<times> input_handler" where
  "consume_binding entry h =
     (case cb_target entry of
        ActionTarget _ count ext register \<Rightarrow>
          let prefix_count = min (max (ih_count h) 1) MAX_ACTION_COUNT;
              binding_count = max count 1;
              final_count = min (min (prefix_count * binding_count) u64_max) MAX_ACTION_COUNT;
              final_extend = (ih_extend h \<or> ext);
              final_register = (case ih_register h of Some r \<Rightarrow> Some r | None \<Rightarrow> register)
          in (Dispatch (Action (cb_name entry) final_count final_extend final_register), reset_params h)
      | InvocationTarget invoked \<Rightarrow> (Dispatch invoked, reset_params h))"

text \<open>The closure \<open>lookup_with\<close>: push the node of a key, and take it back when nothing matches.\<close>

definition lookup_with :: "keymap_snapshot \<Rightarrow> binding_mode \<Rightarrow> key_press \<Rightarrow> node list \<Rightarrow> lookup_outcome option \<times> node list" where
  "lookup_with r mode k seq =
     (case ks_lookup r mode (seq @ [key_to_node k]) of
        NoBinding \<Rightarrow> (None, seq)
      | res \<Rightarrow> (Some res, seq @ [key_to_node k]))"

definition primary_key :: "keymap_behavior \<Rightarrow> key_press \<Rightarrow> key_press" where
  "primary_key behavior k =
     (if vim_shift_letter_casefold behavior then
        case kp_code k of
          CharKey c \<Rightarrow>
            if is_ascii_alphabetic c \<and> md_shift (kp_modifiers k)
            then (drop_shift k)\<lparr> kp_code := CharKey (to_ascii_uppercase c) \<rparr> else k
        | _ \<Rightarrow> k
      else k)"

definition extend_fallback :: "keymap_behavior \<Rightarrow> key_press \<Rightarrow> key_press option" where
  "extend_fallback behavior k =
     (if vim_shift_letter_casefold behavior then
        case kp_code k of
          CharKey c \<Rightarrow>
            if is_ascii_alphabetic c \<and> md_shift (kp_modifiers k)
            then Some ((drop_shift k)\<lparr> kp_code := CharKey (to_ascii_lowercase c) \<rparr>)
            else if md_shift (kp_modifiers k) then Some (drop_shift k) else None
        | _ \<Rightarrow> if md_shift (kp_modifiers k) then Some (drop_shift k) else None
      else
        case kp_code k of
          CharKey _ \<Rightarrow> None
        | _ \<Rightarrow> if md_shift (kp_modifiers k) then Some (drop_shift k) else None)"

definition saturating_add32 :: "nat \<Rightarrow> nat \<Rightarrow> nat" where
  "saturating_add32 a b = min (a + b) u32_max"

definition saturating_mul32 :: "nat \<Rightarrow> nat \<Rightarrow> nat" where
  "saturating_mul32 a b = min (a * b) u32_max"

text \<open>The lookup of the primary key and, when it fails, of the fallback.\<close>

definition lookup_key ::
  "keymap_snapshot \<Rightarrow> binding_mode \<Rightarrow> keymap_behavior \<Rightarrow> key_press \<Rightarrow> input_handler \<Rightarrow> lookup_outcome \<times> input_handler" where
  "lookup_key r mode behavior k h =
     (case lookup_with r mode (primary_key behavior k) (ih_key_sequence h) of
        (Some res, seq) \<Rightarrow> (res, h\<lparr> ih_key_sequence := seq \<rparr>)
      | (None, seq) \<Rightarrow>
          (case extend_fallback behavior k of
             None \<Rightarrow> (NoBinding, h\<lparr> ih_key_sequence := seq \<rparr>)
           | Some fallback \<Rightarrow>
               (case lookup_with r mode fallback seq of
                  (Some res, seq) \<Rightarrow> (res, h\<lparr> ih_extend := True, ih_key_sequence := seq \<rparr>)
                | (None, seq) \<Rightarrow> (NoBinding, h\<lparr> ih_extend := True, ih_key_sequence := seq \<rparr>))))"

text \<open>The part of \<open>handle_mode_key\<close> after the digit and escape cases.\<close>

definition resolve_key ::
  "key_press \<Rightarrow> binding_mode \<Rightarrow> keymap_snapshot \<Rightarrow> keymap_behavior \<Rightarrow> input_handler \<Rightarrow> key_result \<times> input_handler" where
  "resolve_key k mode r behavior h =
     (case lookup_key r mode behavior k h of
        (Match entry, h) \<Rightarrow> consume_binding entry (if mode \<noteq> NormalBinding then h\<lparr> ih_mode := Normal \<rparr> else h)
      | (PendingKeys _, h) \<Rightarrow> (Pending (length (ih_key_sequence h)), h)
      | (NoBinding, h) \<Rightarrow> (Unhandled, reset_params (if mode \<noteq> NormalBinding then h\<lparr> ih_mode := Normal \<rparr> else h)))"

definition count_digit :: "keymap_behavior \<Rightarrow> binding_mode \<Rightarrow> key_press \<Rightarrow> input_handler \<Rightarrow> nat option" where
  "count_digit behavior mode k h =
     (if normal_digit_prefix_count behavior \<and> mode = NormalBinding then
        case as_digit k of Some digit \<Rightarrow> if digit \<noteq> 0 \<or> 0 < ih_count h then Some digit else None | None \<Rightarrow> None
      else None)"

definition handle_mode_key ::
  "key_press \<Rightarrow> binding_mode \<Rightarrow> keymap_snapshot \<Rightarrow> keymap_behavior \<Rightarrow> input_handler \<Rightarrow> key_result \<times> input_handler" where
  "handle_mode_key k mode r behavior h =
     (case count_digit behavior mode k h of
        Some digit \<Rightarrow> (Consumed, h\<lparr> ih_count := saturating_add32 (saturating_mul32 (ih_count h) 10) digit \<rparr>)
      | None \<Rightarrow>
          if is_escape k then
            if ih_key_sequence h \<noteq> [] then (Consumed, h\<lparr> ih_key_sequence := [] \<rparr>)
            else if mode \<noteq> NormalBinding then (ModeChange Normal, reset_params (h\<lparr> ih_mode := Normal \<rparr>))
            else (Consumed, reset_params h)
          else resolve_key k mode r behavior h)"

definition canonicalize_insert_key :: "key_press \<Rightarrow> input_handler \<Rightarrow> key_press \<times> input_handler" where
  "canonicalize_insert_key k h =
     (case kp_code k of
        CharKey c \<Rightarrow>
          (if md_shift (kp_modifiers k) then if is_ascii_lowercase c then normalize_key k else drop_shift k else k, h)
      | _ \<Rightarrow> if md_shift (kp_modifiers k) then (drop_shift k, h\<lparr> ih_extend := True \<rparr>) else (k, h))"

definition is_text_input :: "key_press \<Rightarrow> input_handler \<Rightarrow> bool" where
  "is_text_input k h =
     (case kp_code k of
        CharKey _ \<Rightarrow> md_is_empty (kp_modifiers k) \<or> kp_modifiers k = md_none\<lparr> md_shift := True \<rparr>
      | Space \<Rightarrow> ih_key_sequence h = []
      | Enter \<Rightarrow> ih_key_sequence h = []
      | Tab \<Rightarrow> ih_key_sequence h = []
      | _ \<Rightarrow> False)"

fun inserted_char :: "key_code \<Rightarrow> uchar option" where
  "inserted_char (CharKey c) = Some c"
| "inserted_char Space = Some 32"
| "inserted_char Enter = Some 10"
| "inserted_char Tab = Some 9"
| "inserted_char _ = None"

text \<open>Key handling in insert mode; \<open>None\<close> is the unreachable branch.\<close>

definition handle_insert_key :: "key_press \<Rightarrow> keymap_snapshot \<Rightarrow> input_handler \<Rightarrow> (key_result \<times> input_handler) option" where
  "handle_insert_key k r h =
     (if is_escape k then Some (ModeChange Normal, reset_params (h\<lparr> ih_mode := Normal \<rparr>))
      else if is_text_input k h \<and> ih_key_sequence h = [] then
        (case inserted_char (kp_code k) of Some c \<Rightarrow> Some (InsertChar c, h) | None \<Rightarrow> None)
      else
        let (k, h) = canonicalize_insert_key k h;
            h = h\<lparr> ih_key_sequence := ih_key_sequence h @ [key_to_node k] \<rparr>
        in case ks_lookup r InsertBinding (ih_key_sequence h) of
             Match entry \<Rightarrow> Some (consume_binding entry h)
           | PendingKeys _ \<Rightarrow> Some (Pending (length (ih_key_sequence h)), h)
           | NoBinding \<Rightarrow> Some (Consumed, h\<lparr> ih_key_sequence := [] \<rparr>))"

fun pending_action_name :: "pending_kind \<Rightarrow> string" where
  "pending_action_name (FindChar _) = ''find_char''"
| "pending_action_name (FindCharReverse _) = ''find_char_reverse''"
| "pending_action_name ReplaceChar = ''replace_char''"
| "pending_action_name (Object Inner) = ''select_object_inner''"
| "pending_action_name (Object Around) = ''select_object_around''"
| "pending_action_name (Object ToStart) = ''select_object_to_start''"
| "pending_action_name (Object ToEnd) = ''select_object_to_end''"

definition handle_pending_action_key :: "key_press \<Rightarrow> pending_kind \<Rightarrow> input_handler \<Rightarrow> key_result \<times> input_handler" where
  "handle_pending_action_key k kind h =
     (let k = (case kp_code k of
                 CharKey c \<Rightarrow> if md_shift (kp_modifiers k) \<and> is_ascii_lowercase c then normalize_key k else k
               | _ \<Rightarrow> k)
      in case kp_code k of
           CharKey c \<Rightarrow>
             (Dispatch (ActionWithChar (lit (pending_action_name kind)) (effective_count h) (ih_extend h) (ih_register h) c),
              reset_params h)
         | Esc \<Rightarrow> (ModeChange Normal, reset_params (h\<lparr> ih_mode := Normal \<rparr>))
         | _ \<Rightarrow> (Consumed, h))"

definition handle_key_with_registry ::
  "key_press \<Rightarrow> keymap_snapshot \<Rightarrow> keymap_behavior \<Rightarrow> input_handler \<Rightarrow> (key_result \<times> input_handler) option" where
  "handle_key_with_registry k r behavior h =
     (case ih_mode h of
        Normal \<Rightarrow> Some (handle_mode_key k NormalBinding r behavior h)
      | Insert \<Rightarrow> handle_insert_key k r h
      | PendingAction kind \<Rightarrow> Some (handle_pending_action_key k kind h))"

definition handle_mouse :: "mouse_event \<Rightarrow> input_handler \<Rightarrow> key_result \<times> input_handler" where
  "handle_mouse ev h =
     (case ev of
        Press LeftButton row col _ \<Rightarrow> (MouseClick row col (ih_extend h), h)
      | Drag LeftButton row col _ \<Rightarrow> (MouseDrag row col, h)
      | Scroll direction _ _ _ \<Rightarrow> (MouseScroll direction 1, h)
      | _ \<Rightarrow> (Consumed, h))"

section \<open>Specification predicates\<close>

text \<open>Nothing typed so far.\<close>

definition idle :: "input_handler \<Rightarrow> bool" where
  "idle h \<longleftrightarrow> ih_count h = 0 \<and> ih_register h = None \<and> \<not> ih_extend h \<and> ih_key_sequence h = []"

text \<open>The keys of an unfinished sequence lead somewhere in the keymap of the mode.\<close>

definition seq_ok :: "keymap_snapshot \<Rightarrow> input_handler \<Rightarrow> bool" where
  "seq_ok r h \<longleftrightarrow> ih_key_sequence h = [] \<or>
     (case ih_mode h of
        Normal \<Rightarrow> \<exists>w. ks_lookup r NormalBinding (ih_key_sequence h) = PendingKeys w
      | Insert \<Rightarrow> \<exists>w. ks_lookup r InsertBinding (ih_key_sequence h) = PendingKeys w
      | PendingAction _ \<Rightarrow> False)"

fun type_keys ::
  "keymap_snapshot \<Rightarrow> keymap_behavior \<Rightarrow> key_press list \<Rightarrow> input_handler \<Rightarrow> (key_result list \<times> input_handler) option" where
  "type_keys r behavior [] h = Some ([], h)"
| "type_keys r behavior (k # ks) h =
     (case handle_key_with_registry k r behavior h of
        None \<Rightarrow> None
      | Some (res, h) \<Rightarrow> map_option (\<lambda>(rs, h). (res # rs, h)) (type_keys r behavior ks h))"




text \<open>The outcome of a key, as the properties below need it.\<close>

definition key_effect :: "keymap_snapshot \<Rightarrow> input_handler \<Rightarrow> key_result \<Rightarrow> input_handler \<Rightarrow> bool" where
  "key_effect r h res h' \<longleftrightarrow> seq_ok r h' \<and> ih_count h' \<le> u32_max \<and> (ih_mode h' = ih_mode h \<or> ih_mode h' = Normal) \<and>
     (\<forall>n. res = Pending n \<longrightarrow> n = length (ih_key_sequence h') \<and> n = length (ih_key_sequence h) + 1) \<and>
     (\<forall>m. res = ModeChange m \<longrightarrow> m = Normal \<and> ih_mode h' = Normal \<and> idle h') \<and>
     (res = Unhandled \<or> (\<exists>invoked. res = Dispatch invoked) \<longrightarrow> idle h' \<and> ih_mode h' = ih_mode h)"

definition esc_press :: key_press where
  "esc_press = \<lparr> kp_code = Esc, kp_modifiers = md_none \<rparr>"


section \<open>Lemmas\<close>

lemma idle_reset: "idle (reset_params h)"
  by (simp add: idle_def reset_params_def)

lemma reset_fields [simp]:
  "ih_mode (reset_params h) = ih_mode h" "ih_key_sequence (reset_params h) = []" "ih_count (reset_params h) = 0"
  "ih_last_search (reset_params h) = ih_last_search h" "ih_extend (reset_params h) = False" "ih_register (reset_params h) = None"
  by (simp_all add: reset_params_def)

lemma seq_ok_empty: "ih_key_sequence h = [] \<Longrightarrow> seq_ok r h"
  by (simp add: seq_ok_def)

lemma consume_binding_cases: "\<exists>invoked. consume_binding entry h = (Dispatch invoked, reset_params h)"
  by (auto simp: consume_binding_def Let_def split: binding_target.split)

lemma lookup_with_cases:
  "(lookup_with r mode k seq = (None, seq) \<and> ks_lookup r mode (seq @ [key_to_node k]) = NoBinding) \<or>
   (\<exists>res. lookup_with r mode k seq = (Some res, seq @ [key_to_node k]) \<and> res = ks_lookup r mode (seq @ [key_to_node k]) \<and> res \<noteq> NoBinding)"
  by (auto simp: lookup_with_def split: lookup_outcome.split)

lemma lookup_key_effect:
  assumes "lookup_key r mode b k h = (outcome, h1)"
  shows "ih_mode h1 = ih_mode h \<and> ih_count h1 = ih_count h \<and>
    (outcome = NoBinding \<or> (\<exists>n. ih_key_sequence h1 = ih_key_sequence h @ [n] \<and> outcome = ks_lookup r mode (ih_key_sequence h1)))"
proof -
  let ?seq = "ih_key_sequence h"
  have here: "(\<exists>res. lookup_with r mode k' ?seq = (Some res, ?seq @ [key_to_node k']) \<and> res = ks_lookup r mode (?seq @ [key_to_node k'])) \<or>
      lookup_with r mode k' ?seq = (None, ?seq)" for k'
    using lookup_with_cases [of r mode k' ?seq] by blast
  show ?thesis
  proof (cases "fst (lookup_with r mode (primary_key b k) ?seq)")
    case (Some res)
    then show ?thesis
      using assms here [of "primary_key b k"] by (auto simp: lookup_key_def)
  next
    case None
    then have primary: "lookup_with r mode (primary_key b k) ?seq = (None, ?seq)"
      using here [of "primary_key b k"] by auto
    show ?thesis
    proof (cases "extend_fallback b k")
      case (Some fallback)
      then show ?thesis
        using assms primary here [of fallback] by (auto simp: lookup_key_def)
    qed (use assms primary in \<open>auto simp: lookup_key_def\<close>)
  qed
qed

text \<open>What resolving a key can lead to.\<close>

lemma resolve_key_cases:
  obtains (dispatch) invoked h1 where "resolve_key k NormalBinding r b h = (Dispatch invoked, reset_params h1)" "ih_mode h1 = ih_mode h"
  | (pending) h1 n w where "resolve_key k NormalBinding r b h = (Pending (length (ih_key_sequence h) + 1), h1)"
      "ih_key_sequence h1 = ih_key_sequence h @ [n]" "ks_lookup r NormalBinding (ih_key_sequence h1) = PendingKeys w"
      "ih_mode h1 = ih_mode h" "ih_count h1 = ih_count h"
  | (unhandled) h1 where "resolve_key k NormalBinding r b h = (Unhandled, reset_params h1)" "ih_mode h1 = ih_mode h"
proof -
  obtain outcome h1 where step: "lookup_key r NormalBinding b k h = (outcome, h1)"
    by fastforce
  note effect = lookup_key_effect [OF this]
  show thesis
  proof (cases outcome)
    case (Match entry)
    then have "resolve_key k NormalBinding r b h = consume_binding entry h1"
      using step by (simp add: resolve_key_def)
    then show thesis
      using consume_binding_cases [of entry h1] effect dispatch by auto
  next
    case (PendingKeys w)
    then have "resolve_key k NormalBinding r b h = (Pending (length (ih_key_sequence h1)), h1)"
      using step by (simp add: resolve_key_def)
    moreover obtain n where "ih_key_sequence h1 = ih_key_sequence h @ [n]" "ks_lookup r NormalBinding (ih_key_sequence h1) = PendingKeys w"
      using effect PendingKeys by auto
    ultimately show thesis
      using effect pending by auto
  next
    case NoBinding
    then show thesis
      using step effect unhandled by (auto simp: resolve_key_def)
  qed
qed


lemma saturating_step:
  assumes "c \<le> u32_max"
  shows "saturating_add32 (saturating_mul32 c 10) d = min (10 * c + d) u32_max"
  by (simp add: saturating_add32_def saturating_mul32_def min_def)

lemma insert_text_total: "is_text_input k h \<Longrightarrow> \<exists>c. inserted_char (kp_code k) = Some c"
  by (cases "kp_code k") (simp_all add: is_text_input_def)

lemma key_effect_idle:
  "idle h' \<Longrightarrow> ih_mode h' = ih_mode h \<Longrightarrow> (\<forall>n. res \<noteq> Pending n) \<Longrightarrow> (\<forall>m. res \<noteq> ModeChange m) \<Longrightarrow> key_effect r h res h'"
  by (simp add: key_effect_def idle_def seq_ok_def)

lemma resolve_key_effect:
  assumes mode: "ih_mode h = Normal" and count: "ih_count h \<le> u32_max"
  shows "key_effect r h (fst (resolve_key k NormalBinding r b h)) (snd (resolve_key k NormalBinding r b h))"
proof (cases rule: resolve_key_cases [of k r b h])
  case (dispatch invoked h1)
  then show ?thesis
    by (auto intro: key_effect_idle idle_reset)
next
  case (pending h1 n w)
  then show ?thesis
    using mode count by (auto simp: key_effect_def seq_ok_def)
next
  case (unhandled h1)
  then show ?thesis
    by (auto intro: key_effect_idle idle_reset)
qed

lemma mode_key_effect:
  assumes mode: "ih_mode h = Normal" and ok: "seq_ok r h" and count: "ih_count h \<le> u32_max"
  shows "key_effect r h (fst (handle_mode_key k NormalBinding r b h)) (snd (handle_mode_key k NormalBinding r b h))"
proof (cases "count_digit b NormalBinding k h")
  case (Some d)
  then show ?thesis
    using mode ok count by (simp add: handle_mode_key_def key_effect_def seq_ok_def saturating_step)
next
  case None
  show ?thesis
  proof (cases "is_escape k")
    case True
    then show ?thesis
      using None mode count by (auto simp: handle_mode_key_def key_effect_def seq_ok_def idle_def)
  next
    case False
    then show ?thesis
      using None resolve_key_effect [OF mode count, of r k b] by (simp add: handle_mode_key_def)
  qed
qed

lemma insert_key_effect:
  assumes mode: "ih_mode h = Insert" and ok: "seq_ok r h" and count: "ih_count h \<le> u32_max"
  shows "\<exists>res h'. handle_insert_key k r h = Some (res, h') \<and> key_effect r h res h'"
proof -
  consider "is_escape k" | "\<not> is_escape k" "is_text_input k h \<and> ih_key_sequence h = []"
    | "\<not> is_escape k" "\<not> (is_text_input k h \<and> ih_key_sequence h = [])" by blast
  then show ?thesis
  proof cases
    case 1
    then show ?thesis
      by (simp add: handle_insert_key_def key_effect_def seq_ok_def idle_def)
  next
    case 2
    then obtain c where "inserted_char (kp_code k) = Some c"
      using insert_text_total by blast
    with 2 show ?thesis
      using ok count by (simp add: handle_insert_key_def key_effect_def)
  next
    case 3
    obtain k1 h1 where canon: "canonicalize_insert_key k h = (k1, h1)"
      by fastforce
    then have h1: "ih_key_sequence h1 = ih_key_sequence h" "ih_mode h1 = Insert" "ih_count h1 = ih_count h"
      using mode by (auto simp: canonicalize_insert_key_def split: key_code.splits if_splits)
    let ?h2 = "h1\<lparr> ih_key_sequence := ih_key_sequence h1 @ [key_to_node k1] \<rparr>"
    show ?thesis
    proof (cases "ks_lookup r InsertBinding (ih_key_sequence ?h2)")
      case (Match entry)
      obtain invoked where "consume_binding entry ?h2 = (Dispatch invoked, reset_params ?h2)"
        using consume_binding_cases by blast
      with Match 3 canon h1 mode show ?thesis
        by (intro exI [of _ "Dispatch invoked"] exI [of _ "reset_params ?h2"])
          (auto simp: handle_insert_key_def intro!: key_effect_idle idle_reset)
    next
      case (PendingKeys w)
      with 3 canon h1 mode count show ?thesis
        by (auto simp: handle_insert_key_def key_effect_def seq_ok_def)
    next
      case NoBinding
      with 3 canon h1 mode count show ?thesis
        by (auto simp: handle_insert_key_def key_effect_def seq_ok_def)
    qed
  qed
qed

lemma pending_key_effect:
  assumes mode: "ih_mode h = PendingAction kind" and ok: "seq_ok r h" and count: "ih_count h \<le> u32_max"
  shows "key_effect r h (fst (handle_pending_action_key k kind h)) (snd (handle_pending_action_key k kind h))"
proof -
  have seq: "ih_key_sequence h = []"
    using ok mode by (simp add: seq_ok_def)
  have keep: "key_effect r h Consumed h"
    using ok count by (simp add: key_effect_def)
  have leave: "key_effect r h (ModeChange Normal) (reset_params (h\<lparr> ih_mode := Normal \<rparr>))"
    by (simp add: key_effect_def seq_ok_def idle_def)
  have act: "key_effect r h (Dispatch invoked) (reset_params h)" for invoked
    by (rule key_effect_idle) (simp_all add: idle_reset)
  show ?thesis
    using keep leave act by (auto simp: handle_pending_action_key_def Let_def split: key_code.split)
qed

lemma handle_key_effect:
  assumes "seq_ok r h" "ih_count h \<le> u32_max"
  shows "\<exists>res h'. handle_key_with_registry k r b h = Some (res, h') \<and> key_effect r h res h'"
proof (cases "ih_mode h")
  case Normal
  then show ?thesis
    using mode_key_effect [OF Normal assms, of k b] by (simp add: handle_key_with_registry_def) (metis prod.collapse)
next
  case Insert
  then show ?thesis
    using insert_key_effect [OF Insert assms] by (simp add: handle_key_with_registry_def)
next
  case (PendingAction kind)
  then show ?thesis
    using pending_key_effect [OF PendingAction assms, of k] by (simp add: handle_key_with_registry_def) (metis prod.collapse)
qed

lemma type_keys_effect:
  "seq_ok r h \<Longrightarrow> ih_count h \<le> u32_max \<Longrightarrow>
   \<exists>rs h'. type_keys r b ks h = Some (rs, h') \<and> length rs = length ks \<and> seq_ok r h' \<and> ih_count h' \<le> u32_max"
proof (induction ks arbitrary: h)
  case (Cons k ks)
  obtain res h1 where step: "handle_key_with_registry k r b h = Some (res, h1)" "key_effect r h res h1"
    using handle_key_effect [OF Cons.prems] by blast
  with Cons.IH [of h1] show ?case
    by (auto simp: key_effect_def)
qed simp

lemma esc_facts [simp]: "is_escape esc_press" "as_digit esc_press = None"
  by (simp_all add: esc_press_def is_escape_def as_digit_def md_none_def md_is_empty_def)

lemma esc_in_normal:
  "ih_mode h = Normal \<Longrightarrow> handle_key_with_registry esc_press r b h =
     Some (Consumed, if ih_key_sequence h \<noteq> [] then h\<lparr> ih_key_sequence := [] \<rparr> else reset_params h)"
  by (simp add: handle_key_with_registry_def handle_mode_key_def count_digit_def)

lemma esc_elsewhere:
  "ih_mode h \<noteq> Normal \<Longrightarrow> handle_key_with_registry esc_press r b h = Some (ModeChange Normal, reset_params (h\<lparr> ih_mode := Normal \<rparr>))"
  by (cases "ih_mode h")
    (auto simp: handle_key_with_registry_def handle_insert_key_def handle_pending_action_key_def Let_def esc_press_def
      is_escape_def md_none_def md_is_empty_def)

lemma two_escapes:
  "\<exists>rs h'. type_keys r b [esc_press, esc_press] h = Some (rs, h') \<and> ih_mode h' = Normal \<and> idle h'"
proof (cases "ih_mode h = Normal")
  case True
  then show ?thesis
    by (cases "ih_key_sequence h = []") (simp_all add: esc_in_normal idle_reset)
next
  case False
  then show ?thesis
    by (simp add: esc_elsewhere esc_in_normal idle_reset)
qed

subsection \<open>Typing a binding\<close>

lemma key_not_group [simp]: "\<not> is_group (nd_key (key_to_node k))"
  by (cases "kp_code k") (simp_all add: key_to_node_def)







section \<open>Properties\<close>

text \<open>
  C30. Key handling is total in every mode and keeps its state sound: an unfinished key sequence is always one the
  keymap of the mode still continues, the count stays a machine word, the mode only ever falls back to normal.
  A pending result reports the length of the sequence with the new key; a dispatched or unhandled key leaves the
  handler idle; two escapes lead to an idle normal mode from anywhere.
\<close>

theorem input_state_sound:
  assumes "seq_ok r h" "ih_count h \<le> u32_max"
  shows "(\<exists>res h'. handle_key_with_registry k r b h = Some (res, h') \<and> seq_ok r h' \<and> ih_count h' \<le> u32_max \<and>
      (ih_mode h' = ih_mode h \<or> ih_mode h' = Normal) \<and>
      (\<forall>n. res = Pending n \<longrightarrow> n = length (ih_key_sequence h') \<and> n = length (ih_key_sequence h) + 1) \<and>
      (res = Unhandled \<or> (\<exists>invoked. res = Dispatch invoked) \<longrightarrow> idle h' \<and> ih_mode h' = ih_mode h)) \<and>
    (\<exists>rs h'. type_keys r b ks h = Some (rs, h') \<and> seq_ok r h') \<and>
    (\<exists>rs h'. type_keys r b [esc_press, esc_press] h = Some (rs, h') \<and> ih_mode h' = Normal \<and> idle h')"
  using handle_key_effect [OF assms, of k b] type_keys_effect [OF assms, of b ks] two_escapes [of r b h]
  unfolding key_effect_def by blast

theorem input_state_sound_witness:
  "\<exists>rs h'. type_keys \<lparr> ks_matchers = Map.empty \<rparr> behavior_default [esc_press, esc_press] ih_new = Some (rs, h') \<and>
    ih_mode h' = Normal \<and> idle h'"
proof -
  have "seq_ok \<lparr> ks_matchers = Map.empty \<rparr> ih_new" "ih_count ih_new \<le> u32_max"
    by (simp_all add: seq_ok_def ih_new_def)
  from input_state_sound [OF this, of esc_press behavior_default "[]"] show ?thesis
    by blast
qed




text \<open>The count given to an action that waits for a character is not limited.\<close>

lemma pending_action_count_unlimited:
  "fst (handle_pending_action_key \<lparr> kp_code = CharKey 97, kp_modifiers = md_none \<rparr> ReplaceChar (ih_new\<lparr> ih_count := 4000000000 \<rparr>)) =
     Dispatch (ActionWithChar (lit ''replace_char'') 4000000000 False None 97)"
  by (simp add: handle_pending_action_key_def effective_count_def ih_new_def md_none_def)

end
