(* ===== verification/Mailbox.thy ===== *)
theory Mailbox
  imports Prelude
begin

text \<open>
  The mailbox of supervised actors, \<open>crates/worker/src/mailbox.rs\<close>: a bounded queue with many senders and one
  receiver at a time, in two policies. Under \<open>Backpressure\<close> a sender waits for room; under \<open>CoalesceByEq\<close> it
  replaces a message of the same key or evicts the oldest one.

  The state behind the lock changes only inside critical sections, which are the atomic steps of the model. What
  happens between them is interleaved freely: creating a \<open>Notified\<close> future, polling it, waking up, the
  notifications that follow the release of the lock. \<open>tokio::sync::Notify\<close> is the record \<open>notify_ops\<close>, whose
  documented behaviour is the contract \<open>notify_ok\<close>. Besides the fields of the source the system keeps logs of the
  messages that were accepted and received.

  The lemmas show that the queue is a bounded FIFO that loses nothing under backpressure, that under coalescing it
  holds the latest message of each key, and which wake-ups cannot be lost. One can: closing the mailbox while the receiver
  is between releasing the lock and waiting.
\<close>

section \<open>Notifications\<close>

text \<open>
  The operations of \<open>Notify\<close>: creating a future, its first poll (which is ready or registers the task), whether a registered
  task still waits, the two notifications, and dropping a future. \<open>nv_permit\<close>, \<open>nv_waiters\<close>, \<open>nv_calls\<close> and
  \<open>nv_created\<close> are what the documentation speaks about: the stored permit, the tasks that wait, the number of calls to
  \<open>notify_waiters\<close>, and that number when a future was created. A future is \<open>fresh\<close> while there was no such call since.
\<close>

type_synonym task = nat

record ('n, 'k) notify_ops =
  nf_new :: 'n
  nf_notified :: "'n \<Rightarrow> 'k"
  nf_poll :: "task \<Rightarrow> 'k \<Rightarrow> 'n \<Rightarrow> bool \<times> 'n"
  nf_waiting :: "task \<Rightarrow> 'n \<Rightarrow> bool"
  nf_notify_one :: "'n \<Rightarrow> 'n"
  nf_notify_waiters :: "'n \<Rightarrow> 'n"
  nf_drop :: "task \<Rightarrow> 'n \<Rightarrow> 'n"
  nv_permit :: "'n \<Rightarrow> bool"
  nv_waiters :: "'n \<Rightarrow> task list"
  nv_calls :: "'n \<Rightarrow> nat"
  nv_created :: "'k \<Rightarrow> nat"

definition fresh :: "('n, 'k) notify_ops \<Rightarrow> 'k \<Rightarrow> 'n \<Rightarrow> bool" where
  "fresh N k n \<longleftrightarrow> nv_created N k = nv_calls N n"

definition notify_ok :: "('n, 'k) notify_ops \<Rightarrow> bool" where
  "notify_ok N \<longleftrightarrow>
     \<not> nv_permit N (nf_new N) \<and> nv_waiters N (nf_new N) = [] \<and>
     (\<forall>n. nv_created N (nf_notified N n) = nv_calls N n) \<and>
     (\<forall>t n. nf_waiting N t n \<longleftrightarrow> t \<in> set (nv_waiters N n)) \<and>
     (\<forall>t k n. t \<notin> set (nv_waiters N n) \<longrightarrow>
        fst (nf_poll N t k n) = (nv_permit N n \<or> \<not> fresh N k n) \<and>
        nv_waiters N (snd (nf_poll N t k n)) = nv_waiters N n @ (if fst (nf_poll N t k n) then [] else [t]) \<and>
        (nv_permit N (snd (nf_poll N t k n)) \<longrightarrow> nv_permit N n \<and> \<not> fresh N k n)) \<and>
     (\<forall>t k n. nv_calls N (snd (nf_poll N t k n)) = nv_calls N n) \<and>
     (\<forall>n. nv_waiters N (nf_notify_one N n) = tl (nv_waiters N n)) \<and>
     (\<forall>n. nv_permit N (nf_notify_one N n) = (nv_permit N n \<or> nv_waiters N n = [])) \<and>
     (\<forall>n. nv_calls N (nf_notify_one N n) = nv_calls N n) \<and>
     (\<forall>n. nv_waiters N (nf_notify_waiters N n) = []) \<and>
     (\<forall>n. nv_permit N (nf_notify_waiters N n) = nv_permit N n) \<and>
     (\<forall>n. nv_calls N (nf_notify_waiters N n) = nv_calls N n + 1) \<and>
     (\<forall>t n. set (nv_waiters N (nf_drop N t n)) \<subseteq> set (nv_waiters N n) - {t}) \<and>
     (\<forall>t n. nv_permit N n \<longrightarrow> nv_permit N (nf_drop N t n)) \<and>
     (\<forall>t n. nv_calls N (nf_drop N t n) = nv_calls N n)"

section \<open>The mailbox\<close>

datatype mailbox_send_error = Closed

datatype ('m, 'n) mailbox_policy =
  Backpressure (notify_send: 'n)
| CoalesceByEq (coalesce_eq: "'m \<Rightarrow> 'm \<Rightarrow> bool")

record ('m, 'n) mailbox =
  mb_capacity :: nat
  mb_queue :: "'m list"
  mb_closed :: bool
  mb_notify_recv :: 'n
  mb_policy :: "('m, 'n) mailbox_policy"

text \<open>The constructors; \<open>None\<close> is the failed assertion.\<close>

definition mailbox_backpressure :: "('n, 'k) notify_ops \<Rightarrow> nat \<Rightarrow> ('m, 'n) mailbox option" where
  "mailbox_backpressure N capacity =
     (if capacity > 0
      then Some \<lparr> mb_capacity = capacity, mb_queue = [], mb_closed = False, mb_notify_recv = nf_new N,
                  mb_policy = Backpressure (nf_new N) \<rparr>
      else None)"

definition mailbox_coalesce_by_eq :: "('n, 'k) notify_ops \<Rightarrow> nat \<Rightarrow> ('m \<Rightarrow> 'm \<Rightarrow> bool) \<Rightarrow> ('m, 'n) mailbox option" where
  "mailbox_coalesce_by_eq N capacity eq_fn =
     (if capacity > 0
      then Some \<lparr> mb_capacity = capacity, mb_queue = [], mb_closed = False, mb_notify_recv = nf_new N,
                  mb_policy = CoalesceByEq eq_fn \<rparr>
      else None)"

text \<open>\<open>close\<close> in three steps: under the lock, and the two notifications after its release.\<close>

definition close_locked :: "('m, 'n) mailbox \<Rightarrow> ('m, 'n) mailbox" where
  "close_locked mb = mb\<lparr> mb_closed := True \<rparr>"

definition close_notify_recv :: "('n, 'k) notify_ops \<Rightarrow> ('m, 'n) mailbox \<Rightarrow> ('m, 'n) mailbox" where
  "close_notify_recv N mb = mb\<lparr> mb_notify_recv := nf_notify_waiters N (mb_notify_recv mb) \<rparr>"

definition close_notify_send :: "('n, 'k) notify_ops \<Rightarrow> ('m, 'n) mailbox \<Rightarrow> ('m, 'n) mailbox" where
  "close_notify_send N mb =
     (case mb_policy mb of
        Backpressure n \<Rightarrow> mb\<lparr> mb_policy := Backpressure (nf_notify_waiters N n) \<rparr>
      | CoalesceByEq _ \<Rightarrow> mb)"

text \<open>The end of a successful send: \<open>push_back\<close> and waking the receiver, still under the lock.\<close>

definition push_and_notify :: "('n, 'k) notify_ops \<Rightarrow> 'm list \<Rightarrow> ('m, 'n) mailbox \<Rightarrow> ('m, 'n) mailbox" where
  "push_and_notify N queue mb = mb\<lparr> mb_queue := queue, mb_notify_recv := nf_notify_one N (mb_notify_recv mb) \<rparr>"

text \<open>One iteration of the backpressure loop under the lock. \<open>Inr None\<close>: no room, wait.\<close>

definition send_backpressure ::
  "('n, 'k) notify_ops \<Rightarrow> 'm \<Rightarrow> ('m, 'n) mailbox \<Rightarrow> mailbox_send_error + ('m, 'n) mailbox option" where
  "send_backpressure N msg mb =
     (if mb_closed mb then Inl Closed
      else if length (mb_queue mb) < mb_capacity mb
      then Inr (Some (push_and_notify N (mb_queue mb @ [msg]) mb))
      else Inr None)"

text \<open>\<open>iter_mut().find\<close> with the assignment to what was found.\<close>

fun replace_first :: "('m \<Rightarrow> 'm \<Rightarrow> bool) \<Rightarrow> 'm \<Rightarrow> 'm list \<Rightarrow> 'm list option" where
  "replace_first eq_fn msg [] = None"
| "replace_first eq_fn msg (it # queue) =
     (if eq_fn it msg then Some (msg # queue) else map_option (Cons it) (replace_first eq_fn msg queue))"

definition send_coalesce ::
  "('n, 'k) notify_ops \<Rightarrow> ('m \<Rightarrow> 'm \<Rightarrow> bool) \<Rightarrow> 'm \<Rightarrow> ('m, 'n) mailbox \<Rightarrow> mailbox_send_error + ('m, 'n) mailbox" where
  "send_coalesce N eq_fn msg mb =
     (if mb_closed mb then Inl Closed
      else case replace_first eq_fn msg (mb_queue mb) of
        Some queue \<Rightarrow> Inr (push_and_notify N queue mb)
      | None \<Rightarrow>
          let queue = (if mb_capacity mb \<le> length (mb_queue mb) then tl (mb_queue mb) else mb_queue mb)
          in Inr (push_and_notify N (queue @ [msg]) mb))"

text \<open>\<open>recv\<close> under the lock, and what follows a pop after its release.\<close>

datatype ('m, 'n) recv_outcome = Popped 'm "('m, 'n) mailbox" | Drained | NothingYet

definition recv_locked :: "('m, 'n) mailbox \<Rightarrow> ('m, 'n) recv_outcome" where
  "recv_locked mb =
     (case mb_queue mb of
        msg # queue \<Rightarrow> Popped msg (mb\<lparr> mb_queue := queue \<rparr>)
      | [] \<Rightarrow> if mb_closed mb then Drained else NothingYet)"

definition recv_notify_send :: "('n, 'k) notify_ops \<Rightarrow> ('m, 'n) mailbox \<Rightarrow> ('m, 'n) mailbox" where
  "recv_notify_send N mb =
     (case mb_policy mb of
        Backpressure n \<Rightarrow> mb\<lparr> mb_policy := Backpressure (nf_notify_one N n) \<rparr>
      | CoalesceByEq _ \<Rightarrow> mb)"

section \<open>Senders, closers and the receiver\<close>

text \<open>
  Where a task stands. \<open>Sending\<close>: its future is created, it is about to lock. \<open>NoRoom\<close>: it has released the lock
  and is about to poll the future. \<open>Parked\<close>: the future is registered. \<open>ClosedFlag\<close> and \<open>ClosedRecv\<close>: a close
  before its first and its second notification.
\<close>

datatype ('m, 'k) task_pc = Away | Sending 'm 'k | NoRoom 'm 'k | Parked 'm | ClosedFlag | ClosedRecv

text \<open>
  Where the receiver stands. \<open>Locking\<close>: it is about to lock. \<open>Holding\<close>: it has popped a message and released the lock.
  \<open>Released\<close>: it has found nothing and released the lock. \<open>Ticket\<close>: its future is created. \<open>Asleep\<close>: it is registered.
\<close>

datatype ('m, 'k) recv_pc = Outside | Locking | Holding 'm | Released | Ticket 'k | Asleep

record ('m, 'n, 'k) world =
  w_mailbox :: "('m, 'n) mailbox"
  w_tasks :: "task \<Rightarrow> ('m, 'k) task_pc"
  w_receiver :: "('m, 'k) recv_pc"
  w_accepted :: "'m list"
  w_received :: "'m list"
  w_refused :: "'m list"
  w_ended :: bool

definition set_task :: "task \<Rightarrow> ('m, 'k) task_pc \<Rightarrow> ('m, 'n, 'k) world \<Rightarrow> ('m, 'n, 'k) world" where
  "set_task t pc w = w\<lparr> w_tasks := (w_tasks w)(t := pc) \<rparr>"

text \<open>The receiver's identity in the waiting list of \<open>notify_recv\<close>.\<close>

definition RECEIVER :: task where
  "RECEIVER = 0"

text \<open>The steps of the tasks that hold senders. \<open>None\<close>: the task cannot step here.\<close>

definition accept :: "'m \<Rightarrow> ('m, 'n) mailbox \<Rightarrow> ('m, 'n, 'k) world \<Rightarrow> ('m, 'n, 'k) world" where
  "accept msg mb w = w\<lparr> w_mailbox := mb, w_accepted := w_accepted w @ [msg] \<rparr>"

definition refuse :: "'m \<Rightarrow> ('m, 'n, 'k) world \<Rightarrow> ('m, 'n, 'k) world" where
  "refuse msg w = w\<lparr> w_refused := w_refused w @ [msg] \<rparr>"

definition start_send :: "('n, 'k) notify_ops \<Rightarrow> task \<Rightarrow> 'm \<Rightarrow> ('m, 'n, 'k) world \<Rightarrow> ('m, 'n, 'k) world" where
  "start_send N t msg w =
     (case mb_policy (w_mailbox w) of
        Backpressure n \<Rightarrow> set_task t (Sending msg (nf_notified N n)) w
      | CoalesceByEq eq_fn \<Rightarrow>
          (case send_coalesce N eq_fn msg (w_mailbox w) of
             Inl Closed \<Rightarrow> refuse msg w
           | Inr mb \<Rightarrow> accept msg mb w))"

definition send_step :: "('n, 'k) notify_ops \<Rightarrow> task \<Rightarrow> ('m, 'n, 'k) world \<Rightarrow> ('m, 'n, 'k) world option" where
  "send_step N t w =
     (case (mb_policy (w_mailbox w), w_tasks w t) of
        (Backpressure n, Sending msg k) \<Rightarrow>
          (case send_backpressure N msg (w_mailbox w) of
             Inl Closed \<Rightarrow> Some (set_task t Away (refuse msg w))
           | Inr (Some mb) \<Rightarrow> Some (set_task t Away (accept msg mb w))
           | Inr None \<Rightarrow> Some (set_task t (NoRoom msg k) w))
      | (Backpressure n, NoRoom msg k) \<Rightarrow>
          (let (ready, n') = nf_poll N t k n;
               w' = w\<lparr> w_mailbox := (w_mailbox w)\<lparr> mb_policy := Backpressure n' \<rparr> \<rparr>
           in Some (set_task t (if ready then Sending msg (nf_notified N n') else Parked msg) w'))
      | (Backpressure n, Parked msg) \<Rightarrow>
          (if nf_waiting N t n then None else Some (set_task t (Sending msg (nf_notified N n)) w))
      | _ \<Rightarrow> None)"

definition close_step :: "('n, 'k) notify_ops \<Rightarrow> task \<Rightarrow> ('m, 'n, 'k) world \<Rightarrow> ('m, 'n, 'k) world option" where
  "close_step N t w =
     (case w_tasks w t of
        Away \<Rightarrow> Some (set_task t ClosedFlag (w\<lparr> w_mailbox := close_locked (w_mailbox w) \<rparr>))
      | ClosedFlag \<Rightarrow> Some (set_task t ClosedRecv (w\<lparr> w_mailbox := close_notify_recv N (w_mailbox w) \<rparr>))
      | ClosedRecv \<Rightarrow> Some (set_task t Away (w\<lparr> w_mailbox := close_notify_send N (w_mailbox w) \<rparr>))
      | _ \<Rightarrow> None)"

text \<open>
  \<open>close_now\<close>: as \<open>close\<close> when \<open>try_lock\<close> succeeds. When another task holds the lock nothing happens.
\<close>

definition close_now :: "bool \<Rightarrow> ('n, 'k) notify_ops \<Rightarrow> task \<Rightarrow> ('m, 'n, 'k) world \<Rightarrow> ('m, 'n, 'k) world option" where
  "close_now lock_free N t w = (if lock_free then close_step N t w else Some w)"

text \<open>The receiver. Entering \<open>recv\<close>, one step of it, and dropping its future at an await point.\<close>

definition recv_call :: "('m, 'n, 'k) world \<Rightarrow> ('m, 'n, 'k) world" where
  "recv_call w = w\<lparr> w_receiver := Locking \<rparr>"

definition recv_step :: "('n, 'k) notify_ops \<Rightarrow> ('m, 'n, 'k) world \<Rightarrow> ('m, 'n, 'k) world option" where
  "recv_step N w =
     (let mb = w_mailbox w in
      case w_receiver w of
        Outside \<Rightarrow> None
      | Locking \<Rightarrow>
          (case recv_locked mb of
             Popped msg mb' \<Rightarrow> Some (w\<lparr> w_mailbox := mb', w_receiver := Holding msg \<rparr>)
           | Drained \<Rightarrow> Some (w\<lparr> w_receiver := Outside, w_ended := True \<rparr>)
           | NothingYet \<Rightarrow> Some (w\<lparr> w_receiver := Released \<rparr>))
      | Holding msg \<Rightarrow>
          Some (w\<lparr> w_mailbox := recv_notify_send N mb, w_receiver := Outside, w_received := w_received w @ [msg] \<rparr>)
      | Released \<Rightarrow> Some (w\<lparr> w_receiver := Ticket (nf_notified N (mb_notify_recv mb)) \<rparr>)
      | Ticket k \<Rightarrow>
          (let (ready, n) = nf_poll N RECEIVER k (mb_notify_recv mb)
           in Some (w\<lparr> w_mailbox := mb\<lparr> mb_notify_recv := n \<rparr>, w_receiver := (if ready then Locking else Asleep) \<rparr>))
      | Asleep \<Rightarrow> if nf_waiting N RECEIVER (mb_notify_recv mb) then None else Some (w\<lparr> w_receiver := Locking \<rparr>))"

text \<open>The await points of \<open>recv\<close> are the lock and the notification.\<close>

definition recv_cancel :: "('n, 'k) notify_ops \<Rightarrow> ('m, 'n, 'k) world \<Rightarrow> ('m, 'n, 'k) world option" where
  "recv_cancel N w =
     (case w_receiver w of
        Locking \<Rightarrow> Some (w\<lparr> w_receiver := Outside \<rparr>)
      | Asleep \<Rightarrow>
          Some (w\<lparr> w_mailbox := (w_mailbox w)\<lparr> mb_notify_recv := nf_drop N RECEIVER (mb_notify_recv (w_mailbox w)) \<rparr>,
                   w_receiver := Outside \<rparr>)
      | _ \<Rightarrow> None)"

definition initial_world :: "('m, 'n) mailbox \<Rightarrow> ('m, 'n, 'k) world" where
  "initial_world mb =
     \<lparr> w_mailbox = mb, w_tasks = (\<lambda>_. Away), w_receiver = Outside, w_accepted = [], w_received = [],
       w_refused = [], w_ended = False \<rparr>"

inductive mb_step :: "('n, 'k) notify_ops \<Rightarrow> ('m, 'n, 'k) world \<Rightarrow> ('m, 'n, 'k) world \<Rightarrow> bool" for N where
  mb_start: "w_tasks w t = Away \<Longrightarrow> mb_step N w (start_send N t msg w)"
| mb_send: "send_step N t w = Some w' \<Longrightarrow> mb_step N w w'"
| mb_close: "close_step N t w = Some w' \<Longrightarrow> mb_step N w w'"
| mb_close_now: "close_now lock_free N t w = Some w' \<Longrightarrow> mb_step N w w'"
| mb_recv_call: "w_receiver w = Outside \<Longrightarrow> mb_step N w (recv_call w)"
| mb_recv: "recv_step N w = Some w' \<Longrightarrow> mb_step N w w'"
| mb_recv_cancel: "recv_cancel N w = Some w' \<Longrightarrow> mb_step N w w'"

abbreviation mb_reach :: "('n, 'k) notify_ops \<Rightarrow> ('m, 'n, 'k) world \<Rightarrow> ('m, 'n, 'k) world \<Rightarrow> bool" where
  "mb_reach N \<equiv> (mb_step N)\<^sup>*\<^sup>*"

section \<open>Specification predicates\<close>

definition coalesced_queue :: "nat \<Rightarrow> ('m \<Rightarrow> 'm \<Rightarrow> bool) \<Rightarrow> 'm \<Rightarrow> 'm list \<Rightarrow> 'm list" where
  "coalesced_queue capacity eq_fn msg queue =
     (case replace_first eq_fn msg queue of
        Some queue' \<Rightarrow> queue'
      | None \<Rightarrow> (if capacity \<le> length queue then tl queue else queue) @ [msg])"

text \<open>The steps of the system one by one, with the conditions under which each is taken.\<close>

inductive atom :: "('n, 'k) notify_ops \<Rightarrow> ('m, 'n, 'k) world \<Rightarrow> ('m, 'n, 'k) world \<Rightarrow> bool" for N w where
  atom_start: "w_tasks w t = Away \<Longrightarrow> mb_policy (w_mailbox w) = Backpressure n \<Longrightarrow>
    atom N w (set_task t (Sending msg (nf_notified N n)) w)"
| atom_coalesce: "mb_policy (w_mailbox w) = CoalesceByEq eq_fn \<Longrightarrow> \<not> mb_closed (w_mailbox w) \<Longrightarrow>
    atom N w (accept msg (push_and_notify N
      (coalesced_queue (mb_capacity (w_mailbox w)) eq_fn msg (mb_queue (w_mailbox w))) (w_mailbox w)) w)"
| atom_refuse_now: "mb_closed (w_mailbox w) \<Longrightarrow> atom N w (refuse msg w)"
| atom_refuse: "w_tasks w t = Sending msg k \<Longrightarrow> mb_closed (w_mailbox w) \<Longrightarrow> atom N w (set_task t Away (refuse msg w))"
| atom_accept: "w_tasks w t = Sending msg k \<Longrightarrow> mb_policy (w_mailbox w) = Backpressure n \<Longrightarrow>
    \<not> mb_closed (w_mailbox w) \<Longrightarrow> length (mb_queue (w_mailbox w)) < mb_capacity (w_mailbox w) \<Longrightarrow>
    atom N w (set_task t Away (accept msg (push_and_notify N (mb_queue (w_mailbox w) @ [msg]) (w_mailbox w)) w))"
| atom_no_room: "w_tasks w t = Sending msg k \<Longrightarrow> mb_policy (w_mailbox w) = Backpressure n \<Longrightarrow>
    \<not> mb_closed (w_mailbox w) \<Longrightarrow> mb_capacity (w_mailbox w) \<le> length (mb_queue (w_mailbox w)) \<Longrightarrow>
    atom N w (set_task t (NoRoom msg k) w)"
| atom_poll: "w_tasks w t = NoRoom msg k \<Longrightarrow> mb_policy (w_mailbox w) = Backpressure n \<Longrightarrow> nf_poll N t k n = (True, n') \<Longrightarrow>
    atom N w (set_task t (Sending msg (nf_notified N n')) (w\<lparr> w_mailbox := (w_mailbox w)\<lparr> mb_policy := Backpressure n' \<rparr> \<rparr>))"
| atom_park: "w_tasks w t = NoRoom msg k \<Longrightarrow> mb_policy (w_mailbox w) = Backpressure n \<Longrightarrow> nf_poll N t k n = (False, n') \<Longrightarrow>
    atom N w (set_task t (Parked msg) (w\<lparr> w_mailbox := (w_mailbox w)\<lparr> mb_policy := Backpressure n' \<rparr> \<rparr>))"
| atom_woken: "w_tasks w t = Parked msg \<Longrightarrow> mb_policy (w_mailbox w) = Backpressure n \<Longrightarrow> \<not> nf_waiting N t n \<Longrightarrow>
    atom N w (set_task t (Sending msg (nf_notified N n)) w)"
| atom_close_flag: "w_tasks w t = Away \<Longrightarrow> atom N w (set_task t ClosedFlag (w\<lparr> w_mailbox := close_locked (w_mailbox w) \<rparr>))"
| atom_close_recv: "w_tasks w t = ClosedFlag \<Longrightarrow>
    atom N w (set_task t ClosedRecv (w\<lparr> w_mailbox := close_notify_recv N (w_mailbox w) \<rparr>))"
| atom_close_send: "w_tasks w t = ClosedRecv \<Longrightarrow>
    atom N w (set_task t Away (w\<lparr> w_mailbox := close_notify_send N (w_mailbox w) \<rparr>))"
| atom_skip: "atom N w w"
| atom_call: "w_receiver w = Outside \<Longrightarrow> atom N w (recv_call w)"
| atom_pop: "w_receiver w = Locking \<Longrightarrow> mb_queue (w_mailbox w) = msg # queue \<Longrightarrow>
    atom N w (w\<lparr> w_mailbox := (w_mailbox w)\<lparr> mb_queue := queue \<rparr>, w_receiver := Holding msg \<rparr>)"
| atom_drained: "w_receiver w = Locking \<Longrightarrow> mb_queue (w_mailbox w) = [] \<Longrightarrow> mb_closed (w_mailbox w) \<Longrightarrow>
    atom N w (w\<lparr> w_receiver := Outside, w_ended := True \<rparr>)"
| atom_nothing: "w_receiver w = Locking \<Longrightarrow> mb_queue (w_mailbox w) = [] \<Longrightarrow> \<not> mb_closed (w_mailbox w) \<Longrightarrow>
    atom N w (w\<lparr> w_receiver := Released \<rparr>)"
| atom_deliver: "w_receiver w = Holding msg \<Longrightarrow>
    atom N w (w\<lparr> w_mailbox := recv_notify_send N (w_mailbox w), w_receiver := Outside, w_received := w_received w @ [msg] \<rparr>)"
| atom_ticket: "w_receiver w = Released \<Longrightarrow>
    atom N w (w\<lparr> w_receiver := Ticket (nf_notified N (mb_notify_recv (w_mailbox w))) \<rparr>)"
| atom_recv_poll: "w_receiver w = Ticket k \<Longrightarrow> nf_poll N RECEIVER k (mb_notify_recv (w_mailbox w)) = (True, n) \<Longrightarrow>
    atom N w (w\<lparr> w_mailbox := (w_mailbox w)\<lparr> mb_notify_recv := n \<rparr>, w_receiver := Locking \<rparr>)"
| atom_recv_park: "w_receiver w = Ticket k \<Longrightarrow> nf_poll N RECEIVER k (mb_notify_recv (w_mailbox w)) = (False, n) \<Longrightarrow>
    atom N w (w\<lparr> w_mailbox := (w_mailbox w)\<lparr> mb_notify_recv := n \<rparr>, w_receiver := Asleep \<rparr>)"
| atom_recv_woken: "w_receiver w = Asleep \<Longrightarrow> \<not> nf_waiting N RECEIVER (mb_notify_recv (w_mailbox w)) \<Longrightarrow>
    atom N w (w\<lparr> w_receiver := Locking \<rparr>)"
| atom_cancel_lock: "w_receiver w = Locking \<Longrightarrow> atom N w (w\<lparr> w_receiver := Outside \<rparr>)"
| atom_cancel_sleep: "w_receiver w = Asleep \<Longrightarrow>
    atom N w (w\<lparr> w_mailbox := (w_mailbox w)\<lparr> mb_notify_recv := nf_drop N RECEIVER (mb_notify_recv (w_mailbox w)) \<rparr>,
                 w_receiver := Outside \<rparr>)"

text \<open>What is said about the waiting lists.\<close>

definition in_motion :: "('n, 'k) notify_ops \<Rightarrow> 'n \<Rightarrow> ('m, 'k) task_pc \<Rightarrow> task \<Rightarrow> bool" where
  "in_motion N n pc t = (case pc of Sending _ _ \<Rightarrow> True | Parked _ \<Rightarrow> t \<notin> set (nv_waiters N n) | _ \<Rightarrow> False)"

definition blocked :: "('n, 'k) notify_ops \<Rightarrow> 'n \<Rightarrow> ('m, 'k) task_pc \<Rightarrow> task \<Rightarrow> bool" where
  "blocked N n pc t = (case pc of NoRoom _ _ \<Rightarrow> True | Parked _ \<Rightarrow> t \<in> set (nv_waiters N n) | _ \<Rightarrow> False)"

definition closing :: "('m, 'k) task_pc \<Rightarrow> bool" where
  "closing pc \<longleftrightarrow> pc = ClosedFlag \<or> pc = ClosedRecv"

definition any_closing :: "(task \<Rightarrow> ('m, 'k) task_pc) \<Rightarrow> bool" where
  "any_closing f \<longleftrightarrow> (\<exists>t. closing (f t))"

definition held :: "('m, 'k) recv_pc \<Rightarrow> 'm list" where
  "held pc = (case pc of Holding msg \<Rightarrow> [msg] | _ \<Rightarrow> [])"

definition parked :: "('m, 'k) task_pc \<Rightarrow> bool" where
  "parked pc = (case pc of Parked _ \<Rightarrow> True | _ \<Rightarrow> False)"

definition queue_inv :: "('m, 'n, 'k) world \<Rightarrow> bool" where
  "queue_inv w \<longleftrightarrow>
     0 < mb_capacity (w_mailbox w) \<and> length (mb_queue (w_mailbox w)) \<le> mb_capacity (w_mailbox w) \<and>
     (\<forall>t. closing (w_tasks w t) \<longrightarrow> mb_closed (w_mailbox w)) \<and>
     (w_ended w \<longrightarrow> mb_closed (w_mailbox w) \<and> held (w_receiver w) = [] \<and> mb_queue (w_mailbox w) = [])"

definition waiters_inv :: "('n, 'k) notify_ops \<Rightarrow> ('m, 'n, 'k) world \<Rightarrow> bool" where
  "waiters_inv N w \<longleftrightarrow>
     nv_waiters N (mb_notify_recv (w_mailbox w)) \<in> (if w_receiver w = Asleep then {[], [RECEIVER]} else {[]}) \<and>
     (\<forall>n. mb_policy (w_mailbox w) = Backpressure n \<longrightarrow>
        (nv_permit N n \<longrightarrow> nv_waiters N n = []) \<and> distinct (nv_waiters N n) \<and>
        (\<forall>t \<in> set (nv_waiters N n). parked (w_tasks w t)))"

definition tickets_inv :: "('n, 'k) notify_ops \<Rightarrow> ('m, 'n, 'k) world \<Rightarrow> bool" where
  "tickets_inv N w \<longleftrightarrow>
     (\<forall>k. w_receiver w = Ticket k \<longrightarrow> nv_created N k \<le> nv_calls N (mb_notify_recv (w_mailbox w))) \<and>
     (\<forall>n t msg k. mb_policy (w_mailbox w) = Backpressure n \<and> (w_tasks w t = Sending msg k \<or> w_tasks w t = NoRoom msg k) \<longrightarrow>
        nv_created N k \<le> nv_calls N n)"

definition recv_wake_inv :: "('n, 'k) notify_ops \<Rightarrow> ('m, 'n, 'k) world \<Rightarrow> bool" where
  "recv_wake_inv N w \<longleftrightarrow>
     mb_queue (w_mailbox w) = [] \<or>
     (case w_receiver w of
        Released \<Rightarrow> nv_permit N (mb_notify_recv (w_mailbox w))
      | Ticket k \<Rightarrow> nv_permit N (mb_notify_recv (w_mailbox w)) \<or> \<not> fresh N k (mb_notify_recv (w_mailbox w))
      | Asleep \<Rightarrow> nv_waiters N (mb_notify_recv (w_mailbox w)) = []
      | _ \<Rightarrow> True)"

definition send_wake_inv :: "('n, 'k) notify_ops \<Rightarrow> ('m, 'n, 'k) world \<Rightarrow> bool" where
  "send_wake_inv N w \<longleftrightarrow>
     (\<forall>n. mb_policy (w_mailbox w) = Backpressure n \<and> (\<exists>t. blocked N n (w_tasks w t) t) \<and> \<not> mb_closed (w_mailbox w) \<longrightarrow>
        mb_queue (w_mailbox w) \<noteq> [] \<or> held (w_receiver w) \<noteq> [] \<or> nv_permit N n \<or> (\<exists>t. in_motion N n (w_tasks w t) t))"

definition close_wake_inv :: "('n, 'k) notify_ops \<Rightarrow> ('m, 'n, 'k) world \<Rightarrow> bool" where
  "close_wake_inv N w \<longleftrightarrow>
     (\<forall>n. mb_policy (w_mailbox w) = Backpressure n \<and> mb_closed (w_mailbox w) \<longrightarrow>
        any_closing (w_tasks w) \<or>
        nv_waiters N n = [] \<and> (\<forall>t msg k. w_tasks w t = NoRoom msg k \<longrightarrow> \<not> fresh N k n))"

definition fifo_inv :: "('m, 'n, 'k) world \<Rightarrow> bool" where
  "fifo_inv w \<longleftrightarrow> (\<exists>n. mb_policy (w_mailbox w) = Backpressure n) \<and>
     w_accepted w = w_received w @ held (w_receiver w) @ mb_queue (w_mailbox w)"

text \<open>The invariant of a coalescing mailbox whose equality compares keys (\<open>coalesce_by_key\<close>).\<close>

definition coalesce_inv :: "('m \<Rightarrow> 'key) \<Rightarrow> ('m, 'n, 'k) world \<Rightarrow> bool" where
  "coalesce_inv key w \<longleftrightarrow>
     mb_policy (w_mailbox w) = CoalesceByEq (\<lambda>lhs rhs. key lhs = key rhs) \<and>
     distinct (map key (mb_queue (w_mailbox w))) \<and>
     (\<forall>msg \<in> set (mb_queue (w_mailbox w)). find (\<lambda>m. key m = key msg) (rev (w_accepted w)) = Some msg) \<and>
     set (w_received w @ held (w_receiver w)) \<subseteq> set (w_accepted w) \<and>
     (w_accepted w \<noteq> [] \<longrightarrow>
        last (w_accepted w) \<in> set (w_received w @ held (w_receiver w) @ mb_queue (w_mailbox w))) \<and>
     (\<forall>t. w_tasks w t = Away \<or> closing (w_tasks w t))"

text \<open>An implementation of the contract of \<open>Notify\<close>: the permit, the number of calls to \<open>notify_waiters\<close>, the tasks.\<close>

definition list_notify :: "(bool \<times> nat \<times> task list, nat) notify_ops" where
  "list_notify =
     \<lparr> nf_new = (False, 0, []), nf_notified = (\<lambda>(permit, calls, ts). calls),
       nf_poll = (\<lambda>t k (permit, calls, ts).
         if permit \<or> k \<noteq> calls then (True, (False, calls, ts)) else (False, (False, calls, ts @ [t]))),
       nf_waiting = (\<lambda>t (permit, calls, ts). t \<in> set ts),
       nf_notify_one = (\<lambda>(permit, calls, ts). (permit \<or> ts = [], calls, tl ts)),
       nf_notify_waiters = (\<lambda>(permit, calls, ts). (permit, calls + 1, [])),
       nf_drop = (\<lambda>t (permit, calls, ts). (permit, calls, removeAll t ts)),
       nv_permit = fst, nv_waiters = (\<lambda>(permit, calls, ts). ts), nv_calls = (\<lambda>(permit, calls, ts). calls),
       nv_created = (\<lambda>k. k) \<rparr>"

text \<open>Runs of the system given by a schedule.\<close>

datatype 'm mb_action = StartSend task 'm | StepSend task | StepClose task | CallRecv | StepRecv

fun mb_do :: "('n, 'k) notify_ops \<Rightarrow> 'm mb_action \<Rightarrow> ('m, 'n, 'k) world \<Rightarrow> ('m, 'n, 'k) world option" where
  "mb_do N (StartSend t msg) w = (case w_tasks w t of Away \<Rightarrow> Some (start_send N t msg w) | _ \<Rightarrow> None)"
| "mb_do N (StepSend t) w = send_step N t w"
| "mb_do N (StepClose t) w = close_step N t w"
| "mb_do N CallRecv w = (case w_receiver w of Outside \<Rightarrow> Some (recv_call w) | _ \<Rightarrow> None)"
| "mb_do N StepRecv w = recv_step N w"

fun mb_run :: "('n, 'k) notify_ops \<Rightarrow> 'm mb_action list \<Rightarrow> ('m, 'n, 'k) world \<Rightarrow> ('m, 'n, 'k) world option" where
  "mb_run N [] w = Some w"
| "mb_run N (a # as) w = (case mb_do N a w of Some w' \<Rightarrow> mb_run N as w' | None \<Rightarrow> None)"

definition backpressure_reached :: "('n, 'k) notify_ops \<Rightarrow> ('m, 'n, 'k) world \<Rightarrow> bool" where
  "backpressure_reached N w \<longleftrightarrow> (\<exists>c mb. mailbox_backpressure N c = Some mb \<and> mb_reach N (initial_world mb) w)"

section \<open>Lemmas\<close>

subsection \<open>Notifications\<close>

lemma notify_simps:
  assumes "notify_ok N"
  shows "\<not> nv_permit N (nf_new N)" and "nv_waiters N (nf_new N) = []" and "nv_created N (nf_notified N n) = nv_calls N n"
    and "nf_waiting N t n \<longleftrightarrow> t \<in> set (nv_waiters N n)"
    and "nv_waiters N (nf_notify_one N n) = tl (nv_waiters N n)"
    and "nv_permit N (nf_notify_one N n) = (nv_permit N n \<or> nv_waiters N n = [])"
    and "nv_calls N (nf_notify_one N n) = nv_calls N n"
    and "nv_waiters N (nf_notify_waiters N n) = []" and "nv_permit N (nf_notify_waiters N n) = nv_permit N n"
    and "nv_calls N (nf_notify_waiters N n) = nv_calls N n + 1"
  using assms by (simp_all add: notify_ok_def)

lemma notify_dropD:
  assumes "notify_ok N"
  shows "set (nv_waiters N (nf_drop N t n)) \<subseteq> set (nv_waiters N n) - {t}"
    and "nv_permit N n \<Longrightarrow> nv_permit N (nf_drop N t n)" and "nv_calls N (nf_drop N t n) = nv_calls N n"
  using assms by (simp_all add: notify_ok_def)

lemma notify_pollD:
  assumes "notify_ok N" "nf_poll N t k n = (ready, n')" "t \<notin> set (nv_waiters N n)"
  shows "ready = (nv_permit N n \<or> \<not> fresh N k n)" and "nv_waiters N n' = nv_waiters N n @ (if ready then [] else [t])"
    and "nv_permit N n' \<Longrightarrow> nv_permit N n \<and> \<not> fresh N k n" and "nv_calls N n' = nv_calls N n"
proof -
  note law = assms(1)[unfolded notify_ok_def]
  have "\<forall>t k n. nv_calls N (snd (nf_poll N t k n)) = nv_calls N n" using law by (elim conjE) assumption
  from this[rule_format, of t k n] show "nv_calls N n' = nv_calls N n" by (simp add: assms(2))
  have "\<forall>t k n. t \<notin> set (nv_waiters N n) \<longrightarrow>
        fst (nf_poll N t k n) = (nv_permit N n \<or> \<not> fresh N k n) \<and>
        nv_waiters N (snd (nf_poll N t k n)) = nv_waiters N n @ (if fst (nf_poll N t k n) then [] else [t]) \<and>
        (nv_permit N (snd (nf_poll N t k n)) \<longrightarrow> nv_permit N n \<and> \<not> fresh N k n)" using law by (elim conjE) assumption
  from this[rule_format, OF assms(3), of k]
  show "ready = (nv_permit N n \<or> \<not> fresh N k n)" "nv_waiters N n' = nv_waiters N n @ (if ready then [] else [t])"
    "nv_permit N n' \<Longrightarrow> nv_permit N n \<and> \<not> fresh N k n"
    by (simp_all add: assms(2))
qed

subsection \<open>Steps\<close>

lemma send_coalesce_eq:
  "send_coalesce N eq_fn msg mb =
     (if mb_closed mb then Inl Closed
      else Inr (push_and_notify N (coalesced_queue (mb_capacity mb) eq_fn msg (mb_queue mb)) mb))"
  by (simp add: send_coalesce_def coalesced_queue_def Let_def split: option.split)

lemma start_send_atom: "w_tasks w t = Away \<Longrightarrow> atom N w (start_send N t msg w)"
  by (auto simp: start_send_def send_coalesce_eq intro: atom.intros split: mailbox_policy.split)

lemma send_step_atom:
  assumes "send_step N t w = Some w'" shows "atom N w w'"
  using assms by (auto simp: send_step_def send_backpressure_def Let_def
      split: mailbox_policy.splits task_pc.splits prod.splits if_splits intro: atom.intros)

lemma close_step_atom: "close_step N t w = Some w' \<Longrightarrow> atom N w w'"
  by (auto simp: close_step_def split: task_pc.splits intro: atom.intros)

lemma recv_step_atom: "recv_step N w = Some w' \<Longrightarrow> atom N w w'"
  by (auto simp: recv_step_def recv_locked_def Let_def
      split: recv_pc.splits list.splits prod.splits if_splits intro: atom.intros)

lemma recv_cancel_atom: "recv_cancel N w = Some w' \<Longrightarrow> atom N w w'"
  by (auto simp: recv_cancel_def split: recv_pc.splits intro: atom.intros)

lemma close_now_atom: "close_now lock_free N t w = Some w' \<Longrightarrow> atom N w w'"
  by (auto simp: close_now_def close_step_atom split: if_splits intro: atom_skip)

lemma mb_step_atom:
  assumes "mb_step N w w'" shows "atom N w w'"
  using assms
proof cases
  case mb_recv_call then show ?thesis by (auto intro: atom_call)
qed (auto intro: start_send_atom send_step_atom close_step_atom recv_step_atom close_now_atom recv_cancel_atom)


lemmas step_effects = set_task_def accept_def refuse_def push_and_notify_def close_locked_def close_notify_recv_def
  close_notify_send_def recv_call_def recv_notify_send_def

lemma replace_first_length: "replace_first eq_fn msg queue = Some queue' \<Longrightarrow> length queue' = length queue"
  by (induction queue arbitrary: queue') (auto split: if_splits)

lemma coalesced_queue_length:
  "0 < c \<Longrightarrow> length queue \<le> c \<Longrightarrow> length (coalesced_queue c eq_fn msg queue) \<le> c"
  by (auto simp: coalesced_queue_def replace_first_length split: option.split)

lemma queue_inv_step:
  assumes "atom N w w'" "queue_inv w" shows "queue_inv w'"
  using assms
  by cases (auto simp: queue_inv_def step_effects closing_def held_def coalesced_queue_length split: mailbox_policy.splits if_splits)

lemma in_set_tlD: "x \<in> set (tl xs) \<Longrightarrow> x \<in> set xs"
  by (cases xs) simp_all

lemma parked_simps [simp]:
  "parked (Parked msg)" "\<not> parked Away" "\<not> parked (Sending msg k)" "\<not> parked (NoRoom msg k)" "\<not> parked ClosedFlag"
  "\<not> parked ClosedRecv"
  by (simp_all add: parked_def)

lemma parkedE: "parked pc \<Longrightarrow> (\<And>msg. pc = Parked msg \<Longrightarrow> P) \<Longrightarrow> P"
  by (cases pc) simp_all

lemma waiting_parked:
  "waiters_inv N w \<Longrightarrow> mb_policy (w_mailbox w) = Backpressure n \<Longrightarrow> t \<in> set (nv_waiters N n) \<Longrightarrow> \<exists>msg. w_tasks w t = Parked msg"
  by (auto simp: waiters_inv_def elim: parkedE)

lemma waiters_inv_step:
  assumes N: "notify_ok N" and "atom N w w'" "waiters_inv N w" shows "waiters_inv N w'"
  using assms(2)
proof cases
  case (atom_cancel_sleep)
  then show ?thesis using assms(3) notify_dropD(1)[OF N, of RECEIVER "mb_notify_recv (w_mailbox w)"]
    by (auto simp: waiters_inv_def step_effects split: if_splits)
next
  case (atom_park t msg k n n')
  then have "t \<notin> set (nv_waiters N n)" using assms(3) by (auto simp: waiters_inv_def dest: bspec)
  then show ?thesis using assms(3) atom_park notify_pollD(1-3)[OF N atom_park(4)]
    by (auto simp: waiters_inv_def step_effects)
next
  case (atom_poll t msg k n n')
  then have "t \<notin> set (nv_waiters N n)" using assms(3) by (auto simp: waiters_inv_def dest: bspec)
  then show ?thesis using assms(3) atom_poll notify_pollD(1-3)[OF N atom_poll(4)]
    by (auto simp: waiters_inv_def step_effects)
next
  case (atom_recv_poll k n)
  then show ?thesis using assms(3) notify_pollD(2)[OF N atom_recv_poll(3)]
    by (auto simp: waiters_inv_def step_effects)
next
  case (atom_recv_park k n)
  then show ?thesis using assms(3) notify_pollD(2)[OF N atom_recv_park(3)]
    by (auto simp: waiters_inv_def step_effects)
qed (use assms(3) in \<open>auto simp: waiters_inv_def step_effects notify_simps[OF N] distinct_tl dest: in_set_tlD waiting_parked[OF assms(3)]
      split: mailbox_policy.splits if_splits\<close>)

lemma tickets_inv_step:
  assumes N: "notify_ok N" and "atom N w w'" "waiters_inv N w" "tickets_inv N w" shows "tickets_inv N w'"
  using assms(2)
proof cases
  case (atom_park t msg k n n')
  then have "t \<notin> set (nv_waiters N n)" using assms(3) by (auto simp: waiters_inv_def dest: bspec)
  from notify_pollD[OF N atom_park(4) this] show ?thesis
    using assms(4) atom_park by (auto simp: tickets_inv_def step_effects)
next
  case (atom_poll t msg k n n')
  then have "t \<notin> set (nv_waiters N n)" using assms(3) by (auto simp: waiters_inv_def dest: bspec)
  from notify_pollD[OF N atom_poll(4) this] show ?thesis
    using assms(4) atom_poll by (auto simp: tickets_inv_def step_effects notify_simps[OF N])
qed (use assms(4) in \<open>fastforce simp: tickets_inv_def step_effects notify_simps[OF N] notify_dropD[OF N]
      split: mailbox_policy.splits\<close>)+

lemma fifo_inv_step:
  assumes "atom N w w'" "fifo_inv w" shows "fifo_inv w'"
  using assms by cases (auto simp: fifo_inv_def held_def step_effects split: mailbox_policy.splits)


lemma recv_wake_inv_step:
  assumes N: "notify_ok N" and "atom N w w'" "waiters_inv N w" "recv_wake_inv N w" "tickets_inv N w" shows "recv_wake_inv N w'"
  using assms(2)
proof cases
  case (atom_recv_park k n)
  have "RECEIVER \<notin> set (nv_waiters N (mb_notify_recv (w_mailbox w)))"
    using assms(3) atom_recv_park by (auto simp: waiters_inv_def)
  from notify_pollD[OF N atom_recv_park(3) this] show ?thesis
    using assms(4) atom_recv_park by (auto simp: recv_wake_inv_def)
next
  case (atom_pop msg queue)
  then show ?thesis by (simp add: recv_wake_inv_def)
qed (use assms(3,4,5) in \<open>auto simp: recv_wake_inv_def waiters_inv_def tickets_inv_def fresh_def step_effects notify_simps[OF N] notify_dropD[OF N]
      split: mailbox_policy.splits if_splits recv_pc.splits\<close>)

lemma closing_simps [simp]:
  "closing ClosedFlag" "closing ClosedRecv" "\<not> closing Away" "\<not> closing (Sending msg k)" "\<not> closing (NoRoom msg k)"
  "\<not> closing (Parked msg)"
  by (simp_all add: closing_def)

lemma any_closing_upd:
  "closing pc \<Longrightarrow> any_closing (f(t := pc))"
  "\<not> closing pc \<Longrightarrow> \<not> closing (f t) \<Longrightarrow> any_closing (f(t := pc)) = any_closing f"
  by (auto simp: any_closing_def)

lemma close_wake_inv_step:
  assumes N: "notify_ok N" and "atom N w w'" "waiters_inv N w" "close_wake_inv N w" "tickets_inv N w"
  shows "close_wake_inv N w'"
  using assms(2)
proof cases
  case (atom_poll t msg k n n')
  then have "t \<notin> set (nv_waiters N n)" using assms(3) by (auto simp: waiters_inv_def dest: bspec)
  from notify_pollD[OF N atom_poll(4) this] show ?thesis
    using assms(4) atom_poll by (auto simp: close_wake_inv_def fresh_def step_effects any_closing_upd)
next
  case (atom_park t msg k n n')
  then have "t \<notin> set (nv_waiters N n)" using assms(3) by (auto simp: waiters_inv_def dest: bspec)
  from notify_pollD[OF N atom_park(4) this] show ?thesis
    using assms(4) atom_park by (auto simp: close_wake_inv_def fresh_def step_effects any_closing_upd)
next
  case (atom_close_send t)
  have "\<not> fresh N k (nf_notify_waiters N n)"
    if "mb_policy (w_mailbox w) = Backpressure n" "w_tasks w s = NoRoom msg k" for n s msg k
    using assms(5) that by (fastforce simp: tickets_inv_def fresh_def notify_simps[OF N])
  then show ?thesis using atom_close_send
    by (auto simp: close_wake_inv_def step_effects notify_simps[OF N] split: mailbox_policy.splits if_splits)
qed (use assms(4,5) in \<open>auto simp: close_wake_inv_def tickets_inv_def fresh_def step_effects notify_simps[OF N] any_closing_upd
      split: mailbox_policy.splits if_splits\<close>)

lemma blocked_moving_simps [simp]:
  "\<not> blocked N n Away t" "\<not> blocked N n (Sending msg k) t" "blocked N n (NoRoom msg k) t"
  "blocked N n (Parked msg) t = (t \<in> set (nv_waiters N n))" "\<not> blocked N n ClosedFlag t" "\<not> blocked N n ClosedRecv t"
  "\<not> in_motion N n Away t" "in_motion N n (Sending msg k) t" "\<not> in_motion N n (NoRoom msg k) t"
  "in_motion N n (Parked msg) t = (t \<notin> set (nv_waiters N n))" "\<not> in_motion N n ClosedFlag t" "\<not> in_motion N n ClosedRecv t"
  by (simp_all add: blocked_def in_motion_def)

lemma blocked_mono:
  "set (nv_waiters N n') \<subseteq> set (nv_waiters N n) \<Longrightarrow> blocked N n' pc t \<Longrightarrow> blocked N n pc t"
  "set (nv_waiters N n') \<subseteq> set (nv_waiters N n) \<Longrightarrow> in_motion N n pc t \<Longrightarrow> in_motion N n' pc t"
  by (cases pc; auto)+

text \<open>A notification puts a waiting task into motion or leaves a permit.\<close>

lemma notify_one_moves:
  assumes N: "notify_ok N" and W: "waiters_inv N w" "mb_policy (w_mailbox w) = Backpressure n"
  shows "nv_permit N (nf_notify_one N n) \<or> (\<exists>t. in_motion N (nf_notify_one N n) (w_tasks w t) t)"
proof (cases "nv_waiters N n")
  case (Cons t ts)
  then obtain msg where "w_tasks w t = Parked msg" "t \<notin> set ts" using W by (auto simp: waiters_inv_def elim: parkedE)
  then have "in_motion N (nf_notify_one N n) (w_tasks w t) t" by (simp add: notify_simps[OF N] Cons)
  then show ?thesis by blast
qed (simp add: notify_simps[OF N])

text \<open>A step of one task that leaves the mailbox alone, when that task is in motion afterwards or there are messages.\<close>

lemma send_wake_moved:
  "in_motion N n pc t \<Longrightarrow> mb_policy (w_mailbox w') = Backpressure n \<Longrightarrow> w_tasks w' t = pc \<Longrightarrow> send_wake_inv N w'"
  by (auto simp: send_wake_inv_def)

lemma send_wake_queue: "mb_queue (w_mailbox w') \<noteq> [] \<Longrightarrow> send_wake_inv N w'"
  by (simp add: send_wake_inv_def)

lemma send_wake_same:
  assumes "send_wake_inv N w" "mb_policy (w_mailbox w') = mb_policy (w_mailbox w)"
    and "mb_queue (w_mailbox w') = mb_queue (w_mailbox w)" "mb_closed (w_mailbox w') = mb_closed (w_mailbox w)"
    and "held (w_receiver w') = held (w_receiver w)" "w_tasks w' = w_tasks w"
  shows "send_wake_inv N w'"
  using assms by (simp add: send_wake_inv_def)

lemma send_wake_inv_step:
  assumes N: "notify_ok N" and "atom N w w'" and I: "queue_inv w" "waiters_inv N w" "send_wake_inv N w"
  shows "send_wake_inv N w'"
  using assms(2)
proof cases
  case (atom_start t n msg)
  then show ?thesis by (intro send_wake_moved[of N n "Sending msg (nf_notified N n)" t]) (simp_all add: step_effects)
next
  case (atom_woken t msg n)
  then show ?thesis by (intro send_wake_moved[of N n "Sending msg (nf_notified N n)" t]) (simp_all add: step_effects)
next
  case (atom_poll t msg k n n')
  then show ?thesis by (intro send_wake_moved[of N n' "Sending msg (nf_notified N n')" t]) (simp_all add: step_effects)
next
  case (atom_accept t msg k n)
  then show ?thesis by (intro send_wake_queue) (simp add: step_effects)
next
  case (atom_no_room t msg k n)
  then show ?thesis using I(1) by (intro send_wake_queue) (auto simp: step_effects queue_inv_def)
next
  case (atom_park t msg k n n')
  then have t: "t \<notin> set (nv_waiters N n)" using I(2) by (auto simp: waiters_inv_def dest: bspec)
  note P = notify_pollD[OF N atom_park(4) t]
  show ?thesis
  proof (cases "mb_closed (w_mailbox w) \<or> mb_queue (w_mailbox w) \<noteq> [] \<or> held (w_receiver w) \<noteq> []")
    case True
    then show ?thesis using atom_park by (auto simp: send_wake_inv_def step_effects)
  next
    case False
    have "blocked N n (w_tasks w t) t" using atom_park by simp
    with I(3) False atom_park(3) P(1) obtain s where "in_motion N n (w_tasks w s) s"
      unfolding send_wake_inv_def by blast
    moreover from this have "s \<noteq> t" using atom_park(2) by auto
    ultimately have "in_motion N n' (((w_tasks w)(t := Parked msg)) s) s" using P(2)
      by (cases "w_tasks w s") auto
    then have "in_motion N n' (w_tasks w' s) s" using atom_park(1) by (simp add: step_effects)
    moreover have "mb_policy (w_mailbox w') = Backpressure n'" using atom_park(1) by (simp add: step_effects)
    ultimately show ?thesis by (auto simp: send_wake_inv_def)
  qed
next
  case (atom_deliver msg)
  show ?thesis
  proof (cases "mb_policy (w_mailbox w)")
    case (Backpressure n)
    then show ?thesis using notify_one_moves[OF N I(2) Backpressure] atom_deliver
      by (auto simp: send_wake_inv_def step_effects)
  qed (use atom_deliver in \<open>simp add: send_wake_inv_def step_effects\<close>)
next
  case (atom_refuse t msg k)
  then show ?thesis by (simp add: send_wake_inv_def step_effects)
next
  case (atom_close_flag t)
  then show ?thesis by (simp add: send_wake_inv_def step_effects)
next
  case (atom_close_recv t)
  then have "mb_closed (w_mailbox w)" using I(1) by (metis queue_inv_def closing_simps(1))
  then show ?thesis using atom_close_recv by (simp add: send_wake_inv_def step_effects)
next
  case (atom_close_send t)
  then have "mb_closed (w_mailbox w)" using I(1) by (metis queue_inv_def closing_simps(2))
  then show ?thesis using atom_close_send by (simp add: send_wake_inv_def step_effects split: mailbox_policy.split)
next
  case (atom_coalesce eq_fn msg)
  then show ?thesis by (simp add: send_wake_inv_def step_effects)
next
  case (atom_pop msg queue)
  then show ?thesis by (simp add: send_wake_inv_def held_def)
next
  case (atom_recv_poll k n)
  then show ?thesis using I(3) by (simp add: send_wake_inv_def held_def)
qed (rule send_wake_same[OF I(3)]; simp add: step_effects held_def)+


subsection \<open>Coalescing\<close>

lemma replace_first_None: "replace_first (\<lambda>lhs rhs. key lhs = key rhs) msg queue = None \<longleftrightarrow> key msg \<notin> key ` set queue"
  by (induction queue) auto

lemma replace_first_Some:
  assumes "replace_first (\<lambda>lhs rhs. key lhs = key rhs) msg queue = Some queue'" "distinct (map key queue)"
  shows "map key queue' = map key queue \<and> set queue' = insert msg {m \<in> set queue. key m \<noteq> key msg}"
  using assms
proof (induction queue arbitrary: queue')
  case (Cons it queue)
  show ?case
  proof (cases "key it = key msg")
    case False
    then obtain rest where "replace_first (\<lambda>lhs rhs. key lhs = key rhs) msg queue = Some rest" "queue' = it # rest"
      using Cons.prems(1) by auto
    then show ?thesis using Cons.IH[of rest] Cons.prems(2) False by auto
  qed (use Cons.prems in \<open>auto simp: image_iff; metis\<close>)
qed simp

lemma coalesced_queue_keys:
  assumes "distinct (map key queue)"
  shows "let queue' = coalesced_queue c (\<lambda>lhs rhs. key lhs = key rhs) msg queue in
    distinct (map key queue') \<and> msg \<in> set queue' \<and> set queue' \<subseteq> insert msg {m \<in> set queue. key m \<noteq> key msg}"
proof (cases "replace_first (\<lambda>lhs rhs. key lhs = key rhs) msg queue")
  case None
  then have new: "key msg \<notin> key ` set queue" using replace_first_None[of key msg queue] by blast
  then show ?thesis using assms
    by (auto simp: coalesced_queue_def None Let_def map_tl distinct_tl image_iff dest: in_set_tlD) (metis in_set_tlD)
next
  case (Some queue')
  then show ?thesis using replace_first_Some[OF Some assms] assms by (simp add: coalesced_queue_def)
qed

lemma find_in_set: "find P (rev xs) = Some x \<Longrightarrow> x \<in> set xs"
  by (metis find_Some_iff nth_mem set_rev)

lemma coalesce_inv_step:
  assumes "atom N w w'" "coalesce_inv key w" shows "coalesce_inv key w'"
proof -
  have tasks: "w_tasks w t = Away \<or> closing (w_tasks w t)" for t using assms(2) by (simp add: coalesce_inv_def)
  have no: "w_tasks w t \<noteq> Sending msg k" "w_tasks w t \<noteq> NoRoom msg k" "w_tasks w t \<noteq> Parked msg" for t msg k
    using tasks[of t] by auto
  show ?thesis using assms(1)
  proof cases
    case (atom_coalesce eq_fn msg)
    moreover have "eq_fn = (\<lambda>lhs rhs. key lhs = key rhs)" using assms(2) atom_coalesce by (simp add: coalesce_inv_def)
    ultimately show ?thesis
      using assms(2) coalesced_queue_keys[of key "mb_queue (w_mailbox w)" "mb_capacity (w_mailbox w)" msg]
      by (fastforce simp: coalesce_inv_def step_effects Let_def)
  qed (use assms(2) no in \<open>auto simp: coalesce_inv_def step_effects held_def dest: find_in_set split: mailbox_policy.splits\<close>)
qed

subsection \<open>Reachable states\<close>

lemma mailbox_backpressureD:
  "mailbox_backpressure N c = Some mb \<Longrightarrow> 0 < c \<and>
     mb = \<lparr> mb_capacity = c, mb_queue = [], mb_closed = False, mb_notify_recv = nf_new N, mb_policy = Backpressure (nf_new N) \<rparr>"
  by (simp add: mailbox_backpressure_def split: if_splits)

lemma mailbox_coalesceD:
  "mailbox_coalesce_by_eq N c eq_fn = Some mb \<Longrightarrow> 0 < c \<and>
     mb = \<lparr> mb_capacity = c, mb_queue = [], mb_closed = False, mb_notify_recv = nf_new N, mb_policy = CoalesceByEq eq_fn \<rparr>"
  by (simp add: mailbox_coalesce_by_eq_def split: if_splits)

lemma capacity_step: "atom N w w' \<Longrightarrow> mb_capacity (w_mailbox w') = mb_capacity (w_mailbox w)"
  by (cases rule: atom.cases) (auto simp: step_effects split: mailbox_policy.split)

lemma closed_step:
  "atom N w w' \<Longrightarrow> mb_closed (w_mailbox w) \<Longrightarrow> mb_closed (w_mailbox w') \<and> w_accepted w' = w_accepted w"
  by (cases rule: atom.cases) (auto simp: step_effects split: mailbox_policy.split)


lemma queue_inv_reach:
  assumes "mb_reach N (initial_world mb) w" "0 < mb_capacity mb" "mb_queue mb = []"
  shows "queue_inv w \<and> mb_capacity (w_mailbox w) = mb_capacity mb"
  using assms(1)
proof (induction rule: rtranclp_induct)
  case base
  show ?case using assms(2,3) by (simp add: initial_world_def queue_inv_def held_def)
qed (use mb_step_atom queue_inv_step capacity_step in metis)

lemma closed_reach:
  "mb_reach N w w' \<Longrightarrow> mb_closed (w_mailbox w) \<Longrightarrow> mb_closed (w_mailbox w') \<and> w_accepted w' = w_accepted w"
  by (induction rule: rtranclp_induct) (simp, metis mb_step_atom closed_step)

lemma fifo_reach:
  assumes "mb_reach N (initial_world mb) w" "mailbox_backpressure N c = Some mb"
  shows "fifo_inv w"
  using assms(1)
proof (induction rule: rtranclp_induct)
  case base
  show ?case using mailbox_backpressureD[OF assms(2)] by (auto simp: initial_world_def fifo_inv_def held_def)
qed (use mb_step_atom fifo_inv_step in metis)

lemma wake_reach:
  assumes N: "notify_ok N" and "mb_reach N (initial_world mb) w" "mailbox_backpressure N c = Some mb"
  shows "queue_inv w \<and> waiters_inv N w \<and> tickets_inv N w \<and> recv_wake_inv N w \<and> send_wake_inv N w \<and> close_wake_inv N w"
  using assms(2)
proof (induction rule: rtranclp_induct)
  case base
  show ?case using mailbox_backpressureD[OF assms(3)]
    by (auto simp: initial_world_def queue_inv_def waiters_inv_def tickets_inv_def recv_wake_inv_def send_wake_inv_def close_wake_inv_def
        notify_simps[OF N])
next
  case (step w w')
  then show ?case
    using mb_step_atom[OF step(2)] queue_inv_step waiters_inv_step[OF N] tickets_inv_step[OF N] recv_wake_inv_step[OF N] send_wake_inv_step[OF N]
      close_wake_inv_step[OF N] by blast
qed

lemma coalesce_reach:
  assumes "mb_reach N (initial_world mb) w" "mailbox_coalesce_by_eq N c (\<lambda>lhs rhs. key lhs = key rhs) = Some mb"
  shows "coalesce_inv key w"
  using assms(1)
proof (induction rule: rtranclp_induct)
  case base
  show ?case using mailbox_coalesceD[OF assms(2)] by (auto simp: initial_world_def coalesce_inv_def held_def)
qed (use mb_step_atom coalesce_inv_step in metis)

lemma list_notify_ok: "notify_ok list_notify"
  by (auto simp: notify_ok_def list_notify_def fresh_def)

text \<open>Which tasks can step.\<close>

lemma send_step_enabled:
  "mb_policy (w_mailbox w) = Backpressure n \<Longrightarrow> w_tasks w t \<in> {Sending msg k, NoRoom msg k} \<Longrightarrow> send_step N t w \<noteq> None"
  by (auto simp: send_step_def Let_def send_backpressure_def split: prod.split)

lemma parked_step_enabled:
  "notify_ok N \<Longrightarrow> mb_policy (w_mailbox w) = Backpressure n \<Longrightarrow> w_tasks w t = Parked msg \<Longrightarrow>
     send_step N t w \<noteq> None \<longleftrightarrow> t \<notin> set (nv_waiters N n)"
  by (auto simp: send_step_def notify_simps(4))

lemma recv_step_enabled:
  "notify_ok N \<Longrightarrow> recv_step N w \<noteq> None \<longleftrightarrow>
     \<not> (w_receiver w = Outside \<or> w_receiver w = Asleep \<and> RECEIVER \<in> set (nv_waiters N (mb_notify_recv (w_mailbox w))))"
  by (auto simp: recv_step_def Let_def notify_simps(4) split: recv_pc.split recv_outcome.split prod.split)

lemma in_motion_enabled:
  "notify_ok N \<Longrightarrow> mb_policy (w_mailbox w) = Backpressure n \<Longrightarrow> in_motion N n (w_tasks w t) t \<Longrightarrow> send_step N t w \<noteq> None"
  by (cases "w_tasks w t") (use parked_step_enabled send_step_enabled in \<open>fastforce+\<close>)

lemma mb_do_step: "mb_do N a w = Some w' \<Longrightarrow> mb_step N w w'"
  by (cases a) (auto intro: mb_step.intros split: task_pc.splits recv_pc.splits)

lemma mb_run_reach: "mb_run N as w = Some w' \<Longrightarrow> mb_reach N w w'"
  by (induction N as w rule: mb_run.induct)
    (auto split: option.splits dest: mb_do_step intro: converse_rtranclp_into_rtranclp)

lemmas run_simps = mailbox_backpressure_def mailbox_coalesce_by_eq_def initial_world_def start_send_def send_step_def
  close_step_def recv_step_def recv_locked_def send_backpressure_def send_coalesce_def Let_def list_notify_def step_effects

text \<open>
  Closing can go unnoticed: the receiver finds an open, empty mailbox and releases the lock; the mailbox is closed
  and \<open>notify_waiters\<close>, which stores no permit, finds nobody waiting; then the receiver creates its future and waits.
  No task has a step left and the end of the stream is never reported.
\<close>

lemma close_wakeup_lost:
  "\<exists>w. mb_reach list_notify (initial_world (the (mailbox_backpressure list_notify 1))) (w :: (nat, _, _) world) \<and>
     mb_closed (w_mailbox w) \<and> mb_queue (w_mailbox w) = [] \<and> w_receiver w = Asleep \<and>
     recv_step list_notify w = None \<and> (\<forall>t. w_tasks w t = Away \<and> send_step list_notify t w = None)"
proof -
  let ?run = "mb_run list_notify [CallRecv, StepRecv, StepClose 1, StepClose 1, StepClose 1, StepRecv, StepRecv]
    (initial_world (the (mailbox_backpressure list_notify 1))) :: (nat, _, _) world option"
  obtain w where w: "?run = Some w" by (simp add: run_simps)
  then have "mb_closed (w_mailbox w) \<and> mb_queue (w_mailbox w) = [] \<and> w_receiver w = Asleep \<and>
     recv_step list_notify w = None \<and> (\<forall>t. w_tasks w t = Away \<and> send_step list_notify t w = None)"
    by (auto simp: run_simps RECEIVER_def)
  with mb_run_reach[OF w] show ?thesis by blast
qed

subsection \<open>The interface of a FIFO channel\<close>

text \<open>What the supervisor relies on: messages arrive once and in order, and an ended channel has delivered everything.\<close>

locale fifo_delivery =
  fixes reached :: "'w \<Rightarrow> bool"
    and accepted received pending :: "'w \<Rightarrow> 'm list"
    and shut ended :: "'w \<Rightarrow> bool"
  assumes accepted_split: "reached w \<Longrightarrow> accepted w = received w @ pending w"
    and ended_drained: "reached w \<Longrightarrow> ended w \<Longrightarrow> shut w \<and> pending w = []"
begin

lemma ended_complete: "reached w \<Longrightarrow> ended w \<Longrightarrow> shut w \<and> received w = accepted w"
  using accepted_split ended_drained by simp

lemma consumer_split:
  "reached w \<Longrightarrow> received w = consumed @ current \<Longrightarrow> accepted w = consumed @ current @ pending w"
  using accepted_split by simp

end

lemma backpressure_reachedD:
  assumes "backpressure_reached N w" shows "fifo_inv w" "queue_inv w"
proof -
  from assms obtain c mb where "mailbox_backpressure N c = Some mb" "mb_reach N (initial_world mb) w"
    unfolding backpressure_reached_def by blast
  then show "fifo_inv w" "queue_inv w" using fifo_reach queue_inv_reach mailbox_backpressureD by fastforce+
qed

interpretation bpm: fifo_delivery "backpressure_reached N" w_accepted w_received
  "\<lambda>w. held (w_receiver w) @ mb_queue (w_mailbox w)" "\<lambda>w. mb_closed (w_mailbox w)" w_ended for N
  by unfold_locales (use backpressure_reachedD[unfolded fifo_inv_def queue_inv_def] in blast)+

section \<open>Properties\<close>

text \<open>
  C31. Under backpressure the mailbox is a bounded FIFO that loses nothing. In every state that is reachable by any
  interleaving of senders, closers and a receiver that may be cancelled and restarted, the messages accepted so far
  are, in order, those received, the one in the receiver's hands and those in the queue, of which there are at most
  the capacity. Once it is closed no message is accepted any more, and the receiver is told the end of the stream only
  when the mailbox is closed and everything that was ever accepted has been received.
\<close>

theorem backpressure_delivers:
  assumes "mailbox_backpressure N c = Some mb" and "mb_reach N (initial_world mb) w"
  shows "w_accepted w = w_received w @ held (w_receiver w) @ mb_queue (w_mailbox w) \<and>
    length (mb_queue (w_mailbox w)) \<le> c \<and>
    (mb_closed (w_mailbox w) \<longrightarrow> (\<forall>w'. mb_reach N w w' \<longrightarrow> w_accepted w' = w_accepted w)) \<and>
    (w_ended w \<longrightarrow> mb_closed (w_mailbox w) \<and> w_accepted w = w_received w)"
proof -
  note mb = mailbox_backpressureD[OF assms(1)]
  have q: "queue_inv w \<and> mb_capacity (w_mailbox w) = c" using queue_inv_reach[OF assms(2)] mb by simp
  then show ?thesis using fifo_reach[OF assms(2,1)] closed_reach[of N w]
    by (auto simp: fifo_inv_def queue_inv_def)
qed

theorem backpressure_delivers_witness:
  "\<exists>w. mb_run list_notify [StartSend 1 (7::nat), StepSend 1, StartSend 1 8, StepSend 1, CallRecv, StepRecv]
       (initial_world (the (mailbox_backpressure list_notify 2))) = Some w \<and>
     w_accepted w = [7, 8] \<and> w_received w @ held (w_receiver w) @ mb_queue (w_mailbox w) = [7, 8] \<and>
     length (mb_queue (w_mailbox w)) \<le> 2"
proof -
  let ?run = "mb_run list_notify [StartSend 1 (7::nat), StepSend 1, StartSend 1 8, StepSend 1, CallRecv, StepRecv]
    (initial_world (the (mailbox_backpressure list_notify 2)))"
  have mb: "mailbox_backpressure list_notify 2 = Some (the (mailbox_backpressure list_notify 2))"
    by (simp add: mailbox_backpressure_def)
  obtain w where w: "?run = Some w" by (simp add: run_simps)
  then have "w_accepted w = [7, 8]" by (auto simp: run_simps)
  then show ?thesis using backpressure_delivers[OF mb mb_run_reach[OF w]] w by auto
qed

text \<open>
  A coalescing mailbox keyed by \<open>key\<close> holds at most its capacity, at most one message per key, and of each key the
  message accepted last. Every message received or queued was accepted, the message accepted last of all is never
  dropped, and no sender ever waits.
\<close>

theorem coalescing_keeps_latest:
  assumes "mailbox_coalesce_by_eq N c (\<lambda>lhs rhs. key lhs = key rhs) = Some mb" and "mb_reach N (initial_world mb) w"
  shows "length (mb_queue (w_mailbox w)) \<le> c \<and> distinct (map key (mb_queue (w_mailbox w))) \<and>
    (\<forall>msg \<in> set (mb_queue (w_mailbox w)). find (\<lambda>m. key m = key msg) (rev (w_accepted w)) = Some msg) \<and>
    set (w_received w) \<subseteq> set (w_accepted w) \<and>
    (w_accepted w \<noteq> [] \<longrightarrow>
       last (w_accepted w) \<in> set (w_received w @ held (w_receiver w) @ mb_queue (w_mailbox w))) \<and>
    (\<forall>t. \<not> parked (w_tasks w t))"
proof -
  note mb = mailbox_coalesceD[OF assms(1)]
  have q: "queue_inv w \<and> mb_capacity (w_mailbox w) = c" using queue_inv_reach[OF assms(2)] mb by simp
  have i: "coalesce_inv key w" by (rule coalesce_reach[OF assms(2,1)])
  have "\<not> parked (w_tasks w t)" for t
  proof -
    have "w_tasks w t = Away \<or> closing (w_tasks w t)" using i by (simp add: coalesce_inv_def)
    then show ?thesis by (auto simp: closing_def)
  qed
  then show ?thesis using q i unfolding coalesce_inv_def queue_inv_def by auto
qed

theorem coalescing_keeps_latest_witness:
  "\<exists>w. mb_run list_notify [StartSend 1 (1::nat, 7::nat), StartSend 1 (2, 8), StartSend 1 (1, 9)]
       (initial_world (the (mailbox_coalesce_by_eq list_notify 2 (\<lambda>lhs rhs. fst lhs = fst rhs)))) = Some w \<and>
     w_accepted w = [(1, 7), (2, 8), (1, 9)] \<and> distinct (map fst (mb_queue (w_mailbox w))) \<and>
     (1, 9) \<in> set (w_received w @ held (w_receiver w) @ mb_queue (w_mailbox w))"
proof -
  let ?mb = "mailbox_coalesce_by_eq list_notify 2 (\<lambda>lhs rhs. fst lhs = fst rhs)"
  let ?run = "mb_run list_notify [StartSend 1 (1::nat, 7::nat), StartSend 1 (2, 8), StartSend 1 (1, 9)] (initial_world (the ?mb))"
  have mb: "?mb = Some (the ?mb)" by (simp add: mailbox_coalesce_by_eq_def)
  obtain w where w: "?run = Some w" by (simp add: run_simps)
  then have "w_accepted w = [(1, 7), (2, 8), (1, 9)]" by (auto simp: run_simps)
  then show ?thesis using coalescing_keeps_latest[OF mb mb_run_reach[OF w]] w by auto
qed

text \<open>
  C32. No wake-up of a backpressure mailbox is lost while it is open. In every reachable state a receiver that waits has
  nothing to receive; if a sender is blocked, then some sender or the receiver can take a step, or the actor has a
  message to take and is not inside \<open>recv\<close>; and when the mailbox has been closed and no close is in
  progress, every sender that is still in a call can go on, to be told that the mailbox is closed.
\<close>

theorem mailbox_never_stuck:
  assumes N: "notify_ok N" and "mailbox_backpressure N c = Some mb" and "mb_reach N (initial_world mb) w"
  shows "(w_receiver w \<noteq> Outside \<and> recv_step N w = None \<longrightarrow> mb_queue (w_mailbox w) = []) \<and>
    (\<not> mb_closed (w_mailbox w) \<and> (\<exists>t. parked (w_tasks w t)) \<longrightarrow>
       (\<exists>t. send_step N t w \<noteq> None) \<or> recv_step N w \<noteq> None \<or> w_receiver w = Outside \<and> mb_queue (w_mailbox w) \<noteq> []) \<and>
    (mb_closed (w_mailbox w) \<and> \<not> any_closing (w_tasks w) \<longrightarrow>
       (\<forall>t. w_tasks w t \<noteq> Away \<longrightarrow> send_step N t w \<noteq> None))"
proof -
  from fifo_reach[OF assms(3,2)] obtain n where n: "mb_policy (w_mailbox w) = Backpressure n"
    by (auto simp: fifo_inv_def)
  note I = wake_reach[OF N assms(3,2)]
  have sleep: "mb_queue (w_mailbox w) = []" if "w_receiver w \<noteq> Outside" "recv_step N w = None"
    using that I recv_step_enabled[OF N, of w] by (auto simp: recv_wake_inv_def)
  have opened: "(\<exists>t. send_step N t w \<noteq> None) \<or> recv_step N w \<noteq> None \<or> w_receiver w = Outside \<and> mb_queue (w_mailbox w) \<noteq> []"
    if "\<not> mb_closed (w_mailbox w)" "parked (w_tasks w t)" for t
  proof (cases "in_motion N n (w_tasks w t) t")
    case True
    then show ?thesis using in_motion_enabled[OF N n] by blast
  next
    case False
    then have "t \<in> set (nv_waiters N n)" "blocked N n (w_tasks w t) t" using that(2) by (auto elim!: parkedE)
    then have "mb_queue (w_mailbox w) \<noteq> [] \<or> held (w_receiver w) \<noteq> [] \<or> (\<exists>t. in_motion N n (w_tasks w t) t)"
      using I n that(1) unfolding send_wake_inv_def waiters_inv_def by fastforce
    then show ?thesis
    proof (elim disjE)
      assume "held (w_receiver w) \<noteq> []"
      then show ?thesis using recv_step_enabled[OF N, of w] by (cases "w_receiver w") (simp_all add: held_def)
    next
      assume "mb_queue (w_mailbox w) \<noteq> []"
      then show ?thesis using sleep by blast
    qed (use in_motion_enabled[OF N n] in blast)
  qed
  have shut: "send_step N t w \<noteq> None"
    if "mb_closed (w_mailbox w)" "\<not> any_closing (w_tasks w)" "w_tasks w t \<noteq> Away" for t
  proof -
    have "nv_waiters N n = []" using I n that(1,2) by (auto simp: close_wake_inv_def)
    moreover have "\<not> closing (w_tasks w t)" using that(2) by (auto simp: any_closing_def)
    ultimately show ?thesis using that(3) n parked_step_enabled[OF N n] send_step_enabled[OF n, of t]
      by (cases "w_tasks w t") fastforce+
  qed
  show ?thesis using sleep opened shut by blast
qed


theorem mailbox_never_stuck_witness:
  "\<exists>w. mb_run list_notify [StartSend 1 (7::nat), StepSend 1, StartSend 2 8, StepSend 2, StepSend 2]
       (initial_world (the (mailbox_backpressure list_notify 1))) = Some w \<and>
     parked (w_tasks w 2) \<and>
     ((\<exists>t. send_step list_notify t w \<noteq> None) \<or> recv_step list_notify w \<noteq> None \<or>
        w_receiver w = Outside \<and> mb_queue (w_mailbox w) \<noteq> [])"
proof -
  let ?run = "mb_run list_notify [StartSend 1 (7::nat), StepSend 1, StartSend 2 8, StepSend 2, StepSend 2]
    (initial_world (the (mailbox_backpressure list_notify 1)))"
  have mb: "mailbox_backpressure list_notify 1 = Some (the (mailbox_backpressure list_notify 1))"
    by (simp add: mailbox_backpressure_def)
  obtain w where w: "?run = Some w" by (simp add: run_simps)
  then have "parked (w_tasks w 2)" "\<not> mb_closed (w_mailbox w)" by (auto simp: run_simps)
  then show ?thesis using mailbox_never_stuck[OF list_notify_ok mb mb_run_reach[OF w]] w by blast
qed

end
