(* ===== verification/Supervisor.thy ===== *)
theory Supervisor
  imports Mailbox "HOL-Library.Word"
begin

text \<open>
  Supervised actors, \<open>crates/worker/src/supervisor/mod.rs\<close> and \<open>token.rs\<close>: the supervisor task that runs one actor
  instance after the other under a restart policy, and the instance loop that starts the actor, takes commands from
  the mailbox of \<open>Mailbox\<close> and handles them.

  An actor is arbitrary code, so the outcomes of \<open>on_start\<close>, \<open>handle\<close> and \<open>on_stop\<close>, panics included, are the
  labels of the steps. A \<open>select!\<close> with the cancellation token first takes that branch only when the
  token is cancelled. Senders and closers of the mailbox run in between. A log keeps what became of each command that an
  instance took from the mailbox, and a counter the instances that were started.

  The lemmas show that restarts are bounded by the policy and stop with cancellation, that every command is taken
  at most once and in order across restarts, and that an actor that ends because its mailbox was closed has taken every
  command that was accepted.
\<close>

section \<open>Exit reasons and the restart policy\<close>











section \<open>The supervisor task and the actor instance\<close>














section \<open>The supervised actor with its mailbox\<close>







section \<open>Specification predicates\<close>













section \<open>Lemmas\<close>






subsection \<open>The receiver in the instance\<close>












subsection \<open>Invariants\<close>


















section \<open>Properties\<close>






end
