(* ===== verification/Snippet_Syntax.thy ===== *)
theory Snippet_Syntax
  imports Prelude
begin

text \<open>
  Snippet templates and their parser, \<open>crates/editor/src/snippet/syntax/mod.rs\<close>.

  The source's parser keeps the characters of the input and a position; the model keeps the position and the characters
  from there on. Its functions are mutually recursive through the nodes of placeholders and defaults; they carry
  fuel, one unit for each step of the loop of \<open>parse_nodes\<close>, and \<open>None\<close> stands for running out of it. Every step consumes
  a character, so one unit more than there are characters is enough, which is what \<open>parse_snippet_template\<close> passes; the
  lemmas show that it always returns. An error leaves no position behind, because every caller that goes on
  after one resets it.
\<close>

section \<open>Templates\<close>

datatype transform_source = FromTabstop nat | FromVar utext

record transform =
  tf_source :: transform_source
  tf_regex :: utext
  tf_replace :: utext
  tf_flags :: utext

datatype snippet_node = Text utext | Field nat field_kind | Var utext "snippet_node list option" | Transform transform
  and field_kind = Tabstop | Placeholder "snippet_node list" | Choice "utext list"

datatype snippet_parse_error = ExpectedTabstop nat | InvalidFieldBody nat | ExpectedClosingBrace nat

section \<open>The parser\<close>

record sparser =
  sn_rest :: utext
  sn_pos :: nat

type_synonym 'a parsed = "(snippet_parse_error + 'a \<times> sparser)"

abbreviation (input) dollar :: uchar where "dollar \<equiv> 36"
abbreviation (input) comma :: uchar where "comma \<equiv> 44"
abbreviation (input) slash :: uchar where "slash \<equiv> 47"
abbreviation (input) colon :: uchar where "colon \<equiv> 58"
abbreviation (input) backslash :: uchar where "backslash \<equiv> 92"
abbreviation (input) underscore :: uchar where "underscore \<equiv> 95"
abbreviation (input) lbrace :: uchar where "lbrace \<equiv> 123"
abbreviation (input) pipe :: uchar where "pipe \<equiv> 124"
abbreviation (input) rbrace :: uchar where "rbrace \<equiv> 125"

definition sp_new :: "utext \<Rightarrow> sparser" where
  "sp_new input = \<lparr> sn_rest = input, sn_pos = 0 \<rparr>"

definition sp_peek :: "sparser \<Rightarrow> uchar option" where
  "sp_peek p = (case sn_rest p of [] \<Rightarrow> None | c # _ \<Rightarrow> Some c)"

definition sp_next :: "sparser \<Rightarrow> uchar option \<times> sparser" where
  "sp_next p = (case sn_rest p of [] \<Rightarrow> (None, p) | c # rest \<Rightarrow> (Some c, \<lparr> sn_rest = rest, sn_pos = sn_pos p + 1 \<rparr>))"

text \<open>\<open>self.next()\<close> where the character is not used.\<close>

definition sp_skip :: "sparser \<Rightarrow> sparser" where
  "sp_skip p = snd (sp_next p)"

definition is_identifier_start :: "uchar \<Rightarrow> bool" where
  "is_identifier_start c \<longleftrightarrow> c = underscore \<or> is_ascii_alphabetic c"

definition is_identifier_continue :: "uchar \<Rightarrow> bool" where
  "is_identifier_continue c \<longleftrightarrow> c = underscore \<or> is_ascii_alphabetic c \<or> is_ascii_digit c"

definition flush_text :: "snippet_node list \<Rightarrow> utext \<Rightarrow> snippet_node list" where
  "flush_text nodes txt = (if txt = [] then nodes else nodes @ [Text txt])"


text \<open>The loops \<open>while let Some(ch) = self.peek() && ..\<close> that collect characters.\<close>

definition sp_take_while :: "(uchar \<Rightarrow> bool) \<Rightarrow> sparser \<Rightarrow> utext \<times> sparser" where
  "sp_take_while P p =
     (let taken = takeWhile P (sn_rest p)
      in (taken, \<lparr> sn_rest = dropWhile P (sn_rest p), sn_pos = sn_pos p + length taken \<rparr>))"

definition u32_limit :: nat where
  "u32_limit = 2 ^ 32 - 1"

text \<open>\<open>str::parse::<u32>\<close> on a non-empty string of digits.\<close>

definition parse_u32 :: "utext \<Rightarrow> nat option" where
  "parse_u32 ds = (let n = foldl (\<lambda>acc d. 10 * acc + (d - 48)) 0 ds in if n \<le> u32_limit then Some n else None)"

definition parse_index :: "sparser \<Rightarrow> nat parsed" where
  "parse_index p =
     (let (digits, p') = sp_take_while is_ascii_digit p in
      if digits = [] then Inl (ExpectedTabstop (sn_pos p))
      else case parse_u32 digits of Some n \<Rightarrow> Inr (n, p') | None \<Rightarrow> Inl (ExpectedTabstop (sn_pos p)))"

definition parse_identifier :: "sparser \<Rightarrow> utext \<times> sparser" where
  "parse_identifier p = sp_take_while is_identifier_continue p"

text \<open>The loops that start with \<open>while let Some(ch) = self.next()\<close>, over the characters and the position.\<close>

fun choice_items :: "utext list \<Rightarrow> utext \<Rightarrow> utext \<Rightarrow> nat \<Rightarrow> utext list parsed" where
  "choice_items options current [] pos = Inl (ExpectedClosingBrace pos)"
| "choice_items options current (ch # rest) pos =
     (if ch = backslash then
        (case rest of
           escaped # rest' \<Rightarrow> choice_items options (current @ [escaped]) rest' (pos + 2)
         | [] \<Rightarrow> choice_items options (current @ [backslash]) [] (pos + 1))
      else if ch = comma then choice_items (options @ [current]) [] rest (pos + 1)
      else if ch = pipe then
        (case rest of
           c # rest' \<Rightarrow>
             if c = rbrace then Inr (options @ [current], \<lparr> sn_rest = rest', sn_pos = pos + 2 \<rparr>)
             else Inl (ExpectedClosingBrace (pos + 1))
         | [] \<Rightarrow> Inl (ExpectedClosingBrace (pos + 1)))
      else choice_items options (current @ [ch]) rest (pos + 1))"

definition parse_choice_items :: "sparser \<Rightarrow> utext list parsed" where
  "parse_choice_items p = choice_items [] [] (sn_rest p) (sn_pos p)"

fun transform_segment :: "utext \<Rightarrow> utext \<Rightarrow> nat \<Rightarrow> utext parsed" where
  "transform_segment out [] pos = Inl (ExpectedClosingBrace pos)"
| "transform_segment out (ch # rest) pos =
     (if ch = backslash then
        (case rest of
           escaped # rest' \<Rightarrow>
             if escaped = slash \<or> escaped = backslash then transform_segment (out @ [escaped]) rest' (pos + 2)
             else transform_segment (out @ [backslash, escaped]) rest' (pos + 2)
         | [] \<Rightarrow> transform_segment (out @ [backslash]) [] (pos + 1))
      else if ch = slash then Inr (out, \<lparr> sn_rest = rest, sn_pos = pos + 1 \<rparr>)
      else transform_segment (out @ [ch]) rest (pos + 1))"

definition parse_transform_segment :: "sparser \<Rightarrow> utext parsed" where
  "parse_transform_segment p = transform_segment [] (sn_rest p) (sn_pos p)"

definition parse_transform_flags :: "sparser \<Rightarrow> utext parsed" where
  "parse_transform_flags p =
     (let (flags, p') = sp_take_while (\<lambda>ch. ch \<noteq> rbrace) p in
      case sp_peek p' of Some _ \<Rightarrow> Inr (flags, sp_skip p') | None \<Rightarrow> Inl (ExpectedClosingBrace (sn_pos p')))"

definition parse_transform :: "transform_source \<Rightarrow> sparser \<Rightarrow> transform parsed" where
  "parse_transform source p =
     (case parse_transform_segment p of
        Inl e \<Rightarrow> Inl e
      | Inr (regex, p1) \<Rightarrow>
          (case parse_transform_segment p1 of
             Inl e \<Rightarrow> Inl e
           | Inr (replace, p2) \<Rightarrow>
               (case parse_transform_flags p2 of
                  Inl e \<Rightarrow> Inl e
                | Inr (flags, p3) \<Rightarrow>
                    Inr (\<lparr> tf_source = source, tf_regex = regex, tf_replace = replace, tf_flags = flags \<rparr>, p3))))"

fun raw_literal :: "utext \<Rightarrow> bool \<Rightarrow> utext \<Rightarrow> nat \<Rightarrow> utext \<times> sparser" where
  "raw_literal raw escaped [] pos = (raw, \<lparr> sn_rest = [], sn_pos = pos \<rparr>)"
| "raw_literal raw escaped (ch # rest) pos =
     (if escaped then raw_literal (raw @ [ch]) False rest (pos + 1)
      else if ch = backslash then raw_literal (raw @ [ch]) True rest (pos + 1)
      else if ch = rbrace then (raw @ [ch], \<lparr> sn_rest = rest, sn_pos = pos + 1 \<rparr>)
      else raw_literal (raw @ [ch]) False rest (pos + 1))"

definition consume_raw_braced_literal :: "sparser \<Rightarrow> utext \<times> sparser" where
  "consume_raw_braced_literal p = raw_literal [] False (sn_rest p) (sn_pos p)"

text \<open>The end of a placeholder or a default: the closing brace after the nested nodes.\<close>

definition close_braced :: "('a \<Rightarrow> 'b) \<Rightarrow> 'a parsed option \<Rightarrow> 'b parsed option" where
  "close_braced mk res =
     (case res of
        None \<Rightarrow> None
      | Some (Inl e) \<Rightarrow> Some (Inl e)
      | Some (Inr (nodes, p)) \<Rightarrow>
          if sp_peek p \<noteq> Some rbrace then Some (Inl (ExpectedClosingBrace (sn_pos p))) else Some (Inr (mk nodes, sp_skip p)))"

definition map_parsed :: "('a \<Rightarrow> 'b) \<Rightarrow> 'a parsed \<Rightarrow> 'b parsed" where
  "map_parsed mk res = (case res of Inl e \<Rightarrow> Inl e | Inr (x, p) \<Rightarrow> Inr (mk x, p))"

fun parse_nodes :: "nat \<Rightarrow> bool \<Rightarrow> snippet_node list \<Rightarrow> utext \<Rightarrow> sparser \<Rightarrow> snippet_node list parsed option"
  and parse_braced_field :: "nat \<Rightarrow> sparser \<Rightarrow> snippet_node parsed option"
  and parse_braced_variable :: "nat \<Rightarrow> sparser \<Rightarrow> snippet_node parsed option" where
  "parse_nodes 0 stop_on_rbrace nodes txt p = None"
| "parse_nodes (Suc n) stop_on_rbrace nodes txt p =
     (case sp_peek p of
        None \<Rightarrow> Some (Inr (flush_text nodes txt, p))
      | Some ch \<Rightarrow>
          if stop_on_rbrace \<and> ch = rbrace then Some (Inr (flush_text nodes txt, p))
          else if ch = backslash then
            (case sp_next (sp_skip p) of
               (Some escaped, p') \<Rightarrow> parse_nodes n stop_on_rbrace nodes (txt @ [escaped]) p'
             | (None, p') \<Rightarrow> parse_nodes n stop_on_rbrace nodes (txt @ [backslash]) p')
          else if ch = dollar then
            (let checkpoint = sp_skip p in
             case sp_peek checkpoint of
               None \<Rightarrow> parse_nodes n stop_on_rbrace nodes (txt @ [dollar]) checkpoint
             | Some next \<Rightarrow>
                 if next = dollar then parse_nodes n stop_on_rbrace nodes (txt @ [dollar]) (sp_skip checkpoint)
                 else if is_ascii_digit next then
                   (case parse_index checkpoint of
                      Inl e \<Rightarrow> Some (Inl e)
                    | Inr (index, p') \<Rightarrow> parse_nodes n stop_on_rbrace (flush_text nodes txt @ [Field index Tabstop]) [] p')
                 else if next = lbrace then
                   (let inside = sp_skip checkpoint in
                    case (case sp_peek inside of
                            Some c \<Rightarrow>
                              if is_ascii_digit c then parse_braced_field n inside
                              else if is_identifier_start c then parse_braced_variable n inside
                              else Some (Inl (InvalidFieldBody (sn_pos inside)))
                          | None \<Rightarrow> Some (Inl (InvalidFieldBody (sn_pos inside)))) of
                      None \<Rightarrow> None
                    | Some (Inr (node, p')) \<Rightarrow> parse_nodes n stop_on_rbrace (flush_text nodes txt @ [node]) [] p'
                    | Some (Inl _) \<Rightarrow>
                        (case consume_raw_braced_literal checkpoint of
                           (raw, p') \<Rightarrow> parse_nodes n stop_on_rbrace (flush_text nodes txt) (dollar # raw) p'))
                 else if is_identifier_start next then
                   (case parse_identifier checkpoint of
                      (name, p') \<Rightarrow> parse_nodes n stop_on_rbrace (flush_text nodes txt @ [Var name None]) [] p')
                 else parse_nodes n stop_on_rbrace nodes (txt @ [dollar]) checkpoint)
          else parse_nodes n stop_on_rbrace nodes (txt @ [ch]) (sp_skip p))"
| "parse_braced_field n p =
     (case parse_index p of
        Inl e \<Rightarrow> Some (Inl e)
      | Inr (index, p1) \<Rightarrow>
          if sp_peek p1 = Some rbrace then Some (Inr (Field index Tabstop, sp_skip p1))
          else if sp_peek p1 = Some colon then
            close_braced (\<lambda>placeholder. Field index (Placeholder placeholder)) (parse_nodes n True [] [] (sp_skip p1))
          else if sp_peek p1 = Some pipe then
            Some (map_parsed (\<lambda>options. Field index (Choice options)) (parse_choice_items (sp_skip p1)))
          else if sp_peek p1 = Some slash then
            Some (map_parsed Transform (parse_transform (FromTabstop index) (sp_skip p1)))
          else Some (Inl (InvalidFieldBody (sn_pos p1))))"
| "parse_braced_variable n p =
     (case parse_identifier p of
        (name, p1) \<Rightarrow>
          if name = [] then Some (Inl (InvalidFieldBody (sn_pos p1)))
          else if sp_peek p1 = Some rbrace then Some (Inr (Var name None, sp_skip p1))
          else if sp_peek p1 = Some colon then
            close_braced (\<lambda>default. Var name (Some default)) (parse_nodes n True [] [] (sp_skip p1))
          else if sp_peek p1 = Some slash then
            Some (map_parsed Transform (parse_transform (FromVar name) (sp_skip p1)))
          else Some (Inl (InvalidFieldBody (sn_pos p1))))"

definition parse_snippet_template :: "utext \<Rightarrow> (snippet_parse_error + snippet_node list) option" where
  "parse_snippet_template input =
     (case parse_nodes (length input + 1) False [] [] (sp_new input) of
        None \<Rightarrow> None
      | Some (Inl e) \<Rightarrow> Some (Inl e)
      | Some (Inr (nodes, _)) \<Rightarrow> Some (Inr nodes))"

section \<open>Specification predicates\<close>

text \<open>What a parser leaves is shorter than what it was given.\<close>

definition shrinks :: "sparser \<Rightarrow> 'a parsed \<Rightarrow> bool" where
  "shrinks p res = (case res of Inl _ \<Rightarrow> True | Inr (_, p') \<Rightarrow> length (sn_rest p') < length (sn_rest p))"

definition shrinks_eq :: "sparser \<Rightarrow> 'a parsed \<Rightarrow> bool" where
  "shrinks_eq p res = (case res of Inl _ \<Rightarrow> True | Inr (_, p') \<Rightarrow> length (sn_rest p') \<le> length (sn_rest p))"

text \<open>The values a template can hold.\<close>

definition ident_ok :: "utext \<Rightarrow> bool" where
  "ident_ok name \<longleftrightarrow> (\<exists>c cs. name = c # cs \<and> is_identifier_start c \<and> (\<forall>d \<in> set cs. is_identifier_continue d))"

fun source_ok :: "transform_source \<Rightarrow> bool" where
  "source_ok (FromTabstop n) = (n \<le> u32_limit)"
| "source_ok (FromVar name) = ident_ok name"

fun node_ok :: "snippet_node \<Rightarrow> bool" and kind_ok :: "field_kind \<Rightarrow> bool" where
  "node_ok (Text t) = (t \<noteq> [])"
| "node_ok (Field i k) = (i \<le> u32_limit \<and> kind_ok k)"
| "node_ok (Var name dflt) = (ident_ok name \<and> (case dflt of None \<Rightarrow> True | Some ns \<Rightarrow> list_all node_ok ns))"
| "node_ok (Transform t) = (source_ok (tf_source t) \<and> rbrace \<notin> set (tf_flags t))"
| "kind_ok Tabstop = True"
| "kind_ok (Placeholder ns) = list_all node_ok ns"
| "kind_ok (Choice options) = (options \<noteq> [])"

text \<open>Templates as text: the printed form that the parser reads back.\<close>

fun show_nat :: "nat \<Rightarrow> utext" where
  "show_nat n = (if n < 10 then [48 + n] else show_nat (n div 10) @ [48 + n mod 10])"

definition escape :: "uchar list \<Rightarrow> utext \<Rightarrow> utext" where
  "escape special t = concat (map (\<lambda>c. if c \<in> set special then [backslash, c] else [c]) t)"

fun show_source :: "transform_source \<Rightarrow> utext" where
  "show_source (FromTabstop n) = show_nat n"
| "show_source (FromVar name) = name"

fun show_options :: "utext list \<Rightarrow> utext" where
  "show_options [] = []"
| "show_options [opt] = escape [backslash, comma, pipe] opt"
| "show_options (opt # opts) = escape [backslash, comma, pipe] opt @ [comma] @ show_options opts"

definition show_transform :: "transform \<Rightarrow> utext" where
  "show_transform t =
     show_source (tf_source t) @ [slash] @ escape [backslash, slash] (tf_regex t) @ [slash] @
     escape [backslash, slash] (tf_replace t) @ [slash] @ tf_flags t"

fun show_node :: "snippet_node \<Rightarrow> utext" and show_body :: "snippet_node \<Rightarrow> utext" where
  "show_node (Text t) = escape [backslash, dollar, rbrace] t"
| "show_node n = [dollar, lbrace] @ show_body n @ [rbrace]"
| "show_body (Text t) = []"
| "show_body (Field i Tabstop) = show_nat i"
| "show_body (Field i (Placeholder ns)) = show_nat i @ [colon] @ concat (map show_node ns)"
| "show_body (Field i (Choice options)) = show_nat i @ [pipe] @ show_options options @ [pipe]"
| "show_body (Var name None) = name"
| "show_body (Var name (Some ns)) = name @ [colon] @ concat (map show_node ns)"
| "show_body (Transform t) = show_transform t"

fun is_text :: "snippet_node \<Rightarrow> bool" where
  "is_text (Text t) = True"
| "is_text n = False"

fun no_adjacent_text :: "snippet_node list \<Rightarrow> bool" where
  "no_adjacent_text (x # y # ns) = (\<not> (is_text x \<and> is_text y) \<and> no_adjacent_text (y # ns))"
| "no_adjacent_text ns = True"

text \<open>Templates without neighbouring texts, at any depth.\<close>

fun canonical_node :: "snippet_node \<Rightarrow> bool" where
  "canonical_node (Field i (Placeholder ns)) = (no_adjacent_text ns \<and> list_all canonical_node ns)"
| "canonical_node (Var name (Some ns)) = (no_adjacent_text ns \<and> list_all canonical_node ns)"
| "canonical_node n = True"

definition show_nodes :: "snippet_node list \<Rightarrow> utext" where
  "show_nodes ns = concat (map show_node ns)"

definition parse_braced :: "nat \<Rightarrow> sparser \<Rightarrow> snippet_node parsed option" where
  "parse_braced n inside =
     (case sp_peek inside of
        Some c \<Rightarrow>
          if is_ascii_digit c then parse_braced_field n inside
          else if is_identifier_start c then parse_braced_variable n inside
          else Some (Inl (InvalidFieldBody (sn_pos inside)))
      | None \<Rightarrow> Some (Inl (InvalidFieldBody (sn_pos inside))))"

definition nodes_return :: "nat \<Rightarrow> bool" where
  "nodes_return n \<longleftrightarrow>
     (\<forall>stop nodes buf p. length (sn_rest p) < n \<longrightarrow> (\<exists>res. parse_nodes n stop nodes buf p = Some res \<and> shrinks_eq p res))"

definition nodes_sound :: "nat \<Rightarrow> bool" where
  "nodes_sound n \<longleftrightarrow>
     (\<forall>stop nodes buf p ns p'. parse_nodes n stop nodes buf p = Some (Inr (ns, p')) \<longrightarrow> list_all node_ok nodes \<longrightarrow>
        list_all node_ok ns \<and> (sn_rest p' = [] \<or> stop \<and> sp_peek p' = Some rbrace))"

definition nodes_back :: "snippet_node list \<Rightarrow> bool" where
  "nodes_back ns \<longleftrightarrow>
     (\<forall>n stop acc buf cs i. length (show_nodes ns @ cs) < n \<longrightarrow> (buf = [] \<or> ns = [] \<or> \<not> is_text (hd ns)) \<longrightarrow>
        (cs = [] \<or> stop \<and> (\<exists>ds. cs = rbrace # ds)) \<longrightarrow>
        (\<exists>j. parse_nodes n stop acc buf \<lparr> sn_rest = show_nodes ns @ cs, sn_pos = i \<rparr> =
           Some (Inr (flush_text acc buf @ ns, \<lparr> sn_rest = cs, sn_pos = j \<rparr>))))"

section \<open>Lemmas\<close>

subsection \<open>The characters left\<close>

lemma peek_simps [simp]:
  "sp_peek p = None \<longleftrightarrow> sn_rest p = []" "sp_peek \<lparr> sn_rest = c # cs, sn_pos = i \<rparr> = Some c"
  "sp_peek \<lparr> sn_rest = [], sn_pos = i \<rparr> = None"
  by (simp_all add: sp_peek_def split: list.split)

lemma peek_SomeD: "sp_peek p = Some c \<Longrightarrow> \<exists>cs. sn_rest p = c # cs"
  by (simp add: sp_peek_def split: list.splits)

lemma rest_skip [simp]: "sn_rest (sp_skip p) = tl (sn_rest p)"
  by (simp add: sp_skip_def sp_next_def split: list.split)

lemma next_eq: "sp_next p = (sp_peek p, sp_skip p)"
  by (simp add: sp_skip_def sp_next_def sp_peek_def split: list.split)

lemma skip_simp [simp]: "sp_skip \<lparr> sn_rest = c # cs, sn_pos = i \<rparr> = \<lparr> sn_rest = cs, sn_pos = Suc i \<rparr>"
  by (simp add: sp_skip_def sp_next_def)

lemma take_while_rest: "sn_rest (snd (sp_take_while P p)) = dropWhile P (sn_rest p)" "fst (sp_take_while P p) = takeWhile P (sn_rest p)"
  by (simp_all add: sp_take_while_def Let_def)

lemma dropWhile_shrinks: "takeWhile P xs \<noteq> [] \<Longrightarrow> length (dropWhile P xs) < length xs"
  by (cases xs) (auto simp: length_dropWhile_le le_imp_less_Suc split: if_splits)

lemma parse_index_shrinks: "shrinks p (parse_index p)"
  by (auto simp: parse_index_def shrinks_def sp_take_while_def Let_def dropWhile_shrinks split: option.split)

lemma identifier_shrinks:
  "parse_identifier p = (name, p') \<Longrightarrow> length (sn_rest p') \<le> length (sn_rest p) \<and>
     (name \<noteq> [] \<longrightarrow> length (sn_rest p') < length (sn_rest p))"
  by (auto simp: parse_identifier_def sp_take_while_def Let_def dropWhile_shrinks length_dropWhile_le)

lemma choice_items_shrinks: "choice_items options current rest pos = Inr (os, p') \<Longrightarrow> length (sn_rest p') < length rest"
  by (induction options current rest pos rule: choice_items.induct) (auto split: if_splits list.splits)

lemma transform_segment_shrinks: "transform_segment out rest pos = Inr (seg, p') \<Longrightarrow> length (sn_rest p') < length rest"
  by (induction out rest pos rule: transform_segment.induct) (auto split: if_splits list.splits)

lemma transform_flags_shrinks: "parse_transform_flags p = Inr (flags, p') \<Longrightarrow> length (sn_rest p') \<le> length (sn_rest p)"
  by (auto simp: parse_transform_flags_def sp_take_while_def Let_def split: option.splits)
    (meson diff_le_self length_dropWhile_le order_trans)

lemma parse_transform_shrinks: "shrinks p (parse_transform source p)"
  by (auto simp: parse_transform_def shrinks_def parse_transform_segment_def split: sum.splits
      dest!: transform_segment_shrinks transform_flags_shrinks)

lemma raw_literal_shrinks:
  "raw_literal raw escaped rest pos = (out, p') \<Longrightarrow> length (sn_rest p') \<le> length rest \<and> (rest \<noteq> [] \<longrightarrow> length (sn_rest p') < length rest)"
  by (induction raw escaped rest pos rule: raw_literal.induct) (fastforce split: if_splits)+

lemma shrinks_simps:
  "shrinks p (Inl e)" "shrinks p (Inr (x, p')) = (length (sn_rest p') < length (sn_rest p))"
  by (simp_all add: shrinks_def)

lemma shrinks_map: "shrinks p (map_parsed f res) = shrinks p res"
  by (auto simp: shrinks_def map_parsed_def split: sum.split)

lemma choice_shrinks: "shrinks p (parse_choice_items p)"
  by (auto simp: shrinks_def parse_choice_items_def split: sum.split dest: choice_items_shrinks)

lemma shrinks_skip: "shrinks (sp_skip p) res \<Longrightarrow> length (sn_rest p) \<le> length (sn_rest q) \<Longrightarrow> shrinks q res"
  by (auto simp: shrinks_def split: sum.splits)

lemma close_braced_shrinks:
  "res = Some r \<Longrightarrow> shrinks_eq p r \<Longrightarrow> length (sn_rest p) < length (sn_rest q) \<Longrightarrow> \<exists>r'. close_braced mk res = Some r' \<and> shrinks q r'"
  by (auto simp: close_braced_def shrinks_def shrinks_eq_def split: sum.splits)

subsection \<open>Enough fuel\<close>

lemmas nodes_Suc = parse_nodes.simps(2)

declare parse_nodes.simps(2) [simp del]

text \<open>One step of the loop, by what the input starts with.\<close>

lemma nodes_end: "parse_nodes (Suc n) stop nodes buf \<lparr> sn_rest = [], sn_pos = i \<rparr> = Some (Inr (flush_text nodes buf, \<lparr> sn_rest = [], sn_pos = i \<rparr>))"
  by (simp add: nodes_Suc)

lemma nodes_stop:
  "parse_nodes (Suc n) True nodes buf \<lparr> sn_rest = rbrace # cs, sn_pos = i \<rparr> =
   Some (Inr (flush_text nodes buf, \<lparr> sn_rest = rbrace # cs, sn_pos = i \<rparr>))"
  by (simp add: nodes_Suc)

lemma nodes_escape:
  "parse_nodes (Suc n) stop nodes buf \<lparr> sn_rest = backslash # e # cs, sn_pos = i \<rparr> =
   parse_nodes n stop nodes (buf @ [e]) \<lparr> sn_rest = cs, sn_pos = Suc (Suc i) \<rparr>"
  by (simp add: nodes_Suc next_eq)

lemma nodes_last_escape:
  "parse_nodes (Suc n) stop nodes buf \<lparr> sn_rest = [backslash], sn_pos = i \<rparr> =
   parse_nodes n stop nodes (buf @ [backslash]) \<lparr> sn_rest = [], sn_pos = Suc i \<rparr>"
  by (simp add: nodes_Suc sp_next_def)

lemma nodes_char:
  "c \<noteq> backslash \<Longrightarrow> c \<noteq> dollar \<Longrightarrow> \<not> (stop \<and> c = rbrace) \<Longrightarrow>
   parse_nodes (Suc n) stop nodes buf \<lparr> sn_rest = c # cs, sn_pos = i \<rparr> =
   parse_nodes n stop nodes (buf @ [c]) \<lparr> sn_rest = cs, sn_pos = Suc i \<rparr>"
  by (auto simp: nodes_Suc)

lemma nodes_dollar_end:
  "parse_nodes (Suc n) stop nodes buf \<lparr> sn_rest = [dollar], sn_pos = i \<rparr> =
   parse_nodes n stop nodes (buf @ [dollar]) \<lparr> sn_rest = [], sn_pos = Suc i \<rparr>"
  by (simp add: nodes_Suc Let_def)

lemma nodes_dollars:
  "parse_nodes (Suc n) stop nodes buf \<lparr> sn_rest = dollar # dollar # cs, sn_pos = i \<rparr> =
   parse_nodes n stop nodes (buf @ [dollar]) \<lparr> sn_rest = cs, sn_pos = Suc (Suc i) \<rparr>"
  by (simp add: nodes_Suc Let_def)

lemma digit_not_special:
  "is_ascii_digit c \<Longrightarrow> c \<noteq> dollar \<and> c \<noteq> lbrace \<and> c \<noteq> rbrace \<and> c \<noteq> colon \<and> c \<noteq> pipe \<and> c \<noteq> slash \<and> \<not> is_identifier_start c"
  by (auto simp: is_ascii_digit_def is_identifier_start_def is_ascii_alphabetic_def is_ascii_lowercase_def is_ascii_uppercase_def)

lemma start_not_special:
  "is_identifier_start c \<Longrightarrow> c \<noteq> dollar \<and> c \<noteq> lbrace \<and> c \<noteq> rbrace \<and> c \<noteq> colon \<and> c \<noteq> pipe \<and> c \<noteq> slash \<and> \<not> is_ascii_digit c"
  by (auto simp: is_ascii_digit_def is_identifier_start_def is_ascii_alphabetic_def is_ascii_lowercase_def is_ascii_uppercase_def)

lemma nodes_index:
  "is_ascii_digit c \<Longrightarrow>
   parse_nodes (Suc n) stop nodes buf \<lparr> sn_rest = dollar # c # cs, sn_pos = i \<rparr> =
   (case parse_index \<lparr> sn_rest = c # cs, sn_pos = Suc i \<rparr> of
      Inl e \<Rightarrow> Some (Inl e)
    | Inr (index, p') \<Rightarrow> parse_nodes n stop (flush_text nodes buf @ [Field index Tabstop]) [] p')"
  using digit_not_special[of c] by (simp add: nodes_Suc Let_def)

lemma nodes_name:
  "is_identifier_start c \<Longrightarrow>
   parse_nodes (Suc n) stop nodes buf \<lparr> sn_rest = dollar # c # cs, sn_pos = i \<rparr> =
   (case parse_identifier \<lparr> sn_rest = c # cs, sn_pos = Suc i \<rparr> of
      (name, p') \<Rightarrow> parse_nodes n stop (flush_text nodes buf @ [Var name None]) [] p')"
  using start_not_special[of c] by (simp add: nodes_Suc Let_def)

lemma nodes_dollar_other:
  "c \<noteq> dollar \<Longrightarrow> c \<noteq> lbrace \<Longrightarrow> \<not> is_ascii_digit c \<Longrightarrow> \<not> is_identifier_start c \<Longrightarrow>
   parse_nodes (Suc n) stop nodes buf \<lparr> sn_rest = dollar # c # cs, sn_pos = i \<rparr> =
   parse_nodes n stop nodes (buf @ [dollar]) \<lparr> sn_rest = c # cs, sn_pos = Suc i \<rparr>"
  by (simp add: nodes_Suc Let_def)

lemma nodes_braced:
  "parse_nodes (Suc n) stop nodes buf \<lparr> sn_rest = dollar # lbrace # cs, sn_pos = i \<rparr> =
   (case parse_braced n \<lparr> sn_rest = cs, sn_pos = Suc (Suc i) \<rparr> of
      None \<Rightarrow> None
    | Some (Inr (node, p')) \<Rightarrow> parse_nodes n stop (flush_text nodes buf @ [node]) [] p'
    | Some (Inl _) \<Rightarrow>
        (case consume_raw_braced_literal \<lparr> sn_rest = lbrace # cs, sn_pos = Suc i \<rparr> of
           (raw, p') \<Rightarrow> parse_nodes n stop (flush_text nodes buf) (dollar # raw) p'))"
  by (simp add: nodes_Suc Let_def parse_braced_def is_ascii_digit_def)

text \<open>The cases of the input that the steps distinguish.\<close>

lemma input_cases:
  obtains "rest = []" | cs where "rest = rbrace # cs" "stop"
  | e cs where "rest = backslash # e # cs" | "rest = [backslash]"
  | c cs where "rest = c # cs" "c \<noteq> backslash" "c \<noteq> dollar" "\<not> (stop \<and> c = rbrace)"
  | "rest = [dollar]" | cs where "rest = dollar # dollar # cs"
  | c cs where "rest = dollar # c # cs" "is_ascii_digit c"
  | c cs where "rest = dollar # c # cs" "is_identifier_start c"
  | cs where "rest = dollar # lbrace # cs"
  | c cs where "rest = dollar # c # cs" "c \<noteq> dollar" "c \<noteq> lbrace" "\<not> is_ascii_digit c" "\<not> is_identifier_start c"
proof (cases rest)
  case (Cons c cs)
  then show ?thesis using that by (cases cs) metis+
qed (use that in blast)

lemmas nodes_steps = nodes_end nodes_stop nodes_escape nodes_last_escape nodes_char nodes_dollar_end nodes_dollars nodes_index
  nodes_name nodes_dollar_other nodes_braced

lemma field_returns:
  assumes "nodes_return n" "length (sn_rest q) \<le> n" "sn_rest q \<noteq> []"
  shows "\<exists>res. parse_braced_field n q = Some res \<and> shrinks q res"
proof (cases "parse_index q")
  case (Inr r)
  obtain i p1 where r: "r = (i, p1)" by (cases r)
  have l: "length (sn_rest p1) < length (sn_rest q)" using parse_index_shrinks[of q] by (simp add: Inr r shrinks_def)
  have l2: "length (sn_rest (sp_skip p1)) < length (sn_rest q)" using l by simp
  obtain res where res: "parse_nodes n True [] [] (sp_skip p1) = Some res" "shrinks_eq (sp_skip p1) res"
    using assms(1,2) l2 unfolding nodes_return_def by (meson less_le_trans)
  note nested = close_braced_shrinks[OF res l2]
  have items: "shrinks q (parse_choice_items (sp_skip p1))" "shrinks q (parse_transform source (sp_skip p1))" for source
    by (rule shrinks_skip[OF choice_shrinks less_imp_le[OF l]], rule shrinks_skip[OF parse_transform_shrinks less_imp_le[OF l]])
  consider "sp_peek p1 = Some rbrace" | "sp_peek p1 = Some colon" | "sp_peek p1 = Some pipe" | "sp_peek p1 = Some slash"
    | "sp_peek p1 \<notin> {Some rbrace, Some colon, Some pipe, Some slash}" by blast
  then show ?thesis
  proof cases
    case 1
    then show ?thesis using l by (auto simp: Inr r shrinks_simps)
  qed (use nested l items in \<open>simp_all add: Inr r shrinks_map shrinks_simps\<close>)
qed (simp add: shrinks_simps)

lemma variable_returns:
  assumes "nodes_return n" "length (sn_rest q) \<le> n"
  shows "\<exists>res. parse_braced_variable n q = Some res \<and> shrinks q res"
proof -
  obtain name p1 where r: "parse_identifier q = (name, p1)" by (cases "parse_identifier q")
  show ?thesis
  proof (cases "name = []")
    case False
    then have l: "length (sn_rest p1) < length (sn_rest q)" using identifier_shrinks[OF r] by simp
    have l2: "length (sn_rest (sp_skip p1)) < length (sn_rest q)" using l by simp
    obtain res where res: "parse_nodes n True [] [] (sp_skip p1) = Some res" "shrinks_eq (sp_skip p1) res"
      using assms l2 unfolding nodes_return_def by (meson less_le_trans)
    note nested = close_braced_shrinks[OF res l2]
    have items: "shrinks q (parse_transform source (sp_skip p1))" for source
      by (rule shrinks_skip[OF parse_transform_shrinks less_imp_le[OF l]])
    consider "sp_peek p1 = Some rbrace" | "sp_peek p1 = Some colon" | "sp_peek p1 = Some slash"
      | "sp_peek p1 \<notin> {Some rbrace, Some colon, Some slash}" by blast
    then show ?thesis
    proof cases
      case 1
      then show ?thesis using l False by (auto simp: r shrinks_simps)
    qed (use False nested l items in \<open>simp_all add: r shrinks_map shrinks_simps\<close>)
  qed (simp add: r shrinks_simps)
qed

lemma shrinks_eq_trans: "shrinks_eq p' res \<Longrightarrow> length (sn_rest p') \<le> length (sn_rest p) \<Longrightarrow> shrinks_eq p res"
  by (auto simp: shrinks_eq_def split: sum.splits)

lemma nodes_return_all: "nodes_return n"
proof (induction n)
  case 0
  show ?case by (simp add: nodes_return_def)
next
  case (Suc n)
  have go: "\<exists>res. parse_nodes n stop nodes buf p' = Some res \<and> shrinks_eq p res"
    if "length (sn_rest p') < length (sn_rest p)" "length (sn_rest p) < Suc n" for stop nodes buf p p'
  proof -
    have "length (sn_rest p') < n" using that by simp
    then obtain res where "parse_nodes n stop nodes buf p' = Some res" "shrinks_eq p' res"
      using Suc.IH unfolding nodes_return_def by blast
    then show ?thesis using shrinks_eq_trans[of p' res p] that by auto
  qed
  show ?case unfolding nodes_return_def
  proof (intro allI impI)
    fix stop nodes buf and p :: sparser
    assume p: "length (sn_rest p) < Suc n"
    obtain rest i where q: "p = \<lparr> sn_rest = rest, sn_pos = i \<rparr>" by (cases p)
    show "\<exists>res. parse_nodes (Suc n) stop nodes buf p = Some res \<and> shrinks_eq p res"
    proof (rule input_cases[where rest = rest and stop = stop])
      fix c cs assume 8: "rest = dollar # c # cs" "is_ascii_digit c"
      note sh = parse_index_shrinks[of "\<lparr> sn_rest = c # cs, sn_pos = Suc i \<rparr>"]
      show ?thesis
      proof (cases "parse_index \<lparr> sn_rest = c # cs, sn_pos = Suc i \<rparr>")
        case (Inr r)
        with 8 sh p show ?thesis by (cases r) (auto simp: q nodes_steps shrinks_def intro!: go)
      qed (use 8 in \<open>simp add: q nodes_steps shrinks_eq_def\<close>)
    next
      fix c cs assume 9: "rest = dollar # c # cs" "is_identifier_start c"
      obtain name p' where r: "parse_identifier \<lparr> sn_rest = c # cs, sn_pos = Suc i \<rparr> = (name, p')" by fastforce
      with 9 identifier_shrinks[OF r] p show ?thesis by (auto simp: q nodes_steps intro!: go)
    next
      fix cs assume 10: "rest = dollar # lbrace # cs"
      let ?in = "\<lparr> sn_rest = cs, sn_pos = Suc (Suc i) \<rparr>"
      have "\<exists>res. parse_braced n ?in = Some res \<and> shrinks ?in res"
        using field_returns[OF Suc.IH, of ?in] variable_returns[OF Suc.IH, of ?in] p 10
        by (auto simp: parse_braced_def q shrinks_def split: option.split dest: peek_SomeD)
      then obtain res where res: "parse_braced n ?in = Some res" "shrinks ?in res" by blast
      obtain raw p' where raw: "consume_raw_braced_literal \<lparr> sn_rest = lbrace # cs, sn_pos = Suc i \<rparr> = (raw, p')" by fastforce
      then have "length (sn_rest p') < length (lbrace # cs)" using raw_literal_shrinks by (fastforce simp: consume_raw_braced_literal_def)
      with res raw 10 p show ?thesis
        by (cases res) (auto simp: q nodes_steps shrinks_def split: prod.splits intro!: go)
    qed (use p in \<open>auto simp: q nodes_steps shrinks_eq_def intro!: go[unfolded shrinks_eq_def]\<close>)
  qed
qed

text \<open>\<open>parse_snippet_template\<close> always returns.\<close>

lemma template_returns: "\<exists>res. parse_snippet_template input = Some res"
proof -
  obtain res where "parse_nodes (length input + 1) False [] [] (sp_new input) = Some res"
    using nodes_return_all[of "length input + 1"] unfolding nodes_return_def sp_new_def
    by (metis less_add_one sparser.select_convs(1))
  then show ?thesis by (auto simp: parse_snippet_template_def split: sum.split)
qed


subsection \<open>What is parsed\<close>

lemma parse_index_ok: "parse_index p = Inr (n, p') \<Longrightarrow> n \<le> u32_limit"
  by (auto simp: parse_index_def parse_u32_def Let_def split: option.splits prod.splits if_splits)

lemma identifier_ok:
  assumes "parse_identifier p = (name, p')" "sp_peek p = Some c" "is_identifier_start c"
  shows "ident_ok name"
proof -
  obtain cs where cs: "sn_rest p = c # cs" using assms(2) peek_SomeD by blast
  have "is_identifier_continue c" using assms(3) by (auto simp: is_identifier_start_def is_identifier_continue_def)
  then have "name = c # takeWhile is_identifier_continue cs"
    using assms(1) by (simp add: parse_identifier_def sp_take_while_def Let_def cs)
  then show ?thesis using assms(3) by (auto simp: ident_ok_def dest: set_takeWhileD)
qed

lemma choice_items_ok: "choice_items options current rest pos = Inr (os, p') \<Longrightarrow> os \<noteq> []"
  by (induction options current rest pos rule: choice_items.induct) (auto split: if_splits list.splits)

lemma flags_ok: "parse_transform_flags p = Inr (flags, p') \<Longrightarrow> rbrace \<notin> set flags"
  by (auto simp: parse_transform_flags_def sp_take_while_def Let_def split: option.splits dest: set_takeWhileD)

lemma transform_ok: "parse_transform source p = Inr (t, p') \<Longrightarrow> tf_source t = source \<and> rbrace \<notin> set (tf_flags t)"
  by (auto simp: parse_transform_def split: sum.splits dest!: flags_ok)

lemma map_parsed_Inr: "map_parsed f res = Inr (y, p) \<longleftrightarrow> (\<exists>x. res = Inr (x, p) \<and> y = f x)"
  by (auto simp: map_parsed_def split: sum.splits)

lemma close_braced_Inr:
  "close_braced mk res = Some (Inr (y, p)) \<longleftrightarrow> (\<exists>ns p'. res = Some (Inr (ns, p')) \<and> y = mk ns \<and> sp_peek p' = Some rbrace \<and> p = sp_skip p')"
  by (auto simp: close_braced_def split: option.splits sum.splits if_splits)

lemma flush_text_ok: "list_all node_ok nodes \<Longrightarrow> list_all node_ok (flush_text nodes buf)"
  by (simp add: flush_text_def)

lemma field_sound:
  assumes "nodes_sound n" "parse_braced_field n q = Some (Inr (node, p'))" shows "node_ok node"
  using assms(2) assms(1)[unfolded nodes_sound_def]
  by (auto simp: parse_choice_items_def map_parsed_Inr close_braced_Inr split: sum.splits prod.splits if_splits
      dest!: transform_ok dest: parse_index_ok choice_items_ok)

lemma variable_sound:
  assumes "nodes_sound n" "parse_braced_variable n q = Some (Inr (node, p'))" "sp_peek q = Some c" "is_identifier_start c"
  shows "node_ok node"
proof -
  obtain name p1 where r: "parse_identifier q = (name, p1)" by (cases "parse_identifier q")
  note i = identifier_ok[OF r assms(3,4)]
  show ?thesis using assms(2) assms(1)[unfolded nodes_sound_def] i
    by (auto simp: r map_parsed_Inr close_braced_Inr split: if_splits dest!: transform_ok)
qed

lemma nodes_sound_all: "nodes_sound n"
proof (induction n)
  case 0
  show ?case by (simp add: nodes_sound_def)
next
  case (Suc n)
  note IH = Suc.IH[unfolded nodes_sound_def, rule_format]
  show ?case unfolding nodes_sound_def
  proof (intro allI impI)
    fix stop nodes buf p ns p'
    assume r: "parse_nodes (Suc n) stop nodes buf p = Some (Inr (ns, p'))" and ok: "list_all node_ok nodes"
    obtain rest i where q: "p = \<lparr> sn_rest = rest, sn_pos = i \<rparr>" by (cases p)
    note f = flush_text_ok[OF ok, of buf]
    show "list_all node_ok ns \<and> (sn_rest p' = [] \<or> stop \<and> sp_peek p' = Some rbrace)"
    proof (rule input_cases[where rest = rest and stop = stop])
      fix c cs assume 8: "rest = dollar # c # cs" "is_ascii_digit c"
      with r obtain index p2 where "parse_index \<lparr> sn_rest = c # cs, sn_pos = Suc i \<rparr> = Inr (index, p2)"
        "parse_nodes n stop (flush_text nodes buf @ [Field index Tabstop]) [] p2 = Some (Inr (ns, p'))"
        by (auto simp: q nodes_steps split: sum.splits)
      then show ?thesis using IH f by (simp add: parse_index_ok)
    next
      fix c cs assume 9: "rest = dollar # c # cs" "is_identifier_start c"
      obtain name p2 where i: "parse_identifier \<lparr> sn_rest = c # cs, sn_pos = Suc i \<rparr> = (name, p2)" by fastforce
      then have "ident_ok name" using identifier_ok[OF i, of c] 9 by simp
      then show ?thesis using r i 9 IH f by (simp add: q nodes_steps)
    next
      fix cs assume 10: "rest = dollar # lbrace # cs"
      let ?in = "\<lparr> sn_rest = cs, sn_pos = Suc (Suc i) \<rparr>"
      have node: "node_ok node" if "parse_braced n ?in = Some (Inr (node, p2))" for node p2
        using that field_sound[OF Suc.IH] variable_sound[OF Suc.IH]
        by (auto simp: parse_braced_def split: option.splits if_splits)
      obtain raw p3 where raw: "consume_raw_braced_literal \<lparr> sn_rest = lbrace # cs, sn_pos = Suc i \<rparr> = (raw, p3)" by fastforce
      from r 10 raw consider node p2 where "parse_braced n ?in = Some (Inr (node, p2))"
          "parse_nodes n stop (flush_text nodes buf @ [node]) [] p2 = Some (Inr (ns, p'))"
        | "parse_nodes n stop (flush_text nodes buf) (dollar # raw) p3 = Some (Inr (ns, p'))"
        by (auto simp: q nodes_steps split: option.splits sum.splits)
      then show ?thesis using IH f node by cases (use list_all_append in \<open>simp_all, fastforce?\<close>)
    qed (use r ok f IH in \<open>auto simp: q nodes_steps\<close>)
  qed
qed


subsection \<open>Printing and parsing back\<close>

declare show_nat.simps [simp del]

lemma show_nat_digits: "\<forall>d \<in> set (show_nat n). is_ascii_digit d"
  by (induction n rule: show_nat.induct) (subst show_nat.simps, auto simp: is_ascii_digit_def)

lemma show_nat_nonempty: "show_nat n \<noteq> []"
  by (subst show_nat.simps) simp

lemma show_nat_value: "foldl (\<lambda>acc d. 10 * acc + (d - 48)) 0 (show_nat n) = n"
  by (induction n rule: show_nat.induct) (subst show_nat.simps, simp)

lemma takeWhile_stop: "\<forall>x \<in> set xs. P x \<Longrightarrow> \<not> P y \<Longrightarrow> takeWhile P (xs @ y # ys) = xs"
  "\<forall>x \<in> set xs. P x \<Longrightarrow> \<not> P y \<Longrightarrow> dropWhile P (xs @ y # ys) = y # ys"
  by (induction xs) auto

lemma parse_index_show:
  "n \<le> u32_limit \<Longrightarrow> \<not> is_ascii_digit c \<Longrightarrow>
   parse_index \<lparr> sn_rest = show_nat n @ c # cs, sn_pos = i \<rparr> = Inr (n, \<lparr> sn_rest = c # cs, sn_pos = i + length (show_nat n) \<rparr>)"
  by (simp add: parse_index_def sp_take_while_def Let_def takeWhile_stop show_nat_digits show_nat_nonempty parse_u32_def show_nat_value)

lemma ident_continue: "ident_ok name \<Longrightarrow> \<forall>c \<in> set name. is_identifier_continue c"
  by (auto simp: ident_ok_def is_identifier_start_def is_identifier_continue_def)

lemma parse_identifier_show:
  "ident_ok name \<Longrightarrow> \<not> is_identifier_continue c \<Longrightarrow>
   parse_identifier \<lparr> sn_rest = name @ c # cs, sn_pos = i \<rparr> = (name, \<lparr> sn_rest = c # cs, sn_pos = i + length name \<rparr>)"
  by (simp add: parse_identifier_def sp_take_while_def Let_def takeWhile_stop ident_continue)

lemma escape_simps [simp]:
  "escape sp [] = []" "escape sp (c # t) = (if c \<in> set sp then [backslash, c] else [c]) @ escape sp t"
  by (simp_all add: escape_def)

lemma choice_option:
  "\<exists>j. choice_items opts cur (escape [backslash, comma, pipe] t @ rest) i = choice_items opts (cur @ t) rest j"
proof (induction t arbitrary: cur i)
  case (Cons c t)
  obtain k where "choice_items opts cur (escape [backslash, comma, pipe] (c # t) @ rest) i =
      choice_items opts (cur @ [c]) (escape [backslash, comma, pipe] t @ rest) k"
    by (cases "c \<in> {backslash, comma, pipe}") auto
  then show ?case using Cons.IH[of "cur @ [c]" k] by auto
qed auto

lemma choice_show:
  "options \<noteq> [] \<Longrightarrow>
   \<exists>j. choice_items opts [] (show_options options @ pipe # rbrace # rest) i = Inr (opts @ options, \<lparr> sn_rest = rest, sn_pos = j \<rparr>)"
proof (induction options arbitrary: opts i rule: show_options.induct)
  case (2 opt)
  obtain j where "choice_items opts [] (escape [backslash, comma, pipe] opt @ pipe # rbrace # rest) i = choice_items opts opt (pipe # rbrace # rest) j"
    using choice_option[of opts "[]" opt "pipe # rbrace # rest" i] by auto
  then show ?case by simp
next
  case (3 opt o2 os)
  let ?rest = "comma # show_options (o2 # os) @ pipe # rbrace # rest"
  obtain j where "choice_items opts [] (escape [backslash, comma, pipe] opt @ ?rest) i = choice_items opts opt ?rest j"
    using choice_option[of opts "[]" opt ?rest i] by auto
  then show ?case using "3.IH"[of "opts @ [opt]" "j + 1"] by simp
qed simp

lemma segment_show:
  "\<exists>j. transform_segment out (escape [backslash, slash] t @ slash # rest) i = Inr (out @ t, \<lparr> sn_rest = rest, sn_pos = j \<rparr>)"
proof (induction t arbitrary: out i)
  case (Cons c t)
  obtain k where "transform_segment out (escape [backslash, slash] (c # t) @ slash # rest) i =
      transform_segment (out @ [c]) (escape [backslash, slash] t @ slash # rest) k"
    by (cases "c \<in> {backslash, slash}") auto
  then show ?case using Cons.IH[of "out @ [c]" k] by auto
qed auto

lemma flags_show:
  "rbrace \<notin> set flags \<Longrightarrow>
   parse_transform_flags \<lparr> sn_rest = flags @ rbrace # rest, sn_pos = i \<rparr> = Inr (flags, \<lparr> sn_rest = rest, sn_pos = Suc (i + length flags) \<rparr>)"
proof -
  assume "rbrace \<notin> set flags"
  then have "\<forall>c \<in> set flags. c \<noteq> rbrace" by auto
  then show ?thesis by (simp add: parse_transform_flags_def sp_take_while_def Let_def takeWhile_stop)
qed

lemma transform_show:
  assumes "rbrace \<notin> set flags"
  shows "\<exists>j. parse_transform source \<lparr> sn_rest = escape [backslash, slash] regex @ slash # escape [backslash, slash] repl @ slash # flags @ rbrace # rest,
      sn_pos = i \<rparr> = Inr (\<lparr> tf_source = source, tf_regex = regex, tf_replace = repl, tf_flags = flags \<rparr>, \<lparr> sn_rest = rest, sn_pos = j \<rparr>)"
proof -
  let ?r2 = "flags @ rbrace # rest" let ?r1 = "escape [backslash, slash] repl @ slash # ?r2"
  obtain j1 where "transform_segment [] (escape [backslash, slash] regex @ slash # ?r1) i = Inr (regex, \<lparr> sn_rest = ?r1, sn_pos = j1 \<rparr>)"
    using segment_show[of "[]" regex ?r1 i] by auto
  moreover obtain j2 where "transform_segment [] ?r1 j1 = Inr (repl, \<lparr> sn_rest = ?r2, sn_pos = j2 \<rparr>)"
    using segment_show[of "[]" repl ?r2 j1] by auto
  ultimately show ?thesis by (simp add: parse_transform_def parse_transform_segment_def flags_show[OF assms])
qed

lemma text_run:
  assumes "length (escape [backslash, dollar, rbrace] t @ rest) < n"
  shows "\<exists>m j. parse_nodes n stop acc buf \<lparr> sn_rest = escape [backslash, dollar, rbrace] t @ rest, sn_pos = i \<rparr> =
     parse_nodes m stop acc (buf @ t) \<lparr> sn_rest = rest, sn_pos = j \<rparr> \<and> length rest < m"
  using assms
proof (induction t arbitrary: n buf i)
  case Nil
  then show ?case by auto
next
  case (Cons c t)
  then obtain m where n: "n = Suc m" by (cases n) auto
  have "\<exists>j. parse_nodes n stop acc buf \<lparr> sn_rest = escape [backslash, dollar, rbrace] (c # t) @ rest, sn_pos = i \<rparr> =
     parse_nodes m stop acc (buf @ [c]) \<lparr> sn_rest = escape [backslash, dollar, rbrace] t @ rest, sn_pos = j \<rparr>"
    by (cases "c \<in> {backslash, dollar, rbrace}") (auto simp: n nodes_escape nodes_char)
  then obtain j where j: "parse_nodes n stop acc buf \<lparr> sn_rest = escape [backslash, dollar, rbrace] (c # t) @ rest, sn_pos = i \<rparr> =
     parse_nodes m stop acc (buf @ [c]) \<lparr> sn_rest = escape [backslash, dollar, rbrace] t @ rest, sn_pos = j \<rparr>" by blast
  show ?case using Cons.IH[of m "buf @ [c]" j] Cons.prems j by (auto simp: n split: if_splits)
qed


lemma not_digit [simp]:
  "\<not> is_ascii_digit rbrace" "\<not> is_ascii_digit colon" "\<not> is_ascii_digit pipe" "\<not> is_ascii_digit slash"
  "\<not> is_identifier_continue rbrace" "\<not> is_identifier_continue colon" "\<not> is_identifier_continue slash"
  by (simp_all add: is_ascii_digit_def is_identifier_continue_def is_ascii_alphabetic_def is_ascii_lowercase_def is_ascii_uppercase_def)

lemma braced_is_field:
  "parse_braced n \<lparr> sn_rest = show_nat i @ cs, sn_pos = p \<rparr> = parse_braced_field n \<lparr> sn_rest = show_nat i @ cs, sn_pos = p \<rparr>"
proof -
  obtain d ds where d: "show_nat i = d # ds" using show_nat_nonempty by (cases "show_nat i") auto
  then have "is_ascii_digit d" using show_nat_digits[of i] by simp
  then show ?thesis by (simp add: parse_braced_def d)
qed

lemma braced_is_variable:
  "ident_ok name \<Longrightarrow>
   parse_braced n \<lparr> sn_rest = name @ cs, sn_pos = p \<rparr> = parse_braced_variable n \<lparr> sn_rest = name @ cs, sn_pos = p \<rparr>"
  by (auto simp: parse_braced_def ident_ok_def dest: start_not_special)

lemma nested_back:
  assumes "nodes_back ns" "length (show_nodes ns @ rbrace # rest) < n"
  shows "\<exists>j. close_braced mk (parse_nodes n True [] [] \<lparr> sn_rest = show_nodes ns @ rbrace # rest, sn_pos = i \<rparr>) =
    Some (Inr (mk ns, \<lparr> sn_rest = rest, sn_pos = j \<rparr>))"
proof -
  obtain j where "parse_nodes n True [] [] \<lparr> sn_rest = show_nodes ns @ rbrace # rest, sn_pos = i \<rparr> =
      Some (Inr (ns, \<lparr> sn_rest = rbrace # rest, sn_pos = j \<rparr>))"
    using assms(1)[unfolded nodes_back_def, rule_format, of "rbrace # rest" n "[]" True "[]" i] assms(2)
    by (auto simp: flush_text_def)
  then show ?thesis by (simp add: close_braced_def)
qed

lemma braced_back:
  assumes "\<not> is_text node" "node_ok node" "length (show_body node @ rbrace # rest) < n"
    and "\<And>i ns. node = Field i (Placeholder ns) \<Longrightarrow> nodes_back ns" "\<And>name ns. node = Var name (Some ns) \<Longrightarrow> nodes_back ns"
  shows "\<exists>j. parse_braced n \<lparr> sn_rest = show_body node @ rbrace # rest, sn_pos = i \<rparr> = Some (Inr (node, \<lparr> sn_rest = rest, sn_pos = j \<rparr>))"
proof -
  consider k where "node = Field k Tabstop" | k ns where "node = Field k (Placeholder ns)" | k options where "node = Field k (Choice options)"
    | name where "node = Var name None" | name ns where "node = Var name (Some ns)" | t where "node = Transform t"
    using assms(1) by (metis (full_types) field_kind.exhaust is_text.simps(1) option.exhaust snippet_node.exhaust)
  then show ?thesis
  proof cases
  case (2 k ns)
  then show ?thesis using assms(2,3) nested_back[OF assms(4)[OF 2], of rest n "\<lambda>ns. Field k (Placeholder ns)"]
    by (simp add: braced_is_field parse_index_show show_nodes_def)
next
  case (3 k options)
  then show ?thesis using assms(2) choice_show[of options "[]" rest "Suc (i + length (show_nat k))"]
    by (auto simp: braced_is_field parse_index_show map_parsed_def parse_choice_items_def)
next
  case (5 name ns)
  then show ?thesis using assms(2,3) nested_back[OF assms(5)[OF 5], of rest n "\<lambda>ns. Var name (Some ns)"]
    by (auto simp: braced_is_variable parse_identifier_show show_nodes_def ident_ok_def)
next
  case (6 t)
  obtain src regex repl flags where t: "t = \<lparr> tf_source = src, tf_regex = regex, tf_replace = repl, tf_flags = flags \<rparr>"
    by (cases t)
  have f: "rbrace \<notin> set flags" and s: "source_ok src" using assms(2) 6 by (simp_all add: t)
  show ?thesis
  proof (cases src)
    case (FromTabstop k)
    then show ?thesis using transform_show[OF f, of "FromTabstop k" regex repl rest "Suc (i + length (show_nat k))"] s
      by (auto simp: 6 t show_transform_def braced_is_field parse_index_show map_parsed_def)
  next
    case (FromVar name)
    then show ?thesis using transform_show[OF f, of "FromVar name" regex repl rest "Suc (i + length name)"] s
      by (auto simp: 6 t show_transform_def braced_is_variable parse_identifier_show map_parsed_def ident_ok_def)
  qed
qed (use assms(1,2) in \<open>auto simp: braced_is_field braced_is_variable parse_index_show parse_identifier_show ident_ok_def\<close>)
qed


lemma size_nested:
  "size_list size ns < size_list size (Field i (Placeholder ns) # ms)" "size_list size ns < size_list size (Var name (Some ns) # ms)"
  "size_list size ms < size_list size (node # ms)"
  by simp_all

lemma nodes_back_all: "list_all node_ok ns \<Longrightarrow> list_all canonical_node ns \<Longrightarrow> no_adjacent_text ns \<Longrightarrow> nodes_back ns"
proof (induction ns rule: measure_induct_rule[of "size_list size"])
  case (less ns)
  show ?case
  proof (cases ns)
    case Nil
    have "\<exists>j. parse_nodes n stop acc buf \<lparr> sn_rest = cs, sn_pos = i \<rparr> = Some (Inr (flush_text acc buf, \<lparr> sn_rest = cs, sn_pos = j \<rparr>))"
      if "length cs < n" "cs = [] \<or> stop \<and> (\<exists>ds. cs = rbrace # ds)" for n stop acc buf cs i
      using that by (cases n) (auto simp: nodes_end nodes_stop)
    then show ?thesis by (simp add: nodes_back_def Nil show_nodes_def)
  next
    case (Cons node ms)
    have ms: "nodes_back ms" and adj: "is_text node \<Longrightarrow> ms = [] \<or> \<not> is_text (hd ms)"
      using less.IH[of ms] less.prems size_nested(3)[of ms node] by (cases ms; simp add: Cons)+
    show ?thesis unfolding nodes_back_def
    proof (intro allI impI)
      fix n stop acc and buf cs :: utext and i
      assume len: "length (show_nodes ns @ cs) < n" and buf: "buf = [] \<or> ns = [] \<or> \<not> is_text (hd ns)"
        and cs: "cs = [] \<or> stop \<and> (\<exists>ds. cs = rbrace # ds)"
      let ?rest = "show_nodes ms @ cs"
      note parsed_rest = ms[unfolded nodes_back_def, rule_format, OF _ _ cs]
      show "\<exists>j. parse_nodes n stop acc buf \<lparr> sn_rest = show_nodes ns @ cs, sn_pos = i \<rparr> =
        Some (Inr (flush_text acc buf @ ns, \<lparr> sn_rest = cs, sn_pos = j \<rparr>))"
      proof (cases "is_text node")
        case True
        then obtain t where t: "node = Text t" by (cases node) auto
        have b: "buf = []" "t \<noteq> []" using buf less.prems(1) by (simp_all add: Cons t)
        obtain m j where run: "parse_nodes n stop acc [] \<lparr> sn_rest = escape [backslash, dollar, rbrace] t @ ?rest, sn_pos = i \<rparr> =
            parse_nodes m stop acc t \<lparr> sn_rest = ?rest, sn_pos = j \<rparr>" "length ?rest < m"
          using text_run[of t ?rest n stop acc "[]" i] len by (auto simp: Cons t show_nodes_def)
        show ?thesis using parsed_rest[of m t acc j] run adj True b by (auto simp: Cons t show_nodes_def flush_text_def)
      next
        case False
        then have sn: "show_node node = dollar # lbrace # show_body node @ [rbrace]" by (cases node) auto
        obtain m where n: "n = Suc m" using len by (cases n) auto
        have nested: "nodes_back xs" if "node = Field k (Placeholder xs) \<or> node = Var name (Some xs)" for k name xs
          using less.IH[of xs] less.prems that size_nested(1)[of xs k ms] size_nested(2)[of xs name ms] by (auto simp: Cons)
        obtain j where j: "parse_braced m \<lparr> sn_rest = show_body node @ rbrace # ?rest, sn_pos = Suc (Suc i) \<rparr> =
            Some (Inr (node, \<lparr> sn_rest = ?rest, sn_pos = j \<rparr>))"
          using braced_back[OF False, of ?rest m "Suc (Suc i)"] nested len less.prems(1)
          by (auto simp: Cons sn n show_nodes_def)
        have "length ?rest < m" using len by (simp add: Cons sn n show_nodes_def)
        then show ?thesis using parsed_rest[of m "[]" "flush_text acc buf @ [node]" j] j
          by (auto simp: Cons sn n show_nodes_def nodes_braced flush_text_def)
      qed
    qed
  qed
qed

section \<open>Properties\<close>

text \<open>
  The snippet parser is total, and what it accepts is well formed: on every input it returns, with an error or with a
  template whose texts are not empty, whose tabstop numbers fit 32 bits, whose variables are identifiers and whose
  choices have an option, at any depth.
\<close>

theorem snippet_parser_total:
  "\<exists>res. parse_snippet_template input = Some res \<and> (\<forall>nodes. res = Inr nodes \<longrightarrow> list_all node_ok nodes)"
proof -
  obtain res where res: "parse_snippet_template input = Some res" using template_returns by blast
  have "list_all node_ok nodes" if "res = Inr nodes" for nodes
    using res that nodes_sound_all[of "length input + 1", unfolded nodes_sound_def]
    by (auto simp: parse_snippet_template_def split: option.splits sum.splits prod.splits)
  then show ?thesis using res by blast
qed

theorem snippet_parser_total_witness:
  "parse_snippet_template [36, 123, 49, 58, 120, 125] = Some (Inr [Field 1 (Placeholder [Text [120]])]) \<and>
   list_all node_ok [Field 1 (Placeholder [Text [120]])]"
proof -
  have r: "parse_snippet_template [36, 123, 49, 58, 120, 125] = Some (Inr [Field 1 (Placeholder [Text [120]])])"
    by (simp add: parse_snippet_template_def sp_new_def nodes_steps parse_braced_def is_ascii_digit_def parse_index_def
        sp_take_while_def Let_def parse_u32_def u32_limit_def close_braced_def flush_text_def)
  then show ?thesis using snippet_parser_total[of "[36, 123, 49, 58, 120, 125]"] by auto
qed

text \<open>
  C35. Printing a template and parsing it gives the template back, for every well-formed template without two texts next to
  each other: escapes, nested placeholders, defaults, choices and transforms are read as they are written.
\<close>

theorem snippet_roundtrip:
  assumes "list_all node_ok nodes" and "list_all canonical_node nodes" and "no_adjacent_text nodes"
  shows "parse_snippet_template (show_nodes nodes) = Some (Inr nodes)"
  using nodes_back_all[OF assms, unfolded nodes_back_def, rule_format, of "[]" "length (show_nodes nodes) + 1" "[]" False "[]" 0]
  by (auto simp: parse_snippet_template_def sp_new_def flush_text_def)

theorem snippet_roundtrip_witness:
  "parse_snippet_template (show_nodes [Text [36, 125], Field 12 (Placeholder [Text [120], Field 3 (Choice [[44], [98]])]),
     Var [65, 49] (Some [Text [92]])]) =
   Some (Inr [Text [36, 125], Field 12 (Placeholder [Text [120], Field 3 (Choice [[44], [98]])]), Var [65, 49] (Some [Text [92]])])"
  by (rule snippet_roundtrip)
    (simp_all add: ident_ok_def u32_limit_def is_identifier_start_def is_identifier_continue_def is_ascii_alphabetic_def
      is_ascii_lowercase_def is_ascii_uppercase_def is_ascii_digit_def)

end
