(* ===== verification/Snippet_Render.thy ===== *)
theory Snippet_Render
  imports Snippet_Syntax
begin

text \<open>
  Rendering of snippet templates, \<open>crates/editor/src/snippet/render/mod.rs\<close>: the text of a template with the ranges of
  its tabstops, its choices and its transforms.

  A \<open>BTreeMap\<close> is the list of its entries in the order of the keys. Variables are resolved by a parameter, the trait
  \<open>SnippetVarResolver\<close>. The regular expression engine is a parameter too: building an expression from a
  pattern and three flags gives nothing or a function that replaces the first or all matches in a text.
\<close>

section \<open>Ordered maps\<close>

type_synonym 'v btree = "(nat \<times> 'v) list"

text \<open>The entry of a key is changed or created at its place in the order.\<close>

fun bt_modify :: "nat \<Rightarrow> ('v option \<Rightarrow> 'v) \<Rightarrow> 'v btree \<Rightarrow> 'v btree" where
  "bt_modify k f [] = [(k, f None)]"
| "bt_modify k f ((k', v) # m) =
     (if k < k' then (k, f None) # (k', v) # m
      else if k = k' then (k, f (Some v)) # m
      else (k', v) # bt_modify k f m)"

text \<open>\<open>entry(k).or_default().push(x)\<close> and \<open>entry(k).or_insert(v)\<close>.\<close>

definition bt_push :: "nat \<Rightarrow> 'a \<Rightarrow> 'a list btree \<Rightarrow> 'a list btree" where
  "bt_push k x = bt_modify k (\<lambda>old. case old of None \<Rightarrow> [x] | Some xs \<Rightarrow> xs @ [x])"

definition bt_or_insert :: "nat \<Rightarrow> 'v \<Rightarrow> 'v btree \<Rightarrow> 'v btree" where
  "bt_or_insert k v = bt_modify k (\<lambda>old. case old of None \<Rightarrow> v | Some v' \<Rightarrow> v')"

section \<open>Transforms\<close>

type_synonym var_resolver = "utext \<Rightarrow> utext option"
type_synonym regex_engine = "utext \<Rightarrow> bool \<Rightarrow> bool \<Rightarrow> bool \<Rightarrow> (bool \<Rightarrow> utext \<Rightarrow> utext \<Rightarrow> utext) option"

function normalize_transform_replacement :: "utext \<Rightarrow> utext" where
  "normalize_transform_replacement [] = []"
| "normalize_transform_replacement (c # cs) =
     (if c \<noteq> dollar then c # normalize_transform_replacement cs
      else case cs of
        [] \<Rightarrow> [dollar]
      | d # _ \<Rightarrow>
          if is_ascii_digit d
          then [dollar, lbrace] @ takeWhile is_ascii_digit cs @ [rbrace] @
               normalize_transform_replacement (dropWhile is_ascii_digit cs)
          else dollar # normalize_transform_replacement cs)"
  by pat_completeness auto
termination
  by (relation "measure length") (auto intro: le_imp_less_Suc le_SucI length_dropWhile_le)

definition apply_transform :: "regex_engine \<Rightarrow> utext \<Rightarrow> utext \<Rightarrow> utext \<Rightarrow> utext \<Rightarrow> utext" where
  "apply_transform X source regex repl flags =
     (case X regex (105 \<in> set flags) (109 \<in> set flags) (115 \<in> set flags) of
        None \<Rightarrow> source
      | Some compiled \<Rightarrow> compiled (103 \<in> set flags) source (normalize_transform_replacement repl))"

section \<open>Rendering\<close>

record rendered_transform =
  rt_source :: transform_source
  rt_regex :: utext
  rt_replace :: utext
  rt_flags :: utext
  rt_range :: "nat \<times> nat"

record rendered =
  rd_text :: utext
  rd_tabstops :: "(nat \<times> nat) list btree"
  rd_choices :: "utext list btree"
  rd_transforms :: "rendered_transform list"

text \<open>The first option, or the default of \<open>String\<close>.\<close>

definition first_option :: "utext list \<Rightarrow> utext" where
  "first_option options = (case options of [] \<Rightarrow> [] | opt # _ \<Rightarrow> opt)"

definition resolved :: "var_resolver \<Rightarrow> utext \<Rightarrow> utext option" where
  "resolved V name = (case V name of Some v \<Rightarrow> if v \<noteq> [] then Some v else None | None \<Rightarrow> None)"

fun render_plain_nodes :: "var_resolver \<Rightarrow> snippet_node list \<Rightarrow> utext" where
  "render_plain_nodes V [] = []"
| "render_plain_nodes V (Text t # ns) = t @ render_plain_nodes V ns"
| "render_plain_nodes V (Field i Tabstop # ns) = render_plain_nodes V ns"
| "render_plain_nodes V (Field i (Placeholder children) # ns) = render_plain_nodes V children @ render_plain_nodes V ns"
| "render_plain_nodes V (Field i (Choice options) # ns) = first_option options @ render_plain_nodes V ns"
| "render_plain_nodes V (Var name dflt # ns) =
     (case resolved V name of
        Some v \<Rightarrow> v
      | None \<Rightarrow> (case dflt of None \<Rightarrow> [] | Some ds \<Rightarrow> render_plain_nodes V ds)) @ render_plain_nodes V ns"
| "render_plain_nodes V (Transform t # ns) = render_plain_nodes V ns"

fun collect_tabstop_sources :: "var_resolver \<Rightarrow> snippet_node list \<Rightarrow> utext btree \<Rightarrow> utext btree" where
  "collect_tabstop_sources V [] srcs = srcs"
| "collect_tabstop_sources V (Field i Tabstop # ns) srcs = collect_tabstop_sources V ns (bt_or_insert i [] srcs)"
| "collect_tabstop_sources V (Field i (Placeholder children) # ns) srcs =
     collect_tabstop_sources V ns
       (collect_tabstop_sources V children (bt_or_insert i (render_plain_nodes V children) srcs))"
| "collect_tabstop_sources V (Field i (Choice options) # ns) srcs =
     collect_tabstop_sources V ns (bt_or_insert i (first_option options) srcs)"
| "collect_tabstop_sources V (n # ns) srcs = collect_tabstop_sources V ns srcs"

text \<open>The mutable arguments of \<open>render_nodes\<close>: the output, the count of its characters, and the collections.\<close>

record render_state = rendered +
  rs_chars :: nat

definition push_str :: "utext \<Rightarrow> render_state \<Rightarrow> render_state" where
  "push_str t s = s\<lparr> rd_text := rd_text s @ t, rs_chars := rs_chars s + length t \<rparr>"

definition push_tabstop :: "nat \<Rightarrow> nat \<Rightarrow> render_state \<Rightarrow> render_state" where
  "push_tabstop i start s = s\<lparr> rd_tabstops := bt_push i (start, rs_chars s) (rd_tabstops s) \<rparr>"

definition render_transform :: "regex_engine \<Rightarrow> var_resolver \<Rightarrow> utext btree \<Rightarrow> transform \<Rightarrow> render_state \<Rightarrow> render_state" where
  "render_transform X V srcs t s =
     (let source_value = (case tf_source t of
            FromTabstop i \<Rightarrow> (case map_of srcs i of Some v \<Rightarrow> v | None \<Rightarrow> [])
          | FromVar name \<Rightarrow> (case V name of Some v \<Rightarrow> v | None \<Rightarrow> []));
          output = apply_transform X source_value (tf_regex t) (tf_replace t) (tf_flags t);
          start = rs_chars s;
          s' = push_str output s
      in s'\<lparr> rd_transforms := rd_transforms s' @
            [\<lparr> rt_source = tf_source t, rt_regex = tf_regex t, rt_replace = tf_replace t, rt_flags = tf_flags t,
               rt_range = (start, rs_chars s') \<rparr>] \<rparr>)"

fun render_nodes ::
  "regex_engine \<Rightarrow> var_resolver \<Rightarrow> utext btree \<Rightarrow> snippet_node list \<Rightarrow> render_state \<Rightarrow> render_state" where
  "render_nodes X V srcs [] s = s"
| "render_nodes X V srcs (Text t # ns) s = render_nodes X V srcs ns (push_str t s)"
| "render_nodes X V srcs (Field i Tabstop # ns) s = render_nodes X V srcs ns (push_tabstop i (rs_chars s) s)"
| "render_nodes X V srcs (Field i (Placeholder children) # ns) s =
     render_nodes X V srcs ns (push_tabstop i (rs_chars s) (render_nodes X V srcs children s))"
| "render_nodes X V srcs (Field i (Choice options) # ns) s =
     (let s' = push_tabstop i (rs_chars s) (push_str (first_option options) s)
      in render_nodes X V srcs ns (s'\<lparr> rd_choices := bt_or_insert i options (rd_choices s') \<rparr>))"
| "render_nodes X V srcs (Var name dflt # ns) s =
     render_nodes X V srcs ns
       (case resolved V name of
          Some v \<Rightarrow> push_str v s
        | None \<Rightarrow> (case dflt of None \<Rightarrow> s | Some ds \<Rightarrow> render_nodes X V srcs ds s))"
| "render_nodes X V srcs (Transform t # ns) s = render_nodes X V srcs ns (render_transform X V srcs t s)"

definition render_with_resolver :: "regex_engine \<Rightarrow> var_resolver \<Rightarrow> snippet_node list \<Rightarrow> rendered" where
  "render_with_resolver X V nodes =
     (let srcs = collect_tabstop_sources V nodes [];
          s = render_nodes X V srcs nodes
                \<lparr> rd_text = [], rd_tabstops = [], rd_choices = [], rd_transforms = [], rs_chars = 0 \<rparr>
      in \<lparr> rd_text = rd_text s, rd_tabstops = rd_tabstops s, rd_choices = rd_choices s, rd_transforms = rd_transforms s \<rparr>)"

section \<open>Specification predicates\<close>

text \<open>The text of nodes, and the fields that are rendered with the position where each starts, in the order they end.\<close>

definition transform_output :: "regex_engine \<Rightarrow> var_resolver \<Rightarrow> utext btree \<Rightarrow> transform \<Rightarrow> utext" where
  "transform_output X V srcs t =
     apply_transform X
       (case tf_source t of
          FromTabstop i \<Rightarrow> (case map_of srcs i of Some v \<Rightarrow> v | None \<Rightarrow> [])
        | FromVar name \<Rightarrow> (case V name of Some v \<Rightarrow> v | None \<Rightarrow> []))
       (tf_regex t) (tf_replace t) (tf_flags t)"

fun out_text :: "(transform \<Rightarrow> utext) \<Rightarrow> var_resolver \<Rightarrow> snippet_node list \<Rightarrow> utext" where
  "out_text F V [] = []"
| "out_text F V (Text t # ns) = t @ out_text F V ns"
| "out_text F V (Field i Tabstop # ns) = out_text F V ns"
| "out_text F V (Field i (Placeholder children) # ns) = out_text F V children @ out_text F V ns"
| "out_text F V (Field i (Choice options) # ns) = first_option options @ out_text F V ns"
| "out_text F V (Var name dflt # ns) =
     (case resolved V name of
        Some v \<Rightarrow> v
      | None \<Rightarrow> (case dflt of None \<Rightarrow> [] | Some ds \<Rightarrow> out_text F V ds)) @ out_text F V ns"
| "out_text F V (Transform t # ns) = F t @ out_text F V ns"

fun out_fields :: "(transform \<Rightarrow> utext) \<Rightarrow> var_resolver \<Rightarrow> nat \<Rightarrow> snippet_node list \<Rightarrow> (nat \<times> field_kind \<times> nat) list" where
  "out_fields F V off [] = []"
| "out_fields F V off (Text t # ns) = out_fields F V (off + length t) ns"
| "out_fields F V off (Field i Tabstop # ns) = (i, Tabstop, off) # out_fields F V off ns"
| "out_fields F V off (Field i (Placeholder children) # ns) =
     out_fields F V off children @ (i, Placeholder children, off) # out_fields F V (off + length (out_text F V children)) ns"
| "out_fields F V off (Field i (Choice options) # ns) =
     (i, Choice options, off) # out_fields F V (off + length (first_option options)) ns"
| "out_fields F V off (Var name dflt # ns) =
     (case resolved V name of
        Some v \<Rightarrow> out_fields F V (off + length v) ns
      | None \<Rightarrow>
          (case dflt of
             None \<Rightarrow> out_fields F V off ns
           | Some ds \<Rightarrow> out_fields F V off ds @ out_fields F V (off + length (out_text F V ds)) ns))"
| "out_fields F V off (Transform t # ns) = out_fields F V (off + length (F t)) ns"

definition field_range :: "(transform \<Rightarrow> utext) \<Rightarrow> var_resolver \<Rightarrow> nat \<times> field_kind \<times> nat \<Rightarrow> nat \<times> nat" where
  "field_range F V f = (case f of (i, k, off) \<Rightarrow> (off, off + length (out_text F V [Field i k])))"

text \<open>The ranges of one tabstop.\<close>

definition ranges_of :: "(transform \<Rightarrow> utext) \<Rightarrow> var_resolver \<Rightarrow> nat \<Rightarrow> (nat \<times> field_kind \<times> nat) list \<Rightarrow> (nat \<times> nat) list" where
  "ranges_of F V i fs = map (field_range F V) (filter (\<lambda>f. fst f = i) fs)"

fun no_transforms :: "snippet_node \<Rightarrow> bool" where
  "no_transforms (Transform t) = False"
| "no_transforms (Field i (Placeholder ns)) = list_all no_transforms ns"
| "no_transforms (Var name (Some ns)) = list_all no_transforms ns"
| "no_transforms n = True"

definition slice_of :: "utext \<Rightarrow> nat \<times> nat \<Rightarrow> utext" where
  "slice_of t r = take (snd r - fst r) (drop (fst r) t)"

definition stops_at :: "(nat \<times> nat) list btree \<Rightarrow> nat \<Rightarrow> (nat \<times> nat) list" where
  "stops_at m i = (case map_of m i of None \<Rightarrow> [] | Some rs \<Rightarrow> rs)"

definition renders :: "(transform \<Rightarrow> utext) \<Rightarrow> var_resolver \<Rightarrow> snippet_node list \<Rightarrow> render_state \<Rightarrow> render_state \<Rightarrow> bool" where
  "renders F V ns s s' \<longleftrightarrow>
     rd_text s' = rd_text s @ out_text F V ns \<and> rs_chars s' = rs_chars s + length (out_text F V ns) \<and>
     sorted_wrt (<) (map fst (rd_tabstops s')) \<and>
     (\<forall>i. stops_at (rd_tabstops s') i = stops_at (rd_tabstops s) i @ ranges_of F V i (out_fields F V (rs_chars s) ns)) \<and>
     (\<forall>i. map_of (rd_tabstops s') i = Some [] \<longrightarrow> map_of (rd_tabstops s) i = Some [])"

section \<open>Lemmas\<close>

subsection \<open>Ordered maps\<close>

lemma bt_modify_lookup:
  "sorted_wrt (<) (map fst m) \<Longrightarrow> map_of (bt_modify k f m) j = (if j = k then Some (f (map_of m k)) else map_of m j)"
proof (induction k f m rule: bt_modify.induct)
  case (2 k f k' v m)
  have "map_of m k = None" if "k < k'"
    using 2(2) that by (auto simp: map_of_eq_None_iff)
  then show ?case using 2 by (auto split: if_splits)
qed simp

lemma bt_modify_keys: "set (map fst (bt_modify k f m)) = insert k (set (map fst m))"
  by (induction k f m rule: bt_modify.induct) auto

lemma bt_modify_sorted: "sorted_wrt (<) (map fst m) \<Longrightarrow> sorted_wrt (<) (map fst (bt_modify k f m))"
proof (induction k f m rule: bt_modify.induct)
  case (2 k f k' v m)
  then show ?case using bt_modify_keys[of k f m] by (fastforce simp del: map_map)
qed simp

lemma bt_push_lookup:
  "sorted_wrt (<) (map fst m) \<Longrightarrow>
   map_of (bt_push k x m) j = (if j = k then Some ((case map_of m k of None \<Rightarrow> [] | Some xs \<Rightarrow> xs) @ [x]) else map_of m j)"
  by (simp add: bt_push_def bt_modify_lookup split: option.split)

subsection \<open>Rendering\<close>

lemma out_text_append: "out_text F V (ns @ ms) = out_text F V ns @ out_text F V ms"
  by (induction F V ns rule: out_text.induct) simp_all

lemma stops_at_push:
  "sorted_wrt (<) (map fst m) \<Longrightarrow> stops_at (bt_push k x m) j = stops_at m j @ (if j = k then [x] else [])"
  "sorted_wrt (<) (map fst m) \<Longrightarrow> map_of (bt_push k x m) j = Some [] \<longleftrightarrow> j \<noteq> k \<and> map_of m j = Some []"
  by (auto simp: stops_at_def bt_push_lookup)

lemma bt_push_sorted: "sorted_wrt (<) (map fst m) \<Longrightarrow> sorted_wrt (<) (map fst (bt_push k x m))"
  by (simp add: bt_push_def bt_modify_sorted)

lemma out_fields_append:
  "out_fields F V off (ns @ ms) = out_fields F V off ns @ out_fields F V (off + length (out_text F V ns)) ms"
  by (induction F V off ns rule: out_fields.induct) (auto simp: add.assoc split: option.split)

lemma renders_refl: "sorted_wrt (<) (map fst (rd_tabstops s)) \<Longrightarrow> renders F V [] s s"
  by (simp add: renders_def ranges_of_def)

lemma renders_append: "renders F V ns s s1 \<Longrightarrow> renders F V ms s1 s2 \<Longrightarrow> renders F V (ns @ ms) s s2"
  by (simp add: renders_def out_text_append out_fields_append ranges_of_def add.assoc)

lemma push_str_renders:
  "sorted_wrt (<) (map fst (rd_tabstops s)) \<Longrightarrow> renders F V [Text t] s (push_str t s)"
  by (simp add: renders_def push_str_def ranges_of_def)


lemma push_tabstop_renders:
  assumes "renders F V ns s s'" "k = Tabstop \<and> ns = [] \<or> k = Placeholder ns \<or> (\<exists>options. k = Choice options \<and> ns = [Text (first_option options)])"
  shows "renders F V [Field i k] s (push_tabstop i (rs_chars s) s')"
  using assms
  by (auto simp: renders_def push_tabstop_def stops_at_push bt_push_sorted ranges_of_def field_range_def)

lemma transform_renders:
  "sorted_wrt (<) (map fst (rd_tabstops s)) \<Longrightarrow> renders (transform_output X V srcs) V [Transform t] s (render_transform X V srcs t s)"
  by (simp add: renders_def render_transform_def transform_output_def push_str_def ranges_of_def Let_def)

lemma renders_var:
  "renders F V [Text v] s s' \<Longrightarrow> resolved V name = Some v \<Longrightarrow> renders F V [Var name dflt] s s'"
  "renders F V ds s s' \<Longrightarrow> resolved V name = None \<Longrightarrow> renders F V [Var name (Some ds)] s s'"
  "renders F V [] s s' \<Longrightarrow> resolved V name = None \<Longrightarrow> renders F V [Var name None] s s'"
  by (simp_all add: renders_def)

lemma renders_sorted: "renders F V ns s s' \<Longrightarrow> sorted_wrt (<) (map fst (rd_tabstops s'))"
  by (simp add: renders_def)

lemma renders_choices: "renders F V ns s s' \<Longrightarrow> renders F V ns s (s'\<lparr> rd_choices := c \<rparr>)"
  by (simp add: renders_def)

lemma render_nodes_renders:
  "sorted_wrt (<) (map fst (rd_tabstops s)) \<Longrightarrow> renders (transform_output X V srcs) V ns s (render_nodes X V srcs ns s)"
proof (induction X V srcs ns s rule: render_nodes.induct)
  case (1 X V srcs s)
  then show ?case by (simp add: renders_refl)
next
  case (2 X V srcs t ns s)
  note h = push_str_renders[OF 2(2), of _ V t]
  show ?case using renders_append[OF h 2(1)[OF renders_sorted[OF h]]] by simp
next
  case (3 X V srcs i ns s)
  note h = push_tabstop_renders[OF renders_refl[OF 3(2)], of Tabstop]
  have h: "renders (transform_output X V srcs) V [Field i Tabstop] s (push_tabstop i (rs_chars s) s)"
    by (rule push_tabstop_renders[OF renders_refl[OF 3(2)]]) simp
  show ?case using renders_append[OF h 3(1)[OF renders_sorted[OF h]]] by simp
next
  case (4 X V srcs i children ns s)
  have h: "renders (transform_output X V srcs) V [Field i (Placeholder children)] s
      (push_tabstop i (rs_chars s) (render_nodes X V srcs children s))"
    by (rule push_tabstop_renders[OF 4(1)[OF 4(3)]]) simp
  show ?case using renders_append[OF h 4(2)[OF renders_sorted[OF h]]] by simp
next
  case (5 X V srcs i options ns s)
  define s' where "s' = push_tabstop i (rs_chars s) (push_str (first_option options) s)"
  have h: "renders (transform_output X V srcs) V [Field i (Choice options)] s (s'\<lparr> rd_choices := bt_or_insert i options (rd_choices s') \<rparr>)"
    unfolding s'_def by (rule renders_choices, rule push_tabstop_renders[OF push_str_renders[OF 5(2)]]) simp
  show ?case using renders_append[OF h 5(1)[OF s'_def renders_sorted[OF h]]] by (simp add: Let_def s'_def)
next
  case (6 X V srcs name dflt ns s)
  define s' where "s' = (case resolved V name of Some v \<Rightarrow> push_str v s
        | None \<Rightarrow> (case dflt of None \<Rightarrow> s | Some ds \<Rightarrow> render_nodes X V srcs ds s))"
  have h: "renders (transform_output X V srcs) V [Var name dflt] s s'"
  proof (cases "resolved V name")
    case None
    then show ?thesis using 6(1)[OF None _ 6(3)] renders_refl[OF 6(3)] by (auto simp: s'_def intro: renders_var split: option.split)
  qed (simp add: s'_def renders_var(1)[OF push_str_renders[OF 6(3)]])
  show ?case using renders_append[OF h 6(2)[folded s'_def, OF renders_sorted[OF h]]] by (simp add: s'_def)
next
  case (7 X V srcs t ns s)
  note h = transform_renders[OF 7(2), of X V srcs t]
  show ?case using renders_append[OF h 7(1)[OF renders_sorted[OF h]]] by simp
qed

lemma out_fields_slices:
  "(i, k, a) \<in> set (out_fields F V off ns) \<Longrightarrow>
   off \<le> a \<and> a + length (out_text F V [Field i k]) \<le> off + length (out_text F V ns) \<and>
   take (length (out_text F V [Field i k])) (drop (a - off) (out_text F V ns)) = out_text F V [Field i k]"
proof (induction F V off ns arbitrary: i k a rule: out_fields.induct)
  case (4 F V off j children ns)
  then consider "(i, k, a) \<in> set (out_fields F V off children)" | "i = j" "k = Placeholder children" "a = off"
    | "(i, k, a) \<in> set (out_fields F V (off + length (out_text F V children)) ns)" by auto
  then show ?case
    by cases (use "4.IH"(1)[of i k a] "4.IH"(2)[of i k a] in \<open>auto simp: drop_append\<close>)
qed (fastforce simp: drop_append split: option.splits)+

lemma plain_text: "list_all no_transforms ns \<Longrightarrow> out_text F V ns = render_plain_nodes V ns"
  by (induction F V ns rule: out_text.induct) (auto split: option.split)


text \<open>
  A tabstop inside the default of a variable is rendered with its range, but it is not collected as a source, so a
  transform of it starts from the empty text.
\<close>

lemma default_tabstop_not_a_source:
  fixes V :: var_resolver
  assumes "V name = None"
  shows "let nodes = [Var name (Some [Field 1 (Placeholder [Text [97]])])] in
    map_of (rd_tabstops (render_with_resolver X V nodes)) 1 = Some [(0, 1)] \<and> rd_text (render_with_resolver X V nodes) = [97] \<and>
    map_of (collect_tabstop_sources V nodes []) 1 = None"
  using assms
  by (simp add: render_with_resolver_def resolved_def push_str_def push_tabstop_def bt_push_def Let_def)

section \<open>Properties\<close>

text \<open>
  C36. Rendering is exact. The text of a rendered template is the concatenation of what its nodes render to; the ranges
  of a tabstop are those of the fields with its number, in the order in which they end, under keys in ascending order; every
  range lies in the text and covers exactly the text of its field, nested fields included; and without
  transforms the text is that of the plain renderer, which supplies the sources of transforms.
\<close>

theorem render_exact:
  fixes X V
  defines "F nodes \<equiv> transform_output X V (collect_tabstop_sources V nodes [])"
  shows "let r = render_with_resolver X V nodes; fields = out_fields (F nodes) V 0 nodes in
    rd_text r = out_text (F nodes) V nodes \<and> sorted_wrt (<) (map fst (rd_tabstops r)) \<and>
    (\<forall>i. map_of (rd_tabstops r) i = (if ranges_of (F nodes) V i fields = [] then None else Some (ranges_of (F nodes) V i fields))) \<and>
    (\<forall>(i, k, a) \<in> set fields. snd (field_range (F nodes) V (i, k, a)) \<le> length (rd_text r) \<and>
       slice_of (rd_text r) (field_range (F nodes) V (i, k, a)) = out_text (F nodes) V [Field i k]) \<and>
    (list_all no_transforms nodes \<longrightarrow> rd_text r = render_plain_nodes V nodes)"
proof -
  let ?init = "\<lparr> rd_text = [], rd_tabstops = [], rd_choices = [], rd_transforms = [], rs_chars = 0 \<rparr>"
  let ?s = "render_nodes X V (collect_tabstop_sources V nodes []) nodes ?init"
  have r: "renders (F nodes) V nodes ?init ?s" unfolding F_def by (rule render_nodes_renders) simp
  have "map_of (rd_tabstops ?s) i =
      (if ranges_of (F nodes) V i (out_fields (F nodes) V 0 nodes) = [] then None
       else Some (ranges_of (F nodes) V i (out_fields (F nodes) V 0 nodes)))" for i
  proof -
    have "stops_at (rd_tabstops ?s) i = ranges_of (F nodes) V i (out_fields (F nodes) V 0 nodes)" "map_of (rd_tabstops ?s) i \<noteq> Some []"
      using r by (simp_all add: renders_def stops_at_def)
    then show ?thesis by (auto simp: stops_at_def split: option.splits)
  qed
  moreover have "snd (field_range (F nodes) V f) \<le> length (rd_text ?s) \<and>
      slice_of (rd_text ?s) (field_range (F nodes) V f) = out_text (F nodes) V [Field (fst f) (fst (snd f))]"
    if "f \<in> set (out_fields (F nodes) V 0 nodes)" for f
    using that r out_fields_slices[of "fst f" "fst (snd f)" "snd (snd f)" "F nodes" V 0 nodes]
    by (simp add: renders_def field_range_def slice_of_def case_prod_beta)
  ultimately show ?thesis using r plain_text[of nodes "F nodes" V]
    by (fastforce simp: render_with_resolver_def Let_def renders_def)
qed

theorem render_exact_witness:
  "let nodes = [Text [97], Field 1 (Placeholder [Text [98, 99], Field 2 Tabstop])]; r = render_with_resolver (\<lambda>_ _ _ _. None) (\<lambda>_. None) nodes in
   list_all no_transforms nodes \<and> rd_text r = [97, 98, 99] \<and> rd_text r = render_plain_nodes (\<lambda>_. None) nodes \<and>
   map_of (rd_tabstops r) 1 = Some [(1, 3)]"
proof -
  let ?nodes = "[Text [97], Field 1 (Placeholder [Text [98, 99], Field 2 Tabstop])]"
  have n: "list_all no_transforms ?nodes" by simp
  then have "rd_text (render_with_resolver (\<lambda>_ _ _ _. None) (\<lambda>_. None) ?nodes) = render_plain_nodes (\<lambda>_. None) ?nodes"
    using render_exact[of "\<lambda>_ _ _ _. None" "\<lambda>_. None" ?nodes] by (simp add: Let_def)
  then show ?thesis using n
    by (simp add: render_with_resolver_def push_str_def push_tabstop_def bt_push_def Let_def)
qed

end
