(* ===== verification/Snippet_Session.thy ===== *)
theory Snippet_Session
  imports Snippet_Render Transactions "HOL-Library.Product_Lexorder"
begin

text \<open>
  Active snippet sessions, \<open>crates/editor/src/snippet/session\<close> (\<open>mod.rs\<close>, \<open>helpers.rs\<close>, \<open>choice.rs\<close>): the tabstop ranges of an
  inserted snippet, which move with every edit of the buffer, the cycle through tabstops and choices, and the edits
  that replace all ranges of the active tabstop at once.

  The methods of \<open>Editor\<close> in these files read the focused buffer and hand transactions to \<open>apply_edit\<close>; the model has
  what they compute, as functions of the document, the selection and the session: whether a selection
  still belongs to the session, the transaction, the cursors and the session that follow. Installing them is the
  business of \<open>apply_edit\<close>, which is modelled in \<open>Editor_History\<close>. An exclusive range is a pair, ordered by start and then end.
\<close>

section \<open>Helpers\<close>

type_synonym span = "nat \<times> nat"

datatype active_mode = ReplaceMode | InsertMode

definition bt_keys :: "'v btree \<Rightarrow> nat list" where
  "bt_keys m = map fst m"

definition tabstop_order :: "span list btree \<Rightarrow> nat list" where
  "tabstop_order tabstops =
     filter (\<lambda>i. i > 0) (bt_keys tabstops) @ (if map_of tabstops 0 \<noteq> None then [0] else [])"

definition active_mode_for_tabstop :: "span list btree \<Rightarrow> nat \<Rightarrow> active_mode" where
  "active_mode_for_tabstop tabstops i =
     (case map_of tabstops i of
        Some ranges \<Rightarrow> if \<exists>r \<in> set ranges. fst r < snd r then ReplaceMode else InsertMode
      | None \<Rightarrow> InsertMode)"

fun span_step :: "(nat option \<times> nat option) \<Rightarrow> span \<Rightarrow> (nat option \<times> nat option)" where
  "span_step (lo, hi) r =
     (Some (case lo of None \<Rightarrow> fst r | Some c \<Rightarrow> min c (fst r)), Some (case hi of None \<Rightarrow> snd r | Some c \<Rightarrow> max c (snd r)))"

definition compute_span :: "span list btree \<Rightarrow> span option" where
  "compute_span tabstops =
     (case foldl (foldl span_step) (None, None) (map snd tabstops) of
        (Some lo, Some hi) \<Rightarrow> Some (lo, hi)
      | _ \<Rightarrow> None)"

text \<open>\<open>windows(2).any(..)\<close>.\<close>

fun any_pair :: "('a \<Rightarrow> 'a \<Rightarrow> bool) \<Rightarrow> 'a list \<Rightarrow> bool" where
  "any_pair P (x # y # xs) = (P x y \<or> any_pair P (y # xs))"
| "any_pair P xs = False"

definition has_overlapping_ranges :: "span list \<Rightarrow> bool" where
  "has_overlapping_ranges = any_pair (\<lambda>x y. snd x > fst y)"

definition has_overlapping_changes :: "change list \<Rightarrow> bool" where
  "has_overlapping_changes = any_pair (\<lambda>x y. ch_start y < ch_end x)"

definition primary_relative_range :: "span list \<Rightarrow> span option" where
  "primary_relative_range ranges = (case ranges of [] \<Rightarrow> None | r # rs \<Rightarrow> Some (fold min rs r))"

fun normalize_loop :: "span list \<Rightarrow> span list \<Rightarrow> span list" where
  "normalize_loop out [] = out"
| "normalize_loop out (r # rs) =
     (if out = [] then normalize_loop [r] rs
      else if fst r = fst (last out) \<and> snd r = snd (last out) then normalize_loop out rs
      else if fst r < snd (last out)
      then normalize_loop (butlast out @ [(fst (last out), max (snd (last out)) (snd r))]) rs
      else normalize_loop (out @ [r]) rs)"

definition normalize_spans :: "span list \<Rightarrow> span list" where
  "normalize_spans ranges = normalize_loop [] (sort ranges)"

definition to_selection_range :: "span \<Rightarrow> range option" where
  "to_selection_range r = (if fst r = snd r then Some (range_point (fst r)) else from_exclusive (fst r) (snd r))"

definition selection_from_points :: "nat list \<Rightarrow> selection option" where
  "selection_from_points points =
     (case remdups_adj (sort points) of [] \<Rightarrow> None | p # ps \<Rightarrow> Some (sel_new (range_point p) (map range_point ps)))"

section \<open>Sessions\<close>

record transform_binding =
  tb_source_idx :: nat
  tb_source_range :: span
  tb_target_range :: span
  tb_regex :: utext
  tb_replace :: utext
  tb_flags :: utext

record snippet_session =
  ss_buffer_id :: view_id
  ss_tabstops :: "span list btree"
  ss_choices :: "utext list btree"
  ss_choice_idx :: "nat btree"
  ss_transforms :: "transform_binding list"
  ss_dirty_sources :: "nat set"
  ss_in_transform_apply :: bool
  ss_order :: "nat list"
  ss_active_i :: nat
  ss_span :: span
  ss_active_mode :: active_mode


definition bt_retain :: "(nat \<Rightarrow> 'v \<Rightarrow> bool) \<Rightarrow> 'v btree \<Rightarrow> 'v btree" where
  "bt_retain P = filter (\<lambda>(k, v). P k v)"

definition bt_map_values :: "('v \<Rightarrow> 'w) \<Rightarrow> 'v btree \<Rightarrow> 'w btree" where
  "bt_map_values f = map (\<lambda>(k, v). (k, f v))"

definition from_components ::
  "view_id \<Rightarrow> span list btree \<Rightarrow> utext list btree \<Rightarrow> transform_binding list \<Rightarrow> snippet_session option" where
  "from_components buffer_id tabstops choices transforms =
     (let tabstops = bt_retain (\<lambda>_ ranges. ranges \<noteq> []) (bt_map_values normalize_spans tabstops);
          choices = bt_retain (\<lambda>i options. map_of tabstops i \<noteq> None \<and> options \<noteq> []) choices;
          transforms = filter (\<lambda>b. map_of tabstops (tb_source_idx b) \<noteq> None) transforms;
          order = tabstop_order tabstops
      in if order = [] then None
         else case compute_span tabstops of
           None \<Rightarrow> None
         | Some sp \<Rightarrow> Some
             \<lparr> ss_buffer_id = buffer_id, ss_tabstops = tabstops, ss_choices = choices,
               ss_choice_idx = map (\<lambda>i. (i, 0)) (bt_keys choices), ss_transforms = transforms, ss_dirty_sources = {},
               ss_in_transform_apply = False, ss_order = order, ss_active_i = 0, ss_span = sp,
               ss_active_mode = active_mode_for_tabstop tabstops (order ! 0) \<rparr>)"

definition shift_span :: "nat \<Rightarrow> span \<Rightarrow> span" where
  "shift_span base r = (base + fst r, base + snd r)"

text \<open>The bindings of the transforms of one rendered snippet that starts at \<open>base\<close>.\<close>

definition primary_sources :: "nat \<Rightarrow> rendered \<Rightarrow> nat \<Rightarrow> span option" where
  "primary_sources base r i =
     map_option (shift_span base) (Option.bind (map_of (rd_tabstops r) i) primary_relative_range)"

definition transform_bindings :: "nat \<Rightarrow> rendered \<Rightarrow> transform_binding list" where
  "transform_bindings base r =
     List.map_filter (\<lambda>t. case rt_source t of
         FromTabstop i \<Rightarrow>
           map_option (\<lambda>source. \<lparr> tb_source_idx = i, tb_source_range = source, tb_target_range = shift_span base (rt_range t),
             tb_regex = rt_regex t, tb_replace = rt_replace t, tb_flags = rt_flags t \<rparr>) (primary_sources base r i)
       | FromVar _ \<Rightarrow> None) (rd_transforms r)"

definition from_rendered :: "view_id \<Rightarrow> nat \<Rightarrow> rendered \<Rightarrow> snippet_session option" where
  "from_rendered buffer_id base r =
     from_components buffer_id (bt_map_values (map (shift_span base)) (rd_tabstops r)) (rd_choices r) (transform_bindings base r)"

definition active_tabstop :: "snippet_session \<Rightarrow> nat option" where
  "active_tabstop s = (if ss_active_i s < length (ss_order s) then Some (ss_order s ! ss_active_i s) else None)"

definition active_ranges :: "snippet_session \<Rightarrow> span list" where
  "active_ranges s =
     (case Option.bind (active_tabstop s) (map_of (ss_tabstops s)) of Some ranges \<Rightarrow> ranges | None \<Rightarrow> [])"



text \<open>A range after an edit: the start keeps to the left, the end to the right.\<close>

definition remap_span :: "changeset \<Rightarrow> span \<Rightarrow> span" where
  "remap_span cs r =
     (let start = map_pos cs (fst r) BLeft; stop = map_pos cs (snd r) BRight in (start, max stop start))"

definition remap_binding :: "changeset \<Rightarrow> transform_binding \<Rightarrow> transform_binding" where
  "remap_binding cs b =
     b\<lparr> tb_source_range := remap_span cs (tb_source_range b), tb_target_range := remap_span cs (tb_target_range b) \<rparr>"

text \<open>The result tells whether the session goes on; the session is changed in both cases.\<close>

definition remap_through :: "transaction \<Rightarrow> snippet_session \<Rightarrow> bool \<times> snippet_session" where
  "remap_through tx s =
     (let cs = tx_changes tx;
          tabstops = bt_retain (\<lambda>_ ranges. ranges \<noteq> [])
            (bt_map_values (\<lambda>ranges. normalize_spans (map (remap_span cs) ranges)) (ss_tabstops s));
          transforms = filter (\<lambda>b. map_of tabstops (tb_source_idx b) \<noteq> None) (map (remap_binding cs) (ss_transforms s));
          order = tabstop_order tabstops;
          s1 = s\<lparr> ss_tabstops := tabstops, ss_transforms := transforms, ss_order := order \<rparr>
      in if order = [] then (False, s1)
         else let s2 = (if ss_active_i s1 \<ge> length order then s1\<lparr> ss_active_i := length order - 1 \<rparr> else s1)
              in case compute_span tabstops of
                   Some sp \<Rightarrow> (True, s2\<lparr> ss_span := sp \<rparr>)
                 | None \<Rightarrow> (False, s2))"

section \<open>What the editor computes\<close>

text \<open>\<open>validate_snippet_session_for_view\<close> for a view with the given selection.\<close>

definition session_valid :: "view_id \<Rightarrow> selection option \<Rightarrow> snippet_session \<Rightarrow> bool" where
  "session_valid view sel s \<longleftrightarrow>
     ss_buffer_id s = view \<and> active_tabstop s \<noteq> None \<and>
     (let ranges = normalize_spans (active_ranges s) in
      ranges \<noteq> [] \<and>
      (case sel of
         None \<Rightarrow> False
       | Some sel \<Rightarrow>
           sel_len sel = length ranges \<and>
           list_all (\<lambda>r. fst (ss_span s) \<le> head r \<and> head r \<le> snd (ss_span s) \<and>
             list_ex (\<lambda>a. fst a \<le> head r \<and> head r \<le> snd a) ranges) (sel_ranges sel)))"

text \<open>
  \<open>on_snippet_session_transaction\<close>: the session after an edit of \<open>buffer_id\<close>, whose selection is now \<open>sel\<close> (\<open>None\<close> when the session is
  cancelled), and the source whose transforms are to be applied next.
\<close>

definition on_snippet_session_transaction ::
  "view_id \<Rightarrow> transaction \<Rightarrow> selection option \<Rightarrow> snippet_session \<Rightarrow> snippet_session option \<times> nat option" where
  "on_snippet_session_transaction buffer_id tx sel s =
     (if ss_buffer_id s \<noteq> buffer_id then (Some s, None)
      else case remap_through tx s of
        (False, _) \<Rightarrow> (None, None)
      | (True, s') \<Rightarrow>
          if \<not> session_valid buffer_id sel s' then (None, None)
          else if ss_in_transform_apply s' then (Some s', None)
          else (case active_tabstop s' of
                  None \<Rightarrow> (Some s', None)
                | Some i \<Rightarrow> (Some (s'\<lparr> ss_dirty_sources := insert i (ss_dirty_sources s') \<rparr>),
                    if ss_active_mode s' = InsertMode then Some i else None)))"

text \<open>\<open>apply_active_snippet_selection\<close>: the selection of the active tabstop.\<close>

definition active_selection :: "snippet_session \<Rightarrow> selection option" where
  "active_selection s =
     (let ranges = (case ss_active_mode s of
            ReplaceMode \<Rightarrow> normalize_spans (active_ranges s)
          | InsertMode \<Rightarrow> normalize_spans (map (\<lambda>r. (snd r, snd r)) (active_ranges s)))
      in case ranges of
           [] \<Rightarrow> None
         | _ \<Rightarrow> (case those (map to_selection_range ranges) of
                   Some (p # ps) \<Rightarrow> Some (sel_new p ps)
                 | _ \<Rightarrow> None))"

text \<open>
  \<open>snippet_replace_mode_insert\<close> and \<open>snippet_apply_choice_value\<close>: the transaction that replaces every active range, and
  the cursors after it. \<open>None\<close> is the panic of \<open>Transaction::change\<close>.
\<close>

definition replace_changes :: "utext \<Rightarrow> span list \<Rightarrow> change list" where
  "replace_changes txt ranges =
     sort_key (\<lambda>c. (ch_start c, ch_end c)) (map (\<lambda>r. \<lparr> ch_start = fst r, ch_end = snd r, replacement = Some txt \<rparr>) ranges)"

definition replace_active :: "'r rope_ops \<Rightarrow> 'r \<Rightarrow> utext \<Rightarrow> span list \<Rightarrow> (transaction \<times> selection option) option" where
  "replace_active R doc txt ranges =
     (case tx_change R doc (replace_changes txt ranges) of
        None \<Rightarrow> None
      | Some tx \<Rightarrow> Some (tx, selection_from_points (map (\<lambda>r. map_pos (tx_changes tx) (fst r) BLeft + length txt) ranges)))"

text \<open>\<open>snippet_replace_mode_backspace\<close>.\<close>

definition delete_active :: "'r rope_ops \<Rightarrow> 'r \<Rightarrow> span list \<Rightarrow> (transaction \<times> selection option) option" where
  "delete_active R doc ranges =
     (case tx_change R doc (sort_key (\<lambda>c. (ch_start c, ch_end c))
             (map (\<lambda>r. \<lparr> ch_start = fst r, ch_end = snd r, replacement = None \<rparr>) (filter (\<lambda>r. fst r < snd r) ranges))) of
        None \<Rightarrow> None
      | Some tx \<Rightarrow> Some (tx, selection_from_points (map (\<lambda>r. map_pos (tx_changes tx) (fst r) BLeft) ranges)))"

text \<open>
  \<open>apply_transforms_for_source\<close>: the changes of the bindings of one source, refused when they overlap. The inner \<open>None\<close>
  is that refusal, the outer one a panic.
\<close>

definition binding_change :: "'r rope_ops \<Rightarrow> regex_engine \<Rightarrow> 'r \<Rightarrow> transform_binding \<Rightarrow> change option" where
  "binding_change R X doc b =
     (let doc_len = rp_len_chars R doc;
          start = min (fst (tb_source_range b)) doc_len;
          stop = max (min (snd (tb_source_range b)) doc_len) start
      in map_option (\<lambda>source. \<lparr> ch_start = fst (tb_target_range b), ch_end = snd (tb_target_range b),
           replacement = Some (apply_transform X source (tb_regex b) (tb_replace b) (tb_flags b)) \<rparr>) (rp_slice R doc start stop))"

definition transform_transaction ::
  "'r rope_ops \<Rightarrow> regex_engine \<Rightarrow> 'r \<Rightarrow> nat \<Rightarrow> snippet_session \<Rightarrow> transaction option option" where
  "transform_transaction R X doc source_idx s =
     (let bindings = filter (\<lambda>b. tb_source_idx b = source_idx) (ss_transforms s) in
      if ss_in_transform_apply s \<or> bindings = [] then Some None
      else case those (map (binding_change R X doc) bindings) of
        None \<Rightarrow> None
      | Some chs \<Rightarrow>
          (let chs = sort_key (\<lambda>c. (ch_start c, ch_end c)) chs in
           if has_overlapping_changes chs then Some None else map_option Some (tx_change R doc chs)))"

text \<open>\<open>snippet_cycle_choice\<close>: the next option and its index, \<open>rem_euclid\<close> of the moved index.\<close>

definition cycle_choice :: "int \<Rightarrow> snippet_session \<Rightarrow> (utext \<times> snippet_session) option" where
  "cycle_choice direction s =
     (case active_tabstop s of
        None \<Rightarrow> None
      | Some i \<Rightarrow>
          (case map_of (ss_choices s) i of
             None \<Rightarrow> None
           | Some options \<Rightarrow>
               if options = [] then None
               else let current = (case map_of (ss_choice_idx s) i of Some c \<Rightarrow> c | None \<Rightarrow> 0);
                        nxt = nat ((int current + direction) mod int (length options))
                    in Some (options ! nxt, s\<lparr> ss_choice_idx := bt_modify i (\<lambda>_. nxt) (ss_choice_idx s) \<rparr>)))"


text \<open>\<open>insert_snippet_body\<close>: what each selection range replaces, in order.\<close>

definition snippet_input :: "'r rope_ops \<Rightarrow> 'r \<Rightarrow> range \<Rightarrow> (span \<times> utext) option" where
  "snippet_input R doc r =
     (if is_point r then Some ((head r, head r), [])
      else let ext = extent_clamped r (rp_len_chars R doc) in map_option (\<lambda>t. (ext, t)) (rp_slice R doc (fst ext) (snd ext)))"

definition snippet_inputs :: "'r rope_ops \<Rightarrow> 'r \<Rightarrow> selection \<Rightarrow> (span \<times> utext) list option" where
  "snippet_inputs R doc sel = map_option (sort_key fst) (those (map (snippet_input R doc) (sel_ranges sel)))"

text \<open>The loop that collects the tabstops, choices and transforms of all insertions.\<close>

definition push_all :: "nat \<Rightarrow> 'a list \<Rightarrow> 'a list btree \<Rightarrow> 'a list btree" where
  "push_all i xs = bt_modify i (\<lambda>old. case old of None \<Rightarrow> xs | Some ys \<Rightarrow> ys @ xs)"

definition collect_rendered ::
  "(nat \<times> rendered) list \<Rightarrow> span list btree \<times> utext list btree \<times> transform_binding list" where
  "collect_rendered parts =
     foldl (\<lambda>(tabstops, choices, transforms) (base, r).
        (foldl (\<lambda>m (i, ranges). push_all i (map (shift_span base) ranges) m) tabstops (rd_tabstops r),
         foldl (\<lambda>m (i, options). bt_or_insert i options m) choices (rd_choices r),
         transforms @ transform_bindings base r)) ([], [], []) parts"

text \<open>
  The outer \<open>None\<close> is a panic, the inner one a refused insertion. Otherwise the result is the transaction, the session, if there
  are tabstops, and the selection to install.
\<close>

definition insert_snippet ::
  "'r rope_ops \<Rightarrow> regex_engine \<Rightarrow> (utext \<Rightarrow> var_resolver) \<Rightarrow> 'r \<Rightarrow> view_id \<Rightarrow> selection \<Rightarrow> snippet_node list \<Rightarrow>
   (transaction \<times> snippet_session option \<times> selection option) option option" where
  "insert_snippet R X V doc view sel nodes =
     (case snippet_inputs R doc sel of
        None \<Rightarrow> None
      | Some inputs \<Rightarrow>
          if has_overlapping_ranges (map fst inputs) then Some None
          else
            let outputs = map (\<lambda>(_, sel_text). render_with_resolver X (V sel_text) nodes) inputs in
            case tx_change R doc (map (\<lambda>((r, _), out). \<lparr> ch_start = fst r, ch_end = snd r, replacement = Some (rd_text out) \<rparr>) (zip inputs outputs)) of
              None \<Rightarrow> None
            | Some tx \<Rightarrow>
                let starts = map (\<lambda>(r, _). map_pos (tx_changes tx) (fst r) BLeft) inputs;
                    (tabstops, choices, transforms) = collect_rendered (zip starts outputs);
                    session = (if list_ex (\<lambda>out. rd_tabstops out \<noteq> []) outputs
                               then from_components view tabstops choices transforms else None)
                in Some (Some (tx, session,
                     case session of
                       Some s \<Rightarrow> active_selection s
                     | None \<Rightarrow> selection_from_points (map (\<lambda>(start, out). start + length (rd_text out)) (zip starts outputs)))))"

section \<open>Specification predicates\<close>

text \<open>Ranges inside a document, in order and without overlaps.\<close>

definition span_in :: "nat \<Rightarrow> span \<Rightarrow> bool" where
  "span_in len r \<longleftrightarrow> fst r \<le> snd r \<and> snd r \<le> len"

definition spans_ok :: "nat \<Rightarrow> span list \<Rightarrow> bool" where
  "spans_ok len rs \<longleftrightarrow> list_all (span_in len) rs \<and> sorted_wrt (\<lambda>x y. snd x \<le> fst y) rs"

definition positions :: "span list \<Rightarrow> nat set" where
  "positions rs = (\<Union>r \<in> set rs. {fst r..<snd r})"

definition tabstops_ok :: "nat \<Rightarrow> span list btree \<Rightarrow> bool" where
  "tabstops_ok len m \<longleftrightarrow> sorted_wrt (<) (map fst m) \<and> (\<forall>(i, rs) \<in> set m. rs \<noteq> [] \<and> spans_ok len rs)"

definition session_ok :: "nat \<Rightarrow> snippet_session \<Rightarrow> bool" where
  "session_ok len s \<longleftrightarrow>
     tabstops_ok len (ss_tabstops s) \<and> ss_tabstops s \<noteq> [] \<and> ss_order s = tabstop_order (ss_tabstops s) \<and>
     ss_active_i s < length (ss_order s) \<and>
     (\<forall>(i, rs) \<in> set (ss_tabstops s). \<forall>r \<in> set rs. fst (ss_span s) \<le> fst r \<and> snd r \<le> snd (ss_span s)) \<and>
     snd (ss_span s) \<le> len \<and>
     (\<forall>b \<in> set (ss_transforms s). map_of (ss_tabstops s) (tb_source_idx b) \<noteq> None)"

text \<open>Ranges with a gap between any two of them, and the operations of the edit that replaces them.\<close>

fun separated :: "nat \<Rightarrow> span list \<Rightarrow> bool" where
  "separated len [] \<longleftrightarrow> True"
| "separated len (r # rs) \<longleftrightarrow> span_in len r \<and> (rs \<noteq> [] \<longrightarrow> snd r < fst (hd rs)) \<and> separated len rs"

definition replacing :: "utext \<Rightarrow> span \<Rightarrow> change" where
  "replacing txt r = \<lparr> ch_start = fst r, ch_end = snd r, replacement = Some txt \<rparr>"

fun replace_ops :: "utext \<Rightarrow> nat \<Rightarrow> nat \<Rightarrow> span list \<Rightarrow> operation list" where
  "replace_ops txt len lst [] = (if lst < len then [Retain (len - lst)] else [])"
| "replace_ops txt len lst (r # rs) =
     (if lst < fst r then [Retain (fst r - lst)] else []) @ Insert (insertion_new txt) #
     (if fst r < snd r then [Delete (snd r - fst r)] else []) @ replace_ops txt len (snd r) rs"




definition no_retain_last :: "operation list \<Rightarrow> bool" where
  "no_retain_last ops \<longleftrightarrow> (\<forall>n. ops \<noteq> [] \<longrightarrow> last ops \<noteq> Retain n)"

definition remap_from :: "operation list \<Rightarrow> nat \<Rightarrow> span \<Rightarrow> span" where
  "remap_from ops lst r = (map_ops ops (fst r - lst) BLeft, map_ops ops (snd r - lst) BRight)"

text \<open>
  Two mirrors that touch, as in \<open>${1:a}${1:a}\<close>: the builder merges their changes into one insertion. After typing one character
  over them the first range covers both copies, the second is empty, and the second cursor lies beyond the text.
\<close>

definition touching_session :: snippet_session where
  "touching_session =
     \<lparr> ss_buffer_id = 0, ss_tabstops = [(1, [(0, 1), (1, 2)])], ss_choices = [], ss_choice_idx = [], ss_transforms = [],
       ss_dirty_sources = {}, ss_in_transform_apply = False, ss_order = [1], ss_active_i = 0, ss_span = (0, 2),
       ss_active_mode = ReplaceMode \<rparr>"

section \<open>Lemmas\<close>

subsection \<open>Ranges\<close>

lemma spans_ok_snoc:
  "spans_ok len (out @ [r]) \<longleftrightarrow> spans_ok len out \<and> span_in len r \<and> (\<forall>x \<in> set out. snd x \<le> fst r)"
  by (auto simp: spans_ok_def sorted_wrt_append)

lemma positions_simps [simp]:
  "positions [] = {}" "positions (r # rs) = {fst r..<snd r} \<union> positions rs" "positions (rs @ qs) = positions rs \<union> positions qs"
  by (auto simp: positions_def)

lemma normalize_loop_ok:
  assumes "spans_ok len out" "list_all (span_in len) rs" "sorted rs" "\<forall>x \<in> set out. \<forall>r \<in> set rs. fst x \<le> fst r"
  shows "spans_ok len (normalize_loop out rs) \<and> positions (normalize_loop out rs) = positions (out @ rs) \<and>
    (normalize_loop out rs = [] \<longleftrightarrow> out = [] \<and> rs = [])"
  using assms
proof (induction out rs rule: normalize_loop.induct)
  case (2 out r rs)
  have "\<forall>q \<in> set rs. r \<le> q" and srt: "sorted rs" using "2.prems"(3) by simp_all
  then have srt: "\<forall>q \<in> set rs. fst r \<le> fst q" "sorted rs" by (auto simp: less_eq_prod_def)
  have r: "span_in len r" "list_all (span_in len) rs" using "2.prems"(2) by simp_all
  show ?case
  proof (cases "out = []")
    case True
    then show ?thesis using "2.IH"(1) r srt by (simp add: spans_ok_def)
  next
    case False
    define b l where "b = butlast out" and "l = last out"
    have out: "out = b @ [l]" using False by (simp add: b_def l_def)
    have ok: "spans_ok len b" "span_in len l" "\<forall>x \<in> set b. snd x \<le> fst l" using "2.prems"(1) by (simp_all add: out spans_ok_snoc)
    have le: "fst l \<le> fst r" "\<forall>x \<in> set b. fst x \<le> fst r" using "2.prems"(4) by (auto simp: out)
    consider "r = l" | "r \<noteq> l" "fst r < snd l" | "r \<noteq> l" "snd l \<le> fst r" by force
    then show ?thesis
    proof cases
      case 1
      then show ?thesis using "2.IH"(2) "2.prems" r srt False by (auto simp: out)
    next
      case 2
      let ?m = "(fst l, max (snd l) (snd r))"
      have ok': "spans_ok len (b @ [?m])" using ok r(1) by (auto simp: spans_ok_snoc span_in_def)
      have pos: "{fst l..<max (snd l) (snd r)} = {fst l..<snd l} \<union> {fst r..<snd r}" using 2 le r(1) ok(2) by (auto simp: span_in_def)
      have "\<forall>x \<in> set (b @ [?m]). \<forall>q \<in> set rs. fst x \<le> fst q" using le srt by (auto intro: order_trans)
      with "2.IH"(3)[OF False] 2 ok' r srt show ?thesis
        by (auto simp: out pos prod_eq_iff)
    next
      case 3
      have "snd x \<le> fst r" if "x \<in> set out" for x using that ok(3) le(1) 3 by (auto simp: out intro: order_trans)
      then have ok': "spans_ok len (out @ [r])" using "2.prems"(1) r(1) by (subst spans_ok_snoc) simp
      have "\<forall>x \<in> set (out @ [r]). \<forall>q \<in> set rs. fst x \<le> fst q" using le srt by (auto simp: out intro: order_trans)
      with "2.IH"(4)[OF False] 3 ok' r srt show ?thesis by (auto simp: out prod_eq_iff)
    qed
  qed
qed simp

lemma positions_cong: "set rs = set qs \<Longrightarrow> positions rs = positions qs"
  by (simp add: positions_def)

lemma normalize_spans_ok:
  assumes "list_all (span_in len) rs"
  shows "spans_ok len (normalize_spans rs)" "positions (normalize_spans rs) = positions rs" "normalize_spans rs = [] \<longleftrightarrow> rs = []"
proof -
  have "list_all (span_in len) (sort rs)" using assms by (simp add: list_all_iff)
  then have "spans_ok len (normalize_loop [] (sort rs)) \<and> positions (normalize_loop [] (sort rs)) = positions ([] @ sort rs) \<and>
      (normalize_loop [] (sort rs) = [] \<longleftrightarrow> ([] :: span list) = [] \<and> sort rs = [])"
    by (intro normalize_loop_ok) (simp_all add: spans_ok_def)
  then show "spans_ok len (normalize_spans rs)" "positions (normalize_spans rs) = positions rs" "normalize_spans rs = [] \<longleftrightarrow> rs = []"
    by (simp_all add: normalize_spans_def positions_cong[of "sort rs" rs]) (metis set_empty set_sort)
qed


lemma remap_span_in:
  assumes "cs_wf cs" "span_in (cs_len cs) r" shows "span_in (cs_len_after cs) (remap_span cs r)"
proof -
  have "map_pos cs (fst r) BLeft \<le> cs_len_after cs" "map_pos cs (snd r) BRight \<le> cs_len_after cs"
    using assms map_ops_bound[of "changes cs"] by (auto simp: span_in_def cs_wf_def map_pos_def)
  then show ?thesis by (simp add: span_in_def remap_span_def Let_def)
qed

subsection \<open>Ordered maps\<close>

lemma sorted_keys_distinct: "sorted_wrt (<) (map fst m) \<Longrightarrow> distinct (map fst (m :: 'v btree))"
  by (simp add: strict_sorted_iff)


lemma retain_map_sorted:
  "sorted_wrt (<) (map fst m) \<Longrightarrow> sorted_wrt (<) (map fst (bt_retain P (bt_map_values f (m :: 'v btree))))"
  by (induction m) (auto simp: bt_retain_def bt_map_values_def)

lemma retain_map_set: "(i, v) \<in> set (bt_retain P (bt_map_values f m)) \<longleftrightarrow> (\<exists>u. (i, u) \<in> set m \<and> v = f u \<and> P i v)"
  by (auto simp: bt_retain_def bt_map_values_def)

lemma tabstop_order_set: "set (tabstop_order m) = fst ` set m"
proof (rule set_eqI)
  fix i show "i \<in> set (tabstop_order m) \<longleftrightarrow> i \<in> fst ` set m"
    by (cases "i = 0"; cases "map_of m 0") (simp_all add: tabstop_order_def bt_keys_def map_of_eq_None_iff weak_map_of_SomeI image_iff, force dest: map_of_SomeD)
qed

lemma tabstop_order_empty: "tabstop_order m = [] \<longleftrightarrow> m = []"
  using tabstop_order_set[of m] by (metis image_is_empty set_empty)

lemma tabstop_order_distinct: "sorted_wrt (<) (map fst m) \<Longrightarrow> distinct (tabstop_order m)"
  using sorted_keys_distinct[of m] by (auto simp: tabstop_order_def bt_keys_def)

lemma span_step_fold:
  "foldl span_step (Some lo, Some hi) rs = (Some (fold min (map fst rs) lo), Some (fold max (map snd rs) hi))"
  by (induction rs arbitrary: lo hi) (simp_all add: min.commute max.commute)

lemma fold_min_le: "x \<in> insert a (set xs) \<Longrightarrow> fold min xs (a :: nat) \<le> x"
proof (induction xs arbitrary: a x)
  case (Cons y ys)
  have "fold min ys (min y a) \<le> min y a" by (rule Cons.IH) simp
  with Cons show ?case by auto
qed simp

lemma fold_max_ge: "x \<in> insert a (set xs) \<Longrightarrow> x \<le> fold max xs (a :: nat)"
proof (induction xs arbitrary: a x)
  case (Cons y ys)
  have "max y a \<le> fold max ys (max y a)" by (rule Cons.IH) simp
  with Cons show ?case by auto
qed simp

lemma fold_max_le: "a \<le> b \<Longrightarrow> \<forall>x \<in> set xs. x \<le> b \<Longrightarrow> fold max xs (a :: nat) \<le> b"
  by (induction xs arbitrary: a) auto

lemma compute_span_concat:
  "compute_span m = (case concat (map snd m) of [] \<Rightarrow> None
     | r # rs \<Rightarrow> Some (fold min (map fst rs) (fst r), fold max (map snd rs) (snd r)))"
proof -
  have flat: "foldl (foldl span_step) acc xss = foldl span_step acc (concat xss)" for acc xss
    by (induction xss arbitrary: acc) (simp_all add: foldl_append)
  show ?thesis unfolding compute_span_def flat by (cases "concat (map snd m)") (simp_all add: span_step_fold del: concat_eq_Nil_conv)
qed

lemma compute_span_ok:
  assumes "tabstops_ok len m" "m \<noteq> []"
  shows "\<exists>lo hi. compute_span m = Some (lo, hi) \<and> hi \<le> len \<and>
    (\<forall>(i, rs) \<in> set m. \<forall>r \<in> set rs. lo \<le> fst r \<and> snd r \<le> hi)"
proof -
  obtain q qs where q: "concat (map snd m) = q # qs"
    using assms by (cases m; cases "concat (map snd m)") (auto simp: tabstops_ok_def)
  have mem: "r \<in> set (q # qs)" if "(i, rs) \<in> set m" "r \<in> set rs" for i rs r using that unfolding q[symmetric] by force
  have "snd r \<le> len" if r: "r \<in> set (q # qs)" for r
  proof -
    obtain i rs where "(i, rs) \<in> set m" "r \<in> set rs" using r unfolding q[symmetric] by auto
    then have "span_in len r" using assms(1) by (auto simp: tabstops_ok_def spans_ok_def list_all_iff)
    then show ?thesis by (simp add: span_in_def)
  qed
  then have le: "fold max (map snd qs) (snd q) \<le> len" by (intro fold_max_le) auto
  have "fold min (map fst qs) (fst q) \<le> fst r \<and> snd r \<le> fold max (map snd qs) (snd q)" if "r \<in> set (q # qs)" for r
    using that by (intro conjI fold_min_le fold_max_ge) auto
  then have "\<forall>(i, rs) \<in> set m. \<forall>r \<in> set rs. fold min (map fst qs) (fst q) \<le> fst r \<and> snd r \<le> fold max (map snd qs) (snd q)"
    using mem by blast
  then show ?thesis using le unfolding compute_span_concat q by simp
qed

subsection \<open>Sessions\<close>

lemma from_components_ok:
  assumes "sorted_wrt (<) (map fst tabstops)" "\<forall>(i, rs) \<in> set tabstops. list_all (span_in len) rs"
    and "from_components v tabstops choices transforms = Some s"
  shows "session_ok len s \<and> ss_active_i s = 0"
proof -
  define m where "m = bt_retain (\<lambda>_ ranges. ranges \<noteq> []) (bt_map_values normalize_spans tabstops)"
  have ok: "tabstops_ok len m"
    using assms(1,2) retain_map_sorted normalize_spans_ok(1) by (fastforce simp: tabstops_ok_def m_def retain_map_set)
  note s = assms(3)[unfolded from_components_def, folded m_def, unfolded Let_def]
  have ne: "m \<noteq> []" using s by (auto simp: tabstop_order_empty split: if_splits)
  obtain lo hi where sp: "compute_span m = Some (lo, hi)" "hi \<le> len" "\<forall>(i, rs) \<in> set m. \<forall>r \<in> set rs. lo \<le> fst r \<and> snd r \<le> hi"
    using compute_span_ok[OF ok ne] by blast
  have "tabstop_order m \<noteq> []" using ne tabstop_order_empty by blast
  then have len: "0 < length (tabstop_order m)" by simp
  have "ss_tabstops s = m \<and> ss_order s = tabstop_order m \<and> ss_active_i s = 0 \<and> ss_span s = (lo, hi) \<and>
      (\<forall>b \<in> set (ss_transforms s). map_of m (tb_source_idx b) \<noteq> None)"
    using s len unfolding sp(1) by auto
  then show ?thesis using ok ne len sp(2,3) unfolding session_ok_def by (simp only: fst_conv snd_conv) simp
qed



lemma remap_through_ok:
  assumes "session_ok (cs_len (tx_changes tx)) s" "tx_wf tx"
  shows "fst (remap_through tx s) \<and> session_ok (cs_len_after (tx_changes tx)) (snd (remap_through tx s)) \<and>
    ss_order (snd (remap_through tx s)) = ss_order s \<and> ss_active_i (snd (remap_through tx s)) = ss_active_i s"
proof -
  let ?cs = "tx_changes tx" and ?len = "cs_len_after (tx_changes tx)"
  let ?f = "\<lambda>ranges. normalize_spans (map (remap_span ?cs) ranges)"
  define m where "m = bt_retain (\<lambda>_ ranges. ranges \<noteq> []) (bt_map_values ?f (ss_tabstops s))"
  have wf: "cs_wf ?cs" using assms(2) by (simp add: tx_wf_def)
  have in_len: "list_all (span_in ?len) (map (remap_span ?cs) rs)" "rs \<noteq> []" if "(i, rs) \<in> set (ss_tabstops s)" for i rs
    using that assms(1) remap_span_in[OF wf]
    by (fastforce simp: session_ok_def tabstops_ok_def spans_ok_def list_all_iff)+
  have keep: "m = bt_map_values ?f (ss_tabstops s)"
    unfolding m_def bt_retain_def using normalize_spans_ok(3)[OF in_len(1)] in_len(2)
    by (subst filter_True) (auto simp: bt_map_values_def)
  have ok: "tabstops_ok ?len m"
    using assms(1) retain_map_sorted[of "ss_tabstops s"] normalize_spans_ok(1)[OF in_len(1)]
    by (auto simp: tabstops_ok_def m_def retain_map_set session_ok_def)
  have keys: "map fst m = map fst (ss_tabstops s)" by (simp add: keep bt_map_values_def case_prod_beta comp_def)
  then have ord: "tabstop_order m = ss_order s"
    using assms(1) by (simp add: session_ok_def tabstop_order_def bt_keys_def map_of_eq_None_iff) (metis list.set_map)
  have ne: "m \<noteq> []" using keys assms(1) by (auto simp: session_ok_def)
  obtain lo hi where sp: "compute_span m = Some (lo, hi)" "hi \<le> ?len" "\<forall>(i, rs) \<in> set m. \<forall>r \<in> set rs. lo \<le> fst r \<and> snd r \<le> hi"
    using compute_span_ok[OF ok ne] by blast
  have order: "ss_order s \<noteq> []" "ss_active_i s < length (ss_order s)" using assms(1) by (auto simp: session_ok_def)
  show ?thesis using ok ne sp order
    by (simp add: remap_through_def Let_def m_def[symmetric] ord session_ok_def)
qed

subsection \<open>Replacing mirrored ranges\<close>

lemma retain_after: "no_retain_last (changes cs) \<Longrightarrow> 0 < n \<Longrightarrow> changes (cs_retain cs n) = changes cs @ [Retain n]"
  by (cases "changes cs" rule: rev_cases) (auto simp: no_retain_last_def cs_retain_def split: operation.splits)

lemma replace_step:
  assumes "changes cs = [] \<or> (\<exists>n ops. changes cs = ops @ [Retain n])" "txt \<noteq> []"
  shows "changes (cs_insert (if a < b then cs_delete cs (b - a) else cs) txt) =
    changes cs @ Insert (insertion_new txt) # (if a < b then [Delete (b - a)] else [])"
  using assms by (auto simp: cs_delete_def cs_insert_def Let_def)

lemma change_loop_separated:
  assumes "separated len rs" "txt \<noteq> []" "no_retain_last (changes cs)"
    "rs \<noteq> [] \<Longrightarrow> (if changes cs = [] then lst \<le> fst (hd rs) else lst < fst (hd rs))" "lst \<le> len"
  shows "\<exists>cs' lst'. change_loop len cs lst (map (replacing txt) rs) = Some (cs', lst') \<and> lst' \<le> len \<and>
    changes (if len - lst' > 0 then cs_retain cs' (len - lst') else cs') = changes cs @ replace_ops txt len lst rs"
  using assms
proof (induction rs arbitrary: cs lst)
  case Nil
  then show ?case by (auto simp: retain_after)
next
  case (Cons r rs)
  let ?a = "if lst < fst r then cs_retain cs (fst r - lst) else cs"
  let ?b = "cs_insert (if fst r < snd r then cs_delete ?a (snd r - fst r) else ?a) txt"
  have r: "fst r \<le> snd r" "snd r \<le> len" "lst \<le> fst r"
    using Cons.prems(1,4) by (auto simp: span_in_def split: if_splits)
  have a: "changes ?a = changes cs @ (if lst < fst r then [Retain (fst r - lst)] else [])"
    using Cons.prems(3) by (simp add: retain_after)
  have "changes ?a = [] \<or> (\<exists>n ops. changes ?a = ops @ [Retain n])"
    using Cons.prems(4) a by (auto split: if_splits)
  then have b: "changes ?b = changes ?a @ Insert (insertion_new txt) # (if fst r < snd r then [Delete (snd r - fst r)] else [])"
    using Cons.prems(2) by (intro replace_step)
  have step: "change_loop len cs lst (map (replacing txt) (r # rs)) = change_loop len ?b (snd r) (map (replacing txt) rs)"
    using r by (simp add: replacing_def Let_def)
  have "\<exists>cs' lst'. change_loop len ?b (snd r) (map (replacing txt) rs) = Some (cs', lst') \<and> lst' \<le> len \<and>
      changes (if len - lst' > 0 then cs_retain cs' (len - lst') else cs') = changes ?b @ replace_ops txt len (snd r) rs"
  proof (rule Cons.IH)
    show "no_retain_last (changes ?b)" unfolding b by (simp add: no_retain_last_def)
    show "if changes ?b = [] then snd r \<le> fst (hd rs) else snd r < fst (hd rs)" if "rs \<noteq> []"
      using Cons.prems(1) that by simp
  qed (use Cons.prems r in simp_all)
  then show ?case unfolding step unfolding b a by simp
qed

lemma replace_ops_start: "rs = [] \<or> lst < fst (hd rs) \<Longrightarrow> map_ops (replace_ops txt len lst rs) 0 BRight = 0"
  by (cases rs) auto

text \<open>The image of the head of the list, and of the ranges behind it.\<close>

lemma map_replace_head:
  assumes "separated len (r # rs)" "lst \<le> fst r"
  shows "map_ops (replace_ops txt len lst (r # rs)) (fst r - lst) BLeft = fst r - lst"
    and "map_ops (replace_ops txt len lst (r # rs)) (snd r - lst) BRight = fst r - lst + length txt"
proof -
  have r: "fst r \<le> snd r" "rs = [] \<or> snd r < fst (hd rs)" using assms(1) by (auto simp: span_in_def)
  have tail: "map_ops (replace_ops txt len (snd r) rs) 0 BRight = 0" by (rule replace_ops_start[OF r(2)])
  show "map_ops (replace_ops txt len lst (r # rs)) (fst r - lst) BLeft = fst r - lst" using assms(2) by auto
  show "map_ops (replace_ops txt len lst (r # rs)) (snd r - lst) BRight = fst r - lst + length txt"
    using assms(2) r(1) tail by (auto simp: insertion_new_def)
qed

lemma map_replace_tail:
  assumes "fst r \<le> snd r" "lst \<le> fst r" "snd r < p"
  shows "map_ops (replace_ops txt len lst (r # rs)) (p - lst) b =
    fst r - lst + length txt + map_ops (replace_ops txt len (snd r) rs) (p - snd r) b"
  using assms by (auto simp: insertion_new_def)

lemma edit_replace_head:
  assumes "fst r \<le> snd r" "lst \<le> fst r"
  shows "edit_text (replace_ops txt len lst (r # rs)) (drop lst t) =
    take (fst r - lst) (drop lst t) @ txt @ edit_text (replace_ops txt len (snd r) rs) (drop (snd r) t)"
  using assms by (auto simp: insertion_new_def)

lemma separated_tail: "separated len (r # rs) \<Longrightarrow> q \<in> set rs \<Longrightarrow> snd r < fst q \<and> fst q \<le> snd q"
proof (induction rs arbitrary: r)
  case (Cons q' rs)
  have "snd r < fst q'" "fst q' \<le> snd q'" using Cons.prems(1) by (auto simp: span_in_def)
  then show ?case using Cons.IH[of q'] Cons.prems by fastforce
qed simp

lemma replaced_ranges:
  assumes "separated len rs" "length t = len" "rs \<noteq> [] \<Longrightarrow> lst \<le> fst (hd rs)" "ops = replace_ops txt len lst rs"
  shows "list_all (\<lambda>r. snd r = fst r + length txt \<and> take (length txt) (drop (fst r) (edit_text ops (drop lst t))) = txt)
      (map (remap_from ops lst) rs) \<and>
    sorted_wrt (\<lambda>x y. snd x \<le> fst y) (map (remap_from ops lst) rs)"
  using assms
proof (induction rs arbitrary: lst ops)
  case (Cons r rs)
  let ?tl = "replace_ops txt len (snd r) rs" and ?k = "fst r - lst + length txt"
  have r: "fst r \<le> snd r" "snd r \<le> len" "lst \<le> fst r" using Cons.prems(1,3) by (auto simp: span_in_def)
  have sh: "remap_from ops lst q = (?k + fst (remap_from ?tl (snd r) q), ?k + snd (remap_from ?tl (snd r) q))" if "q \<in> set rs" for q
    using separated_tail[OF Cons.prems(1) that] map_replace_tail[OF r(1,3)] unfolding Cons.prems(4) remap_from_def by simp
  have hd': "remap_from ops lst r = (fst r - lst, ?k)"
    unfolding Cons.prems(4) remap_from_def using map_replace_head[OF Cons.prems(1) r(3)] by simp
  have tx: "edit_text ops (drop lst t) = take (fst r - lst) (drop lst t) @ txt @ edit_text ?tl (drop (snd r) t)"
    unfolding Cons.prems(4) by (rule edit_replace_head[OF r(1,3)])
  have gap: "length (take (fst r - lst) (drop lst t)) = fst r - lst" using r Cons.prems(2) by simp
  have dr: "drop (?k + n) (edit_text ops (drop lst t)) = drop n (edit_text ?tl (drop (snd r) t))" for n
    unfolding tx using gap by (simp add: add.assoc)
  have "list_all (\<lambda>q. snd q = fst q + length txt \<and> take (length txt) (drop (fst q) (edit_text ?tl (drop (snd r) t))) = txt)
      (map (remap_from ?tl (snd r)) rs) \<and> sorted_wrt (\<lambda>x y. snd x \<le> fst y) (map (remap_from ?tl (snd r)) rs)"
    using Cons.prems(1,2) by (intro Cons.IH) auto
  moreover have "take (length txt) (drop (fst r - lst) (edit_text ops (drop lst t))) = txt" unfolding tx using gap by simp
  ultimately show ?case
    by (simp add: hd' sh dr list_all_iff) (auto simp: sh sorted_wrt_iff_nth_less)
qed simp

lemma separated_spans: "separated len rs \<Longrightarrow> spans_ok len rs"
proof (induction rs)
  case (Cons r rs)
  then show ?case using separated_tail[OF Cons.prems] by (auto simp: spans_ok_def less_imp_le)
qed (simp add: spans_ok_def)

lemma normalize_loop_id:
  "sorted_wrt (\<lambda>x y. snd x \<le> fst y) (out @ rs) \<Longrightarrow> list_all (\<lambda>r. fst r < snd r) rs \<Longrightarrow> normalize_loop out rs = out @ rs"
proof (induction out rs rule: normalize_loop.induct)
  case (2 out r rs)
  show ?case
  proof (cases "out = []")
    case True
    then show ?thesis using "2.IH"(1) "2.prems" by simp
  next
    case False
    then have "snd (last out) \<le> fst r" using "2.prems"(1) by (simp add: sorted_wrt_append)
    then show ?thesis using "2.IH"(4)[OF False] "2.prems" False by auto
  qed
qed simp

lemma separated_sorted:
  assumes "sorted_wrt (\<lambda>x y. snd x \<le> fst y) rs" "list_all (\<lambda>r. fst r < snd r) (rs :: span list)"
  shows "sort rs = rs"
  using assms by (intro sort_key_id_if_sorted) (induction rs; force simp: less_eq_prod_def list_all_iff)

lemma normalize_id:
  "sorted_wrt (\<lambda>x y. snd x \<le> fst y) rs \<Longrightarrow> list_all (\<lambda>r. fst r < snd r) rs \<Longrightarrow> normalize_spans rs = rs"
  by (simp add: normalize_spans_def separated_sorted normalize_loop_id)

lemma separated_changes_sorted:
  assumes "separated len rs" shows "replace_changes txt rs = map (replacing txt) rs"
proof -
  have "sorted (map (\<lambda>c. (ch_start c, ch_end c)) (map (replacing txt) rs))"
    using assms
  proof (induction rs)
    case (Cons r rs)
    have "fst r \<le> snd r" using Cons.prems by (simp add: span_in_def)
    then have "\<forall>q \<in> set rs. fst r < fst q" using separated_tail[OF Cons.prems] by (auto intro: le_less_trans)
    then show ?case using Cons.IH Cons.prems by (simp add: replacing_def less_eq_prod_def)
  qed simp
  then show ?thesis unfolding replace_changes_def replacing_def[symmetric] by (rule sort_key_id_if_sorted)
qed

lemma replace_active_ops:
  assumes "rope_ok R" "separated (length (rp_chars R doc)) rs" "txt \<noteq> []"
  obtains tx where "tx_change R doc (replace_changes txt rs) = Some tx" "tx_fits tx (rp_chars R doc)"
    "changes (tx_changes tx) = replace_ops txt (length (rp_chars R doc)) 0 rs"
proof -
  let ?len = "length (rp_chars R doc)"
  obtain cs lst where l: "change_loop ?len cs_builder 0 (map (replacing txt) rs) = Some (cs, lst)" "lst \<le> ?len"
    "changes (if ?len - lst > 0 then cs_retain cs (?len - lst) else cs) = replace_ops txt ?len 0 rs"
    using change_loop_separated[OF assms(2,3), of cs_builder 0] by (auto simp: cs_builder_def no_retain_last_def)
  let ?tx = "\<lparr> tx_changes = (if ?len - lst > 0 then cs_retain cs (?len - lst) else cs), tx_selection = None \<rparr>"
  have tx: "tx_change R doc (replace_changes txt rs) = Some ?tx"
    unfolding separated_changes_sorted[OF assms(2)] using l assms(1) by (simp add: tx_change_def rope_simps)
  then have "changes_ok ?len 0 (replace_changes txt rs)" using tx_change_None[OF assms(1)] by force
  with tx have "tx_fits ?tx (rp_chars R doc)" using tx_change_correct[OF assms(1)] by fastforce
  with tx show ?thesis by (rule that) (use l(3) in \<open>simp only: transaction.select_convs\<close>)
qed

lemma remap_from_eq:
  assumes "fst (remap_from (changes cs) 0 r) \<le> snd (remap_from (changes cs) 0 r)"
  shows "remap_span cs r = remap_from (changes cs) 0 r"
  using assms by (simp add: remap_span_def remap_from_def Let_def map_pos_def)

lemma replaced_mirrors:
  assumes "separated (length t) rs" "changes cs = replace_ops txt (length t) 0 rs" "txt \<noteq> []"
  shows "normalize_spans (map (remap_span cs) rs) = map (remap_span cs) rs"
    and "list_all (\<lambda>r. snd r = fst r + length txt \<and> take (length txt) (drop (fst r) (edit_text (changes cs) t)) = txt)
      (map (remap_span cs) rs)"
proof -
  have *: "list_all (\<lambda>r. snd r = fst r + length txt \<and> take (length txt) (drop (fst r) (edit_text (changes cs) (drop 0 t))) = txt)
        (map (remap_from (changes cs) 0) rs) \<and>
      sorted_wrt (\<lambda>x y. snd x \<le> fst y) (map (remap_from (changes cs) 0) rs)"
    by (rule replaced_ranges[OF assms(1) refl _ assms(2)]) simp
  then have eq: "map (remap_span cs) rs = map (remap_from (changes cs) 0) rs"
    by (intro map_cong refl remap_from_eq) (auto simp: list_all_iff)
  show "list_all (\<lambda>r. snd r = fst r + length txt \<and> take (length txt) (drop (fst r) (edit_text (changes cs) t)) = txt)
      (map (remap_span cs) rs)" using * unfolding eq by simp
  then show "normalize_spans (map (remap_span cs) rs) = map (remap_span cs) rs"
    using * assms(3) unfolding eq by (intro normalize_id) (auto simp: list_all_iff)
qed

lemma remap_through_tabstops:
  assumes "session_ok (cs_len (tx_changes tx)) s" "tx_wf tx"
  shows "map_of (ss_tabstops (snd (remap_through tx s))) i =
    map_option (\<lambda>rs. normalize_spans (map (remap_span (tx_changes tx)) rs)) (map_of (ss_tabstops s) i)"
proof -
  let ?f = "\<lambda>ranges. normalize_spans (map (remap_span (tx_changes tx)) ranges)"
  have keep: "\<forall>(i, rs) \<in> set (ss_tabstops s). ?f rs \<noteq> []"
  proof (clarify)
    fix i rs assume mem: "(i, rs) \<in> set (ss_tabstops s)" and nil: "?f rs = []"
    have "list_all (span_in (cs_len_after (tx_changes tx))) (map (remap_span (tx_changes tx)) rs)" "rs \<noteq> []"
      using mem assms remap_span_in[of "tx_changes tx"]
      by (fastforce simp: session_ok_def tabstops_ok_def spans_ok_def list_all_iff tx_wf_def)+
    then show False using normalize_spans_ok(3) nil by blast
  qed
  have "ss_tabstops (snd (remap_through tx s)) = bt_retain (\<lambda>_ ranges. ranges \<noteq> []) (bt_map_values ?f (ss_tabstops s))"
    by (simp add: remap_through_def Let_def split: option.split)
  also have "\<dots> = map (\<lambda>(k, v). (k, ?f v)) (ss_tabstops s)"
    unfolding bt_retain_def bt_map_values_def using keep by (subst filter_True) auto
  finally show ?thesis by (simp add: map_of_map)
qed

lemma active_ranges_remap:
  assumes "session_ok (cs_len (tx_changes tx)) s" "tx_wf tx"
  shows "active_ranges (snd (remap_through tx s)) = normalize_spans (map (remap_span (tx_changes tx)) (active_ranges s))"
proof -
  have "active_tabstop (snd (remap_through tx s)) = active_tabstop s"
    using remap_through_ok[OF assms] by (simp add: active_tabstop_def)
  moreover have "normalize_spans [] = []" by (simp add: normalize_spans_def)
  ultimately show ?thesis
    by (auto simp: active_ranges_def remap_through_tabstops[OF assms] split: option.splits bind_splits)
qed


lemma remap_keeps_positions:
  assumes "cs_wf cs" "list_all (span_in (cs_len cs)) rs" "p \<in> positions rs" "kept (changes cs) p"
  shows "map_pos cs p BRight \<in> positions (normalize_spans (map (remap_span cs) rs))"
proof -
  obtain r where r: "r \<in> set rs" "fst r \<le> p" "p < snd r" using assms(3) by (auto simp: positions_def)
  have "map_ops (changes cs) (fst r) BLeft \<le> map_ops (changes cs) p BRight"
    using map_ops_mono[OF r(2)] map_ops_bias order_trans by blast
  moreover have "map_ops (changes cs) (Suc p) BLeft \<le> map_ops (changes cs) (snd r) BRight"
    using map_ops_mono[of "Suc p" "snd r"] r(3) map_ops_bias order_trans by (metis Suc_leI)
  ultimately have "map_pos cs p BRight \<in> {fst (remap_span cs r)..<snd (remap_span cs r)}"
    using map_ops_next[OF assms(4)] by (simp add: remap_span_def Let_def map_pos_def)
  then have "map_pos cs p BRight \<in> positions (map (remap_span cs) rs)" using r(1) by (auto simp: positions_def)
  then show ?thesis using normalize_spans_ok(2) assms(1,2) remap_span_in by (metis (no_types, lifting) list.pred_map list.pred_mono_strong comp_def)
qed


section \<open>Properties\<close>



text \<open>A character of a tabstop that an edit keeps is, at its new position, a character of the same tabstop.\<close>

theorem tabstops_keep_text:
  assumes "session_ok (length t) s" "tx_fits tx t" "map_of (ss_tabstops s) i = Some rs"
  shows "\<exists>qs. map_of (ss_tabstops (snd (remap_through tx s))) i = Some qs \<and>
    (\<forall>p \<in> positions rs. kept (changes (tx_changes tx)) p \<longrightarrow> map_pos (tx_changes tx) p BRight \<in> positions qs)"
proof -
  have ok: "session_ok (cs_len (tx_changes tx)) s" "tx_wf tx" using assms(1,2) by (simp_all add: tx_fits_def)
  have "list_all (span_in (cs_len (tx_changes tx))) rs"
    using ok(1) map_of_SomeD[OF assms(3)] by (auto simp: session_ok_def tabstops_ok_def spans_ok_def)
  then show ?thesis
    using remap_through_tabstops[OF ok, of i] remap_keeps_positions ok(2) assms(3) by (simp add: tx_wf_def)
qed

text \<open>
  C38. Typing over a mirrored tabstop. If no two ranges of the active tabstop touch, replacing them by a nonempty text does
  not panic, and the session that follows has as many active ranges as before, each of them exactly over one copy of
  the text in the new document; the cursors go to the ends of these ranges.
\<close>

theorem mirrored_replacement:
  assumes "rope_ok R" "session_ok (length (rp_chars R doc)) s" "txt \<noteq> []"
    and "separated (length (rp_chars R doc)) (active_ranges s)"
  shows "\<exists>tx s'. replace_active R doc txt (active_ranges s) = Some (tx, selection_from_points (map snd (active_ranges s'))) \<and>
    tx_fits tx (rp_chars R doc) \<and> remap_through tx s = (True, s') \<and>
    length (active_ranges s') = length (active_ranges s) \<and>
    (\<forall>r \<in> set (active_ranges s'). snd r = fst r + length txt \<and> take (length txt) (drop (fst r) (tx_edit tx (rp_chars R doc))) = txt)"
proof -
  let ?rs = "active_ranges s"
  obtain tx where tx: "tx_change R doc (replace_changes txt ?rs) = Some tx" "tx_fits tx (rp_chars R doc)"
    "changes (tx_changes tx) = replace_ops txt (length (rp_chars R doc)) 0 ?rs"
    by (rule replace_active_ops[OF assms(1,4,3)])
  have ok: "session_ok (cs_len (tx_changes tx)) s" "tx_wf tx" using tx(2) assms(2) by (simp_all add: tx_fits_def)
  let ?qs = "map (remap_span (tx_changes tx)) ?rs"
  have qs: "active_ranges (snd (remap_through tx s)) = ?qs"
    unfolding active_ranges_remap[OF ok] by (rule replaced_mirrors(1)[OF assms(4) tx(3) assms(3)])
  have ends: "list_all (\<lambda>r. snd r = fst r + length txt \<and> take (length txt) (drop (fst r) (tx_edit tx (rp_chars R doc))) = txt) ?qs"
    unfolding tx_edit_def by (rule replaced_mirrors(2)[OF assms(4) tx(3) assms(3)])
  then have "map (\<lambda>r. map_pos (tx_changes tx) (fst r) BLeft + length txt) ?rs = map snd ?qs"
    by (auto simp: list_all_iff remap_span_def Let_def)
  then have "replace_active R doc txt ?rs = Some (tx, selection_from_points (map snd ?qs))"
    unfolding replace_active_def tx(1) by (simp del: map_map)
  moreover have "remap_through tx s = (True, snd (remap_through tx s))" using remap_through_ok[OF ok] by (simp add: prod_eq_iff)
  ultimately show ?thesis using ends tx(2)
    by (intro exI[of _ tx] exI[of _ "snd (remap_through tx s)"] conjI) (simp_all only: qs list_all_iff length_map)
qed

theorem mirrored_replacement_witness:
  "\<exists>tx s' s. from_components 0 [(1, [(0, 1), (2, 3)])] [] [] = Some s \<and>
    replace_active list_rope [97, 44, 97] [120, 121] (active_ranges s) =
      Some (tx, selection_from_points (map snd (active_ranges s'))) \<and> length (active_ranges s') = 2"
proof -
  have "\<exists>s. from_components 0 [(1, [(0, 1), (2, 3)])] [] [] = Some s \<and> active_ranges s = [(0, 1), (2, 3)]"
    by (simp add: from_components_def bt_retain_def bt_map_values_def normalize_spans_def tabstop_order_def
        bt_keys_def compute_span_def Let_def active_ranges_def active_tabstop_def)
  then obtain s where s: "from_components 0 [(1, [(0, 1), (2, 3)])] [] [] = Some s" "active_ranges s = [(0, 1), (2, 3)]" by blast
  have "session_ok 3 s" using from_components_ok[OF _ _ s(1), of 3] by (simp add: span_in_def)
  then have "\<exists>tx s'. replace_active list_rope [97, 44, 97] [120, 121] (active_ranges s) =
        Some (tx, selection_from_points (map snd (active_ranges s'))) \<and> length (active_ranges s') = 2"
    using mirrored_replacement[of list_rope "[97, 44, 97]" s "[120, 121]"] s(2) by (auto simp: span_in_def eval_nat_numeral)
  then show ?thesis using s(1) by blast
qed

lemma touching_session_from: "from_components 0 [(1, [(0, 1), (1, 2)])] [] [] = Some touching_session"
  by (simp add: from_components_def touching_session_def bt_retain_def bt_map_values_def normalize_spans_def tabstop_order_def
      bt_keys_def compute_span_def active_mode_for_tabstop_def Let_def)

lemmas replace_evals = replace_active_def replace_changes_def tx_change_def Let_def cs_builder_def cs_retain_def
  cs_delete_def cs_insert_def insertion_new_def ins_push_str_def checked_sub64_def active_ranges_def active_tabstop_def
  remap_through_def bt_retain_def bt_map_values_def remap_span_def map_pos_def normalize_spans_def tabstop_order_def
  bt_keys_def compute_span_def tx_edit_def

lemma touching_mirrors_merge:
  "\<exists>tx. replace_active list_rope [97, 97] [120] (active_ranges touching_session) = Some (tx, selection_from_points [1, 3]) \<and>
    tx_edit tx [97, 97] = [120, 120] \<and>
    active_ranges (snd (remap_through tx touching_session)) = [(0, 2), (2, 2)]"
  by (simp add: replace_evals touching_session_def list_rope_def eval_nat_numeral)

text \<open>With its second cursor beyond the text, the session of the touching mirrors is cancelled by the edit it made itself.\<close>

lemma touching_cursors: "sel_ranges (sel_new (range_point 1) [range_point 3]) = [range_point 1, range_point 3]"
  by code_simp

lemma touching_mirrors_cancel:
  "\<exists>tx sel. replace_active list_rope [97, 97] [120] (active_ranges touching_session) = Some (tx, Some sel) \<and>
    on_snippet_session_transaction 0 tx (Some sel) touching_session = (None, None)"
  using touching_cursors
  by (simp add: replace_evals touching_session_def list_rope_def eval_nat_numeral selection_from_points_def
      on_snippet_session_transaction_def session_valid_def sel_len_def range_point_def)

end
