(* ===== verification/Line_Wrap.thy ===== *)
theory Line_Wrap
  imports Prelude "HOL-Library.Word"
begin

text \<open>
  Soft wrapping of lines, \<open>crates/editor/src/render/wrap/mod.rs\<close>: the wrapper over a vector of characters, which looks for a
  break in the second half of what fits, and the one over a rope slice with inlay hints, which remembers the last
  break it has passed. A rope slice is its list of characters.

  Parameters are the widths of the \<open>unicode-width\<close> crate (\<open>U\<close>) and Unicode's alphanumeric property (\<open>alnum\<close>). \<open>None\<close> is a panic:
  a tab has no width when the tab width is zero. The inner loops return how many characters they took, so that the
  position they end at is the start of the segment plus this number.
\<close>

section \<open>Widths and break opportunities\<close>

type_synonym char_widths = "uchar \<Rightarrow> nat option"

abbreviation (input) tab :: uchar where "tab \<equiv> 9"
abbreviation (input) space :: uchar where "space \<equiv> 32"

definition cell_width :: "char_widths \<Rightarrow> uchar \<Rightarrow> nat \<Rightarrow> nat \<Rightarrow> nat option" where
  "cell_width U ch col tab_width =
     (if ch = tab then if tab_width = 0 then None else Some (max (tab_width - col mod tab_width) 1)
      else Some (max (case U ch of Some w \<Rightarrow> w | None \<Rightarrow> 1) 1))"

record wrapped_segment =
  start_char_offset :: nat
  char_len :: nat
  indent_cols :: nat

record wrap_segment =
  wsg_text :: utext
  start_offset :: nat
  wsg_indent_cols :: nat

fun leading_indent_loop :: "char_widths \<Rightarrow> nat \<Rightarrow> nat \<Rightarrow> utext \<Rightarrow> nat option" where
  "leading_indent_loop U tab_width col [] = Some col"
| "leading_indent_loop U tab_width col (ch # chars) =
     (if ch = space \<or> ch = tab
      then Option.bind (cell_width U ch col tab_width) (\<lambda>w. leading_indent_loop U tab_width (col + w) chars)
      else Some col)"

definition leading_indent_width :: "char_widths \<Rightarrow> utext \<Rightarrow> nat \<Rightarrow> nat option" where
  "leading_indent_width U chars tab_width = leading_indent_loop U tab_width 0 chars"

text \<open>\<open>. , : ; ! ? ) ] } >\<close> and the quotes; \<open>( [ { < @ # $\<close> and the quotes.\<close>

definition is_trailing_punct :: "uchar \<Rightarrow> bool" where
  "is_trailing_punct ch \<longleftrightarrow> ch \<in> {46, 44, 58, 59, 33, 63, 41, 93, 125, 62, 34, 39, 96}"

definition is_leading_punct :: "uchar \<Rightarrow> bool" where
  "is_leading_punct ch \<longleftrightarrow> ch \<in> {40, 91, 123, 60, 64, 35, 36, 34, 39, 96}"

definition can_break_after_rope :: "(uchar \<Rightarrow> bool) \<Rightarrow> uchar \<Rightarrow> uchar option \<Rightarrow> bool" where
  "can_break_after_rope alnum ch next_ch =
     (if ch = space \<or> ch = tab then True
      else case next_ch of
        None \<Rightarrow> True
      | Some nxt \<Rightarrow>
          if is_trailing_punct nxt \<and> \<not> is_whitespace nxt then False
          else if is_leading_punct ch then False
          else if is_trailing_punct ch then is_whitespace nxt \<or> is_leading_punct nxt \<or> alnum nxt
          else ch = 45 \<or> ch = 47)"

definition get_char :: "utext \<Rightarrow> nat \<Rightarrow> uchar option" where
  "get_char chars i = (if i < length chars then Some (chars ! i) else None)"

text \<open>\<open>chars[i]\<close> out of range is a panic; the callers stay in range.\<close>

definition can_break_after :: "(uchar \<Rightarrow> bool) \<Rightarrow> utext \<Rightarrow> nat \<Rightarrow> bool option" where
  "can_break_after alnum chars i =
     (case get_char chars i of
        None \<Rightarrow> None
      | Some ch \<Rightarrow> Some
          (if ch = space \<or> ch = tab then True
           else case get_char chars (i + 1) of
             None \<Rightarrow> True
           | Some next_ch \<Rightarrow>
               if is_trailing_punct next_ch \<and> \<not> is_whitespace next_ch then False
               else if is_leading_punct ch then False
               else if is_trailing_punct ch then is_whitespace next_ch \<or> is_leading_punct next_ch \<or> alnum next_ch
               else ch = 45 \<or> ch = 47))"

section \<open>Wrapping a vector of characters\<close>

text \<open>The loop \<open>for i in (search_start..max_end).rev()\<close>, over the list of indices.\<close>

fun find_break_loop :: "(uchar \<Rightarrow> bool) \<Rightarrow> utext \<Rightarrow> nat \<Rightarrow> nat list \<Rightarrow> nat option" where
  "find_break_loop alnum chars max_end [] = Some max_end"
| "find_break_loop alnum chars max_end (i # rest) =
     Option.bind (can_break_after alnum chars i)
       (\<lambda>ok. if ok then Some (i + 1) else find_break_loop alnum chars max_end rest)"

definition find_wrap_break :: "(uchar \<Rightarrow> bool) \<Rightarrow> utext \<Rightarrow> nat \<Rightarrow> nat \<Rightarrow> nat option" where
  "find_wrap_break alnum chars start max_end =
     (let search_start = start + (max_end - start) div 2
      in find_break_loop alnum chars max_end (rev [search_start..<max_end]))"

fun fit_loop :: "char_widths \<Rightarrow> nat \<Rightarrow> nat \<Rightarrow> nat \<Rightarrow> utext \<Rightarrow> nat option" where
  "fit_loop U tab_width width col [] = Some 0"
| "fit_loop U tab_width width col (ch # rest) =
     Option.bind (cell_width U ch col tab_width)
       (\<lambda>w. let remaining = width - col in
         if remaining = 0 then Some 0
         else if w > remaining then Some 0
         else if col + w \<ge> width then Some 1
         else map_option Suc (fit_loop U tab_width width (col + w) rest))"

text \<open>The body of the outer loop: where the segment that starts at \<open>pos\<close> ends.\<close>

definition wrap_break :: "char_widths \<Rightarrow> (uchar \<Rightarrow> bool) \<Rightarrow> nat \<Rightarrow> nat \<Rightarrow> utext \<Rightarrow> nat \<Rightarrow> nat option" where
  "wrap_break U alnum tab_width width chars pos =
     Option.bind (fit_loop U tab_width width 0 (drop pos chars))
       (\<lambda>n. let stop = (if n = 0 then min (pos + 1) (length chars) else pos + n) in
         if stop < length chars
         then Option.bind (find_wrap_break alnum chars pos stop) (\<lambda>candidate. Some (if candidate > pos then candidate else stop))
         else Some (length chars))"

definition MIN_CONTINUATION_CONTENT :: nat where
  "MIN_CONTINUATION_CONTENT = 20"

definition continuation_indent :: "nat \<Rightarrow> nat \<Rightarrow> nat" where
  "continuation_indent max_width raw_indent = (if max_width - raw_indent \<ge> MIN_CONTINUATION_CONTENT then raw_indent else 0)"

function wrap_loop ::
  "char_widths \<Rightarrow> (uchar \<Rightarrow> bool) \<Rightarrow> nat \<Rightarrow> nat \<Rightarrow> nat \<Rightarrow> utext \<Rightarrow> bool \<Rightarrow> nat \<Rightarrow> wrapped_segment list option" where
  "wrap_loop U alnum tab_width max_width indent chars is_first pos =
     (if pos < length chars
      then Option.bind (wrap_break U alnum tab_width (if is_first then max_width else max_width - indent) chars pos)
        (\<lambda>break_pos. map_option ((#)
             \<lparr> start_char_offset = pos, char_len = break_pos - pos, indent_cols = (if is_first then 0 else indent) \<rparr>)
          (wrap_loop U alnum tab_width max_width indent chars False break_pos))
      else Some [])"
  by pat_completeness auto
termination
  by (relation "measure (\<lambda>(U, alnum, tab_width, max_width, indent, chars, is_first, pos). length chars - pos)")
    (auto simp: wrap_break_def Let_def split: bind_splits if_splits)

definition empty_segment :: wrapped_segment where
  "empty_segment = \<lparr> start_char_offset = 0, char_len = 0, indent_cols = 0 \<rparr>"

definition wrap_line_ranges ::
  "char_widths \<Rightarrow> (uchar \<Rightarrow> bool) \<Rightarrow> utext \<Rightarrow> nat \<Rightarrow> nat \<Rightarrow> wrapped_segment list option" where
  "wrap_line_ranges U alnum line max_width tab_width =
     (if max_width = 0 then Some []
      else if line = [] then Some [empty_segment]
      else Option.bind (leading_indent_width U line tab_width)
        (\<lambda>raw_indent. wrap_loop U alnum tab_width max_width (continuation_indent max_width raw_indent) line True 0))"

definition wrap_line :: "char_widths \<Rightarrow> (uchar \<Rightarrow> bool) \<Rightarrow> utext \<Rightarrow> nat \<Rightarrow> nat \<Rightarrow> wrap_segment list option" where
  "wrap_line U alnum line max_width tab_width =
     map_option (map (\<lambda>s. \<lparr> wsg_text = take (char_len s) (drop (start_char_offset s) line),
         start_offset = start_char_offset s, wsg_indent_cols = indent_cols s \<rparr>))
       (wrap_line_ranges U alnum line max_width tab_width)"

section \<open>Wrapping a rope slice with inlay hints\<close>

record inlay_hint_span =
  pos_char :: nat
  hint_text :: utext
  hint_cols :: "16 word"
  pad_left :: bool
  pad_right :: bool

definition inlay_width :: "inlay_hint_span \<Rightarrow> nat" where
  "inlay_width hint = unat (hint_cols hint) + of_bool (pad_left hint) + of_bool (pad_right hint)"

text \<open>
  The scan of one segment, from the character at \<open>off\<close> with the hints that are left: how many characters are taken and
  how many of them lie before the last break.
\<close>

fun fit_rope ::
  "char_widths \<Rightarrow> (uchar \<Rightarrow> bool) \<Rightarrow> nat \<Rightarrow> nat \<Rightarrow> nat \<Rightarrow> inlay_hint_span list \<Rightarrow> nat \<Rightarrow> nat \<Rightarrow> nat \<Rightarrow> utext \<Rightarrow> (nat \<times> nat) option" where
  "fit_rope U alnum tab_width width off hints col taken best [] = Some (taken, best)"
| "fit_rope U alnum tab_width width off hints col taken best (ch # rest) =
     (let here = takeWhile (\<lambda>s. pos_char s = off) hints;
          inlay_cols = sum_list (map inlay_width here)
      in Option.bind (cell_width U ch (col + inlay_cols) tab_width)
        (\<lambda>w. let total = inlay_cols + w; remaining = width - col in
          if (remaining = 0 \<or> total > remaining) \<and> col > 0 then Some (taken, best)
          else let best' = (if can_break_after_rope alnum ch (get_char rest 0) then taken + 1 else best) in
            if col + total \<ge> width then Some (taken + 1, best')
            else fit_rope U alnum tab_width width (off + 1) (dropWhile (\<lambda>s. pos_char s = off) hints) (col + total) (taken + 1) best' rest))"

text \<open>\<open>partition_point\<close> on the hints, which are ordered by position.\<close>

definition rope_break ::
  "char_widths \<Rightarrow> (uchar \<Rightarrow> bool) \<Rightarrow> nat \<Rightarrow> inlay_hint_span list \<Rightarrow> nat \<Rightarrow> utext \<Rightarrow> nat \<Rightarrow> nat option" where
  "rope_break U alnum tab_width inlay_spans width line pos =
     Option.bind (fit_rope U alnum tab_width width pos (dropWhile (\<lambda>s. pos_char s < pos) inlay_spans) 0 0 0 (drop pos line))
       (\<lambda>(taken, best). Some
         (if taken = 0 then min (pos + 1) (length line) else if best = 0 then pos + taken else pos + best))"

function rope_loop ::
  "char_widths \<Rightarrow> (uchar \<Rightarrow> bool) \<Rightarrow> nat \<Rightarrow> inlay_hint_span list \<Rightarrow> nat \<Rightarrow> nat \<Rightarrow> utext \<Rightarrow> bool \<Rightarrow> nat \<Rightarrow> wrapped_segment list option" where
  "rope_loop U alnum tab_width inlay_spans max_width indent line is_first pos =
     (if pos < length line
      then Option.bind (rope_break U alnum tab_width inlay_spans (if is_first then max_width else max_width - indent) line pos)
        (\<lambda>best_break. map_option ((#)
             \<lparr> start_char_offset = pos, char_len = best_break - pos, indent_cols = (if is_first then 0 else indent) \<rparr>)
          (rope_loop U alnum tab_width inlay_spans max_width indent line False best_break))
      else Some [])"
  by pat_completeness auto
termination
  by (relation "measure (\<lambda>(U, alnum, tab_width, inlay_spans, max_width, indent, line, is_first, pos). length line - pos)")
    (auto simp: rope_break_def Let_def split: bind_splits if_splits)

definition wrap_line_ranges_rope_with_inlays ::
  "char_widths \<Rightarrow> (uchar \<Rightarrow> bool) \<Rightarrow> utext \<Rightarrow> nat \<Rightarrow> nat \<Rightarrow> inlay_hint_span list \<Rightarrow> wrapped_segment list option" where
  "wrap_line_ranges_rope_with_inlays U alnum line max_width tab_width inlay_spans =
     (if max_width = 0 then Some []
      else if line = [] then Some [empty_segment]
      else Option.bind (leading_indent_width U line tab_width)
        (\<lambda>raw_indent. rope_loop U alnum tab_width inlay_spans max_width (continuation_indent max_width raw_indent) line True 0))"

definition wrap_line_ranges_rope ::
  "char_widths \<Rightarrow> (uchar \<Rightarrow> bool) \<Rightarrow> utext \<Rightarrow> nat \<Rightarrow> nat \<Rightarrow> wrapped_segment list option" where
  "wrap_line_ranges_rope U alnum line max_width tab_width =
     wrap_line_ranges_rope_with_inlays U alnum line max_width tab_width []"

section \<open>Specification predicates\<close>

text \<open>The columns a piece of a line takes, hints included, from offset \<open>off\<close> and column \<open>col\<close> on.\<close>

definition inlays_at :: "inlay_hint_span list \<Rightarrow> nat \<Rightarrow> nat" where
  "inlays_at hints off = sum_list (map inlay_width (filter (\<lambda>s. pos_char s = off) hints))"

fun columns :: "char_widths \<Rightarrow> nat \<Rightarrow> inlay_hint_span list \<Rightarrow> nat \<Rightarrow> nat \<Rightarrow> utext \<Rightarrow> nat" where
  "columns U tab_width hints off col [] = col"
| "columns U tab_width hints off col (ch # chars) =
     (let c = col + inlays_at hints off
      in columns U tab_width hints (off + 1) (c + the (cell_width U ch c tab_width)) chars)"

text \<open>A break is possible behind the first \<open>k\<close> characters.\<close>

definition break_opportunity :: "(uchar \<Rightarrow> bool) \<Rightarrow> utext \<Rightarrow> nat \<Rightarrow> bool" where
  "break_opportunity alnum chars k \<longleftrightarrow> 0 < k \<and> k \<le> length chars \<and> can_break_after_rope alnum (chars ! (k - 1)) (get_char chars k)"

text \<open>Segments without gaps from \<open>pos\<close> to the end of a line of length \<open>len\<close>.\<close>

fun segments_from :: "nat \<Rightarrow> nat \<Rightarrow> wrapped_segment list \<Rightarrow> bool" where
  "segments_from len pos [] \<longleftrightarrow> pos = len"
| "segments_from len pos (s # ss) \<longleftrightarrow>
     start_char_offset s = pos \<and> 0 < char_len s \<and> segments_from len (pos + char_len s) ss"

definition segment_text :: "utext \<Rightarrow> wrapped_segment \<Rightarrow> utext" where
  "segment_text line s = take (char_len s) (drop (start_char_offset s) line)"

text \<open>The greedy choice of the rope wrapper among the prefixes of \<open>chars\<close> that take at most \<open>width\<close> columns.\<close>

definition greedy :: "char_widths \<Rightarrow> (uchar \<Rightarrow> bool) \<Rightarrow> nat \<Rightarrow> inlay_hint_span list \<Rightarrow> nat \<Rightarrow> nat \<Rightarrow> utext \<Rightarrow> nat \<Rightarrow> bool" where
  "greedy U alnum tab_width hints width off chars n \<longleftrightarrow>
     (let fits = (\<lambda>k. columns U tab_width hints off 0 (take k chars) \<le> width) in
      (fits n \<or> n = 1) \<and>
      (\<forall>k \<le> length chars. fits k \<and> break_opportunity alnum chars k \<longrightarrow> k \<le> n) \<and>
      (break_opportunity alnum chars n \<or> (\<forall>k \<le> length chars. fits k \<longrightarrow> k \<le> n)))"

definition scanned :: "char_widths \<Rightarrow> nat \<Rightarrow> inlay_hint_span list \<Rightarrow> nat \<Rightarrow> nat \<Rightarrow> nat \<Rightarrow> utext \<Rightarrow> nat \<Rightarrow> bool" where
  "scanned U tab_width hints width off col rest m \<longleftrightarrow>
     m \<le> length rest \<and> (rest \<noteq> [] \<and> col = 0 \<longrightarrow> 0 < m) \<and>
     (\<forall>k. 0 < k \<and> k \<le> m \<longrightarrow> columns U tab_width hints off col (take k rest) \<le> width \<or> col = 0 \<and> m = 1) \<and>
     (\<forall>k. m < k \<and> k \<le> length rest \<longrightarrow> width < columns U tab_width hints off col (take k rest))"

definition last_break :: "(uchar \<Rightarrow> bool) \<Rightarrow> utext \<Rightarrow> nat \<Rightarrow> nat \<Rightarrow> nat \<Rightarrow> nat \<Rightarrow> bool" where
  "last_break alnum rest m taken best b \<longleftrightarrow>
     (b = best \<and> (\<forall>k. k \<le> m \<longrightarrow> \<not> break_opportunity alnum rest k)) \<or>
     (\<exists>k. 0 < k \<and> k \<le> m \<and> b = taken + k \<and> break_opportunity alnum rest k \<and>
        (\<forall>j. k < j \<and> j \<le> m \<longrightarrow> \<not> break_opportunity alnum rest j))"

section \<open>Lemmas\<close>

subsection \<open>Widths\<close>

lemma cell_width_pos: "0 < tab_width \<Longrightarrow> \<exists>w. cell_width U ch col tab_width = Some w \<and> 0 < w"
  by (simp add: cell_width_def less_max_iff_disj)

lemma columns_ge: "0 < tab_width \<Longrightarrow> col + length chars \<le> columns U tab_width hints off col chars"
proof (induction chars arbitrary: off col)
  case (Cons ch chars)
  let ?c = "col + inlays_at hints off"
  obtain w where w: "cell_width U ch ?c tab_width = Some w" "0 < w" using cell_width_pos[OF Cons.prems] by blast
  have "?c + w + length chars \<le> columns U tab_width hints (off + 1) (?c + w) chars" using Cons by blast
  then show ?case using w by simp
qed simp

lemma leading_indent_some: "0 < tab_width \<Longrightarrow> \<exists>n. leading_indent_loop U tab_width col chars = Some n"
proof (induction chars arbitrary: col)
  case (Cons ch chars)
  then show ?case using cell_width_pos[OF Cons.prems, of U ch col] by auto
qed simp

lemma continuation_indent_less: "0 < max_width \<Longrightarrow> continuation_indent max_width raw < max_width"
  by (auto simp: continuation_indent_def MIN_CONTINUATION_CONTENT_def)

subsection \<open>Hints in order\<close>

lemma hints_here:
  assumes "sorted (map pos_char inlays)"
  shows "takeWhile (\<lambda>s. pos_char s = off) (filter (\<lambda>s. off \<le> pos_char s) inlays) = filter (\<lambda>s. pos_char s = off) inlays"
    and "dropWhile (\<lambda>s. pos_char s = off) (filter (\<lambda>s. off \<le> pos_char s) inlays) = filter (\<lambda>s. off + 1 \<le> pos_char s) inlays"
proof -
  have "takeWhile (\<lambda>s. pos_char s = off) (filter (\<lambda>s. off \<le> pos_char s) inlays) = filter (\<lambda>s. pos_char s = off) inlays \<and>
    dropWhile (\<lambda>s. pos_char s = off) (filter (\<lambda>s. off \<le> pos_char s) inlays) = filter (\<lambda>s. off + 1 \<le> pos_char s) inlays"
    using assms
  proof (induction inlays)
    case (Cons s inlays)
    consider "pos_char s < off" | "pos_char s = off" | "off < pos_char s" by linarith
    then show ?case
    proof cases
      case 3
      then have *: "\<forall>x \<in> set inlays. off < pos_char x" using Cons.prems by auto
      then have "filter (\<lambda>s. pos_char s = off) inlays = []" "filter (\<lambda>s. off \<le> pos_char s) inlays = inlays"
        "filter (\<lambda>s. Suc off \<le> pos_char s) inlays = inlays" by (auto simp: filter_empty_conv filter_id_conv Suc_le_eq)
      then show ?thesis using 3 by auto
    qed (use Cons in auto)
  qed simp
  then show "takeWhile (\<lambda>s. pos_char s = off) (filter (\<lambda>s. off \<le> pos_char s) inlays) = filter (\<lambda>s. pos_char s = off) inlays"
    "dropWhile (\<lambda>s. pos_char s = off) (filter (\<lambda>s. off \<le> pos_char s) inlays) = filter (\<lambda>s. off + 1 \<le> pos_char s) inlays"
    by simp_all
qed

lemma hints_from: "sorted (map pos_char inlays) \<Longrightarrow> dropWhile (\<lambda>s. pos_char s < pos) inlays = filter (\<lambda>s. pos \<le> pos_char s) inlays"
proof (induction inlays)
  case (Cons s inlays)
  show ?case
  proof (cases "pos_char s < pos")
    case False
    then have "filter (\<lambda>s. pos \<le> pos_char s) inlays = inlays" using Cons.prems by (auto simp: filter_id_conv)
    then show ?thesis using False by simp
  qed (use Cons in auto)
qed simp

subsection \<open>The scan of a segment\<close>

lemma break_opportunity_Cons:
  "break_opportunity alnum (ch # rest) (Suc k) \<longleftrightarrow>
     (if k = 0 then can_break_after_rope alnum ch (get_char rest 0) else break_opportunity alnum rest k)"
  by (cases k) (auto simp: break_opportunity_def get_char_def)

lemma not_opportunity_0 [simp]: "\<not> break_opportunity alnum chars 0"
  by (simp add: break_opportunity_def)

lemma last_break_0: "last_break alnum rest 0 taken best best"
  by (simp add: last_break_def)

lemma last_break_Suc:
  assumes "last_break alnum rest m (taken + 1) (if can_break_after_rope alnum ch (get_char rest 0) then taken + 1 else best) b"
  shows "last_break alnum (ch # rest) (Suc m) taken best b"
proof -
  let ?o = "can_break_after_rope alnum ch (get_char rest 0)"
  have sh: "break_opportunity alnum (ch # rest) k \<longleftrightarrow> (k = 1 \<and> ?o) \<or> (\<exists>j. 0 < j \<and> k = Suc j \<and> break_opportunity alnum rest j)" for k
    by (cases k) (auto simp: break_opportunity_Cons)
  from assms consider (none) "b = (if ?o then taken + 1 else best)" "\<forall>k. k \<le> m \<longrightarrow> \<not> break_opportunity alnum rest k"
    | (some) k where "0 < k" "k \<le> m" "b = taken + 1 + k" "break_opportunity alnum rest k"
        "\<forall>j. k < j \<and> j \<le> m \<longrightarrow> \<not> break_opportunity alnum rest j"
    unfolding last_break_def by blast
  then show ?thesis
  proof cases
    case none
    then show ?thesis unfolding last_break_def sh by (cases ?o) (auto intro: exI[of _ 1])
  next
    case some
    then show ?thesis unfolding last_break_def sh by (intro disjI2 exI[of _ "Suc k"]) auto
  qed
qed

lemma fit_rope_scans:
  assumes "0 < tab_width" "sorted (map pos_char inlays)" "col < width"
  shows "\<exists>m b. fit_rope U alnum tab_width width off (filter (\<lambda>s. off \<le> pos_char s) inlays) col taken best rest = Some (taken + m, b) \<and>
    scanned U tab_width inlays width off col rest m \<and> last_break alnum rest m taken best b"
  using assms(3)
proof (induction rest arbitrary: off col taken best)
  case Nil
  then show ?case by (simp add: scanned_def last_break_def break_opportunity_def)
next
  case (Cons ch rest)
  let ?i = "inlays_at inlays off"
  let ?hs = "filter (\<lambda>s. off \<le> pos_char s) inlays"
  let ?b = "if can_break_after_rope alnum ch (get_char rest 0) then taken + 1 else best"
  obtain w where w: "cell_width U ch (col + ?i) tab_width = Some w" "0 < w" using cell_width_pos[OF assms(1)] by blast
  have G: "columns U tab_width inlays off col (take (Suc k) (ch # rest)) = columns U tab_width inlays (off + 1) (col + ?i + w) (take k rest)" for k
    using w by simp
  have ge: "col + ?i + w + min (length rest) k \<le> columns U tab_width inlays (off + 1) (col + ?i + w) (take k rest)" for k
    using columns_ge[OF assms(1), of "col + ?i + w" "take k rest" U inlays "off + 1"] by simp
  have unf: "fit_rope U alnum tab_width width off ?hs col taken best (ch # rest) =
      (if (width - col = 0 \<or> ?i + w > width - col) \<and> col > 0 then Some (taken, best)
       else if col + (?i + w) \<ge> width then Some (taken + 1, ?b)
       else fit_rope U alnum tab_width width (off + 1) (filter (\<lambda>s. off + 1 \<le> pos_char s) inlays) (col + (?i + w)) (taken + 1) ?b rest)"
    using w by (simp add: hints_here[OF assms(2), simplified] inlays_at_def Let_def del: filter.simps)
  consider (full) "(width - col = 0 \<or> ?i + w > width - col) \<and> col > 0"
    | (last) "\<not> ((width - col = 0 \<or> ?i + w > width - col) \<and> col > 0)" "col + (?i + w) \<ge> width"
    | (more) "\<not> ((width - col = 0 \<or> ?i + w > width - col) \<and> col > 0)" "col + (?i + w) < width" by linarith
  then show ?case
  proof cases
    case full
    have "width < columns U tab_width inlays off col (take k (ch # rest))" if "0 < k" for k
      using that full Cons.prems ge[of "k - 1"] G[of "k - 1"] by (cases k) auto
    then have "scanned U tab_width inlays width off col (ch # rest) 0" using full by (auto simp: scanned_def)
    then show ?thesis unfolding unf using full last_break_0 by (intro exI[of _ 0] exI[of _ best]) simp
  next
    case last
    have "width < columns U tab_width inlays off col (take k (ch # rest))" if "1 < k" "k \<le> length (ch # rest)" for k
      using that last(2) ge[of "k - 1"] G[of "k - 1"] by (cases k) auto
    moreover have "columns U tab_width inlays off col (take 1 (ch # rest)) \<le> width \<or> col = 0"
      using last G[of 0] by auto
    ultimately have "scanned U tab_width inlays width off col (ch # rest) 1" by (auto simp: scanned_def le_Suc_eq Suc_le_eq)
    moreover have "last_break alnum (ch # rest) (Suc 0) taken best ?b" using last_break_Suc last_break_0 by blast
    ultimately show ?thesis unfolding unf using last by (intro exI[of _ 1] exI[of _ ?b]) auto
  next
    case more
    obtain m b where mb: "fit_rope U alnum tab_width width (off + 1) (filter (\<lambda>s. off + 1 \<le> pos_char s) inlays) (col + (?i + w)) (taken + 1) ?b rest
        = Some (taken + 1 + m, b)" "scanned U tab_width inlays width (off + 1) (col + (?i + w)) rest m" "last_break alnum rest m (taken + 1) ?b b"
      using Cons.IH[OF more(2), of "off + 1" "taken + 1" ?b] by blast
    have "columns U tab_width inlays off col (take k (ch # rest)) \<le> width" if "0 < k" "k \<le> Suc m" for k
      using that more(2) mb(2) G[of "k - 1"] w(2) by (cases k; cases "k = 1") (auto simp: scanned_def add.assoc)
    moreover have "width < columns U tab_width inlays off col (take k (ch # rest))" if "Suc m < k" "k \<le> length (ch # rest)" for k
      using that mb(2) G[of "k - 1"] by (cases k) (auto simp: scanned_def add.assoc)
    ultimately have "scanned U tab_width inlays width off col (ch # rest) (Suc m)" using mb(2) by (auto simp: scanned_def)
    then show ?thesis unfolding unf using more mb(1) last_break_Suc[OF mb(3)] by (intro exI[of _ "Suc m"] exI[of _ b]) auto
  qed
qed

lemma fit_rope_bounds:
  "fit_rope U alnum tab_width width off hints col taken best rest = Some (n, b) \<Longrightarrow>
   taken \<le> n \<and> n \<le> taken + length rest \<and> (best \<le> taken \<longrightarrow> b \<le> n)"
proof (induction rest arbitrary: off hints col taken best)
  case (Cons ch rest)
  let ?i = "sum_list (map inlay_width (takeWhile (\<lambda>s. pos_char s = off) hints))"
  define b0 where "b0 = (if can_break_after_rope alnum ch (get_char rest 0) then taken + 1 else best)"
  obtain w where w: "cell_width U ch (col + ?i) tab_width = Some w" using Cons.prems by (auto simp: Let_def split: bind_splits)
  let ?next = "fit_rope U alnum tab_width width (off + 1) (dropWhile (\<lambda>s. pos_char s = off) hints) (col + (?i + w)) (taken + 1) b0 rest"
  have "Some (n, b) = (if (width - col = 0 \<or> ?i + w > width - col) \<and> col > 0 then Some (taken, best)
       else if col + (?i + w) \<ge> width then Some (taken + 1, b0) else ?next)"
    using Cons.prems[symmetric] w by (simp only: fit_rope.simps Let_def bind.bind_lunit b0_def)
  then have "Some (n, b) \<in> {Some (taken, best), Some (taken + 1, b0), ?next}" by (metis insertI1 insertI2)
  then consider "n = taken \<and> b = best" | "n = taken + 1 \<and> b = b0" | (more) "?next = Some (n, b)" by force
  then show ?case
  proof cases
    case more
    then show ?thesis using Cons.IH[OF more] by (simp add: b0_def split: if_splits)
  qed (simp_all add: b0_def)
qed simp

lemma rope_break_range:
  assumes "pos < length line" "rope_break U alnum tab_width inlays width line pos = Some b"
  shows "pos < b \<and> b \<le> length line"
proof -
  obtain n k where *: "fit_rope U alnum tab_width width pos (dropWhile (\<lambda>s. pos_char s < pos) inlays) 0 0 0 (drop pos line) = Some (n, k)"
      "b = (if n = 0 then min (pos + 1) (length line) else if k = 0 then pos + n else pos + k)"
    using assms(2) by (auto simp: rope_break_def split: bind_splits)
  then show ?thesis using assms(1) fit_rope_bounds[OF *(1)] by auto
qed

lemma rope_break_greedy:
  assumes "0 < tab_width" "sorted (map pos_char inlays)" "0 < width" "pos < length line"
  shows "\<exists>n. rope_break U alnum tab_width inlays width line pos = Some (pos + n) \<and>
    greedy U alnum tab_width inlays width pos (drop pos line) n"
proof -
  let ?rest = "drop pos line" and ?G = "\<lambda>k. columns U tab_width inlays pos 0 (take k (drop pos line))"
  obtain m b where mb: "fit_rope U alnum tab_width width pos (filter (\<lambda>s. pos \<le> pos_char s) inlays) 0 0 0 ?rest = Some (m, b)"
    "scanned U tab_width inlays width pos 0 ?rest m" "last_break alnum ?rest m 0 0 b"
    using fit_rope_scans[OF assms(1-3), of U alnum pos 0 0 ?rest] by auto
  have m: "0 < m" "m \<le> length ?rest" using mb(2) assms(4) by (auto simp: scanned_def)
  have fits: "?G k \<le> width \<or> m = 1" if "0 < k" "k \<le> m" for k using that mb(2) by (auto simp: scanned_def)
  have over: "k \<le> m" if "?G k \<le> width" "k \<le> length ?rest" for k
    using that mb(2) unfolding scanned_def by (meson not_le_imp_less not_less)
  let ?n = "if b = 0 then m else b"
  have "rope_break U alnum tab_width inlays width line pos = Some (pos + ?n)"
    using m mb(1) by (simp add: rope_break_def hints_from[OF assms(2)])
  moreover from mb(3) consider (none) "b = 0" "\<forall>k. k \<le> m \<longrightarrow> \<not> break_opportunity alnum ?rest k"
    | (some) "0 < b" "b \<le> m" "break_opportunity alnum ?rest b" "\<forall>j. b < j \<and> j \<le> m \<longrightarrow> \<not> break_opportunity alnum ?rest j"
    unfolding last_break_def by auto
  then have "greedy U alnum tab_width inlays width pos ?rest ?n"
  proof cases
    case none
    then show ?thesis using fits[OF m(1) order_refl] over by (auto simp: greedy_def)
  next
    case some
    have "k \<le> b" if "?G k \<le> width" "k \<le> length ?rest" "break_opportunity alnum ?rest k" for k
      using some(4) over that by (meson not_le_imp_less)
    then show ?thesis using fits[OF some(1,2)] some by (auto simp: greedy_def)
  qed
  ultimately show ?thesis by blast
qed

subsection \<open>The wrapper of vectors\<close>

lemma inlays_at_none [simp]: "inlays_at [] off = 0"
  by (simp add: inlays_at_def)

lemma fit_loop_scans:
  assumes "0 < tab_width" "col < width"
  shows "\<exists>m. fit_loop U tab_width width col rest = Some m \<and> m \<le> length rest \<and>
    (\<forall>k. 0 < k \<and> k \<le> m \<longrightarrow> columns U tab_width [] off col (take k rest) \<le> width)"
  using assms(2)
proof (induction rest arbitrary: off col)
  case (Cons ch rest)
  obtain w where w: "cell_width U ch col tab_width = Some w" "0 < w" using cell_width_pos[OF assms(1)] by blast
  have G: "columns U tab_width [] off col (take (Suc k) (ch # rest)) = columns U tab_width [] (off + 1) (col + w) (take k rest)" for k
    using w by simp
  consider "width - col < w" | "w \<le> width - col" "width \<le> col + w" | "col + w < width" using Cons.prems by linarith
  then show ?case
  proof cases
    case 1
    then show ?thesis using w Cons.prems by (auto simp: Let_def)
  next
    case 2
    then have "columns U tab_width [] off col (take (Suc 0) (ch # rest)) \<le> width" using G[of 0] Cons.prems by simp
    then show ?thesis using 2 w Cons.prems by (intro exI[of _ 1]) (auto simp: Let_def le_Suc_eq Suc_le_eq)
  next
    case 3
    obtain m where m: "fit_loop U tab_width width (col + w) rest = Some m" "m \<le> length rest"
      "\<forall>k. 0 < k \<and> k \<le> m \<longrightarrow> columns U tab_width [] (off + 1) (col + w) (take k rest) \<le> width"
      using Cons.IH[OF 3, of "off + 1"] by blast
    have "columns U tab_width [] off col (take k (ch # rest)) \<le> width" if "0 < k" "k \<le> Suc m" for k
      using that m(3) 3 G[of "k - 1"] by (cases k; cases "k = 1") auto
    then show ?thesis using 3 m w by (intro exI[of _ "Suc m"]) (auto simp: Let_def)
  qed
qed simp

lemma fit_loop_bound: "fit_loop U tab_width width col rest = Some m \<Longrightarrow> m \<le> length rest"
  by (induction rest arbitrary: col m) (auto simp: Let_def split: bind_splits if_splits)

lemma can_break_after_eq:
  "i < length chars \<Longrightarrow> can_break_after alnum chars i = Some (can_break_after_rope alnum (chars ! i) (get_char chars (i + 1)))"
  by (simp add: can_break_after_def can_break_after_rope_def get_char_def split: option.split)

lemma find_break_loop_spec:
  assumes "\<forall>i \<in> set is. i < length chars"
  shows "\<exists>c. find_break_loop alnum chars max_end is = Some c \<and>
    ((\<exists>i \<in> set is. c = i + 1 \<and> can_break_after alnum chars i = Some True) \<or>
     (c = max_end \<and> (\<forall>i \<in> set is. can_break_after alnum chars i = Some False)))"
  using assms by (induction "is") (auto simp: can_break_after_eq)

lemma find_break_loop_range:
  "find_break_loop alnum chars max_end is = Some c \<Longrightarrow> c = max_end \<or> (\<exists>i \<in> set is. c = i + 1)"
  by (induction "is") (auto split: bind_splits if_splits)

lemma wrap_break_range:
  assumes "pos < length chars" "wrap_break U alnum tab_width width chars pos = Some b"
  shows "pos < b \<and> b \<le> length chars"
proof -
  obtain n where n: "fit_loop U tab_width width 0 (drop pos chars) = Some n" using assms(2) by (auto simp: wrap_break_def split: bind_splits)
  then have "n \<le> length chars - pos" using fit_loop_bound by fastforce
  then show ?thesis using assms n
    by (auto simp: wrap_break_def Let_def find_wrap_break_def split: bind_splits if_splits dest!: find_break_loop_range)
qed

lemma wrap_break_choice:
  assumes "0 < tab_width" "0 < width" "pos < length chars"
  shows "\<exists>n. wrap_break U alnum tab_width width chars pos = Some (pos + n) \<and>
    (columns U tab_width [] pos 0 (take n (drop pos chars)) \<le> width \<or> n = 1) \<and>
    (break_opportunity alnum (drop pos chars) n \<or> (\<forall>k. n div 2 < k \<and> k \<le> n \<longrightarrow> \<not> break_opportunity alnum (drop pos chars) k))"
proof -
  let ?rest = "drop pos chars"
  obtain m where m: "fit_loop U tab_width width 0 ?rest = Some m" "m \<le> length ?rest"
    "\<forall>k. 0 < k \<and> k \<le> m \<longrightarrow> columns U tab_width [] pos 0 (take k ?rest) \<le> width"
    using fit_loop_scans[OF assms(1,2)] by blast
  define n where "n = max m 1"
  have n: "0 < n" "n \<le> length ?rest" using m(2) assms(3) by (auto simp: n_def)
  have fit: "columns U tab_width [] pos 0 (take k ?rest) \<le> width \<or> k = 1" if "0 < k" "k \<le> n" for k
    using that m(3) by (auto simp: n_def max_def split: if_splits)
  have stop: "(if m = 0 then min (pos + 1) (length chars) else pos + m) = pos + n" using assms(3) by (auto simp: n_def)
  have opp: "can_break_after alnum chars (pos + k) = Some (break_opportunity alnum ?rest (k + 1))" if "k < length ?rest" for k
    using that by (auto simp: can_break_after_eq break_opportunity_def get_char_def add.commute add.left_commute)
  show ?thesis
  proof (cases "pos + n < length chars")
    case False
    then have "n = length ?rest" using n by simp
    moreover have "break_opportunity alnum ?rest (length ?rest)"
      using assms(3) by (auto simp: break_opportunity_def can_break_after_rope_def get_char_def)
    ultimately show ?thesis using m(1) stop False fit[OF n(1) order_refl] assms(3)
      by (intro exI[of _ n]) (auto simp: wrap_break_def)
  next
    case True
    let ?is = "rev [pos + n div 2..<pos + n]"
    obtain c where c: "find_break_loop alnum chars (pos + n) ?is = Some c"
      "(\<exists>i \<in> set ?is. c = i + 1 \<and> can_break_after alnum chars i = Some True) \<or>
       (c = pos + n \<and> (\<forall>i \<in> set ?is. can_break_after alnum chars i = Some False))"
      using find_break_loop_spec[of ?is chars alnum "pos + n"] True by auto
    have W: "wrap_break U alnum tab_width width chars pos = Some (if c > pos then c else pos + n)"
      using m(1) stop True c(1) by (simp add: wrap_break_def find_wrap_break_def)
    from c(2) show ?thesis
    proof (elim disjE bexE conjE)
      fix i assume i: "i \<in> set ?is" "c = i + 1" "can_break_after alnum chars i = Some True"
      define k where "k = i - pos"
      have k: "i = pos + k" "k < n" using i(1) by (auto simp: k_def)
      then have "break_opportunity alnum ?rest (k + 1)" using i(3) opp[of k] n(2) by simp
      then show ?thesis using W k i(2) fit[of "k + 1"] by (intro exI[of _ "k + 1"]) auto
    next
      assume no: "c = pos + n" "\<forall>i \<in> set ?is. can_break_after alnum chars i = Some False"
      have "\<not> break_opportunity alnum ?rest k" if "n div 2 < k" "k \<le> n" for k
      proof -
        have "pos + (k - 1) \<in> set ?is" using that by auto
        then show ?thesis using no(2) opp[of "k - 1"] that n(2) by auto
      qed
      then show ?thesis using W no(1) n(1) fit[OF n(1) order_refl] by (intro exI[of _ n]) auto
    qed
  qed
qed

subsection \<open>Segmentation\<close>

text \<open>What both wrappers share: a loop that cuts a line where its body says, and always goes forward.\<close>

locale segment_loop =
  fixes len indent :: nat and brk :: "bool \<Rightarrow> nat \<Rightarrow> nat option" and loop :: "bool \<Rightarrow> nat \<Rightarrow> wrapped_segment list option"
  assumes loop_eq: "loop first pos =
      (if pos < len then Option.bind (brk first pos) (\<lambda>b. map_option ((#)
           \<lparr> start_char_offset = pos, char_len = b - pos, indent_cols = (if first then 0 else indent) \<rparr>) (loop False b))
       else Some [])"
    and brk_range: "pos < len \<Longrightarrow> brk first pos = Some b \<Longrightarrow> pos < b \<and> b \<le> len"
begin

lemma loop_segments:
  assumes "\<And>f p. p < len \<Longrightarrow> brk f p \<noteq> None" "pos \<le> len"
  shows "\<exists>ss. loop first pos = Some ss \<and> segments_from len pos ss \<and>
    (\<forall>s \<in> set ss. pos \<le> start_char_offset s \<and> start_char_offset s < len \<and>
      indent_cols s = (if first \<and> start_char_offset s = pos then 0 else indent) \<and>
      brk (first \<and> start_char_offset s = pos) (start_char_offset s) = Some (start_char_offset s + char_len s))"
  using assms(2)
proof (induction "len - pos" arbitrary: pos first rule: less_induct)
  case less
  show ?case
  proof (cases "pos < len")
    case True
    then obtain b where b: "brk first pos = Some b" using assms(1) by blast
    have rng: "pos < b" "b \<le> len" using brk_range[OF True b] by simp_all
    obtain ss where ss: "loop False b = Some ss" "segments_from len b ss"
      "\<forall>s \<in> set ss. b \<le> start_char_offset s \<and> start_char_offset s < len \<and> indent_cols s = indent \<and>
         brk False (start_char_offset s) = Some (start_char_offset s + char_len s)"
      using less.hyps[of b False] rng True by (auto simp: diff_less_mono2)
    show ?thesis using True b rng ss unfolding loop_eq[of first pos] by (auto dest: less_le_trans)
  next
    case False
    then show ?thesis using less.prems by (simp add: loop_eq)
  qed
qed

end

interpretation vec: segment_loop "length chars" indent
  "\<lambda>first. wrap_break U alnum tab_width (if first then max_width else max_width - indent) chars"
  "wrap_loop U alnum tab_width max_width indent chars" for U alnum tab_width max_width indent chars
  by unfold_locales (subst wrap_loop.simps, rule refl, rule wrap_break_range)

interpretation rop: segment_loop "length line" indent
  "\<lambda>first. rope_break U alnum tab_width inlays (if first then max_width else max_width - indent) line"
  "rope_loop U alnum tab_width inlays max_width indent line" for U alnum tab_width inlays max_width indent line
  by unfold_locales (subst rope_loop.simps, rule refl, rule rope_break_range)

lemma segments_from_le: "segments_from len pos ss \<Longrightarrow> pos \<le> len"
proof (induction ss arbitrary: pos)
  case (Cons s ss)
  then have "pos + char_len s \<le> len" by auto
  then show ?case by simp
qed simp

lemma segments_text: "segments_from (length line) pos ss \<Longrightarrow> concat (map (segment_text line) ss) = drop pos line"
proof (induction ss arbitrary: pos)
  case (Cons s ss)
  then have "concat (map (segment_text line) ss) = drop (char_len s) (drop pos line)" by (simp add: add.commute)
  moreover have "segment_text line s = take (char_len s) (drop pos line)" using Cons.prems by (simp add: segment_text_def)
  ultimately show ?case by (simp only: list.map concat.simps append_take_drop_id)
qed simp

lemma rope_segments:
  assumes "0 < tab_width" "0 < max_width" "sorted (map pos_char inlays)"
  shows "\<exists>ss. wrap_line_ranges_rope_with_inlays U alnum line max_width tab_width inlays = Some ss \<and>
    concat (map (segment_text line) ss) = line \<and> (line = [] \<longrightarrow> ss = [empty_segment]) \<and>
    (line \<noteq> [] \<longrightarrow> segments_from (length line) 0 ss \<and>
      (\<forall>s \<in> set ss. indent_cols s < max_width \<and> (start_char_offset s = 0 \<longrightarrow> indent_cols s = 0) \<and>
        greedy U alnum tab_width inlays (max_width - indent_cols s) (start_char_offset s) (drop (start_char_offset s) line) (char_len s)))"
proof (cases "line = []")
  case True
  then show ?thesis using assms by (simp add: wrap_line_ranges_rope_with_inlays_def segment_text_def)
next
  case False
  obtain raw where raw: "leading_indent_width U line tab_width = Some raw"
    using leading_indent_some[OF assms(1), of U 0 line] by (auto simp: leading_indent_width_def)
  define indent where "indent = continuation_indent max_width raw"
  let ?w = "\<lambda>first. if first then max_width else max_width - indent"
  have ind: "indent < max_width" using continuation_indent_less[OF assms(2)] by (simp add: indent_def)
  have brk: "\<exists>n. rope_break U alnum tab_width inlays (?w f) line p = Some (p + n) \<and>
      greedy U alnum tab_width inlays (?w f) p (drop p line) n" if "p < length line" for f p
    using rope_break_greedy[OF assms(1,3) _ that] ind assms(2) by simp
  have total: "rope_break U alnum tab_width inlays (?w f) line p \<noteq> None" if "p < length line" for f p using brk[OF that, of f] by (elim exE) simp
  obtain ss where ss: "rope_loop U alnum tab_width inlays max_width indent line True 0 = Some ss" "segments_from (length line) 0 ss"
    "\<forall>s \<in> set ss. start_char_offset s < length line \<and> indent_cols s = (if start_char_offset s = 0 then 0 else indent) \<and>
       rope_break U alnum tab_width inlays (?w (start_char_offset s = 0)) line (start_char_offset s) = Some (start_char_offset s + char_len s)"
    using rop.loop_segments[of line U alnum tab_width inlays max_width indent 0 True, OF total] by auto
  have "greedy U alnum tab_width inlays (max_width - indent_cols s) (start_char_offset s) (drop (start_char_offset s) line) (char_len s)"
    if "s \<in> set ss" for s
    using ss(3) that brk[of "start_char_offset s" "start_char_offset s = 0"] by (cases "start_char_offset s = 0") auto
  then show ?thesis using False raw ss ind assms(2) segments_text[OF ss(2)]
    by (intro exI[of _ ss]) (auto simp: wrap_line_ranges_rope_with_inlays_def indent_def)
qed

section \<open>Properties\<close>

text \<open>
  C40. The rope wrapper is exact and greedy. With a positive tab width and hints in order it never panics; its segments
  partition the line, none of them empty unless the line is; only continuation segments are indented, by less than the width. Every segment takes, hints included, at most the columns
  that are left, unless it is a single character; it is at least as long as every fitting prefix that ends at a break opportunity, and if it does not end
  at one itself, then no longer prefix fits at all.
\<close>

theorem rope_wrap_greedy:
  assumes "0 < tab_width" "0 < max_width" "sorted (map pos_char inlays)"
  shows "\<exists>ss. wrap_line_ranges_rope_with_inlays U alnum line max_width tab_width inlays = Some ss \<and>
    concat (map (segment_text line) ss) = line \<and> (line = [] \<longrightarrow> ss = [empty_segment]) \<and>
    (line \<noteq> [] \<longrightarrow> segments_from (length line) 0 ss \<and>
      (\<forall>s \<in> set ss. indent_cols s < max_width \<and> (start_char_offset s = 0 \<longrightarrow> indent_cols s = 0) \<and>
        greedy U alnum tab_width inlays (max_width - indent_cols s) (start_char_offset s) (drop (start_char_offset s) line) (char_len s)))"
  using rope_segments[OF assms] by blast

theorem rope_wrap_greedy_witness:
  "\<exists>ss. wrap_line_ranges_rope_with_inlays (\<lambda>_. Some 1) (\<lambda>_. True) [97, 32, 98, 99] 3 4
      [\<lparr> pos_char = 2, hint_text = [58], hint_cols = 1, pad_left = False, pad_right = False \<rparr>] = Some ss \<and>
    segments_from 4 0 ss \<and> concat (map (segment_text [97, 32, 98, 99]) ss) = [97, 32, 98, 99]"
  using rope_wrap_greedy[of 4 3 "[\<lparr> pos_char = 2, hint_text = [58], hint_cols = 1, pad_left = False, pad_right = False \<rparr>]"
      "\<lambda>_. Some 1" "\<lambda>_. True" "[97, 32, 98, 99]"] by (auto simp: eval_nat_numeral)

text \<open>
  The wrapper of vectors partitions the line in the same way. Every segment fits or is a single character, and a segment ends at
  a break opportunity unless it has none in its second half.
\<close>

theorem vector_wrap_correct:
  assumes "0 < tab_width" "0 < max_width"
  shows "\<exists>ss. wrap_line U alnum line max_width tab_width = Some ss \<and> concat (map wsg_text ss) = line \<and>
    (\<forall>s \<in> set ss. let n = length (wsg_text s); rest = drop (start_offset s) line in
       wsg_text s = take n rest \<and>
       (columns U tab_width [] (start_offset s) 0 (wsg_text s) \<le> max_width - wsg_indent_cols s \<or> n = 1) \<and>
       (line \<noteq> [] \<longrightarrow> 0 < n \<and>
         (break_opportunity alnum rest n \<or> (\<forall>k. n div 2 < k \<and> k \<le> n \<longrightarrow> \<not> break_opportunity alnum rest k))))"
proof (cases "line = []")
  case True
  then show ?thesis using assms by (simp add: wrap_line_def wrap_line_ranges_def empty_segment_def)
next
  case False
  obtain raw where raw: "leading_indent_width U line tab_width = Some raw"
    using leading_indent_some[OF assms(1), of U 0 line] by (auto simp: leading_indent_width_def)
  define indent where "indent = continuation_indent max_width raw"
  let ?w = "\<lambda>first. if first then max_width else max_width - indent"
  have ind: "indent < max_width" using continuation_indent_less[OF assms(2)] by (simp add: indent_def)
  have brk: "\<exists>n. wrap_break U alnum tab_width (?w f) line p = Some (p + n) \<and>
      (columns U tab_width [] p 0 (take n (drop p line)) \<le> ?w f \<or> n = 1) \<and>
      (break_opportunity alnum (drop p line) n \<or> (\<forall>k. n div 2 < k \<and> k \<le> n \<longrightarrow> \<not> break_opportunity alnum (drop p line) k))"
    if "p < length line" for f p
    using wrap_break_choice[OF assms(1) _ that] ind assms(2) by simp
  have total: "wrap_break U alnum tab_width (?w f) line p \<noteq> None" if "p < length line" for f p using brk[OF that, of f] by (elim exE) simp
  obtain ss where ss: "wrap_loop U alnum tab_width max_width indent line True 0 = Some ss" "segments_from (length line) 0 ss"
    "\<forall>s \<in> set ss. start_char_offset s < length line \<and> indent_cols s = (if start_char_offset s = 0 then 0 else indent) \<and>
       wrap_break U alnum tab_width (?w (start_char_offset s = 0)) line (start_char_offset s) = Some (start_char_offset s + char_len s)"
    using vec.loop_segments[of line U alnum tab_width max_width indent 0 True, OF total] by auto
  have seg: "0 < char_len s \<and> length (segment_text line s) = char_len s \<and>
      (columns U tab_width [] (start_char_offset s) 0 (segment_text line s) \<le> max_width - indent_cols s \<or> char_len s = 1) \<and>
      (break_opportunity alnum (drop (start_char_offset s) line) (char_len s) \<or>
        (\<forall>k. char_len s div 2 < k \<and> k \<le> char_len s \<longrightarrow> \<not> break_opportunity alnum (drop (start_char_offset s) line) k))"
    if s: "s \<in> set ss" for s
  proof -
    note cut = bspec[OF ss(3) s]
    have "0 < char_len s \<and> start_char_offset s + char_len s \<le> length line"
      using wrap_break_range[of "start_char_offset s" line] cut by fastforce
    then show ?thesis using brk[of "start_char_offset s" "start_char_offset s = 0"] cut
      by (cases "start_char_offset s = 0") (auto simp: segment_text_def)
  qed
  let ?out = "\<lambda>s. \<lparr> wsg_text = segment_text line s, start_offset = start_char_offset s, wsg_indent_cols = indent_cols s \<rparr>"
  have out: "wrap_line U alnum line max_width tab_width = Some (map ?out ss)"
    using False raw ss(1) assms(2) by (simp add: wrap_line_def wrap_line_ranges_def indent_def segment_text_def)
  have "concat (map wsg_text (map ?out ss)) = line" using segments_text[OF ss(2)] by (simp add: comp_def)
  moreover have "let n = length (wsg_text (?out s)); rest = drop (start_offset (?out s)) line in
       wsg_text (?out s) = take n rest \<and>
       (columns U tab_width [] (start_offset (?out s)) 0 (wsg_text (?out s)) \<le> max_width - wsg_indent_cols (?out s) \<or> n = 1) \<and>
       (line \<noteq> [] \<longrightarrow> 0 < n \<and>
         (break_opportunity alnum rest n \<or> (\<forall>k. n div 2 < k \<and> k \<le> n \<longrightarrow> \<not> break_opportunity alnum rest k)))"
    if "s \<in> set ss" for s
  proof -
    have "segment_text line s = take (char_len s) (drop (start_char_offset s) line)" by (simp add: segment_text_def)
    then show ?thesis using seg[OF that] by (simp only: Let_def wrap_segment.select_convs) blast
  qed
  ultimately show ?thesis using out by (intro exI[of _ "map ?out ss"]) (simp only: set_map ball_simps, blast)
qed

end
