(* ===== verification/Viewport.thy ===== *)
theory Viewport
  imports Buffers Line_Wrap
begin

text \<open>
  Scrolling a view so that its cursor is visible, \<open>crates/editor/src/render/buffer/viewport/ops.rs\<close>. A view starts at a line and at
  a wrapped segment of it; a visual row is one segment. The functions of the source all take the buffer with its document
  and the widths of text and tabs; the model passes them as one record. \<open>None\<close> is a panic, the height of the area is a number of rows,
  and the log events are left out.
\<close>

section \<open>Rows of a document\<close>













section \<open>Keeping the cursor visible\<close>





section \<open>Specification predicates\<close>










section \<open>Lemmas\<close>

subsection \<open>Walking over visual rows\<close>



subsection \<open>The functions of the source\<close>













section \<open>Properties\<close>



end
