(* ===== verification/Spec2Isabelle.thy ===== *)
theory Spec2Isabelle
  imports Editor_Sound Lsp_Sync Workspace Layout_Manager Runtime Input_Handler Supervisor Snippet_Session Viewport
begin

text \<open>
  A verification library for the text editor Xeno. It models the editor's core, from the change algebra up to the
  commands that edit, undo and redo, the state that keeps language servers in step, the layout of views, the runtime
  that drives it all, the path of a key press from the keymap to an action, snippets, and the mailboxes and supervisors of
  background actors. Paths below are relative to the repository.

  \<^bold>\<open>The program and the theories.\<close>

  A document is a rope of characters. Everything that changes it is a changeset of retain, delete and insert
  operations (\<open>crates/primitives/src/transaction\<close>), wrapped with a selection into a transaction. Documents
  (\<open>crates/editor/src/core\<close>) apply transactions under a policy, keep an undo store and a version; buffers
  (\<open>crates/editor/src/buffer\<close>) are views with their own selections, and the view manager
  (\<open>crates/editor/src/view_manager\<close>) owns both. The editor groups document-level undo steps over several documents
  (\<open>crates/editor/src/types/undo_manager\<close>). Edits are reported to the LSP sync manager
  (\<open>crates/editor/src/lsp\<close>), which sends coalesced incremental changes or full texts. The runtime
  (\<open>crates/editor/src/runtime\<close>) queues events and deferred work and drains them in bounded rounds. Keys reach it
  through the keymap crates (\<open>crates/keymap\<close>) and the input handler (\<open>crates/input\<close>). Snippets
  (\<open>crates/editor/src/snippet\<close>) are parsed and rendered into a transaction and leave a session whose ranges follow later
  edits. Background services are supervised actors that take commands from mailboxes (\<open>crates/worker\<close>).

  \<^item> \<open>Prelude\<close>: scalar types, checked arithmetic, the interface of the rope library, lines, facts on lists.
  \<^item> \<open>Ranges\<close>, \<open>Selections\<close>: \<open>crates/primitives/src/range\<close> and \<open>selection\<close>. A range covers at least one cell.
    The lemmas give the set of cells of every operation, and that normalising sorts and merges without changing
    it. The locale \<open>joining\<close> proves the merge loop once for its two conditions, overlapping and touching.
  \<^item> \<open>ChangeSets\<close>, \<open>Transactions\<close>: the abstract specification of a changeset is a function on texts, and
    applying, composing, inverting and mapping positions are proved to implement it on every changeset the builder
    produces; transactions add selections. The locale \<open>reversible_edits\<close> is the interface the undo store relies on.
  \<^item> \<open>Undo_Store\<close>, \<open>Documents\<close>: \<open>core/undo_store/mod.rs\<close> and \<open>core/document/mod.rs\<close>. The locale
    \<open>snapshot_history\<close> is the specification of undo and redo as moves in a list of texts. Reachable documents
    keep their assertions, and an unset modified flag means that the text is the saved one.
  \<^item> \<open>Movement\<close>: motions, find, words, paragraphs and text objects of \<open>crates/primitives/src/movement\<close> and
    \<open>crates/input/src/movement\<close>.
  \<^item> \<open>Buffers\<close>, \<open>View_Manager\<close>, \<open>Editor_History\<close>, \<open>Editor_Sound\<close>: views, editing entry points, undo groups.
    The locales \<open>history_direction\<close> (one proof for undo and redo) and \<open>host_contract\<close> (what the undo manager
    needs of the trait \<open>UndoHost\<close>) are interpreted on the editor. Every reachable editor is sound, failures change
    nothing, and undo and redo cancel out over all documents and views.
  \<^item> \<open>Lsp_Positions\<close>, \<open>Lsp_Coalesce\<close>, \<open>Lsp_Sync\<close>: positions in the three encodings with 32-bit columns, the
    changes computed from a transaction, their coalescing, and the sync manager with the transport and a server as a
    step relation. The locales \<open>position_codec\<close> and \<open>prefix_codec\<close> are the laws of a position encoding, for the
    editor and for a server.
  \<^item> \<open>Workspace\<close>: jump list, macros, script store (\<open>crates/editor/src/types/workspace.rs\<close>).
  \<^item> \<open>Layout\<close>, \<open>Layout_Manager\<close>: rectangles with 16-bit coordinates, the tree of splits and its partition of the
    screen (\<open>crates/editor/src/buffer/layout\<close>), layers with generational ids, separator drags, splitting and
    closing views (\<open>crates/editor/src/layout\<close>).
  \<^item> \<open>Runtime\<close>: the work queue, its drain, the maintenance pump and the event loop. Draining is bounded, every item
    is run once, every reply sender is answered, and every event is handled in the end.
  \<^item> \<open>Keymap_Parser\<close>, \<open>Keymap_Matcher\<close>, \<open>Input_Handler\<close>: key expressions and their grammar, the trie of bindings
    with its reference enumeration of matches, and the modal handler on top of it.
  \<^item> \<open>Mailbox\<close>, \<open>Supervisor\<close>: \<open>crates/worker/src/mailbox.rs\<close> and \<open>supervisor/mod.rs\<close> as step relations, one step from
    one await point to the next, for any number of senders and a receiver that can be cancelled. The locale
    \<open>fifo_delivery\<close> says that what was accepted is what was received and what is queued; the supervisor's lemmas rest on
    its interpretation. Nothing is lost or reordered across restarts, no wake-up of an open mailbox is lost, and
    restarts are bounded.
  \<^item> \<open>Snippet_Syntax\<close>, \<open>Snippet_Render\<close>, \<open>Snippet_Session\<close>: the template parser is total and inverts a printer, rendering
    agrees with a reference semantics of fields and their ranges, a session's ranges stay sorted and inside the document
    through all edits, and typing over mirrored ranges fills each of them.
  \<^item> \<open>Line_Wrap\<close>, \<open>Viewport\<close>: soft wrapping (\<open>crates/editor/src/render/wrap\<close>) and scrolling to the cursor
    (\<open>render/buffer/viewport\<close>). The locale \<open>segment_loop\<close> proves once, for both wrappers, that their segments partition a line;
    the locale \<open>visual_rows\<close> numbers the rows of a document, and scrolling is proved by counting rows. Segments fit and
    are chosen greedily, and the cursor ends up inside the viewport and its margins.

  \<^bold>\<open>Conventions.\<close>

  A function that can panic returns an option whose \<open>None\<close> is the panic; errors that the code returns are values of
  a sum or of the source's own result type. A lemma that a call returns is stated as such. Debug assertions are panics. Machine
  integers keep their width where the code depends on it (16-bit coordinates and generations, 32-bit columns and
  counts, 64-bit versions and revisions); indices into texts held in memory are natural numbers. Clocks are arguments.
  Logging, metrics and tracing are left out.

  \<^bold>\<open>External code.\<close>

  The rope library is the record \<open>rope_ops\<close> with the contract \<open>rope_ok\<close>; string conversions derived by an external
  crate are the record \<open>strum_names\<close> with \<open>strum_ok\<close>; the parts of the editor that the runtime calls are the record
  \<open>ports\<close> with \<open>ports_ok\<close>; the notifications of the asynchronous runtime are the record \<open>notify_ops\<close> with
  \<open>notify_ok\<close>; regular expressions, snippet variables and the tables of character widths are function parameters without a contract. Each contract is satisfied by a concrete instance that the witnesses use.

  \<^bold>\<open>Bounds and fuel.\<close>

  Only the snippet parser runs on fuel: its mutually recursive functions take one unit for each step of the node loop, every
  step consumes a character, and the number of characters plus one that is passed is proved to be enough for every
  input. The other bounds that appear are the program's: at most 100 undo steps, 64
  script entries, eight sends per tick, 32 work items in each of at most three rounds of a maintenance cycle, and the
  event budget of a drain. Loops that are not structurally recursive have a measure.

  \<^bold>\<open>Not modelled.\<close>

  Drawing, frontends, the terminal and the filesystem services are input and output. The vendored shell under
  \<open>crates/nu\<close>, tree-sitter and its bindings, the SIMD kernels of the fuzzy matcher and the generated registries are
  third-party or generated code or data. Language server sessions and transports run over asynchronous byte streams;
  the sync manager is modelled with an abstract transport instead. Grapheme segmentation and regular expressions are
  external. Of the actor runtime, the join control and the shutdown timeouts are wrappers of the asynchronous runtime's own
  tasks and timers. Of snippets, the key dispatch and the choice window are glue to the overlay system, and variables read the
  clock and the environment. Completion menus, the compilation of keymaps from the generated registry and the
  document state manager of the LSP client are not modelled either.
\<close>

end
